(* ===== verification/Np_Prelude.thy ===== *)
theory Np_Prelude
  imports Main "HOL-Library.Word" "HOL-Library.AList"
begin

text \<open>
  Shared vocabulary of the development: the machine integers of the code, the standard
  library's \<open>std::unordered_map\<close> as the code uses it, and the generic lemmas on lists,
  association lists and words that several components need.

  \<^item> \<open>u8\<close>, \<open>u16\<close>, \<open>u32\<close>, \<open>u64\<close>: fixed-width unsigned integers; \<open>size_t\<close> is \<open>u64\<close>.
  \<^item> \<open>um_find\<close>, \<open>um_insert\<close>, \<open>um_erase\<close>: lookup, insertion and removal of an
    \<open>unordered_map\<close>, kept as an association list. The list order stands for the
    iteration order, which C++ leaves unspecified; theorems are stated for every list.
  \<^item> locale \<open>hashed_key\<close>: what C++ asks of a key type (the equality is an equivalence and
    agrees with the hash), with the fact that a search of one bucket is a search of the
    whole container. It is interpreted on the two key types of \<open>network_node.h\<close>.
\<close>

section \<open>Machine integers\<close>

type_synonym u8 = "8 word"
type_synonym u16 = "16 word"
type_synonym u32 = "32 word"
type_synonym u64 = "64 word"

type_synonym bytes = "u8 list"

section \<open>Collections of facts\<close>

named_theorems um_simps \<open>equations of the container operations\<close>
named_theorems np_frame \<open>fields an operation leaves alone\<close>
named_theorems np_inv \<open>invariant preservation, one lemma per operation\<close>

section \<open>\<open>std::unordered_map\<close>\<close>

type_synonym ('k, 'v) umap = "('k \<times> 'v) list"

definition um_find :: "'k \<Rightarrow> ('k, 'v) umap \<Rightarrow> 'v option" where
  "um_find k m = map_of m k"

text \<open>\<open>insert\<close> keeps the old value of a key that is present and says whether it inserted.\<close>

definition um_insert :: "'k \<Rightarrow> 'v \<Rightarrow> ('k, 'v) umap \<Rightarrow> ('k, 'v) umap \<times> bool" where
  "um_insert k v m = (case um_find k m of None \<Rightarrow> ((k, v) # m, True) | Some _ \<Rightarrow> (m, False))"

text \<open>\<open>erase(key)\<close>; its result is the number of removed entries.\<close>

definition um_erase :: "'k \<Rightarrow> ('k, 'v) umap \<Rightarrow> ('k, 'v) umap \<times> nat" where
  "um_erase k m = (AList.delete k m, if um_find k m = None then 0 else 1)"

definition um_keys :: "('k, 'v) umap \<Rightarrow> 'k set" where
  "um_keys m = fst ` set m"

text \<open>The container never holds a key twice.\<close>

definition um_ok :: "('k, 'v) umap \<Rightarrow> bool" where
  "um_ok m \<longleftrightarrow> distinct (map fst m)"

lemma um_find_Nil [um_simps, simp]: "um_find k [] = None"
  by (simp add: um_find_def)

lemma um_find_Cons [um_simps, simp]:
  "um_find k ((k', v) # m) = (if k = k' then Some v else um_find k m)"
  by (simp add: um_find_def)

lemma um_find_erase [um_simps, simp]:
  "um_find k (fst (um_erase k' m)) = (if k = k' then None else um_find k m)"
  by (simp add: um_find_def um_erase_def delete_conv')

lemma um_find_delete [um_simps, simp]:
  "um_find k (AList.delete k' m) = (if k = k' then None else um_find k m)"
  by (simp add: um_find_def delete_conv')

lemma um_find_insert [um_simps, simp]:
  "um_find k (fst (um_insert k' v m))
     = (if k = k' \<and> um_find k m = None then Some v else um_find k m)"
  by (auto simp: um_insert_def split: option.split)

lemma um_insert_new [um_simps]:
  "um_find k m = None \<Longrightarrow> um_insert k v m = ((k, v) # m, True)"
  by (simp add: um_insert_def)

lemma um_insert_old [um_simps]:
  "um_find k m = Some w \<Longrightarrow> um_insert k v m = (m, False)"
  by (simp add: um_insert_def)

lemma um_insert_snd [um_simps, simp]: "snd (um_insert k v m) \<longleftrightarrow> um_find k m = None"
  by (auto simp: um_insert_def split: option.split)

lemma um_find_None_keys: "um_find k m = None \<longleftrightarrow> k \<notin> um_keys m"
  by (simp add: um_find_def um_keys_def map_of_eq_None_iff)

lemma um_find_in_set: "um_find k m = Some v \<Longrightarrow> (k, v) \<in> set m"
  by (simp add: um_find_def map_of_SomeD)

lemma um_in_set_find: "um_ok m \<Longrightarrow> (k, v) \<in> set m \<Longrightarrow> um_find k m = Some v"
  by (simp add: um_find_def um_ok_def)

lemma um_ok_Nil [simp]: "um_ok []"
  by (simp add: um_ok_def)

lemma um_ok_insert [simp]: "um_ok m \<Longrightarrow> um_ok (fst (um_insert k v m))"
  by (auto simp: um_ok_def um_insert_def um_find_def map_of_eq_None_iff split: option.split)

lemma um_ok_Cons [simp]: "um_ok ((k, v) # m) \<longleftrightarrow> um_ok m \<and> um_find k m = None"
  by (auto simp: um_ok_def um_find_def map_of_eq_None_iff)

lemma um_ok_delete [simp]: "um_ok m \<Longrightarrow> um_ok (AList.delete k m)"
  by (simp add: um_ok_def distinct_delete)

lemma um_delete_absent [simp]: "um_find k m = None \<Longrightarrow> AList.delete k m = m"
  by (induction m) (auto split: if_splits)

lemma um_ok_erase [simp]: "um_ok m \<Longrightarrow> um_ok (fst (um_erase k m))"
  by (simp add: um_erase_def)

section \<open>Keys of a hash container\<close>

text \<open>
  C++ lets an \<open>unordered_map\<close> look only at the bucket of the searched key. That finds what a
  search of the whole container finds as soon as equal keys have equal hashes.
\<close>

definition bucket_of :: "('k \<Rightarrow> u64) \<Rightarrow> u64 \<Rightarrow> u64 \<Rightarrow> ('k \<times> 'v) list \<Rightarrow> ('k \<times> 'v) list" where
  "bucket_of hash n h m = filter (\<lambda>(k, v). hash k mod n = h mod n) m"

locale hashed_key =
  fixes key_eq :: "'k \<Rightarrow> 'k \<Rightarrow> bool"
    and key_hash :: "'k \<Rightarrow> u64"
  assumes eq_refl: "key_eq k k"
    and eq_sym: "key_eq a b \<Longrightarrow> key_eq b a"
    and eq_trans: "key_eq a b \<Longrightarrow> key_eq b c \<Longrightarrow> key_eq a c"
    and hash_compat: "key_eq a b \<Longrightarrow> key_hash a = key_hash b"
begin

lemma bucket_search:
  "find (\<lambda>(k', v). key_eq k k') (bucket_of key_hash n (key_hash k) m)
     = find (\<lambda>(k', v). key_eq k k') m"
  by (induction m) (auto simp: bucket_of_def dest: hash_compat)

lemma eq_class: "key_eq a b \<Longrightarrow> key_eq a c \<longleftrightarrow> key_eq b c"
  using eq_sym eq_trans by blast

end

section \<open>Lists\<close>

lemma take_drop_append_split: "i \<le> j \<Longrightarrow> take j xs = take i xs @ take (j - i) (drop i xs)"
  by (simp add: take_add [symmetric])

lemma nth_append_drop: "i < length xs \<Longrightarrow> drop i xs = xs ! i # drop (Suc i) xs"
  by (simp add: Cons_nth_drop_Suc)

end
