(* ===== verification/Np_Buffer.thy ===== *)
theory Np_Buffer
  imports Np_Prelude
begin

text \<open>
  \<open>buffer.h\<close>: the class \<open>Cbuffer\<close>, a block of memory with a used and a full length.

  \<^item> \<open>b_data\<close> is \<open>None\<close> for a null pointer, else the bytes of the block. What a fresh block
    holds is up to the allocator: the operations that obtain one take its contents as the
    argument \<open>fresh\<close>, and no theorem assumes anything of it.
  \<^item> \<open>_malloc_throw\<close> may throw; whether it does is the argument \<open>mem\<close>, and an operation
    that can throw returns False when it did, with the state it leaves behind.
  \<^item> The number of blocks held from the \<open>CmemoryTrace\<close> is passed along, so that leaks show.
  \<^item> Copying from or to a null pointer is an outcome of its own.
\<close>

section \<open>State\<close>

record cbuffer =
  b_data :: "bytes option"
  b_length :: nat
  b_maxLength :: nat

text \<open>How an operation can end: normally, by throwing \<open>bad_alloc\<close>, or undefined.\<close>

datatype buf_end = Buf_ok | Buf_throw | Buf_undefined

type_synonym buf_result = "buf_end \<times> cbuffer \<times> int"

definition buf_empty :: cbuffer where
  "buf_empty = \<lparr>b_data = None, b_length = 0, b_maxLength = 0\<rparr>"

text \<open>\<open>memcpy\<close> into the front of the block; a null pointer or too few bytes is undefined.\<close>

definition copy_in :: "bytes \<Rightarrow> nat \<Rightarrow> bytes option \<Rightarrow> bytes option" where
  "copy_in src n dst =
     (case dst of
        None \<Rightarrow> None
      | Some d \<Rightarrow> if n \<le> length src \<and> n \<le> length d then Some (take n src @ drop n d) else None)"

definition malloc_block :: "(nat \<Rightarrow> u8) \<Rightarrow> nat \<Rightarrow> bytes" where
  "malloc_block fresh n = map fresh [0..<n]"

definition free_block :: "cbuffer \<Rightarrow> int \<Rightarrow> cbuffer \<times> int" where
  "free_block b live = (b\<lparr>b_data := None\<rparr>, if b_data b = None then live else live - 1)"

section \<open>Constructors and the destructor\<close>

definition buf_new_length :: "bool \<Rightarrow> (nat \<Rightarrow> u8) \<Rightarrow> nat \<Rightarrow> int \<Rightarrow> buf_result" where
  "buf_new_length mem fresh len live =
     (if 0 = len then (Buf_ok, buf_empty, live)
      else if \<not> mem then (Buf_throw, buf_empty, live)
      else (Buf_ok, \<lparr>b_data = Some (malloc_block fresh len), b_length = len, b_maxLength = len\<rparr>, live + 1))"

definition buf_new_data :: "bool \<Rightarrow> (nat \<Rightarrow> u8) \<Rightarrow> bytes \<Rightarrow> nat \<Rightarrow> int \<Rightarrow> buf_result" where
  "buf_new_data mem fresh src len live =
     (if 0 = len then (Buf_ok, buf_empty, live)
      else if \<not> mem then (Buf_throw, buf_empty, live)
      else case copy_in src len (Some (malloc_block fresh len)) of
             None \<Rightarrow> (Buf_undefined, buf_empty, live + 1)
           | Some d \<Rightarrow> (Buf_ok, \<lparr>b_data = Some d, b_length = len, b_maxLength = len\<rparr>, live + 1))"

text \<open>The copy constructor copies the used bytes only.\<close>

definition buf_copy :: "bool \<Rightarrow> (nat \<Rightarrow> u8) \<Rightarrow> cbuffer \<Rightarrow> int \<Rightarrow> buf_result" where
  "buf_copy mem fresh another live =
     (if 0 = b_length another then (Buf_ok, buf_empty, live)
      else case b_data another of
             None \<Rightarrow> (if mem then (Buf_undefined, buf_empty, live + 1) else (Buf_throw, buf_empty, live))
           | Some src \<Rightarrow> buf_new_data mem fresh src (b_length another) live)"

text \<open>The move constructor: the new buffer and what is left of the other one.\<close>

definition buf_move :: "cbuffer \<Rightarrow> cbuffer \<times> cbuffer" where
  "buf_move another = (another, another\<lparr>b_data := None, b_length := 0, b_maxLength := 0\<rparr>)"

definition buf_destroy :: "cbuffer \<Rightarrow> int \<Rightarrow> int" where
  "buf_destroy b live = snd (free_block b live)"

text \<open>\<open>transfer\<close> hands the block over to a \<open>uv_buf_t\<close>.\<close>

definition buf_transfer :: "cbuffer \<Rightarrow> (bytes option \<times> nat) \<times> cbuffer" where
  "buf_transfer b = ((b_data b, b_length b), b\<lparr>b_data := None, b_length := 0, b_maxLength := 0\<rparr>)"

section \<open>Assignment, \<open>set\<close> and \<open>resize\<close>\<close>

text \<open>
  \<open>set\<close> reuses the block when it is big enough. Otherwise it frees it, which nulls
  \<open>m_data\<close>, and only then asks for a new one: when that throws, the two lengths are still
  those of the freed block.
\<close>

definition buf_set :: "bool \<Rightarrow> (nat \<Rightarrow> u8) \<Rightarrow> bytes \<Rightarrow> nat \<Rightarrow> cbuffer \<Rightarrow> int \<Rightarrow> buf_result" where
  "buf_set mem fresh src len b live =
     (if len \<le> b_maxLength b
      then (if len > 0
            then (case copy_in src len (b_data b) of
                    None \<Rightarrow> (Buf_undefined, b, live)
                  | Some d \<Rightarrow> (Buf_ok, b\<lparr>b_data := Some d, b_length := len\<rparr>, live))
            else (Buf_ok, b\<lparr>b_length := len\<rparr>, live))
      else let (b, live) = free_block b live
           in if \<not> mem then (Buf_throw, b, live)
              else case copy_in src len (Some (malloc_block fresh len)) of
                     None \<Rightarrow> (Buf_undefined, b, live + 1)
                   | Some d \<Rightarrow> (Buf_ok, b\<lparr>b_data := Some d, b_length := len, b_maxLength := len\<rparr>, live + 1))"

text \<open>\<open>operator=\<close> for another buffer is \<open>set\<close> with its bytes.\<close>

definition buf_assign :: "bool \<Rightarrow> (nat \<Rightarrow> u8) \<Rightarrow> cbuffer \<Rightarrow> cbuffer \<Rightarrow> int \<Rightarrow> buf_result" where
  "buf_assign mem fresh another b live =
     buf_set mem fresh (case b_data another of None \<Rightarrow> [] | Some d \<Rightarrow> d) (b_length another) b live"

definition buf_move_assign :: "cbuffer \<Rightarrow> cbuffer \<Rightarrow> int \<Rightarrow> cbuffer \<times> cbuffer \<times> int" where
  "buf_move_assign another b live =
     (let (b, live) = free_block b live
      in (another, another\<lparr>b_data := None, b_length := 0, b_maxLength := 0\<rparr>, live))"

definition buf_resize :: "bool \<Rightarrow> (nat \<Rightarrow> u8) \<Rightarrow> nat \<Rightarrow> nat \<Rightarrow> cbuffer \<Rightarrow> int \<Rightarrow> buf_result" where
  "buf_resize mem fresh preferLength validLength b live =
     (if preferLength \<le> b_maxLength b then (Buf_ok, b\<lparr>b_length := preferLength\<rparr>, live)
      else let copy = (if validLength > b_length b then b_length b else validLength)
           in if copy > 0
              then (if \<not> mem then (Buf_throw, b, live)
                    else case b_data b of
                           None \<Rightarrow> (Buf_undefined, b, live + 1)
                         | Some src \<Rightarrow>
                             (case copy_in src copy (Some (malloc_block fresh preferLength)) of
                                None \<Rightarrow> (Buf_undefined, b, live + 1)
                              | Some d \<Rightarrow>
                                  let (b, live) = free_block b (live + 1)
                                  in (Buf_ok, b\<lparr>b_data := Some d, b_length := preferLength,
                                                b_maxLength := preferLength\<rparr>, live)))
              else let (b, live) = free_block b live
                   in if \<not> mem then (Buf_throw, b, live)
                      else (Buf_ok, b\<lparr>b_data := Some (malloc_block fresh preferLength),
                                      b_length := preferLength, b_maxLength := preferLength\<rparr>, live + 1))"

section \<open>Well-formed buffers\<close>

definition buf_ok :: "cbuffer \<Rightarrow> bool" where
  "buf_ok b \<longleftrightarrow> b_length b \<le> b_maxLength b
     \<and> (case b_data b of None \<Rightarrow> b_maxLength b = 0 | Some d \<Rightarrow> length d = b_maxLength b \<and> b_maxLength b > 0)"

text \<open>The used bytes.\<close>

definition buf_bytes :: "cbuffer \<Rightarrow> bytes" where
  "buf_bytes b = (case b_data b of None \<Rightarrow> [] | Some d \<Rightarrow> take (b_length b) d)"

text \<open>The number of blocks a buffer holds.\<close>

definition buf_held :: "cbuffer \<Rightarrow> int" where
  "buf_held b = (if b_data b = None then 0 else 1)"

lemmas buf_defs = buf_ok_def buf_bytes_def buf_held_def buf_empty_def copy_in_def malloc_block_def free_block_def

lemma buf_ok_empty [simp]: "buf_ok buf_empty" "buf_bytes buf_empty = []" "buf_held buf_empty = 0"
  by (simp_all add: buf_defs)

lemma length_buf_bytes: "buf_ok b \<Longrightarrow> length (buf_bytes b) = b_length b"
  by (auto simp: buf_defs split: option.splits)

lemma buf_held_bounds: "0 \<le> buf_held b" "buf_held b \<le> 1"
  by (simp_all add: buf_held_def)

lemma buf_set_normal:
  assumes "buf_ok b" and "len \<le> length src" and "mem \<or> len \<le> b_maxLength b"
  shows "\<exists>b'. buf_set mem fresh src len b live = (Buf_ok, b', live - buf_held b + buf_held b')
    \<and> buf_ok b' \<and> buf_bytes b' = take len src \<and> b_maxLength b' = max len (b_maxLength b)"
  using assms by (cases "b_data b") (auto simp: buf_set_def buf_defs max_def)

lemma buf_resize_normal:
  assumes "buf_ok b" and "mem \<or> n \<le> b_maxLength b"
  shows "\<exists>b'. buf_resize mem fresh n v b live = (Buf_ok, b', live - buf_held b + buf_held b')
    \<and> buf_ok b' \<and> b_length b' = n \<and> b_maxLength b' = max n (b_maxLength b)
    \<and> take (min v (min n (b_length b))) (buf_bytes b') = take (min v (min n (b_length b))) (buf_bytes b)"
  using assms
  by (cases "b_data b") (auto simp: buf_resize_def buf_defs max_def min_def Let_def split: if_splits)

section \<open>Properties\<close>

text \<open>
  \<open>set\<close> stores exactly the given bytes, whether the block is reused or replaced, and
  \<open>operator=\<close> and the copy constructor make a buffer with the same used bytes; the result is
  well-formed, the block never shrinks, and the number of blocks held is accounted for.
\<close>

theorem buf_set_stores:
  assumes "buf_ok b" and "buf_ok c" and "len \<le> length src"
  shows "\<exists>b' live'. buf_set True fresh src len b live = (Buf_ok, b', live') \<and> buf_ok b' \<and> buf_bytes b' = take len src
      \<and> b_maxLength b \<le> b_maxLength b' \<and> live' - buf_held b' = live - buf_held b
    \<and> (\<exists>b' live'. buf_assign True fresh c b live = (Buf_ok, b', live') \<and> buf_ok b' \<and> buf_bytes b' = buf_bytes c
      \<and> live' - buf_held b' = live - buf_held b)
    \<and> (\<exists>b' live'. buf_copy True fresh c live = (Buf_ok, b', live') \<and> buf_ok b' \<and> buf_bytes b' = buf_bytes c
      \<and> live' - buf_held b' = live)"
proof -
  obtain b1 where b1: "buf_set True fresh src len b live = (Buf_ok, b1, live - buf_held b + buf_held b1)" "buf_ok b1"
    "buf_bytes b1 = take len src" "b_maxLength b1 = max len (b_maxLength b)"
    using buf_set_normal [OF assms(1,3), of True fresh live] by auto
  let ?src = "case b_data c of None \<Rightarrow> [] | Some d \<Rightarrow> d"
  have c: "b_length c \<le> length ?src" "take (b_length c) ?src = buf_bytes c"
    using assms(2) by (auto simp: buf_defs split: option.splits)
  have assign: "\<exists>b' live'. buf_assign True fresh c b live = (Buf_ok, b', live') \<and> buf_ok b' \<and> buf_bytes b' = buf_bytes c
      \<and> live' - buf_held b' = live - buf_held b"
    using buf_set_normal [OF assms(1) c(1), of True fresh live] c(2) by (auto simp: buf_assign_def)
  have copy: "\<exists>b' live'. buf_copy True fresh c live = (Buf_ok, b', live') \<and> buf_ok b' \<and> buf_bytes b' = buf_bytes c
      \<and> live' - buf_held b' = live"
    using assms(2) by (cases "b_data c") (auto simp: buf_copy_def buf_new_data_def buf_defs)
  show ?thesis using b1 assign copy by (intro exI [of _ b1]) auto
qed

theorem buf_set_stores_witness:
  "\<exists>b' live'. buf_set True (\<lambda>_. 7) [1, 2, 3] 2 buf_empty 5 = (Buf_ok, b', live') \<and> buf_bytes b' = [1, 2]"
  using buf_set_stores [of buf_empty buf_empty 2 "[1, 2, 3]" "\<lambda>_. 7" 5] by auto

text \<open>
  \<open>resize\<close> gives the length asked for and keeps the valid bytes that still fit, and when it
  throws while there are bytes to keep, the buffer is as it was.
\<close>

theorem buf_resize_keeps:
  assumes ok: "buf_ok b" and res: "buf_resize mem fresh n v b live = (r, b', live')"
  shows "r \<noteq> Buf_undefined
    \<and> (r = Buf_ok \<longrightarrow> buf_ok b' \<and> b_length b' = n
         \<and> take (min v (min n (b_length b))) (buf_bytes b') = take (min v (min n (b_length b))) (buf_bytes b))
    \<and> (r = Buf_throw \<longrightarrow> min v (b_length b) > 0 \<longrightarrow> b' = b \<and> live' = live)
    \<and> live' - buf_held b' = live - buf_held b"
proof (cases "mem \<or> n \<le> b_maxLength b")
  case True
  from buf_resize_normal [OF ok this, of fresh v live] res show ?thesis by auto
next
  case False
  then show ?thesis using ok res
    by (cases "b_data b") (auto simp: buf_resize_def buf_defs Let_def split: if_splits)
qed

theorem buf_resize_keeps_witness:
  "\<exists>b' live'. buf_resize True (\<lambda>_. 9) 4 2 \<lparr>b_data = Some [1, 2, 3], b_length = 2, b_maxLength = 3\<rparr> 1 = (Buf_ok, b', live')
    \<and> take 2 (buf_bytes b') = [1, 2]"
proof -
  let ?b = "\<lparr>b_data = Some [1, 2, 3], b_length = 2, b_maxLength = 3\<rparr> :: cbuffer"
  obtain r b' live' where r: "buf_resize True (\<lambda>_. 9) 4 2 ?b 1 = (r, b', live')" by (metis prod_cases3)
  then have "r = Buf_ok" by (auto simp: buf_resize_def copy_in_def malloc_block_def free_block_def)
  with buf_resize_keeps [OF _ r] r show ?thesis by (auto simp: buf_defs)
qed

text \<open>
  \<open>set\<close> frees the old block before it asks for the new one. When that allocation throws,
  the buffer keeps the old lengths over a null pointer, and the next \<open>set\<close> that would have
  fitted into the old block copies to that null pointer.
\<close>

theorem buf_set_throw_breaks:
  assumes "buf_ok b" and "b_data b \<noteq> None" and "b_maxLength b < len"
    and "buf_set False fresh src len b live = (r, b', live')"
  shows "r = Buf_throw \<and> b_data b' = None \<and> b_maxLength b' = b_maxLength b \<and> \<not> buf_ok b'
    \<and> fst (buf_set True fresh [x] 1 b' live') = Buf_undefined"
  using assms by (auto simp: buf_set_def buf_defs split: option.splits)

theorem buf_set_throw_breaks_witness:
  "fst (buf_set True (\<lambda>_. 0) [5] 1 (fst (snd (buf_set False (\<lambda>_. 0) [1, 2, 3] 3
     \<lparr>b_data = Some [1, 2], b_length = 2, b_maxLength = 2\<rparr> 1))) 0) = Buf_undefined"
proof -
  let ?b = "\<lparr>b_data = Some [1, 2], b_length = 2, b_maxLength = 2\<rparr> :: cbuffer"
  have eq: "buf_set False (\<lambda>_. 0) [1, 2, 3] 3 ?b 1 = (Buf_throw, ?b\<lparr>b_data := None\<rparr>, 0)"
    by (simp add: buf_set_def free_block_def)
  from buf_set_throw_breaks [OF _ _ _ eq] show ?thesis by (simp add: eq buf_ok_def)
qed

end
