(* ===== verification/Http_Context.thy ===== *)
theory Http_Context
  imports Np_Buffer
begin

text \<open>
  \<open>http_context.h\<close>: the class \<open>ChttpContext\<close>, which receives bytes into a growing buffer
  and splits off one HTTP message at a time.

  \<^item> Indices into the buffer are natural numbers; \<open>m_contentLength\<close> and
    \<open>m_nowChunkSize\<close> come from the peer and are 64-bit words, with their wrap-around.
  \<^item> The length of a line is \<open>None\<close> for the code's \<open>(size_t)-1\<close>.
  \<^item> Reading or writing outside the block, reading a line that is not null-terminated and taking
    the last line of an empty vector are undefined; a function that meets one of them returns
    its own value for that (\<open>Pass_undefined\<close> or \<open>None\<close>).
  \<^item> \<open>isspace\<close>, \<open>strncasecmp\<close> and \<open>atoi\<close> are those of the C locale; \<open>atoi\<close>
    is glibc's, which saturates at 64 bits and then keeps the low 32.
\<close>

section \<open>The C library on bytes\<close>

abbreviation LF :: u8 where "LF \<equiv> 10"
abbreviation CR :: u8 where "CR \<equiv> 13"
abbreviation SP :: u8 where "SP \<equiv> 32"
abbreviation COLON :: u8 where "COLON \<equiv> 58"

definition isspace :: "u8 \<Rightarrow> bool" where
  "isspace c \<longleftrightarrow> c = 32 \<or> 9 \<le> c \<and> c \<le> 13"

definition isdigit :: "u8 \<Rightarrow> bool" where
  "isdigit c \<longleftrightarrow> 48 \<le> c \<and> c \<le> 57"

definition tolower :: "u8 \<Rightarrow> u8" where
  "tolower c = (if 65 \<le> c \<and> c \<le> 90 then c + 32 else c)"

definition ascii :: "string \<Rightarrow> bytes" where
  "ascii s = map of_char s"

text \<open>\<open>strncasecmp\<close> of \<open>n\<close> bytes with a literal of length \<open>n\<close>, as a test for 0.\<close>

definition same_nocase :: "string \<Rightarrow> bytes \<Rightarrow> bool" where
  "same_nocase lit bs \<longleftrightarrow> length lit = length bs \<and> map tolower (ascii lit) = map tolower bs"

definition digits_value :: "bytes \<Rightarrow> int" where
  "digits_value ds = foldl (\<lambda>n d. n * 10 + (uint d - 48)) 0 ds"

definition atoi :: "bytes \<Rightarrow> 32 word" where
  "atoi bs =
     (let bs = dropWhile isspace bs;
          (neg, bs) = (case bs of
                         [] \<Rightarrow> (False, bs)
                       | c # r \<Rightarrow> if c = 45 then (True, r) else if c = 43 then (False, r) else (False, bs));
          n = digits_value (takeWhile isdigit bs);
          v = (if neg then - n else n);
          v = max (- (2 ^ 63)) (min (2 ^ 63 - 1) v)
      in word_of_int v)"

definition rstrip :: "bytes \<Rightarrow> bytes" where
  "rstrip bs = rev (dropWhile isspace (rev bs))"

section \<open>State\<close>

datatype http_state =
    State_start
  | State_read_header
  | State_read_body
  | State_read_chunk_header
  | State_read_chunk_body
  | State_read_chunk_footer
  | State_done
  | State_bad

type_synonym line_info = "nat \<times> nat option"

record http_ctx =
  h_maxBufferSize :: nat
  h_buffer :: cbuffer
  h_nowIndex :: nat
  h_analysisIndex :: nat
  h_state :: http_state
  h_lines :: "line_info list"
  h_headerSize :: nat
  h_bKeepAlive :: bool
  h_bChunked :: bool
  h_contentLength :: u64
  h_nowChunkSize :: u64
  h_bChunkSizeStart :: bool
  h_bChunkSizeDone :: bool
  h_chunks :: "(nat \<times> u64) list"

definition h_data :: "http_ctx \<Rightarrow> bytes" where
  "h_data h = (case b_data (h_buffer h) of None \<Rightarrow> [] | Some d \<Rightarrow> d)"

definition set_data :: "bytes \<Rightarrow> http_ctx \<Rightarrow> http_ctx" where
  "set_data d h = h\<lparr>h_buffer := (h_buffer h)\<lparr>b_data := Some d\<rparr>\<rparr>"

text \<open>The constructor sets two fields; the others hold what the memory held, until \<open>init\<close>.\<close>

definition http_new :: "nat \<Rightarrow> http_ctx \<Rightarrow> http_ctx" where
  "http_new maxBufferSize memory = memory\<lparr>h_maxBufferSize := maxBufferSize, h_buffer := buf_empty\<rparr>"

definition http_init :: "bool \<Rightarrow> (nat \<Rightarrow> u8) \<Rightarrow> http_ctx \<Rightarrow> int \<Rightarrow> buf_end \<times> http_ctx \<times> int" where
  "http_init mem fresh h live =
     (if b_maxLength (h_buffer h) = 0
      then let h = (if h_maxBufferSize h < 0x1000 then h\<lparr>h_maxBufferSize := 0x1000\<rparr> else h);
               (r, b, live) = buf_resize mem fresh 0x1000 0 (h_buffer h) live;
               h = h\<lparr>h_buffer := b\<rparr>
           in if r \<noteq> Buf_ok then (r, h, live)
              else (Buf_ok, h\<lparr>h_nowIndex := 0, h_analysisIndex := 0, h_state := State_start, h_lines := [],
                      h_headerSize := 0, h_bKeepAlive := False, h_bChunked := False, h_contentLength := 0,
                      h_nowChunkSize := 0, h_bChunkSizeStart := False, h_bChunkSizeDone := False,
                      h_chunks := []\<rparr>, live)
      else (Buf_ok, h, live))"

section \<open>Header lines\<close>

definition kvDecoder :: "bytes \<Rightarrow> bytes \<Rightarrow> http_ctx \<Rightarrow> http_ctx" where
  "kvDecoder name value h =
     (if same_nocase ''Connection'' name
      then h\<lparr>h_bKeepAlive := same_nocase ''Keep-Alive'' value\<rparr>
      else if same_nocase ''Content-Length'' name
      then h\<lparr>h_contentLength := scast (atoi value)\<rparr>
      else if same_nocase ''Transfer-Encoding'' name
      then h\<lparr>h_bChunked := same_nocase ''chunked'' value\<rparr>
      else h)"

text \<open>
  A line without its terminating null byte, split at the first colon before any null byte in
  it; \<open>None\<close> where the code skips the line.
\<close>

definition header_fields :: "bytes \<Rightarrow> (bytes \<times> bytes) option" where
  "header_fields line =
     (let s = dropWhile isspace line;
          k = length (takeWhile (\<lambda>c. c \<noteq> COLON \<and> c \<noteq> 0) s)
      in if k = length s \<or> s ! k = 0 \<or> k = 0 then None
         else let name = rstrip (take k s);
                  value = dropWhile isspace (drop (Suc k) s)
              in if value = [] then None else Some (name, rstrip value))"

text \<open>The outer \<open>None\<close>: the line does not end in a null byte of the buffer.\<close>

definition decode_line :: "bytes \<Rightarrow> nat \<Rightarrow> nat \<Rightarrow> (bytes \<times> bytes) option option" where
  "decode_line d first len =
     (if first + len < length d \<and> d ! (first + len) = 0
      then Some (header_fields (take len (drop first d))) else None)"

fun decode_lines :: "line_info list \<Rightarrow> http_ctx \<Rightarrow> http_ctx option" where
  "decode_lines [] h = Some h"
| "decode_lines ((first, len) # ls) h =
     (if first > h_headerSize h then Some h
      else case len of
             None \<Rightarrow> decode_lines ls h
           | Some len \<Rightarrow>
               (case decode_line (h_data h) first len of
                  None \<Rightarrow> None
                | Some None \<Rightarrow> decode_lines ls h
                | Some (Some (name, value)) \<Rightarrow> decode_lines ls (kvDecoder name value h)))"

definition switch_state :: "http_ctx \<Rightarrow> http_ctx" where
  "switch_state h =
     (if h_bChunked h
      then h\<lparr>h_state := State_read_chunk_header, h_nowChunkSize := 0, h_bChunkSizeStart := False,
              h_bChunkSizeDone := False\<rparr>
      else if h_contentLength h > 0 then h\<lparr>h_state := State_read_body\<rparr>
      else h\<lparr>h_state := State_done\<rparr>)"

definition decoderHeaderAndUpdateState :: "http_ctx \<Rightarrow> http_ctx option" where
  "decoderHeaderAndUpdateState h = map_option switch_state (decode_lines (h_lines h) h)"

section \<open>Receiving\<close>

text \<open>
  \<open>prepareBuffer\<close>: the position and the room the caller may fill, \<open>None\<close> for a null pointer
  with length 0.
\<close>

definition prepareBuffer ::
  "bool \<Rightarrow> (nat \<Rightarrow> u8) \<Rightarrow> http_ctx \<Rightarrow> int \<Rightarrow> buf_end \<times> (nat \<times> nat) option \<times> http_ctx \<times> int"
where
  "prepareBuffer mem fresh h live =
     (let (r, h, live) = http_init mem fresh h live
      in if r \<noteq> Buf_ok then (r, None, h, live)
         else let len = b_length (h_buffer h);
                  (r, b, live) =
                    (if len - h_nowIndex h < 0x800
                     then if len * 2 > h_maxBufferSize h
                          then buf_resize mem fresh (h_maxBufferSize h) (h_nowIndex h) (h_buffer h) live
                          else buf_resize mem fresh (len * 2) (h_nowIndex h) (h_buffer h) live
                     else (Buf_ok, h_buffer h, live));
                  h = h\<lparr>h_buffer := b\<rparr>
              in if r \<noteq> Buf_ok then (r, None, h, live)
                 else let room = b_length (h_buffer h) - h_nowIndex h
                      in (Buf_ok, if room = 0 then None else Some (h_nowIndex h, room), h, live))"

definition recvPush :: "nat \<Rightarrow> http_ctx \<Rightarrow> http_ctx" where
  "recvPush len h =
     (if h_nowIndex h + len \<le> b_length (h_buffer h) then h\<lparr>h_nowIndex := h_nowIndex h + len\<rparr> else h)"

text \<open>What the reader of the socket does between the two: it writes at the given position.\<close>

definition http_write :: "bytes \<Rightarrow> http_ctx \<Rightarrow> http_ctx" where
  "http_write bs h =
     set_data (take (h_nowIndex h) (h_data h) @ bs @ drop (h_nowIndex h + length bs) (h_data h)) h"

definition http_feed :: "bytes \<Rightarrow> http_ctx \<Rightarrow> http_ctx" where
  "http_feed bs h = recvPush (length bs) (http_write bs h)"

section \<open>Analysis\<close>

text \<open>How a pass through the \<open>switch\<close> ends: \<open>goto _again\<close>, a return, or undefined.\<close>

datatype pass_result = Pass_again | Pass_return bool | Pass_undefined

datatype line_end = Line_bad | Line_empty | Line_next | Line_undefined

text \<open>
  What header and chunk footer do at a line feed: it must follow a carriage return; both are
  zeroed and the last line gets its length; an empty line is removed again.
\<close>

definition line_feed :: "http_ctx \<Rightarrow> line_end \<times> http_ctx" where
  "line_feed h =
     (let i = h_analysisIndex h; d = h_data h
      in if i = 0 \<or> i \<ge> length d then (Line_undefined, h)
         else if d ! (i - 1) \<noteq> CR then (Line_bad, h\<lparr>h_state := State_bad\<rparr>)
         else if h_lines h = [] \<or> fst (last (h_lines h)) > i - 1 then (Line_undefined, h)
         else let h = set_data (d[i - 1 := 0, i := 0]) h;
                  first = fst (last (h_lines h));
                  len = i - 1 - first;
                  done_lines = butlast (h_lines h)
              in if len = 0 then (Line_empty, h\<lparr>h_lines := done_lines\<rparr>)
                 else (Line_next, h\<lparr>h_lines := done_lines @ [(first, Some len), (Suc i, None)]\<rparr>))"

lemma line_feed_index: "h_nowIndex (snd (line_feed h)) = h_nowIndex h"
  "h_analysisIndex (snd (line_feed h)) = h_analysisIndex h"
  by (simp_all add: line_feed_def set_data_def Let_def)

text \<open>
  The two \<open>do\<close> loops over lines are one function; \<open>finish\<close> is what happens at the empty
  line, when \<open>m_analysisIndex\<close> has passed it.
\<close>

function line_loop :: "(http_ctx \<Rightarrow> pass_result \<times> http_ctx) \<Rightarrow> http_ctx \<Rightarrow> pass_result \<times> http_ctx" where
  "line_loop finish h =
     (let i = h_analysisIndex h
      in if i \<ge> length (h_data h) then (Pass_undefined, h)
         else if h_data h ! i = LF
         then (case line_feed h of
                 (Line_undefined, h) \<Rightarrow> (Pass_undefined, h)
               | (Line_bad, h) \<Rightarrow> (Pass_return True, h)
               | (Line_empty, h) \<Rightarrow> finish (h\<lparr>h_analysisIndex := Suc i\<rparr>)
               | (Line_next, h) \<Rightarrow>
                   (let h = h\<lparr>h_analysisIndex := Suc i\<rparr>
                    in if Suc i < h_nowIndex h then line_loop finish h else (Pass_return False, h)))
         else let h = h\<lparr>h_analysisIndex := Suc i\<rparr>
              in if Suc i < h_nowIndex h then line_loop finish h else (Pass_return False, h))"
  by pat_completeness auto

termination
proof (relation "measure (\<lambda>(finish, h). h_nowIndex h - h_analysisIndex h)")
  show "wf (measure (\<lambda>(finish, h). h_nowIndex h - h_analysisIndex h))" by simp
next
  fix finish h i x y u
  assume "i = h_analysisIndex h" "(x, y) = line_feed h" "u = y\<lparr>h_analysisIndex := Suc i\<rparr>" "Suc i < h_nowIndex u"
  then show "((finish, u), finish, h) \<in> measure (\<lambda>(finish, h). h_nowIndex h - h_analysisIndex h)"
    using line_feed_index [of h] by (auto simp flip: \<open>(x, y) = line_feed h\<close>)
next
  fix finish h i u
  assume "i = h_analysisIndex h" "u = h\<lparr>h_analysisIndex := Suc i\<rparr>" "Suc i < h_nowIndex u"
  then show "((finish, u), finish, h) \<in> measure (\<lambda>(finish, h). h_nowIndex h - h_analysisIndex h)" by auto
qed

declare line_loop.simps [simp del]

definition header_end :: "http_ctx \<Rightarrow> pass_result \<times> http_ctx" where
  "header_end h =
     (let h = h\<lparr>h_headerSize := h_analysisIndex h\<rparr>
      in case decoderHeaderAndUpdateState h of
           None \<Rightarrow> (Pass_undefined, h)
         | Some h \<Rightarrow> (Pass_again, h))"

definition footer_end :: "http_ctx \<Rightarrow> pass_result \<times> http_ctx" where
  "footer_end h = (Pass_return True, h\<lparr>h_state := State_done\<rparr>)"

text \<open>One byte of a chunk header that is not a line feed.\<close>

definition chunk_digit :: "u8 \<Rightarrow> http_ctx \<Rightarrow> http_ctx" where
  "chunk_digit ch h =
     (if h_bChunkSizeDone h then h
      else if 48 \<le> ch \<and> ch \<le> 57
      then h\<lparr>h_nowChunkSize := push_bit 4 (h_nowChunkSize h) + ucast ch - 48, h_bChunkSizeStart := True\<rparr>
      else if 97 \<le> ch \<and> ch \<le> 102
      then h\<lparr>h_nowChunkSize := push_bit 4 (h_nowChunkSize h) + ucast ch - 97 + 10, h_bChunkSizeStart := True\<rparr>
      else if 65 \<le> ch \<and> ch \<le> 70
      then h\<lparr>h_nowChunkSize := push_bit 4 (h_nowChunkSize h) + ucast ch - 65 + 10, h_bChunkSizeStart := True\<rparr>
      else if h_bChunkSizeStart h \<or> \<not> isspace ch then h\<lparr>h_bChunkSizeDone := True\<rparr>
      else h)"

definition chunk_feed :: "http_ctx \<Rightarrow> pass_result \<times> http_ctx" where
  "chunk_feed h =
     (let i = h_analysisIndex h; d = h_data h
      in if i = 0 \<or> i \<ge> length d then (Pass_undefined, h)
         else if d ! (i - 1) \<noteq> CR then (Pass_return True, h\<lparr>h_state := State_bad\<rparr>)
         else let h = (set_data (d[i - 1 := 0, i := 0]) h)\<lparr>h_analysisIndex := Suc i\<rparr>
              in (Pass_again,
                  if h_nowChunkSize h > 0 then h\<lparr>h_state := State_read_chunk_body\<rparr>
                  else h\<lparr>h_state := State_read_chunk_footer, h_lines := h_lines h @ [(Suc i, None)]\<rparr>))"

lemma chunk_digit_index [simp]: "h_nowIndex (chunk_digit ch h) = h_nowIndex h"
  "h_analysisIndex (chunk_digit ch h) = h_analysisIndex h" "h_buffer (chunk_digit ch h) = h_buffer h"
  by (simp_all add: chunk_digit_def)

function chunk_loop :: "http_ctx \<Rightarrow> pass_result \<times> http_ctx" where
  "chunk_loop h =
     (let i = h_analysisIndex h
      in if i \<ge> length (h_data h) then (Pass_undefined, h)
         else if h_data h ! i = LF then chunk_feed h
         else let h = (chunk_digit (h_data h ! i) h)\<lparr>h_analysisIndex := Suc i\<rparr>
              in if Suc i < h_nowIndex h then chunk_loop h else (Pass_return False, h))"
  by pat_completeness auto

termination by (relation "measure (\<lambda>h. h_nowIndex h - h_analysisIndex h)") auto

declare chunk_loop.simps [simp del]

text \<open>One pass: the checks before the \<open>switch\<close> are in \<open>analysis\<close>.\<close>

definition analysis_pass :: "http_ctx \<Rightarrow> pass_result \<times> http_ctx" where
  "analysis_pass h =
     (case h_state h of
        State_start \<Rightarrow>
          if h_analysisIndex h \<noteq> 0 then (Pass_return True, h\<lparr>h_state := State_bad\<rparr>)
          else (case h_data h of
                  [] \<Rightarrow> (Pass_undefined, h)
                | c # _ \<Rightarrow>
                    if c = LF then (Pass_return True, h\<lparr>h_state := State_bad\<rparr>)
                    else (Pass_again, h\<lparr>h_state := State_read_header, h_lines := h_lines h @ [(0, None)]\<rparr>))
      | State_read_header \<Rightarrow> line_loop header_end h
      | State_read_body \<Rightarrow>
          if h_nowIndex h - h_analysisIndex h \<ge> unat (h_contentLength h)
          then (Pass_return True, h\<lparr>h_chunks := h_chunks h @ [(h_analysisIndex h, h_contentLength h)],
                  h_analysisIndex := h_analysisIndex h + unat (h_contentLength h), h_state := State_done\<rparr>)
          else (Pass_return False, h)
      | State_read_chunk_header \<Rightarrow> chunk_loop h
      | State_read_chunk_body \<Rightarrow>
          if h_nowIndex h - h_analysisIndex h \<ge> unat (h_nowChunkSize h + 2)
          then (Pass_again, h\<lparr>h_chunks := h_chunks h @ [(h_analysisIndex h, h_nowChunkSize h)],
                  h_analysisIndex := h_analysisIndex h + unat (h_nowChunkSize h + 2),
                  h_state := State_read_chunk_header, h_nowChunkSize := 0, h_bChunkSizeStart := False,
                  h_bChunkSizeDone := False\<rparr>)
          else (Pass_return False, h)
      | State_read_chunk_footer \<Rightarrow> line_loop footer_end h
      | State_done \<Rightarrow> (Pass_return True, h)
      | State_bad \<Rightarrow> (Pass_return True, h))"

section \<open>Termination\<close>

text \<open>The loops unfolded by cases, and an induction over what is left to read.\<close>

definition line_continue :: "(http_ctx \<Rightarrow> pass_result \<times> http_ctx) \<Rightarrow> http_ctx \<Rightarrow> pass_result \<times> http_ctx" where
  "line_continue finish h =
     (if h_analysisIndex h < h_nowIndex h then line_loop finish h else (Pass_return False, h))"

lemma line_loop_out: "h_analysisIndex h \<ge> length (h_data h) \<Longrightarrow> line_loop finish h = (Pass_undefined, h)"
  by (simp add: line_loop.simps [of finish h])

lemma line_loop_feed:
  assumes "h_analysisIndex h < length (h_data h)" and "h_data h ! h_analysisIndex h = LF" and "line_feed h = (e, g)"
  shows "line_loop finish h = (case e of
      Line_undefined \<Rightarrow> (Pass_undefined, g)
    | Line_bad \<Rightarrow> (Pass_return True, g)
    | Line_empty \<Rightarrow> finish (g\<lparr>h_analysisIndex := Suc (h_analysisIndex h)\<rparr>)
    | Line_next \<Rightarrow> line_continue finish (g\<lparr>h_analysisIndex := Suc (h_analysisIndex h)\<rparr>))"
  using assms by (cases e) (simp_all add: line_loop.simps [of finish h] line_continue_def)

lemma line_loop_other:
  assumes "h_analysisIndex h < length (h_data h)" and "h_data h ! h_analysisIndex h \<noteq> LF"
  shows "line_loop finish h = line_continue finish (h\<lparr>h_analysisIndex := Suc (h_analysisIndex h)\<rparr>)"
  using assms by (simp add: line_loop.simps [of finish h] line_continue_def)

definition chunk_continue :: "http_ctx \<Rightarrow> pass_result \<times> http_ctx" where
  "chunk_continue h = (if h_analysisIndex h < h_nowIndex h then chunk_loop h else (Pass_return False, h))"

lemma chunk_loop_out: "h_analysisIndex h \<ge> length (h_data h) \<Longrightarrow> chunk_loop h = (Pass_undefined, h)"
  by (simp add: chunk_loop.simps [of h])

lemma chunk_loop_feed:
  assumes "h_analysisIndex h < length (h_data h)" and "h_data h ! h_analysisIndex h = LF"
  shows "chunk_loop h = chunk_feed h"
  using assms by (simp add: chunk_loop.simps [of h])

lemma chunk_loop_other:
  assumes "h_analysisIndex h < length (h_data h)" and "h_data h ! h_analysisIndex h \<noteq> LF"
  shows "chunk_loop h = chunk_continue
    ((chunk_digit (h_data h ! h_analysisIndex h) h)\<lparr>h_analysisIndex := Suc (h_analysisIndex h)\<rparr>)"
  using assms by (simp add: chunk_loop.simps [of h] chunk_continue_def Let_def)

lemma loop_induct [case_names step]:
  assumes "\<And>h. (\<And>g. h_nowIndex g = h_nowIndex h \<Longrightarrow> h_analysisIndex g = Suc (h_analysisIndex h) \<Longrightarrow>
      h_analysisIndex g < h_nowIndex g \<Longrightarrow> P g) \<Longrightarrow> P h"
  shows "P (h :: http_ctx)"
proof (induction "h_nowIndex h - h_analysisIndex h" arbitrary: h rule: less_induct)
  case less
  show ?case by (rule assms) (use less in auto)
qed

lemma loop_cases [case_names out feed other]:
  assumes "h_analysisIndex h \<ge> length (h_data h) \<Longrightarrow> thesis"
    and "\<And>e g. h_analysisIndex h < length (h_data h) \<Longrightarrow> h_data h ! h_analysisIndex h = LF \<Longrightarrow> line_feed h = (e, g) \<Longrightarrow> thesis"
    and "h_analysisIndex h < length (h_data h) \<Longrightarrow> h_data h ! h_analysisIndex h \<noteq> LF \<Longrightarrow> thesis"
  shows thesis
  using assms by (metis not_le_imp_less surj_pair)

definition http_quiet :: "http_ctx \<Rightarrow> http_ctx \<Rightarrow> bool" where
  "http_quiet h h' \<longleftrightarrow> h_nowIndex h' = h_nowIndex h \<and> h_analysisIndex h' = h_analysisIndex h
     \<and> h_buffer h' = h_buffer h \<and> h_lines h' = h_lines h \<and> h_chunks h' = h_chunks h
     \<and> h_headerSize h' = h_headerSize h \<and> h_maxBufferSize h' = h_maxBufferSize h"

lemma http_quiet_refl [simp]: "http_quiet h h"
  by (simp add: http_quiet_def)

lemma http_quiet_trans: "http_quiet h h' \<Longrightarrow> http_quiet h' h'' \<Longrightarrow> http_quiet h h''"
  by (simp add: http_quiet_def)

lemma kvDecoder_quiet: "http_quiet h (kvDecoder n v h)" "h_state (kvDecoder n v h) = h_state h"
  by (simp_all add: http_quiet_def kvDecoder_def)

lemma decode_lines_quiet: "decode_lines ls h = Some h' \<Longrightarrow> http_quiet h h'"
proof (induction ls arbitrary: h)
  case (Cons l ls)
  obtain first len where l: "l = (first, len)" by fastforce
  show ?case
  proof (cases "first > h_headerSize h \<or> len = None")
    case True
    then show ?thesis using Cons by (cases len) (auto simp: l split: if_splits)
  next
    case False
    then obtain n where len: "len = Some n" by auto
    show ?thesis
    proof (cases "decode_line (h_data h) first n")
      case None
      then show ?thesis using Cons.prems False by (simp add: l len)
    next
      case (Some o1)
      show ?thesis
      proof (cases o1)
        case None
        then show ?thesis using Cons Some False by (simp add: l len)
      next
        case (Some nv)
        obtain k v where nv: "nv = (k, v)" by fastforce
        have "decode_lines ls (kvDecoder k v h) = Some h'"
          using Cons.prems \<open>decode_line _ _ _ = _\<close> Some False by (simp add: l len nv)
        then show ?thesis using Cons.IH http_quiet_trans [OF kvDecoder_quiet(1)] by blast
      qed
    qed
  qed
qed simp

lemma decoder_quiet: "decoderHeaderAndUpdateState h = Some h' \<Longrightarrow> http_quiet h h'"
  unfolding decoderHeaderAndUpdateState_def
  by (auto dest!: decode_lines_quiet simp: http_quiet_def switch_state_def)

definition finish_keeps :: "(http_ctx \<Rightarrow> pass_result \<times> http_ctx) \<Rightarrow> bool" where
  "finish_keeps finish \<longleftrightarrow> (\<forall>g. h_nowIndex (snd (finish g)) = h_nowIndex g
     \<and> h_analysisIndex (snd (finish g)) = h_analysisIndex g)"

lemma line_loop_index:
  assumes fin: "finish_keeps finish"
  shows "line_loop finish h = (r, h') \<Longrightarrow> h_nowIndex h' = h_nowIndex h \<and> h_analysisIndex h \<le> h_analysisIndex h'
    \<and> (r = Pass_again \<longrightarrow> h_analysisIndex h < h_analysisIndex h')"
proof (induction h rule: loop_induct)
  case (step h)
  have cont: "h_nowIndex h' = h_nowIndex h \<and> h_analysisIndex h < h_analysisIndex h'"
    if "line_continue finish g = (r, h')" "h_nowIndex g = h_nowIndex h" "h_analysisIndex g = Suc (h_analysisIndex h)" for g
    using that step.IH [of g] by (cases "h_analysisIndex g < h_nowIndex g") (auto simp: line_continue_def)
  show ?case
  proof (cases rule: loop_cases [of h])
    case out
    then show ?thesis using step.prems by (simp add: line_loop_out)
  next
    case (feed e g)
    have g: "h_nowIndex g = h_nowIndex h" "h_analysisIndex g = h_analysisIndex h"
      using line_feed_index [of h] feed(3) by simp_all
    let ?g = "g\<lparr>h_analysisIndex := Suc (h_analysisIndex h)\<rparr>"
    show ?thesis
    proof (cases e)
      case Line_empty
      then show ?thesis using step.prems line_loop_feed [OF feed] fin g by (auto simp: finish_keeps_def dest!: spec [of _ ?g])
    next
      case Line_next
      then show ?thesis using step.prems line_loop_feed [OF feed] cont [of ?g] g by simp
    qed (use step.prems line_loop_feed [OF feed] g in auto)
  next
    case other
    let ?g = "h\<lparr>h_analysisIndex := Suc (h_analysisIndex h)\<rparr>"
    show ?thesis using step.prems line_loop_other [OF other] cont [of ?g] by simp
  qed
qed

lemma chunk_loop_index:
  "chunk_loop h = (r, h') \<Longrightarrow> h_nowIndex h' = h_nowIndex h \<and> h_analysisIndex h \<le> h_analysisIndex h'
    \<and> (r = Pass_again \<longrightarrow> h_analysisIndex h < h_analysisIndex h')"
proof (induction h rule: loop_induct)
  case (step h)
  have feed: "chunk_feed h = (r, h') \<Longrightarrow> h_nowIndex h' = h_nowIndex h \<and> h_analysisIndex h \<le> h_analysisIndex h'
      \<and> (r = Pass_again \<longrightarrow> h_analysisIndex h < h_analysisIndex h')"
    by (auto simp: chunk_feed_def set_data_def Let_def split: if_splits)
  show ?case
  proof (cases rule: loop_cases [of h])
    case other
    let ?g = "(chunk_digit (h_data h ! h_analysisIndex h) h)\<lparr>h_analysisIndex := Suc (h_analysisIndex h)\<rparr>"
    show ?thesis
      using step.prems chunk_loop_other [OF other] step.IH [of ?g]
      by (cases "Suc (h_analysisIndex h) < h_nowIndex h") (auto simp: chunk_continue_def)
  qed (use step.prems feed in \<open>simp_all add: chunk_loop_out chunk_loop_feed\<close>)
qed

definition pass_rank :: "http_ctx \<Rightarrow> nat" where
  "pass_rank h = (if h_state h = State_start \<or> h_state h = State_read_chunk_body then 1 else 0)"

lemma finish_keeps_ends: "finish_keeps header_end" "finish_keeps footer_end"
  by (auto simp: finish_keeps_def header_end_def footer_end_def Let_def http_quiet_def dest!: decoder_quiet split: option.splits)

lemma footer_end_again: "fst (footer_end g) \<noteq> Pass_again"
  by (simp add: footer_end_def)

lemma footer_loop_again: "fst (line_loop footer_end h) \<noteq> Pass_again"
proof (induction h rule: loop_induct)
  case (step h)
  have cont: "fst (line_continue footer_end g) \<noteq> Pass_again"
    if "h_nowIndex g = h_nowIndex h" "h_analysisIndex g = Suc (h_analysisIndex h)" for g
    using step.IH [OF that] by (simp add: line_continue_def)
  show ?case
  proof (cases rule: loop_cases [of h])
    case (feed e g)
    then show ?thesis using line_loop_feed [OF feed] cont line_feed_index [of h]
      by (cases e) (simp_all add: footer_end_again)
  qed (use cont in \<open>simp_all add: line_loop_out line_loop_other\<close>)
qed

lemma analysis_pass_progress:
  assumes "analysis_pass h = (Pass_again, h')" and "h_analysisIndex h < h_nowIndex h"
  shows "h_nowIndex h' = h_nowIndex h \<and> (h_nowIndex h' - h_analysisIndex h' < h_nowIndex h - h_analysisIndex h
    \<or> h_analysisIndex h' = h_analysisIndex h \<and> pass_rank h' < pass_rank h)"
proof (cases "h_state h")
  case State_read_header
  then show ?thesis using assms line_loop_index [OF finish_keeps_ends(1), of h Pass_again h']
    by (auto simp: analysis_pass_def)
next
  case State_read_chunk_header
  then show ?thesis using assms chunk_loop_index [of h Pass_again h'] by (auto simp: analysis_pass_def)
next
  case State_read_chunk_footer
  then show ?thesis using assms footer_loop_again [of h] by (simp add: analysis_pass_def)
next
  case State_read_chunk_body
  then show ?thesis using assms by (auto simp: analysis_pass_def pass_rank_def split: if_splits)
qed (use assms in \<open>auto simp: analysis_pass_def pass_rank_def split: if_splits list.splits\<close>)

text \<open>\<open>analysis\<close>; \<open>None\<close> when it runs into undefined behaviour.\<close>

function http_analysis :: "http_ctx \<Rightarrow> bool option \<times> http_ctx" where
  "http_analysis h =
     (if h_state h = State_done \<or> h_state h = State_bad then (Some True, h)
      else if h_nowIndex h \<le> h_analysisIndex h then (Some False, h)
      else case analysis_pass h of
             (Pass_again, h') \<Rightarrow> http_analysis h'
           | (Pass_return b, h') \<Rightarrow> (Some b, h')
           | (Pass_undefined, h') \<Rightarrow> (None, h'))"
  by pat_completeness auto

termination
proof (relation "measures [\<lambda>h. h_nowIndex h - h_analysisIndex h, pass_rank]")
  fix h x y
  assume "\<not> h_nowIndex h \<le> h_analysisIndex h" "(x, y) = analysis_pass h" "x = Pass_again"
  then show "(y, h) \<in> measures [\<lambda>h. h_nowIndex h - h_analysisIndex h, pass_rank]"
    using analysis_pass_progress [of h y] by auto
qed simp

declare http_analysis.simps [simp del]

section \<open>Results\<close>

definition isGood :: "http_ctx \<Rightarrow> bool" where
  "isGood h \<longleftrightarrow> h_state h = State_done"

definition isKeepAlive :: "http_ctx \<Rightarrow> bool" where
  "isKeepAlive h = h_bKeepAlive h"

text \<open>A C string in the buffer: up to the next null byte, \<open>None\<close> when there is none.\<close>

definition cstring_at :: "bytes \<Rightarrow> nat \<Rightarrow> bytes option" where
  "cstring_at d i = (if 0 \<in> set (drop i d) then Some (takeWhile (\<lambda>c. c \<noteq> 0) (drop i d)) else None)"

text \<open>
  \<open>getInfo\<close>: \<open>None\<close> for undefined behaviour, which includes the use of \<open>b2\<close> when it is a
  null pointer; \<open>Some None\<close> when it returns false.
\<close>

definition getInfo :: "http_ctx \<Rightarrow> (bytes \<times> bytes \<times> bytes) option option" where
  "getInfo h =
     (if h_state h \<noteq> State_done then Some None
      else case h_lines h of
             [] \<Rightarrow> None
           | (first, _) # _ \<Rightarrow>
               (case cstring_at (h_data h) first of
                  None \<Rightarrow> None
                | Some line \<Rightarrow>
                    let b1 = length (takeWhile (\<lambda>c. c \<noteq> SP) line)
                    in if b1 = length line then Some None
                       else let rest = drop (Suc b1) line;
                                b2 = length (takeWhile (\<lambda>c. c \<noteq> SP) rest)
                            in if b2 = length rest then None
                               else Some (Some (take b1 line, take b2 rest, drop (Suc b2) rest))))"

text \<open>\<open>getParameter\<close> adds one pair per line to a multimap; the model lists them in order.\<close>

fun line_parameters :: "bytes \<Rightarrow> line_info list \<Rightarrow> (bytes \<times> bytes) list option" where
  "line_parameters d [] = Some []"
| "line_parameters d ((first, len) # ls) =
     (case len of
        None \<Rightarrow> line_parameters d ls
      | Some len \<Rightarrow>
          (case decode_line d first len of
             None \<Rightarrow> None
           | Some None \<Rightarrow> line_parameters d ls
           | Some (Some nv) \<Rightarrow> map_option ((#) nv) (line_parameters d ls)))"

definition getParameter :: "http_ctx \<Rightarrow> (bytes \<times> bytes) list option option" where
  "getParameter h =
     (if h_state h \<noteq> State_done then Some None
      else map_option Some (line_parameters (h_data h) (h_lines h)))"

text \<open>
  \<open>getContent\<close>: the sum of the lengths is a \<open>size_t\<close> and wraps; the copies into the
  resized buffer are undefined when they leave it or read past the block.
\<close>

definition chunk_total :: "(nat \<times> u64) list \<Rightarrow> u64" where
  "chunk_total cs = sum_list (map snd cs)"

fun copy_chunks :: "bytes \<Rightarrow> nat \<Rightarrow> (nat \<times> u64) list \<Rightarrow> bytes option" where
  "copy_chunks src room [] = Some []"
| "copy_chunks src room ((first, len) # cs) =
     (if first + unat len \<le> length src \<and> unat len \<le> room
      then map_option ((@) (take (unat len) (drop first src))) (copy_chunks src (room - unat len) cs)
      else None)"

definition getContent ::
  "bool \<Rightarrow> (nat \<Rightarrow> u8) \<Rightarrow> http_ctx \<Rightarrow> cbuffer \<Rightarrow> int \<Rightarrow> bool \<times> buf_end \<times> cbuffer \<times> int"
where
  "getContent mem fresh h buffer live =
     (if h_state h \<noteq> State_done then (False, Buf_ok, buffer, live)
      else let total = unat (chunk_total (h_chunks h));
               (r, buffer, live) = buf_resize mem fresh total 0 buffer live
           in if r \<noteq> Buf_ok then (False, r, buffer, live)
              else case copy_chunks (h_data h) total (h_chunks h) of
                     None \<Rightarrow> (False, Buf_undefined, buffer, live)
                   | Some content \<Rightarrow>
                       if content = [] then (True, Buf_ok, buffer, live)
                       else (case copy_in content (length content) (b_data buffer) of
                               None \<Rightarrow> (False, Buf_undefined, buffer, live)
                             | Some d \<Rightarrow> (True, Buf_ok, buffer\<lparr>b_data := Some d\<rparr>, live)))"

section \<open>The next message\<close>

text \<open>
  \<open>reinitForNext\<close>: the finished message goes to \<open>former\<close>, the bytes after it to the front.
  The result says whether it returned true and how the copy to \<open>former\<close> ended.
\<close>

definition reinitForNext ::
  "bool \<Rightarrow> (nat \<Rightarrow> u8) \<Rightarrow> http_ctx \<Rightarrow> http_ctx \<Rightarrow> int \<Rightarrow> bool \<times> buf_end \<times> http_ctx \<times> http_ctx \<times> int"
where
  "reinitForNext mem fresh h former live =
     (if h_state h \<noteq> State_done then (False, Buf_ok, h, former, live)
      else let former = former\<lparr>h_maxBufferSize := h_maxBufferSize h\<rparr>;
               (r, b, live) = buf_set mem fresh (h_data h) (h_analysisIndex h) (h_buffer former) live;
               former = former\<lparr>h_buffer := b\<rparr>
           in if r \<noteq> Buf_ok then (False, r, h, former, live)
              else let former = former\<lparr>h_nowIndex := h_analysisIndex h, h_analysisIndex := h_analysisIndex h,
                         h_state := State_done, h_lines := h_lines h, h_headerSize := h_headerSize h,
                         h_bKeepAlive := h_bKeepAlive h, h_bChunked := h_bChunked h,
                         h_contentLength := h_contentLength h, h_nowChunkSize := 0,
                         h_bChunkSizeStart := False, h_bChunkSizeDone := False, h_chunks := h_chunks h\<rparr>;
                       extra = h_nowIndex h - h_analysisIndex h;
                       d = h_data h;
                       h = set_data (take extra (drop (h_analysisIndex h) d) @ drop extra d) h;
                       h = h\<lparr>h_nowIndex := extra, h_analysisIndex := 0, h_state := State_start, h_lines := [],
                             h_headerSize := 0, h_bKeepAlive := False, h_bChunked := False,
                             h_contentLength := 0, h_nowChunkSize := 0, h_bChunkSizeStart := False,
                             h_bChunkSizeDone := False, h_chunks := []\<rparr>
                   in (True, Buf_ok, h, former, live))"

end
