(* ===== verification/Http_Invariant.thy ===== *)
theory Http_Invariant
  imports Http_Context
begin

text \<open>
  The invariant of \<open>ChttpContext\<close> and its consequences: the indices stay inside the buffer,
  every finished line is null-terminated in it, and so receiving, analysing and restarting
  never run into undefined behaviour, however the bytes arrive.
\<close>

section \<open>Lines\<close>

fun line_done :: "bytes \<Rightarrow> nat \<Rightarrow> line_info \<Rightarrow> bool" where
  "line_done d n (f, None) \<longleftrightarrow> False"
| "line_done d n (f, Some l) \<longleftrightarrow> 0 < l \<and> f + l < n \<and> d ! (f + l) = 0"

definition lines_done :: "bytes \<Rightarrow> nat \<Rightarrow> line_info list \<Rightarrow> bool" where
  "lines_done d n ls \<longleftrightarrow> (\<forall>x\<in>set ls. line_done d n x)"

text \<open>The last line is being read; it starts the buffer or follows a zeroed line feed.\<close>

definition lines_open :: "bytes \<Rightarrow> nat \<Rightarrow> line_info list \<Rightarrow> bool" where
  "lines_open d n ls \<longleftrightarrow> ls \<noteq> [] \<and> lines_done d n (butlast ls)
     \<and> snd (last ls) = None \<and> fst (last ls) \<le> n \<and> (fst (last ls) = 0 \<or> d ! (fst (last ls) - 1) = 0)"

lemma line_done_keep:
  "line_done d n x \<Longrightarrow> n \<le> m \<Longrightarrow> (\<And>k. k < n \<Longrightarrow> d ! k = 0 \<Longrightarrow> d' ! k = 0) \<Longrightarrow> line_done d' m x"
  by (cases x; cases "snd x") auto

lemma lines_done_keep:
  "lines_done d n ls \<Longrightarrow> n \<le> m \<Longrightarrow> (\<And>k. k < n \<Longrightarrow> d ! k = 0 \<Longrightarrow> d' ! k = 0) \<Longrightarrow> lines_done d' m ls"
  unfolding lines_done_def using line_done_keep by blast

lemma lines_open_keep:
  assumes "lines_open d n ls" and "n \<le> m" and "\<And>k. k < n \<Longrightarrow> d ! k = 0 \<Longrightarrow> d' ! k = 0"
  shows "lines_open d' m ls"
  using assms(1,2) lines_done_keep [OF _ assms(2,3)] assms(3) [of "fst (last ls) - 1"]
  unfolding lines_open_def by (cases "fst (last ls)") auto

section \<open>The invariant\<close>

definition base_ok :: "http_ctx \<Rightarrow> bool" where
  "base_ok h \<longleftrightarrow> buf_ok (h_buffer h) \<and> b_data (h_buffer h) \<noteq> None
     \<and> h_analysisIndex h \<le> h_nowIndex h \<and> h_nowIndex h \<le> b_length (h_buffer h)"

text \<open>While lines are read, the line feed that ends the first one is never the first byte.\<close>

definition open_ok :: "http_ctx \<Rightarrow> bool" where
  "open_ok h \<longleftrightarrow> base_ok h \<and> lines_open (h_data h) (h_analysisIndex h) (h_lines h)
     \<and> 0 < h_nowIndex h \<and> (h_analysisIndex h = 0 \<longrightarrow> h_data h ! 0 \<noteq> LF)"

definition closed_ok :: "http_ctx \<Rightarrow> bool" where
  "closed_ok h \<longleftrightarrow> base_ok h \<and> lines_done (h_data h) (h_analysisIndex h) (h_lines h) \<and> 0 < h_analysisIndex h"

definition http_ok :: "http_ctx \<Rightarrow> bool" where
  "http_ok h \<longleftrightarrow>
     (case h_state h of
        State_start \<Rightarrow> base_ok h \<and> h_analysisIndex h = 0 \<and> h_lines h = []
      | State_read_header \<Rightarrow> open_ok h
      | State_read_body \<Rightarrow> closed_ok h
      | State_read_chunk_header \<Rightarrow> closed_ok h
      | State_read_chunk_body \<Rightarrow> closed_ok h
      | State_read_chunk_footer \<Rightarrow> open_ok h
      | State_done \<Rightarrow> closed_ok h
      | State_bad \<Rightarrow> base_ok h)"

lemma http_ok_base: "http_ok h \<Longrightarrow> base_ok h"
  by (cases "h_state h") (simp_all add: http_ok_def open_ok_def closed_ok_def)

lemma base_data: "base_ok h \<Longrightarrow> length (h_data h) = b_maxLength (h_buffer h) \<and> b_length (h_buffer h) \<le> length (h_data h)"
  by (auto simp: base_ok_def buf_ok_def h_data_def split: option.splits)

lemma base_index: "base_ok h \<Longrightarrow> i < h_nowIndex h \<Longrightarrow> i < length (h_data h)"
  using base_data [of h] by (auto simp: base_ok_def)

lemma set_data_simps [simp]:
  "h_data (set_data d h) = d" "h_nowIndex (set_data d h) = h_nowIndex h"
  "h_analysisIndex (set_data d h) = h_analysisIndex h" "h_state (set_data d h) = h_state h"
  "h_lines (set_data d h) = h_lines h" "h_chunks (set_data d h) = h_chunks h"
  "h_headerSize (set_data d h) = h_headerSize h" "h_nowChunkSize (set_data d h) = h_nowChunkSize h"
  "h_contentLength (set_data d h) = h_contentLength h" "h_bChunked (set_data d h) = h_bChunked h"
  "h_bKeepAlive (set_data d h) = h_bKeepAlive h" "h_maxBufferSize (set_data d h) = h_maxBufferSize h"
  "h_bChunkSizeStart (set_data d h) = h_bChunkSizeStart h" "h_bChunkSizeDone (set_data d h) = h_bChunkSizeDone h"
  "b_length (h_buffer (set_data d h)) = b_length (h_buffer h)"
  "b_maxLength (h_buffer (set_data d h)) = b_maxLength (h_buffer h)"
  "b_data (h_buffer (set_data d h)) = Some d"
  by (simp_all add: set_data_def h_data_def)

lemma base_set_data: "base_ok h \<Longrightarrow> length d = length (h_data h) \<Longrightarrow> base_ok (set_data d h)"
  by (auto simp: base_ok_def buf_ok_def h_data_def split: option.splits)

lemma h_data_fields [simp]:
  "h_data (h\<lparr>h_nowIndex := n\<rparr>) = h_data h" "h_data (h\<lparr>h_analysisIndex := n\<rparr>) = h_data h"
  "h_data (h\<lparr>h_state := st\<rparr>) = h_data h" "h_data (h\<lparr>h_lines := ls\<rparr>) = h_data h"
  "h_data (h\<lparr>h_headerSize := n\<rparr>) = h_data h" "h_data (h\<lparr>h_chunks := cs\<rparr>) = h_data h"
  "h_data (h\<lparr>h_bKeepAlive := f\<rparr>) = h_data h" "h_data (h\<lparr>h_bChunked := f\<rparr>) = h_data h"
  "h_data (h\<lparr>h_contentLength := w\<rparr>) = h_data h" "h_data (h\<lparr>h_nowChunkSize := w\<rparr>) = h_data h"
  "h_data (h\<lparr>h_bChunkSizeStart := f\<rparr>) = h_data h" "h_data (h\<lparr>h_bChunkSizeDone := f\<rparr>) = h_data h"
  "h_data (h\<lparr>h_maxBufferSize := n\<rparr>) = h_data h"
  by (simp_all add: h_data_def)

section \<open>A line feed\<close>

lemma line_feed_ok:
  assumes ok: "open_ok h" and i: "h_analysisIndex h < h_nowIndex h" and lf: "h_data h ! h_analysisIndex h = LF"
    and res: "line_feed h = (e, g)"
  shows "e \<noteq> Line_undefined \<and> h_state g = (if e = Line_bad then State_bad else h_state h) \<and> h_chunks g = h_chunks h
    \<and> h_nowIndex g = h_nowIndex h \<and> h_analysisIndex g = h_analysisIndex h \<and> base_ok g
    \<and> (e = Line_empty \<longrightarrow> lines_done (h_data g) (Suc (h_analysisIndex h)) (h_lines g))
    \<and> (e = Line_next \<longrightarrow> lines_open (h_data g) (Suc (h_analysisIndex h)) (h_lines g))"
proof -
  let ?i = "h_analysisIndex h" and ?d = "h_data h" and ?d' = "(h_data h)[h_analysisIndex h - 1 := 0, h_analysisIndex h := 0]"
  have base: "base_ok h" and open_lines: "lines_open ?d ?i (h_lines h)" using ok by (simp_all add: open_ok_def)
  have len: "?i < length ?d" using base i by (rule base_index)
  have pos: "?i \<noteq> 0" using ok lf by (cases "?i = 0") (simp_all add: open_ok_def)
  show ?thesis
  proof (cases "?d ! (?i - 1) = CR")
    case False
    then show ?thesis using res base len pos by (auto simp: line_feed_def base_ok_def)
  next
    case True
    let ?f = "fst (last (h_lines h))"
    have ne: "h_lines h \<noteq> []" and last: "snd (last (h_lines h)) = None" and f: "?f \<le> ?i" "?f = 0 \<or> ?d ! (?f - 1) = 0"
      and done_lines: "lines_done ?d ?i (butlast (h_lines h))"
      using open_lines by (simp_all add: lines_open_def)
    have f': "?f \<le> ?i - 1" using f True pos by (cases "?f = ?i") auto
    have keep: "k < ?i \<Longrightarrow> ?d ! k = 0 \<Longrightarrow> ?d' ! k = 0" for k using len by (simp add: nth_list_update)
    have done_lines': "lines_done ?d' (Suc ?i) (butlast (h_lines h))"
      by (rule lines_done_keep [OF done_lines _ keep]) auto
    have base': "base_ok (set_data ?d' h)" using base by (rule base_set_data) simp
    have z: "?d' ! (?i - 1) = 0" "?d' ! ?i = 0" using len pos by (simp_all add: nth_list_update)
    have feed: "line_feed h = (if ?i - 1 - ?f = 0 then (Line_empty, (set_data ?d' h)\<lparr>h_lines := butlast (h_lines h)\<rparr>)
        else (Line_next, (set_data ?d' h)\<lparr>h_lines := butlast (h_lines h) @ [(?f, Some (?i - 1 - ?f)), (Suc ?i, None)]\<rparr>))"
      using True len pos ne f' by (simp add: line_feed_def Let_def)
    have line: "line_done ?d' (Suc ?i) (?f, Some (?i - 1 - ?f))" if "?i - 1 - ?f \<noteq> 0"
      using that f' z(1) by simp
    show ?thesis
      using res feed done_lines' base' z(2) line
      by (auto simp: lines_open_def lines_done_def butlast_append base_ok_def split: if_splits)
  qed
qed

section \<open>The loops\<close>

lemma decode_lines_some:
  "lines_done (h_data h) n ls \<Longrightarrow> n \<le> length (h_data h) \<Longrightarrow> decode_lines ls h \<noteq> None"
proof (induction ls arbitrary: h)
  case (Cons l ls)
  obtain f len where l: "l = (f, len)" by fastforce
  obtain k where k: "len = Some k" "f + k < n" "h_data h ! (f + k) = 0"
    using Cons.prems by (cases len) (auto simp: lines_done_def l)
  have kv: "h_data (kvDecoder a b h) = h_data h" for a b
    using kvDecoder_quiet(1) [of h a b] by (simp add: http_quiet_def h_data_def)
  have rest: "decode_lines ls g \<noteq> None" if "h_data g = h_data h" for g
    using Cons.IH [of g] Cons.prems that by (simp add: lines_done_def)
  have "decode_line (h_data h) f k \<noteq> None" using k Cons.prems(2) by (simp add: decode_line_def)
  then show ?case using rest [of h] rest [OF kv] by (auto simp: l k split: option.split)
qed simp

lemma header_end_ok:
  assumes ok: "closed_ok h" and h: "h_state h = State_read_header"
  shows "fst (header_end h) = Pass_again \<and> http_ok (snd (header_end h)) \<and> h_chunks (snd (header_end h)) = h_chunks h"
proof -
  let ?h = "h\<lparr>h_headerSize := h_analysisIndex h\<rparr>"
  have "h_analysisIndex h \<le> length (h_data h)"
    using ok base_data [of h] by (auto simp: closed_ok_def base_ok_def)
  then obtain g where g: "decode_lines (h_lines ?h) ?h = Some g"
    using ok decode_lines_some [of ?h "h_analysisIndex h" "h_lines h"] by (auto simp: closed_ok_def)
  have q: "http_quiet ?h g" using decode_lines_quiet [OF g] .
  then have "closed_ok g" using ok by (simp add: closed_ok_def base_ok_def http_quiet_def h_data_def)
  then have "http_ok (switch_state g)"
    by (simp add: switch_state_def http_ok_def closed_ok_def base_ok_def)
  then show ?thesis using g q
    by (simp add: header_end_def decoderHeaderAndUpdateState_def http_quiet_def switch_state_def)
qed

lemma footer_end_ok:
  "closed_ok h \<Longrightarrow> fst (footer_end h) = Pass_return True \<and> http_ok (snd (footer_end h)) \<and> h_chunks (snd (footer_end h)) = h_chunks h"
  by (simp add: footer_end_def http_ok_def closed_ok_def base_ok_def)

text \<open>What a loop over lines may rely on from its last step.\<close>

definition finish_ok :: "http_state \<Rightarrow> (http_ctx \<Rightarrow> pass_result \<times> http_ctx) \<Rightarrow> bool" where
  "finish_ok st finish \<longleftrightarrow> (st = State_read_header \<or> st = State_read_chunk_footer)
     \<and> (\<forall>g. closed_ok g \<longrightarrow> h_state g = st \<longrightarrow> fst (finish g) \<noteq> Pass_undefined
         \<and> fst (finish g) \<noteq> Pass_return False \<and> http_ok (snd (finish g)) \<and> h_chunks (snd (finish g)) = h_chunks g
         \<and> (\<forall>b. fst (finish g) = Pass_return b \<longrightarrow> h_state (snd (finish g)) = State_done))"

lemma finish_ok_header: "finish_ok State_read_header header_end"
  by (auto simp: finish_ok_def dest: header_end_ok)

lemma finish_ok_footer: "finish_ok State_read_chunk_footer footer_end"
  by (auto simp: finish_ok_def dest: footer_end_ok) (simp add: footer_end_def)

lemma http_ok_open: "open_ok h \<Longrightarrow> h_state h = State_read_header \<or> h_state h = State_read_chunk_footer \<Longrightarrow> http_ok h"
  by (auto simp: http_ok_def)

definition loop_post :: "http_state \<Rightarrow> http_ctx \<Rightarrow> pass_result \<times> http_ctx \<Rightarrow> bool" where
  "loop_post st h r \<longleftrightarrow> fst r \<noteq> Pass_undefined \<and> http_ok (snd r) \<and> h_chunks (snd r) = h_chunks h
     \<and> (fst r = Pass_return False \<longrightarrow> h_state (snd r) = st \<and> h_analysisIndex (snd r) = h_nowIndex (snd r))
     \<and> (fst r = Pass_return True \<longrightarrow> h_state (snd r) = State_done \<or> h_state (snd r) = State_bad)"

lemma line_loop_ok:
  assumes fin: "finish_ok st finish"
  shows "open_ok h \<Longrightarrow> h_state h = st \<Longrightarrow> h_analysisIndex h < h_nowIndex h \<Longrightarrow> loop_post st h (line_loop finish h)"
proof (induction h rule: loop_induct)
  case (step h)
  let ?i = "h_analysisIndex h"
  have st: "st = State_read_header \<or> st = State_read_chunk_footer" using fin by (simp add: finish_ok_def)
  have len: "?i < length (h_data h)" using step.prems base_index [of h] by (simp add: open_ok_def)
  have cont: "loop_post st h (line_continue finish g)"
    if "open_ok g" "h_state g = st" "h_nowIndex g = h_nowIndex h" "h_analysisIndex g = Suc ?i" "h_chunks g = h_chunks h" for g
  proof (cases "Suc ?i < h_nowIndex h")
    case True
    then show ?thesis using step.IH [of g] that by (simp add: line_continue_def loop_post_def)
  next
    case False
    then show ?thesis using that st step.prems(3) http_ok_open [of g] by (auto simp: line_continue_def loop_post_def)
  qed
  show ?case
  proof (cases rule: loop_cases [of h])
    case out
    then show ?thesis using len by simp
  next
    case (feed e g)
    note g = line_feed_ok [OF step.prems(1,3) feed(2,3)]
    let ?g = "g\<lparr>h_analysisIndex := Suc ?i\<rparr>"
    have base: "base_ok ?g" using g step.prems(3) by (simp add: base_ok_def)
    show ?thesis
    proof (cases e)
      case Line_bad
      then show ?thesis using g line_loop_feed [OF feed] by (simp add: loop_post_def http_ok_def)
    next
      case Line_empty
      then have "closed_ok ?g" "h_state ?g = st" using g base step.prems(2) by (simp_all add: closed_ok_def)
      then have "loop_post st ?g (finish ?g)" using fin by (auto simp: finish_ok_def loop_post_def)
      then show ?thesis using g line_loop_feed [OF feed] Line_empty by (simp add: loop_post_def)
    next
      case Line_next
      then have "open_ok ?g" using g base by (simp add: open_ok_def base_ok_def)
      then show ?thesis using cont [of ?g] g step.prems(2) line_loop_feed [OF feed] Line_next by simp
    next
      case Line_undefined
      then show ?thesis using g by simp
    qed
  next
    case other
    let ?g = "h\<lparr>h_analysisIndex := Suc ?i\<rparr>"
    have "lines_open (h_data h) (Suc ?i) (h_lines h)"
      by (rule lines_open_keep [of _ ?i]) (use step.prems(1) in \<open>auto simp: open_ok_def\<close>)
    then have "open_ok ?g" using step.prems by (simp add: open_ok_def base_ok_def)
    then show ?thesis using cont [of ?g] step.prems(2) line_loop_other [OF other] by simp
  qed
qed

lemma chunk_digit_fields [simp]:
  "h_data (chunk_digit ch h) = h_data h" "h_lines (chunk_digit ch h) = h_lines h" "h_state (chunk_digit ch h) = h_state h"
  "h_chunks (chunk_digit ch h) = h_chunks h" "h_buffer (chunk_digit ch h) = h_buffer h"
  by (simp_all add: chunk_digit_def)

lemma chunk_feed_ok:
  assumes ok: "closed_ok h" and i: "h_analysisIndex h < h_nowIndex h"
  shows "loop_post State_read_chunk_header h (chunk_feed h)"
proof -
  let ?i = "h_analysisIndex h" and ?d = "h_data h" and ?d' = "(h_data h)[h_analysisIndex h - 1 := 0, h_analysisIndex h := 0]"
  have base: "base_ok h" and pos: "0 < ?i" and done_lines: "lines_done ?d ?i (h_lines h)" using ok by (simp_all add: closed_ok_def)
  have len: "?i < length ?d" using base i by (rule base_index)
  show ?thesis
  proof (cases "?d ! (?i - 1) = CR")
    case False
    then show ?thesis using base pos len by (simp add: chunk_feed_def loop_post_def http_ok_def base_ok_def)
  next
    case True
    have base': "base_ok (set_data ?d' h)" using base by (rule base_set_data) simp
    have "lines_done ?d' (Suc ?i) (h_lines h)"
      by (rule lines_done_keep [OF done_lines]) (use len in \<open>auto simp: nth_list_update\<close>)
    moreover have "?d' ! ?i = 0" using len by simp
    ultimately show ?thesis
      using True pos len base' i
      by (simp add: chunk_feed_def loop_post_def http_ok_def Let_def closed_ok_def open_ok_def base_ok_def lines_open_def)
  qed
qed

lemma chunk_loop_ok:
  "closed_ok h \<Longrightarrow> h_state h = State_read_chunk_header \<Longrightarrow> h_analysisIndex h < h_nowIndex h \<Longrightarrow>
   loop_post State_read_chunk_header h (chunk_loop h)"
proof (induction h rule: loop_induct)
  case (step h)
  let ?i = "h_analysisIndex h"
  have len: "?i < length (h_data h)" using step.prems base_index [of h] by (simp add: closed_ok_def)
  show ?case
  proof (cases "h_data h ! ?i = LF")
    case True
    then show ?thesis using chunk_feed_ok [OF step.prems(1,3)] len by (simp add: chunk_loop_feed)
  next
    case False
    let ?g = "(chunk_digit (h_data h ! ?i) h)\<lparr>h_analysisIndex := Suc ?i\<rparr>"
    have "lines_done (h_data h) (Suc ?i) (h_lines h)"
      by (rule lines_done_keep [of _ ?i]) (use step.prems(1) in \<open>auto simp: closed_ok_def\<close>)
    then have g: "closed_ok ?g" using step.prems by (simp add: closed_ok_def base_ok_def)
    show ?thesis
    proof (cases "Suc ?i < h_nowIndex h")
      case True
      then show ?thesis using step.IH [of ?g] g step.prems(2) chunk_loop_other [OF len False]
        by (simp add: chunk_continue_def loop_post_def)
    next
      case stop: False
      then show ?thesis using g step.prems chunk_loop_other [OF len False]
        by (simp add: chunk_continue_def loop_post_def http_ok_def)
    qed
  qed
qed

section \<open>\<open>analysis\<close>\<close>

lemma loop_post_return:
  assumes "loop_post st h r" and "st \<noteq> State_done" and "st \<noteq> State_bad"
  shows "fst r \<noteq> Pass_undefined \<and> http_ok (snd r)
    \<and> (\<forall>b. fst r = Pass_return b \<longrightarrow> b = (h_state (snd r) = State_done \<or> h_state (snd r) = State_bad))"
  using assms unfolding loop_post_def by (metis (full_types))

lemma analysis_pass_ok:
  assumes ok: "http_ok h" and i: "h_analysisIndex h < h_nowIndex h"
    and st: "h_state h \<noteq> State_done" "h_state h \<noteq> State_bad"
  shows "fst (analysis_pass h) \<noteq> Pass_undefined \<and> http_ok (snd (analysis_pass h))
    \<and> (\<forall>b. fst (analysis_pass h) = Pass_return b \<longrightarrow>
         b = (h_state (snd (analysis_pass h)) = State_done \<or> h_state (snd (analysis_pass h)) = State_bad))"
proof (cases "h_state h")
  case State_start
  then have base: "base_ok h" "h_analysisIndex h = 0" "h_lines h = []" using ok by (simp_all add: http_ok_def)
  then obtain c cs where d: "h_data h = c # cs" using base_index [of h 0] i by (cases "h_data h") auto
  show ?thesis using base d State_start i
    by (simp add: analysis_pass_def http_ok_def open_ok_def base_ok_def lines_open_def lines_done_def)
next
  case State_read_header
  then show ?thesis using loop_post_return [OF line_loop_ok [OF finish_ok_header, of h]] ok i
    by (simp add: analysis_pass_def http_ok_def)
next
  case State_read_body
  then show ?thesis using ok
    by (auto simp: analysis_pass_def http_ok_def closed_ok_def base_ok_def intro: lines_done_keep)
next
  case State_read_chunk_header
  then show ?thesis using loop_post_return [OF chunk_loop_ok [of h]] ok i by (simp add: analysis_pass_def http_ok_def)
next
  case State_read_chunk_body
  then show ?thesis using ok
    by (auto simp: analysis_pass_def http_ok_def closed_ok_def base_ok_def intro: lines_done_keep)
next
  case State_read_chunk_footer
  then show ?thesis using loop_post_return [OF line_loop_ok [OF finish_ok_footer, of h]] ok i
    by (simp add: analysis_pass_def http_ok_def)
qed (use st in simp_all)

lemma http_analysis_step:
  assumes "h_state h \<noteq> State_done" and "h_state h \<noteq> State_bad" and "h_analysisIndex h < h_nowIndex h"
  shows "http_analysis h = (case analysis_pass h of (Pass_again, h') \<Rightarrow> http_analysis h'
    | (Pass_return b, h') \<Rightarrow> (Some b, h') | (Pass_undefined, h') \<Rightarrow> (None, h'))"
  using assms by (simp add: http_analysis.simps [of h])

lemma http_analysis_stop:
  "h_state h = State_done \<or> h_state h = State_bad \<Longrightarrow> http_analysis h = (Some True, h)"
  "h_state h \<noteq> State_done \<Longrightarrow> h_state h \<noteq> State_bad \<Longrightarrow> h_nowIndex h \<le> h_analysisIndex h \<Longrightarrow> http_analysis h = (Some False, h)"
  by (simp_all add: http_analysis.simps [of h])

lemma analysis_induct [consumes 1, case_names stop wait again ret]:
  assumes ok: "http_ok h"
    and "\<And>h. http_ok h \<Longrightarrow> h_state h = State_done \<or> h_state h = State_bad \<Longrightarrow> P h"
    and "\<And>h. http_ok h \<Longrightarrow> h_state h \<noteq> State_done \<Longrightarrow> h_state h \<noteq> State_bad \<Longrightarrow> h_nowIndex h \<le> h_analysisIndex h \<Longrightarrow> P h"
    and "\<And>h g. http_ok h \<Longrightarrow> h_state h \<noteq> State_done \<Longrightarrow> h_state h \<noteq> State_bad \<Longrightarrow> h_analysisIndex h < h_nowIndex h \<Longrightarrow>
      analysis_pass h = (Pass_again, g) \<Longrightarrow> http_ok g \<Longrightarrow> P g \<Longrightarrow> P h"
    and "\<And>h g b. http_ok h \<Longrightarrow> h_state h \<noteq> State_done \<Longrightarrow> h_state h \<noteq> State_bad \<Longrightarrow> h_analysisIndex h < h_nowIndex h \<Longrightarrow>
      analysis_pass h = (Pass_return b, g) \<Longrightarrow> http_ok g \<Longrightarrow> b = (h_state g = State_done \<or> h_state g = State_bad) \<Longrightarrow> P h"
  shows "P h"
  using ok
proof (induction h rule: http_analysis.induct)
  case (1 h)
  show ?case
  proof (cases "h_state h = State_done \<or> h_state h = State_bad")
    case True
    then show ?thesis using assms(2) 1 by blast
  next
    case st: False
    show ?thesis
    proof (cases "h_nowIndex h \<le> h_analysisIndex h")
      case True
      then show ?thesis using assms(3) 1 st by blast
    next
      case False
      then have i: "h_analysisIndex h < h_nowIndex h" by simp
      obtain r g where r: "analysis_pass h = (r, g)" by fastforce
      have ok: "r \<noteq> Pass_undefined" "http_ok g" "\<forall>b. r = Pass_return b \<longrightarrow> b = (h_state g = State_done \<or> h_state g = State_bad)"
        using analysis_pass_ok [OF 1(2) i] st r by auto
      show ?thesis
      proof (cases r)
        case Pass_again
        then have "P g" using 1(1) [OF st False r [symmetric]] ok by simp
          show ?thesis
            by (rule assms(4) [OF 1(2) _ _ i, of g]) (use st r ok Pass_again \<open>P g\<close> in simp_all)
      next
        case (Pass_return b)
        show ?thesis
          by (rule assms(5) [OF 1(2) _ _ i, of b g]) (use st r ok Pass_return in simp_all)
      qed (use ok in simp)
    qed
  qed
qed

lemma http_analysis_ok:
  assumes "http_ok h"
  shows "fst (http_analysis h) \<noteq> None \<and> http_ok (snd (http_analysis h))
    \<and> (fst (http_analysis h) = Some True \<longleftrightarrow> h_state (snd (http_analysis h)) = State_done \<or> h_state (snd (http_analysis h)) = State_bad)"
  using assms
proof (induction rule: analysis_induct)
  case (ret h g b)
  then show ?case by (cases b) (simp_all add: http_analysis_step)
qed (simp_all add: http_analysis_stop http_analysis_step)

end
