(* ===== verification/Http_Stream.thy ===== *)
theory Http_Stream
  imports Http_Invariant
begin

text \<open>
  The analysis depends only on the bytes received so far: not on how they were cut into
  pieces, not on what the block holds behind them and not on its capacity.
\<close>

section \<open>Putting bytes behind the received ones\<close>

text \<open>
  The context with the bytes \<open>ys\<close> received in addition, in a block with another tail and of
  another capacity. With no \<open>ys\<close> it is what a resize makes of it, with the old tail it is
  what receiving makes of it.
\<close>

definition h_put :: "bytes \<Rightarrow> bytes \<Rightarrow> nat \<Rightarrow> nat \<Rightarrow> nat \<Rightarrow> http_ctx \<Rightarrow> http_ctx" where
  "h_put ys zs l ml mx h = h\<lparr>
     h_maxBufferSize := mx,
     h_buffer := \<lparr>b_data = Some (take (h_nowIndex h) (h_data h) @ ys @ zs), b_length = l, b_maxLength = ml\<rparr>,
     h_nowIndex := h_nowIndex h + length ys\<rparr>"

lemma h_put_fields [simp]:
  "h_data (h_put ys zs l ml mx h) = take (h_nowIndex h) (h_data h) @ ys @ zs"
  "h_nowIndex (h_put ys zs l ml mx h) = h_nowIndex h + length ys"
  "h_analysisIndex (h_put ys zs l ml mx h) = h_analysisIndex h"
  "h_state (h_put ys zs l ml mx h) = h_state h"
  "h_lines (h_put ys zs l ml mx h) = h_lines h"
  "h_headerSize (h_put ys zs l ml mx h) = h_headerSize h"
  "h_bKeepAlive (h_put ys zs l ml mx h) = h_bKeepAlive h"
  "h_bChunked (h_put ys zs l ml mx h) = h_bChunked h"
  "h_contentLength (h_put ys zs l ml mx h) = h_contentLength h"
  "h_nowChunkSize (h_put ys zs l ml mx h) = h_nowChunkSize h"
  "h_bChunkSizeStart (h_put ys zs l ml mx h) = h_bChunkSizeStart h"
  "h_bChunkSizeDone (h_put ys zs l ml mx h) = h_bChunkSizeDone h"
  "h_chunks (h_put ys zs l ml mx h) = h_chunks h"
  "h_maxBufferSize (h_put ys zs l ml mx h) = mx"
  "b_length (h_buffer (h_put ys zs l ml mx h)) = l"
  "b_maxLength (h_buffer (h_put ys zs l ml mx h)) = ml"
  by (simp_all add: h_put_def h_data_def)

lemma h_put_update:
  "(h_put ys zs l ml mx h)\<lparr>h_analysisIndex := n\<rparr> = h_put ys zs l ml mx (h\<lparr>h_analysisIndex := n\<rparr>)"
  "(h_put ys zs l ml mx h)\<lparr>h_state := st\<rparr> = h_put ys zs l ml mx (h\<lparr>h_state := st\<rparr>)"
  "(h_put ys zs l ml mx h)\<lparr>h_lines := ls\<rparr> = h_put ys zs l ml mx (h\<lparr>h_lines := ls\<rparr>)"
  "(h_put ys zs l ml mx h)\<lparr>h_headerSize := n\<rparr> = h_put ys zs l ml mx (h\<lparr>h_headerSize := n\<rparr>)"
  "(h_put ys zs l ml mx h)\<lparr>h_chunks := cs\<rparr> = h_put ys zs l ml mx (h\<lparr>h_chunks := cs\<rparr>)"
  "(h_put ys zs l ml mx h)\<lparr>h_bKeepAlive := f\<rparr> = h_put ys zs l ml mx (h\<lparr>h_bKeepAlive := f\<rparr>)"
  "(h_put ys zs l ml mx h)\<lparr>h_bChunked := f\<rparr> = h_put ys zs l ml mx (h\<lparr>h_bChunked := f\<rparr>)"
  "(h_put ys zs l ml mx h)\<lparr>h_contentLength := w\<rparr> = h_put ys zs l ml mx (h\<lparr>h_contentLength := w\<rparr>)"
  "(h_put ys zs l ml mx h)\<lparr>h_nowChunkSize := w\<rparr> = h_put ys zs l ml mx (h\<lparr>h_nowChunkSize := w\<rparr>)"
  "(h_put ys zs l ml mx h)\<lparr>h_bChunkSizeStart := f\<rparr> = h_put ys zs l ml mx (h\<lparr>h_bChunkSizeStart := f\<rparr>)"
  "(h_put ys zs l ml mx h)\<lparr>h_bChunkSizeDone := f\<rparr> = h_put ys zs l ml mx (h\<lparr>h_bChunkSizeDone := f\<rparr>)"
  by (simp_all add: h_put_def h_data_def)

lemma h_put_set_data:
  "length d = length (h_data h) \<Longrightarrow> h_nowIndex h \<le> length (h_data h) \<Longrightarrow>
   set_data (take (h_nowIndex h) d @ ys @ zs) (h_put ys zs l ml mx h) = h_put ys zs l ml mx (set_data d h)"
  by (simp add: h_put_def set_data_def h_data_def)

lemma base_now: "base_ok h \<Longrightarrow> h_nowIndex h \<le> length (h_data h)"
  using base_data [of h] by (auto simp: base_ok_def)

lemma h_put_nth: "base_ok h \<Longrightarrow> i < h_nowIndex h \<Longrightarrow> h_data (h_put ys zs l ml mx h) ! i = h_data h ! i"
  using base_now [of h] by (simp add: nth_append)

lemma h_put_zero:
  assumes "base_ok h" and "h_analysisIndex h < h_nowIndex h"
  shows "set_data ((h_data (h_put ys zs l ml mx h))[h_analysisIndex h - 1 := 0, h_analysisIndex h := 0]) (h_put ys zs l ml mx h)
    = h_put ys zs l ml mx (set_data ((h_data h)[h_analysisIndex h - 1 := 0, h_analysisIndex h := 0]) h)"
proof -
  have "(h_data (h_put ys zs l ml mx h))[h_analysisIndex h - 1 := 0, h_analysisIndex h := 0]
      = take (h_nowIndex h) ((h_data h)[h_analysisIndex h - 1 := 0, h_analysisIndex h := 0]) @ ys @ zs"
    using assms(2) base_now [OF assms(1)]
    by (simp add: list_update_append take_update_swap less_imp_diff_less)
  then show ?thesis using base_now [OF assms(1)] by (simp only: h_put_set_data length_list_update)
qed

section \<open>The steps of the analysis ignore what is behind\<close>

lemma line_feed_put:
  assumes ok: "open_ok h" and i: "h_analysisIndex h < h_nowIndex h" and lf: "h_data h ! h_analysisIndex h = LF"
  shows "line_feed (h_put ys zs l ml mx h) = apsnd (h_put ys zs l ml mx) (line_feed h)"
proof -
  have base: "base_ok h" using ok by (simp add: open_ok_def)
  have len: "h_analysisIndex h < length (h_data h)" using base i by (rule base_index)
  have pos: "h_analysisIndex h \<noteq> 0" using ok lf by (cases "h_analysisIndex h = 0") (simp_all add: open_ok_def)
  have prev: "h_data (h_put ys zs l ml mx h) ! (h_analysisIndex h - 1) = h_data h ! (h_analysisIndex h - 1)"
    using h_put_nth [OF base, of "h_analysisIndex h - 1"] i by simp
  have len': "h_analysisIndex h < length (h_data (h_put ys zs l ml mx h))" using i base_now [OF base] by simp
  show ?thesis
    unfolding line_feed_def Let_def h_put_fields(3,5)
    using pos len len' by (simp only: prev h_put_zero [OF base i]) (simp add: h_put_update del: h_put_fields(1))
qed

lemma kvDecoder_put: "kvDecoder n v (h_put ys zs l ml mx h) = h_put ys zs l ml mx (kvDecoder n v h)"
  by (simp add: kvDecoder_def h_put_update)

lemma decode_line_put:
  assumes "base_ok h" and "f + n < h_nowIndex h"
  shows "decode_line (h_data (h_put ys zs l ml mx h)) f n = decode_line (h_data h) f n"
proof -
  have "take n (drop f (h_data (h_put ys zs l ml mx h))) = take n (drop f (h_data h))"
    using assms base_now [of h] by (simp add: take_drop min_def)
  moreover have "f + n < length (h_data h)" using assms base_now [of h] by simp
  moreover have "f + n < length (h_data (h_put ys zs l ml mx h))" using assms base_now [of h] by simp
  ultimately show ?thesis using assms h_put_nth [OF assms, of ys zs l ml mx]
    by (simp only: decode_line_def)
qed

lemma quiet_data: "http_quiet h g \<Longrightarrow> h_data g = h_data h \<and> h_headerSize g = h_headerSize h \<and> h_nowIndex g = h_nowIndex h"
  by (simp add: http_quiet_def h_data_def)

lemma decode_lines_put:
  assumes "base_ok h" and "lines_done (h_data h) (h_nowIndex h) ls"
  shows "decode_lines ls (h_put ys zs l ml mx h) = map_option (h_put ys zs l ml mx) (decode_lines ls h)"
  using assms
proof (induction ls arbitrary: h)
  case (Cons x ls)
  obtain f len where x: "x = (f, len)" by fastforce
  obtain n where n: "len = Some n" "f + n < h_nowIndex h" using Cons.prems by (cases len) (auto simp: lines_done_def x)
  have rest: "decode_lines ls (h_put ys zs l ml mx g) = map_option (h_put ys zs l ml mx) (decode_lines ls g)"
    if "http_quiet h g" for g
    by (rule Cons.IH) (use Cons.prems that in \<open>auto simp: base_ok_def http_quiet_def lines_done_def h_data_def\<close>)
  show ?case
    using decode_line_put [OF Cons.prems(1) n(2), of ys zs l ml mx] rest [OF http_quiet_refl] rest [OF kvDecoder_quiet(1)]
    by (auto simp: x n kvDecoder_put simp del: h_put_fields(1) split: option.splits prod.splits)
qed simp

lemma switch_state_put: "switch_state (h_put ys zs l ml mx h) = h_put ys zs l ml mx (switch_state h)"
  by (simp add: switch_state_def h_put_update)

definition finish_put :: "http_state \<Rightarrow> (http_ctx \<Rightarrow> pass_result \<times> http_ctx) \<Rightarrow> bool" where
  "finish_put st finish \<longleftrightarrow> finish_ok st finish \<and> (\<forall>ys zs l ml mx g. closed_ok g \<longrightarrow> h_state g = st \<longrightarrow>
     finish (h_put ys zs l ml mx g) = apsnd (h_put ys zs l ml mx) (finish g))"

lemma header_end_put:
  assumes "closed_ok h"
  shows "header_end (h_put ys zs l ml mx h) = apsnd (h_put ys zs l ml mx) (header_end h)"
proof -
  let ?h = "h\<lparr>h_headerSize := h_analysisIndex h\<rparr>"
  have "base_ok ?h" "lines_done (h_data ?h) (h_nowIndex ?h) (h_lines h)"
    using assms by (auto simp: closed_ok_def base_ok_def intro: lines_done_keep)
  then show ?thesis
    using decode_lines_put [of ?h "h_lines h" ys zs l ml mx]
    by (auto simp: header_end_def decoderHeaderAndUpdateState_def h_put_update switch_state_put split: option.splits)
qed

lemma finish_put_ends: "finish_put State_read_header header_end" "finish_put State_read_chunk_footer footer_end"
  by (auto simp: finish_put_def finish_ok_header finish_ok_footer header_end_put footer_end_def h_put_update)

text \<open>
  What a loop does with more bytes, or another block: the same, except that where it had to wait
  it goes on.
\<close>

definition put_result ::
  "(http_ctx \<Rightarrow> http_ctx) \<Rightarrow> (http_ctx \<Rightarrow> pass_result \<times> http_ctx) \<Rightarrow> pass_result \<times> http_ctx \<Rightarrow> pass_result \<times> http_ctx"
where
  "put_result p continue r = (if fst r = Pass_return False then continue (p (snd r)) else apsnd p r)"

lemma line_loop_put:
  assumes fin: "finish_put st finish"
  shows "open_ok h \<Longrightarrow> h_state h = st \<Longrightarrow> h_analysisIndex h < h_nowIndex h \<Longrightarrow>
    line_loop finish (h_put ys zs l ml mx h)
      = put_result (h_put ys zs l ml mx) (line_continue finish) (line_loop finish h)"
proof (induction h rule: loop_induct)
  case (step h)
  let ?i = "h_analysisIndex h" and ?p = "h_put ys zs l ml mx"
  have base: "base_ok h" using step.prems(1) by (simp add: open_ok_def)
  have len: "?i < length (h_data h)" using base_index [OF base] step.prems(3) by simp
  have len': "?i < length (h_data (?p h))" using base_now [OF base] step.prems(3) by simp
  have nth: "h_data (?p h) ! ?i = h_data h ! ?i" by (rule h_put_nth [OF base step.prems(3)])
  have cont: "line_continue finish (?p g) = put_result ?p (line_continue finish) (line_continue finish g)"
    if "open_ok g" "h_state g = st" "h_nowIndex g = h_nowIndex h" "h_analysisIndex g = Suc ?i" for g
  proof (cases "Suc ?i < h_nowIndex h")
    case True
    then show ?thesis using step.IH [of g] that by (simp add: line_continue_def [of finish "?p g"] line_continue_def [of finish g])
  next
    case False
    then show ?thesis using that by (simp add: put_result_def line_continue_def [of finish g])
  qed
  show ?case
  proof (cases rule: loop_cases [of h])
    case out
    then show ?thesis using len by simp
  next
    case (feed e g)
    note g = line_feed_ok [OF step.prems(1,3) feed(2,3)]
    let ?g = "g\<lparr>h_analysisIndex := Suc ?i\<rparr>"
    have base': "base_ok ?g" using g step.prems(3) by (simp add: base_ok_def)
    have lf: "line_feed (?p h) = (e, ?p g)" using line_feed_put [OF step.prems(1,3) feed(2)] feed(3) by simp
    have lf': "h_data (?p h) ! h_analysisIndex (?p h) = LF" using nth feed(2) by simp
    have len'': "h_analysisIndex (?p h) < length (h_data (?p h))" using len' by simp
    note run = line_loop_feed [OF len'' lf' lf, of finish] line_loop_feed [OF feed, of finish]
    show ?thesis
    proof (cases e)
      case Line_bad
      then show ?thesis using run by (simp add: put_result_def)
    next
      case Line_empty
      then have c: "closed_ok ?g" "h_state ?g = st" using g base' step.prems(2) by (simp_all add: closed_ok_def)
      then have "finish (?p ?g) = apsnd ?p (finish ?g)" "fst (finish ?g) \<noteq> Pass_return False"
        using fin by (auto simp: finish_put_def finish_ok_def)
      then show ?thesis using run Line_empty by (simp add: put_result_def h_put_update)
    next
      case Line_next
      then have "open_ok ?g" using g base' by (simp add: open_ok_def base_ok_def)
      then show ?thesis using cont [of ?g] g step.prems(2) run Line_next by (simp add: h_put_update)
    next
      case Line_undefined
      then show ?thesis using g by simp
    qed
  next
    case other
    let ?g = "h\<lparr>h_analysisIndex := Suc ?i\<rparr>"
    have "lines_open (h_data h) (Suc ?i) (h_lines h)"
      by (rule lines_open_keep [of _ ?i]) (use step.prems(1) in \<open>auto simp: open_ok_def\<close>)
    then have "open_ok ?g" using step.prems by (simp add: open_ok_def base_ok_def)
    moreover have "line_loop finish (?p h) = line_continue finish (?p ?g)"
      using line_loop_other [of "?p h"] len' nth other(2) by (simp add: h_put_update)
    ultimately show ?thesis using cont [of ?g] step.prems(2) line_loop_other [OF other] by simp
  qed
qed

lemma chunk_digit_put: "chunk_digit ch (h_put ys zs l ml mx h) = h_put ys zs l ml mx (chunk_digit ch h)"
  by (simp add: chunk_digit_def h_put_update)

lemma chunk_feed_put:
  assumes "closed_ok h" and i: "h_analysisIndex h < h_nowIndex h"
  shows "chunk_feed (h_put ys zs l ml mx h) = apsnd (h_put ys zs l ml mx) (chunk_feed h)"
proof -
  have base: "base_ok h" and pos: "h_analysisIndex h \<noteq> 0" using assms(1) by (simp_all add: closed_ok_def)
  have len: "h_analysisIndex h < length (h_data h)" using base i by (rule base_index)
  have prev: "h_data (h_put ys zs l ml mx h) ! (h_analysisIndex h - 1) = h_data h ! (h_analysisIndex h - 1)"
    using h_put_nth [OF base, of "h_analysisIndex h - 1"] i by simp
  have len': "h_analysisIndex h < length (h_data (h_put ys zs l ml mx h))" using i base_now [OF base] by simp
  show ?thesis
    unfolding chunk_feed_def Let_def h_put_fields(3)
    using pos len len' by (simp only: prev h_put_zero [OF base i]) (simp add: h_put_update del: h_put_fields(1))
qed

lemma chunk_loop_put:
  "closed_ok h \<Longrightarrow> h_state h = State_read_chunk_header \<Longrightarrow> h_analysisIndex h < h_nowIndex h \<Longrightarrow>
    chunk_loop (h_put ys zs l ml mx h) = put_result (h_put ys zs l ml mx) chunk_continue (chunk_loop h)"
proof (induction h rule: loop_induct)
  case (step h)
  let ?i = "h_analysisIndex h" and ?p = "h_put ys zs l ml mx"
  have base: "base_ok h" using step.prems(1) by (simp add: closed_ok_def)
  have len: "?i < length (h_data h)" using base_index [OF base] step.prems(3) by simp
  have len': "?i < length (h_data (?p h))" using base_now [OF base] step.prems(3) by simp
  have nth: "h_data (?p h) ! ?i = h_data h ! ?i" by (rule h_put_nth [OF base step.prems(3)])
  show ?case
  proof (cases "h_data h ! ?i = LF")
    case True
    have "fst (chunk_feed h) \<noteq> Pass_return False"
      by (simp add: chunk_feed_def Let_def)
    then show ?thesis
      using True nth len len' chunk_feed_put [OF step.prems(1,3), of ys zs l ml mx] chunk_loop_feed [of "?p h"] chunk_loop_feed [of h]
      by (simp add: put_result_def)
  next
    case False
    let ?g = "(chunk_digit (h_data h ! ?i) h)\<lparr>h_analysisIndex := Suc ?i\<rparr>"
    have "lines_done (h_data h) (Suc ?i) (h_lines h)"
      by (rule lines_done_keep [of _ ?i]) (use step.prems(1) in \<open>auto simp: closed_ok_def\<close>)
    then have g: "closed_ok ?g" using step.prems by (simp add: closed_ok_def base_ok_def)
    have run: "chunk_loop (?p h) = chunk_continue (?p ?g)" "chunk_loop h = chunk_continue ?g"
      using chunk_loop_other [of "?p h"] chunk_loop_other [of h] len len' nth False by (simp_all add: chunk_digit_put h_put_update)
    show ?thesis
    proof (cases "Suc ?i < h_nowIndex h")
      case True
      then show ?thesis using step.IH [of ?g] g step.prems(2) run
        by (simp add: chunk_continue_def [of "?p ?g"] chunk_continue_def [of ?g])
    next
      case stop: False
      then show ?thesis using run by (simp add: put_result_def chunk_continue_def [of ?g])
    qed
  qed
qed

section \<open>\<open>analysis\<close> ignores what is behind\<close>

lemma http_continue:
  assumes "h_state g = st" and "st \<noteq> State_done" and "st \<noteq> State_bad"
    and "analysis_pass h = (if h_analysisIndex g < h_nowIndex g then analysis_pass g else (Pass_return False, g))"
    and "h_state h = st" and "h_analysisIndex h < h_nowIndex h"
  shows "http_analysis h = http_analysis g"
  using assms by (cases "h_analysisIndex g < h_nowIndex g") (simp_all add: http_analysis_step http_analysis_stop)

lemma analysis_pass_put:
  assumes ok: "http_ok h" and i: "h_analysisIndex h < h_nowIndex h"
    and st: "h_state h \<noteq> State_done" "h_state h \<noteq> State_bad" and p: "p = h_put ys zs l ml mx"
  shows "(fst (analysis_pass h) \<noteq> Pass_return False \<longrightarrow> analysis_pass (p h) = apsnd p (analysis_pass h))
    \<and> (fst (analysis_pass h) = Pass_return False \<longrightarrow> http_analysis (p h) = http_analysis (p (snd (analysis_pass h))))"
proof -
  have lines: ?thesis if fin: "finish_put st finish" and h: "h_state h = st"
    and pass: "\<And>g. h_state g = st \<Longrightarrow> analysis_pass g = line_loop finish g" for st finish
  proof -
    have open_h: "open_ok h" and st': "st \<noteq> State_done" "st \<noteq> State_bad"
      using fin h ok by (auto simp: finish_put_def finish_ok_def http_ok_def)
    have post: "loop_post st h (line_loop finish h)"
      using line_loop_ok [of st finish h] fin open_h h i by (simp add: finish_put_def)
    have run: "analysis_pass (p h) = put_result p (line_continue finish) (analysis_pass h)"
      using line_loop_put [OF fin open_h h i, of ys zs l ml mx] pass h by (simp add: p)
    show ?thesis
    proof (cases "fst (analysis_pass h) = Pass_return False")
      case True
      let ?g = "snd (analysis_pass h)"
      have "h_state ?g = st" using post True pass [OF h] by (simp add: loop_post_def)
      then have "http_analysis (p h) = http_analysis (p ?g)"
        by (intro http_continue [of "p ?g" st "p h"])
           (use True run pass h st' i in \<open>simp_all add: put_result_def line_continue_def p\<close>)
      then show ?thesis using True by simp
    qed (use run in \<open>simp add: put_result_def\<close>)
  qed
  show ?thesis
  proof (cases "h_state h")
    case State_start
    then have "base_ok h" "h_analysisIndex h = 0" using ok by (simp_all add: http_ok_def)
    then obtain c cs where d: "h_data h = c # cs" and n: "h_nowIndex h = Suc (h_nowIndex h - 1)"
      using base_index [of h 0] i by (cases "h_data h") auto
    have "h_data (p h) = c # (take (h_nowIndex h - 1) cs @ ys @ zs)" using d n by (simp add: p) (metis append_Cons take_Suc_Cons)
    then show ?thesis using State_start d \<open>h_analysisIndex h = 0\<close> by (simp add: analysis_pass_def p h_put_update)
  next
    case State_read_header
    then show ?thesis using lines [OF finish_put_ends(1)] by (simp add: analysis_pass_def)
  next
    case State_read_body
    then show ?thesis using i by (auto simp: analysis_pass_def p h_put_update)
  next
    case State_read_chunk_header
    then have "closed_ok h" using ok by (simp add: http_ok_def)
    have post: "loop_post State_read_chunk_header h (chunk_loop h)"
      and run: "chunk_loop (p h) = put_result p chunk_continue (chunk_loop h)"
      using chunk_loop_ok [of h] chunk_loop_put [of h] State_read_chunk_header \<open>closed_ok h\<close> i by (simp_all add: p)
    have pass: "h_state g = State_read_chunk_header \<Longrightarrow> analysis_pass g = chunk_loop g" for g by (simp add: analysis_pass_def)
    show ?thesis
    proof (cases "fst (chunk_loop h) = Pass_return False")
      case True
      let ?g = "snd (chunk_loop h)"
      have "h_state ?g = State_read_chunk_header" using post True by (simp add: loop_post_def)
      then have "http_analysis (p h) = http_analysis (p ?g)"
        by (intro http_continue [of "p ?g" State_read_chunk_header "p h"])
           (use True run pass State_read_chunk_header i in \<open>simp_all add: put_result_def chunk_continue_def p\<close>)
      then show ?thesis using True pass State_read_chunk_header by simp
    qed (use run pass State_read_chunk_header in \<open>simp add: put_result_def p\<close>)
  next
    case State_read_chunk_body
    then show ?thesis using i by (auto simp: analysis_pass_def p h_put_update)
  next
    case State_read_chunk_footer
    then show ?thesis using lines [OF finish_put_ends(2)] by (simp add: analysis_pass_def)
  qed (use st in simp_all)
qed

lemma http_analysis_put:
  assumes "http_ok h" and p: "p = h_put ys zs l ml mx"
  shows "http_analysis (p h) = http_analysis (p (snd (http_analysis h)))
    \<and> (fst (http_analysis h) = Some True \<longrightarrow> http_analysis (p h) = apsnd p (http_analysis h))"
  using assms(1)
proof (induction rule: analysis_induct)
  case (again h g)
  have "analysis_pass (p h) = (Pass_again, p g)"
    using analysis_pass_put [OF again(1,4,2,3) p] again(5) by simp
  moreover have "h_state (p h) = h_state h" "h_analysisIndex (p h) < h_nowIndex (p h)" using again(4) by (simp_all add: p)
  ultimately have "http_analysis (p h) = http_analysis (p g)" using again(2,3) by (simp add: http_analysis_step)
  moreover have "http_analysis h = http_analysis g" using again(2-5) by (simp add: http_analysis_step)
  ultimately show ?case using again(7) by metis
next
  case (ret h g b)
  note put = analysis_pass_put [OF ret(1,4,2,3) p]
  show ?case
  proof (cases b)
    case True
    then have "analysis_pass (p h) = (Pass_return True, p g)" using put ret(5) by simp
    then show ?thesis using ret True by (simp add: http_analysis_step http_analysis_stop p)
  next
    case False
    then show ?thesis using put ret(2-5) by (simp add: http_analysis_step)
  qed
qed (simp_all add: http_analysis_stop p)

lemma http_analysis_now: "http_ok h \<Longrightarrow> h_nowIndex (snd (http_analysis h)) = h_nowIndex h"
proof (induction rule: analysis_induct)
  case (again h g)
  then show ?case using analysis_pass_progress [of h g] by (simp add: http_analysis_step)
next
  case (ret h g b)
  have "h_nowIndex g = h_nowIndex h"
    using ret(2,3,5) line_loop_index [OF finish_keeps_ends(1), of h] line_loop_index [OF finish_keeps_ends(2), of h] chunk_loop_index [of h]
    by (cases "h_state h") (auto simp: analysis_pass_def split: if_splits list.splits)
  then show ?case using ret by (simp add: http_analysis_step)
qed (simp_all add: http_analysis_stop)

section \<open>Waiting for more\<close>

definition http_waits :: "http_ctx \<Rightarrow> bool" where
  "http_waits h \<longleftrightarrow> h_state h \<noteq> State_done \<and> h_state h \<noteq> State_bad
     \<and> (h_nowIndex h \<le> h_analysisIndex h
        \<or> h_state h = State_read_body \<and> h_nowIndex h - h_analysisIndex h < unat (h_contentLength h)
        \<or> h_state h = State_read_chunk_body \<and> h_nowIndex h - h_analysisIndex h < unat (h_nowChunkSize h + 2))"

lemma http_waits_analysis: "http_waits h \<Longrightarrow> http_analysis h = (Some False, h)"
  by (cases "h_nowIndex h \<le> h_analysisIndex h")
     (auto simp: http_waits_def http_analysis_stop http_analysis_step analysis_pass_def)

lemma loop_post_waits:
  "loop_post st h r \<Longrightarrow> st \<noteq> State_done \<Longrightarrow> st \<noteq> State_bad \<Longrightarrow> fst r = Pass_return False \<Longrightarrow> http_waits (snd r)"
  by (simp add: loop_post_def http_waits_def)

lemma analysis_pass_waits:
  assumes "http_ok h" and "h_analysisIndex h < h_nowIndex h"
    and "h_state h \<noteq> State_done" "h_state h \<noteq> State_bad" and r: "analysis_pass h = (Pass_return False, g)"
  shows "http_waits g"
proof (cases "h_state h")
  case State_read_header
  then show ?thesis using assms loop_post_waits [OF line_loop_ok [OF finish_ok_header, of h]]
    by (simp add: analysis_pass_def http_ok_def)
next
  case State_read_chunk_footer
  then show ?thesis using assms loop_post_waits [OF line_loop_ok [OF finish_ok_footer, of h]]
    by (simp add: analysis_pass_def http_ok_def)
next
  case State_read_chunk_header
  then show ?thesis using assms loop_post_waits [OF chunk_loop_ok [of h]] by (simp add: analysis_pass_def http_ok_def)
qed (use assms in \<open>auto simp: analysis_pass_def http_waits_def split: if_splits list.splits\<close>)

lemma http_analysis_waits: "http_ok h \<Longrightarrow> fst (http_analysis h) = Some False \<Longrightarrow> http_waits (snd (http_analysis h))"
proof (induction rule: analysis_induct)
  case (wait h)
  then show ?case by (simp add: http_analysis_stop http_waits_def)
next
  case (ret h g b)
  then show ?case using analysis_pass_waits [of h g] by (cases b) (simp_all add: http_analysis_step)
qed (simp_all add: http_analysis_stop http_analysis_step)

section \<open>The view of a context\<close>

text \<open>What is left when the block behind the received bytes and the capacities are forgotten.\<close>

definition http_view :: "http_ctx \<Rightarrow> http_ctx" where
  "http_view h = h_put [] [] 0 0 0 h"

text \<open>The view with more bytes received.\<close>

definition http_see :: "bytes \<Rightarrow> http_ctx \<Rightarrow> http_ctx" where
  "http_see ys h = h_put ys [] 0 0 0 h"

lemma http_view_fun: "http_view = h_put [] [] 0 0 0"
  by (rule ext) (simp add: http_view_def)

lemma http_see_fun: "http_see ys = h_put ys [] 0 0 0"
  by (rule ext) (simp add: http_see_def)

lemma http_see_put: "h_nowIndex h \<le> length (h_data h) \<Longrightarrow> http_see ys (h_put xs zs l ml mx h) = http_see (xs @ ys) h"
  by (simp add: http_see_def h_put_def h_data_def)

lemma http_see_view: "h_nowIndex h \<le> length (h_data h) \<Longrightarrow> http_see ys (http_view h) = http_see ys h"
  by (simp add: http_see_def http_view_def h_put_def h_data_def)

lemma http_view_put: "h_nowIndex h \<le> length (h_data h) \<Longrightarrow> http_view (h_put ys zs l ml mx h) = http_see ys h"
  by (simp add: http_see_def http_view_def h_put_def h_data_def)

lemma http_view_analysis:
  assumes "http_ok h"
  shows "http_analysis (http_view h) = apsnd http_view (http_analysis h)"
proof (cases "fst (http_analysis h) = Some True")
  case True
  then show ?thesis using http_analysis_put [OF assms http_view_fun] by blast
next
  case False
  let ?g = "snd (http_analysis h)"
  have r: "fst (http_analysis h) = Some False" using http_analysis_ok [OF assms] False by (cases "fst (http_analysis h)") auto
  have "http_waits (http_view ?g)"
    using http_analysis_waits [OF assms r] by (simp add: http_waits_def http_view_def)
  then have "http_analysis (http_view ?g) = (Some False, http_view ?g)" by (rule http_waits_analysis)
  moreover have "http_analysis (http_view h) = http_analysis (http_view ?g)"
    using http_analysis_put [OF assms http_view_fun] by blast
  ultimately show ?thesis using r by (cases "http_analysis h") simp
qed

lemma http_see_analysis:
  assumes "http_ok h"
  shows "http_analysis (http_see ys h) = http_analysis (http_see ys (snd (http_analysis h)))"
  using http_analysis_put [OF assms http_see_fun, of ys] by blast

section \<open>Receiving keeps the invariant\<close>

lemma http_ok_put:
  assumes ok: "http_ok h" and fit: "h_nowIndex h + length ys + length zs = ml" "h_nowIndex h + length ys \<le> l" "l \<le> ml" "0 < ml"
  shows "http_ok (h_put ys zs l ml mx h)"
proof -
  let ?p = "h_put ys zs l ml mx"
  note base = http_ok_base [OF ok]
  have base': "base_ok (?p h)" using base fit base_now [OF base]
    by (auto simp: base_ok_def buf_ok_def h_put_def h_data_def)
  have zero: "k < h_nowIndex h \<Longrightarrow> h_data h ! k = 0 \<Longrightarrow> h_data (?p h) ! k = 0" for k
    using h_put_nth [OF base] by simp
  have idx: "h_analysisIndex h \<le> h_nowIndex h" using base by (simp add: base_ok_def)
  have zero': "k < h_analysisIndex h \<Longrightarrow> h_data h ! k = 0 \<Longrightarrow> h_data (?p h) ! k = 0" for k
    using zero [of k] idx by simp
  have o: "open_ok h \<Longrightarrow> open_ok (?p h)"
    unfolding open_ok_def using base' h_put_nth [OF base, of 0 ys zs l ml mx]
    by (auto simp del: h_put_fields(1) intro!: lines_open_keep [OF _ order.refl zero'])
  have c: "closed_ok h \<Longrightarrow> closed_ok (?p h)"
    unfolding closed_ok_def using base'
    by (auto simp del: h_put_fields(1) intro!: lines_done_keep [OF _ order.refl zero'])
  show ?thesis using ok o c base' by (cases "h_state h") (simp_all add: http_ok_def)
qed

lemma http_feed_put:
  assumes "http_ok h" and "h_nowIndex h + length bs \<le> b_length (h_buffer h)"
  shows "http_feed bs h = h_put bs (drop (h_nowIndex h + length bs) (h_data h)) (b_length (h_buffer h))
    (b_maxLength (h_buffer h)) (h_maxBufferSize h) h"
  using assms(2) by (simp add: http_feed_def http_write_def recvPush_def set_data_def h_put_def)

lemma http_feed_ok:
  assumes "http_ok h" and "h_nowIndex h + length bs \<le> b_length (h_buffer h)"
  shows "http_ok (http_feed bs h)"
proof -
  have "b_length (h_buffer h) \<le> b_maxLength (h_buffer h)" "0 < b_maxLength (h_buffer h)"
    using http_ok_base [OF assms(1)] by (auto simp: base_ok_def buf_ok_def split: option.splits)
  then show ?thesis
    unfolding http_feed_put [OF assms]
    by (intro http_ok_put assms) (use assms(2) base_data [OF http_ok_base [OF assms(1)]] in auto)
qed

text \<open>The analysis leaves the capacities and what lies behind the received bytes alone.\<close>

lemma h_put_same:
  assumes "base_ok h"
  shows "h_put [] (drop (h_nowIndex h) (h_data h)) (b_length (h_buffer h)) (b_maxLength (h_buffer h)) (h_maxBufferSize h) h = h"
  using assms by (cases "b_data (h_buffer h)") (auto simp: h_put_def h_data_def base_ok_def)

lemma http_analysis_room:
  assumes ok: "http_ok h"
  shows "b_length (h_buffer (snd (http_analysis h))) = b_length (h_buffer h)
    \<and> b_maxLength (h_buffer (snd (http_analysis h))) = b_maxLength (h_buffer h)
    \<and> h_maxBufferSize (snd (http_analysis h)) = h_maxBufferSize h"
proof -
  let ?g = "snd (http_analysis h)"
  let ?p = "h_put [] (drop (h_nowIndex h) (h_data h)) (b_length (h_buffer h)) (b_maxLength (h_buffer h)) (h_maxBufferSize h)"
  have same: "?p h = h" by (rule h_put_same [OF http_ok_base [OF ok]])
  note put = http_analysis_put [OF ok, of ?p, OF refl, unfolded same]
  have "?g = ?p ?g"
  proof (cases "fst (http_analysis h) = Some True")
    case True
    then have "http_analysis h = apsnd ?p (http_analysis h)" using put by blast
    then show ?thesis by (metis snd_apsnd)
  next
    case False
    then have r: "fst (http_analysis h) = Some False" using http_analysis_ok [OF ok] by (cases "fst (http_analysis h)") auto
    have "http_waits (?p ?g)" using http_analysis_waits [OF ok r] by (simp add: http_waits_def)
    then have "http_analysis (?p ?g) = (Some False, ?p ?g)" by (rule http_waits_analysis)
    then show ?thesis using put by (metis snd_conv)
  qed
  then show ?thesis by (metis h_put_fields(14-16))
qed

section \<open>Preparing the buffer\<close>

text \<open>Between messages of the owner: not yet allocated, or a buffer within the maximum.\<close>

definition room_ok :: "http_ctx \<Rightarrow> bool" where
  "room_ok h \<longleftrightarrow> 0x1000 \<le> b_length (h_buffer h) \<and> b_maxLength (h_buffer h) \<le> h_maxBufferSize h"

definition http_ready :: "http_ctx \<Rightarrow> bool" where
  "http_ready h \<longleftrightarrow> h_buffer h = buf_empty \<or> http_ok h \<and> room_ok h"

definition http_begin :: http_ctx where
  "http_begin = \<lparr>h_maxBufferSize = 0, h_buffer = \<lparr>b_data = Some [], b_length = 0, b_maxLength = 0\<rparr>,
     h_nowIndex = 0, h_analysisIndex = 0, h_state = State_start, h_lines = [], h_headerSize = 0,
     h_bKeepAlive = False, h_bChunked = False, h_contentLength = 0, h_nowChunkSize = 0,
     h_bChunkSizeStart = False, h_bChunkSizeDone = False, h_chunks = []\<rparr>"

text \<open>What has been received, also of a context that has no block yet.\<close>

definition http_seen :: "http_ctx \<Rightarrow> http_ctx" where
  "http_seen h = (if h_buffer h = buf_empty then http_begin else http_view h)"

lemma base_not_empty: "base_ok h \<Longrightarrow> h_buffer h \<noteq> buf_empty \<and> b_maxLength (h_buffer h) \<noteq> 0"
  by (auto simp: base_ok_def buf_ok_def buf_empty_def)

lemma http_init_ready:
  assumes "http_ready h" and res: "http_init mem fresh h live = (r, g, live')"
  shows "r \<noteq> Buf_undefined \<and> live' - buf_held (h_buffer g) = live - buf_held (h_buffer h)
    \<and> (r = Buf_throw \<longrightarrow> \<not> mem \<and> h_buffer g = buf_empty)
    \<and> (r = Buf_ok \<longrightarrow> http_ok g \<and> room_ok g \<and> http_view g = http_seen h)"
proof (cases "h_buffer h = buf_empty")
  case True
  then show ?thesis using res
    by (cases mem) (auto simp: http_init_def buf_resize_def buf_defs http_ok_def base_ok_def room_ok_def
        http_seen_def http_view_def http_begin_def h_put_def Let_def split: if_splits)
next
  case False
  then have ok: "http_ok h" "room_ok h" using assms(1) by (simp_all add: http_ready_def)
  then show ?thesis using res False base_not_empty [OF http_ok_base [OF ok(1)]] by (auto simp: http_init_def http_seen_def)
qed

lemma resize_put:
  assumes ok: "http_ok h" and n: "h_nowIndex h \<le> n" "0 < n"
    and res: "buf_resize mem fresh n (h_nowIndex h) (h_buffer h) live = (Buf_ok, b, live')"
  shows "\<exists>zs. h\<lparr>h_buffer := b\<rparr> = h_put [] zs (b_length b) (b_maxLength b) (h_maxBufferSize h) h
    \<and> h_nowIndex h + length zs = b_maxLength b \<and> b_length b = n \<and> n \<le> b_maxLength b
    \<and> b_maxLength b = max n (b_maxLength (h_buffer h)) \<and> live' = live"
proof -
  note base = http_ok_base [OF ok]
  obtain d where d: "b_data (h_buffer h) = Some d" and len: "length d = b_maxLength (h_buffer h)"
    "b_length (h_buffer h) \<le> length d" "h_nowIndex h \<le> b_length (h_buffer h)" "h_data h = d"
    using base by (cases "b_data (h_buffer h)") (auto simp: base_ok_def buf_ok_def h_data_def)
  show ?thesis
  proof (cases "n \<le> b_maxLength (h_buffer h)")
    case True
    then have b: "b = (h_buffer h)\<lparr>b_length := n\<rparr>" "live' = live" using res by (simp_all add: buf_resize_def)
    show ?thesis using True n d len b
      by (intro exI [of _ "drop (h_nowIndex h) d"]) (simp add: h_put_def max_def)
  next
    case False
    have b: "b = \<lparr>b_data = Some (take (h_nowIndex h) d @ drop (h_nowIndex h) (map fresh [0..<n])), b_length = n, b_maxLength = n\<rparr>"
      "live' = live"
      using res False len d n
      by (auto simp: buf_resize_def copy_in_def malloc_block_def free_block_def Let_def split: if_splits)
    then show ?thesis using False n len
      by (intro exI [of _ "drop (h_nowIndex h) (map fresh [0..<n])"]) (simp add: h_put_def)
  qed
qed

lemma resize_throw:
  assumes "http_ok h" and "n \<noteq> 0" and res: "buf_resize mem fresh n (h_nowIndex h) (h_buffer h) live = (r, b, live')" and "r \<noteq> Buf_ok"
  shows "r = Buf_throw \<and> \<not> mem \<and> live' - buf_held b = live - buf_held (h_buffer h) \<and> (0 < h_nowIndex h \<longrightarrow> b = h_buffer h)"
  using assms(2-4) http_ok_base [OF assms(1)]
  by (cases "b_data (h_buffer h)")
     (auto simp: buf_resize_def base_ok_def buf_ok_def copy_in_def malloc_block_def free_block_def buf_held_def Let_def split: if_splits)

lemma prepareBuffer_ready:
  assumes ready: "http_ready h" and res: "prepareBuffer mem fresh h live = (r, place, g, live')"
  shows "r \<noteq> Buf_undefined \<and> live' - buf_held (h_buffer g) = live - buf_held (h_buffer h) \<and> http_ready g
    \<and> (r = Buf_throw \<longrightarrow> \<not> mem \<and> place = None)
    \<and> (r = Buf_ok \<longrightarrow> http_ok g \<and> room_ok g \<and> http_view g = http_seen h
        \<and> place = (if h_nowIndex g < b_length (h_buffer g) then Some (h_nowIndex g, b_length (h_buffer g) - h_nowIndex g) else None)
        \<and> (place = None \<longrightarrow> h_nowIndex g = h_maxBufferSize g))"
proof -
  obtain r1 h1 l1 where init: "http_init mem fresh h live = (r1, h1, l1)" by (metis prod_cases3)
  note i = http_init_ready [OF ready init]
  show ?thesis
  proof (cases "r1 = Buf_ok")
    case False
    then have "r = r1" "place = None" "g = h1" "live' = l1" "r1 = Buf_throw"
      using res init i by (auto simp: prepareBuffer_def intro: buf_end.exhaust)
    then show ?thesis using i by (auto simp: http_ready_def buf_held_def)
  next
    case True
    then have ok: "http_ok h1" "room_ok h1" "http_view h1 = http_seen h" "l1 - buf_held (h_buffer h1) = live - buf_held (h_buffer h)"
      using i by simp_all
    note base = http_ok_base [OF ok(1)]
    let ?len = "b_length (h_buffer h1)" and ?now = "h_nowIndex h1" and ?mx = "h_maxBufferSize h1"
    have room: "0x1000 \<le> ?len" "b_maxLength (h_buffer h1) \<le> ?mx" "?now \<le> ?len" "?len \<le> b_maxLength (h_buffer h1)"
      using ok(2) base by (auto simp: room_ok_def base_ok_def buf_ok_def)
    show ?thesis
    proof (cases "?len - ?now < 0x800")
      case False
      then have "r = Buf_ok" "g = h1" "live' = l1" "place = Some (?now, ?len - ?now)"
        using res init True by (auto simp: prepareBuffer_def Let_def split: if_splits)
      then show ?thesis using ok room False by (auto simp: http_ready_def)
    next
      case True
      define n where "n = (if ?len * 2 > ?mx then ?mx else ?len * 2)"
      obtain r2 b l2 where rs: "buf_resize mem fresh n ?now (h_buffer h1) l1 = (r2, b, l2)" by (metis prod_cases3)
      have n: "?now \<le> n" "0x1000 \<le> n" "n \<le> ?mx" "0 < ?now" using room True by (auto simp: n_def)
      have run: "prepareBuffer mem fresh h live = (if r2 \<noteq> Buf_ok then (r2, None, h1\<lparr>h_buffer := b\<rparr>, l2)
          else (Buf_ok, if b_length b - ?now = 0 then None else Some (?now, b_length b - ?now), h1\<lparr>h_buffer := b\<rparr>, l2))"
        using rs True init \<open>r1 = Buf_ok\<close> by (auto simp: prepareBuffer_def n_def Let_def)
      show ?thesis
      proof (cases "r2 = Buf_ok")
        case False
        then have "r2 = Buf_throw" "\<not> mem" "b = h_buffer h1" "l2 - buf_held b = l1 - buf_held (h_buffer h1)"
          using resize_throw [OF ok(1) _ rs] n by auto
        then show ?thesis using res run ok False by (auto simp: http_ready_def)
      next
        case r2: True
        then obtain zs where zs: "h1\<lparr>h_buffer := b\<rparr> = h_put [] zs (b_length b) (b_maxLength b) ?mx h1"
          "?now + length zs = b_maxLength b" "b_length b = n" "n \<le> b_maxLength b" "b_maxLength b = max n (b_maxLength (h_buffer h1))" "l2 = l1"
          using resize_put [OF ok(1) n(1) _ rs [unfolded r2]] n(2) by auto
        have held: "buf_held b = buf_held (h_buffer h1)"
          using arg_cong [OF zs(1), of h_buffer] base
          by (simp add: h_put_def buf_held_def base_ok_def) (metis cbuffer.select_convs(1) option.distinct(1))
        have g: "g = h_put [] zs (b_length b) (b_maxLength b) ?mx h1" "r = Buf_ok" "live' = l1" "h_buffer g = b"
          "place = (if n - ?now = 0 then None else Some (?now, n - ?now))"
          using res run r2 zs by auto
        have "http_ok g" unfolding g(1) by (rule http_ok_put [OF ok(1)]) (use zs n in auto)
        moreover have "room_ok g" using zs n room g by (simp add: room_ok_def)
        moreover have "http_view g = http_seen h"
          unfolding g(1) using http_view_put [of h1 "[]"] base_now [OF base] ok(3) by (simp add: http_see_def http_view_def)
        moreover have "n = ?now \<Longrightarrow> ?now = ?mx" using n room by (auto simp: n_def split: if_splits)
        ultimately show ?thesis using g held ok(4) n zs by (auto simp: http_ready_def)
      qed
    qed
  qed
qed

section \<open>A stream of pieces\<close>

text \<open>
  One round of the owner: prepare, let at most that many bytes be written, push, analyse. A piece
  is what the allocator does (whether it succeeds and what a fresh block holds) and the bytes.
\<close>

type_synonym piece = "bool \<times> (nat \<Rightarrow> u8) \<times> bytes"

definition receive_piece :: "piece \<Rightarrow> http_ctx \<Rightarrow> int \<Rightarrow> (bool option \<times> http_ctx \<times> int) option" where
  "receive_piece p h live =
     (case p of (mem, fresh, bs) \<Rightarrow>
        (case prepareBuffer mem fresh h live of
           (Buf_ok, Some (_, room), g, live) \<Rightarrow>
             if length bs \<le> room
             then (case http_analysis (http_feed bs g) of (r, g) \<Rightarrow> Some (r, g, live))
             else None
         | _ \<Rightarrow> None))"

fun receive_all :: "piece list \<Rightarrow> http_ctx \<Rightarrow> int \<Rightarrow> (bool option \<times> http_ctx \<times> int) option" where
  "receive_all [] h live = None"
| "receive_all [p] h live = receive_piece p h live"
| "receive_all (p # q # ps) h live =
     (case receive_piece p h live of None \<Rightarrow> None | Some (_, g, live) \<Rightarrow> receive_all (q # ps) g live)"

definition piece_bytes :: "piece list \<Rightarrow> bytes" where
  "piece_bytes ps = concat (map (\<lambda>(_, _, bs). bs) ps)"

lemma receive_piece_cases:
  assumes ready: "http_ready h" and res: "receive_piece (mem, fresh, bs) h live = Some (r, g, live')"
  obtains h1 where "http_ok h1" "http_ready h1" "http_view h1 = http_seen h" "http_ok (http_feed bs h1)"
    "http_analysis (http_feed bs h1) = (r, g)" "r \<noteq> None" "http_ok g" "http_ready g"
    "h_nowIndex h1 + length bs \<le> b_length (h_buffer h1)" "live' - buf_held (h_buffer g) = live - buf_held (h_buffer h)"
proof -
  obtain rr place h1 l1 where prep: "prepareBuffer mem fresh h live = (rr, place, h1, l1)" by (metis prod_cases4)
  note p = prepareBuffer_ready [OF ready prep]
  have "rr = Buf_ok \<and> place \<noteq> None"
    using res prep by (cases rr; cases place) (simp_all add: receive_piece_def)
  then obtain pos room where ok: "rr = Buf_ok" "place = Some (pos, room)" by auto
  have "\<not> h_nowIndex h1 < b_length (h_buffer h1) \<Longrightarrow> place = None" using p ok(1) by metis
  then have lt: "h_nowIndex h1 < b_length (h_buffer h1)" using ok(2) by auto
  have "Some (pos, room) = Some (h_nowIndex h1, b_length (h_buffer h1) - h_nowIndex h1)" using p ok lt by metis
  then have h1: "http_ok h1" "room_ok h1" "http_view h1 = http_seen h" "http_ready h1" "room = b_length (h_buffer h1) - h_nowIndex h1"
    "l1 - buf_held (h_buffer h1) = live - buf_held (h_buffer h)" "h_nowIndex h1 < b_length (h_buffer h1)"
    using p ok(1) lt by blast+
  obtain r2 g2 where run2: "http_analysis (http_feed bs h1) = (r2, g2)" by fastforce
  have "length bs \<le> room" and run: "r2 = r" "g2 = g" "live' = l1"
    using res by (simp_all add: receive_piece_def prep ok run2 split: if_splits)
  then have fit: "h_nowIndex h1 + length bs \<le> b_length (h_buffer h1)" using h1(5,7) by simp
  have run: "http_analysis (http_feed bs h1) = (r, g)" "live' = l1" using run run2 by simp_all
  have feed: "http_ok (http_feed bs h1)" by (rule http_feed_ok [OF h1(1) fit])
  have g: "http_ok g" "r \<noteq> None" using http_analysis_ok [OF feed] run by auto
  have "b_length (h_buffer g) = b_length (h_buffer h1) \<and> b_maxLength (h_buffer g) = b_maxLength (h_buffer h1)
      \<and> h_maxBufferSize g = h_maxBufferSize h1"
    using http_analysis_room [OF feed] run http_feed_put [OF h1(1) fit] by simp
  then have "room_ok g" using h1(2) by (simp add: room_ok_def)
  moreover have "buf_held (h_buffer g) = buf_held (h_buffer h1)"
    using http_ok_base [OF g(1)] http_ok_base [OF h1(1)] by (simp add: base_ok_def buf_held_def)
  ultimately show thesis using that [of h1] h1 fit run feed g by (simp add: http_ready_def)
qed

lemma receive_all_see:
  "http_ready h \<Longrightarrow> receive_all ps h live = Some (r, g, live') \<Longrightarrow>
   http_analysis (http_see (piece_bytes ps) (http_seen h)) = (r, http_view g) \<and> r \<noteq> None \<and> http_ok g \<and> http_ready g"
proof (induction ps h live rule: receive_all.induct)
  case (2 p h live)
  obtain mem fresh bs where p: "p = (mem, fresh, bs)" by (metis prod_cases3)
  obtain h1 where h1: "http_ok h1" "http_view h1 = http_seen h" "http_ok (http_feed bs h1)"
    "http_analysis (http_feed bs h1) = (r, g)" "r \<noteq> None" "http_ok g" "http_ready g" "h_nowIndex h1 + length bs \<le> b_length (h_buffer h1)"
    using 2 by (auto simp: p elim: receive_piece_cases)
  have now: "h_nowIndex h1 \<le> length (h_data h1)" by (rule base_now [OF http_ok_base [OF h1(1)]])
  have "http_see (piece_bytes [p]) (http_seen h) = http_view (http_feed bs h1)"
    using http_see_view [OF now, of bs] http_view_put [OF now, of bs] http_feed_put [OF h1(1,8)] h1(2) by (simp add: piece_bytes_def p)
  then show ?case using http_view_analysis [OF h1(3)] h1(4-7) by simp
next
  case (3 p q ps h live)
  obtain mem fresh bs where p: "p = (mem, fresh, bs)" by (metis prod_cases3)
  obtain r1 g1 l1 where one: "receive_piece p h live = Some (r1, g1, l1)" and rest: "receive_all (q # ps) g1 l1 = Some (r, g, live')"
    using 3(3) by (auto split: option.splits)
  obtain h1 where h1: "http_ok h1" "http_view h1 = http_seen h" "http_ok (http_feed bs h1)"
    "http_analysis (http_feed bs h1) = (r1, g1)" "http_ok g1" "http_ready g1" "h_nowIndex h1 + length bs \<le> b_length (h_buffer h1)"
    using 3(2) one by (auto simp: p elim: receive_piece_cases)
  have IH: "http_analysis (http_see (piece_bytes (q # ps)) (http_seen g1)) = (r, http_view g)" "r \<noteq> None" "http_ok g" "http_ready g"
    using 3(1) [OF one refl refl h1(6) rest] by auto
  have now: "h_nowIndex h1 \<le> length (h_data h1)" by (rule base_now [OF http_ok_base [OF h1(1)]])
  have seen: "http_seen g1 = http_view g1" using base_not_empty [OF http_ok_base [OF h1(5)]] by (simp add: http_seen_def)
  have "http_see (piece_bytes (p # q # ps)) (http_seen h) = http_see (piece_bytes (q # ps)) (http_feed bs h1)"
    using http_see_view [OF now, of "bs @ piece_bytes (q # ps)"] http_see_put [OF now, of "piece_bytes (q # ps)" bs]
      http_feed_put [OF h1(1,7)] h1(2) by (simp add: piece_bytes_def p)
  also have "http_analysis \<dots> = http_analysis (http_see (piece_bytes (q # ps)) g1)"
    using http_see_analysis [OF h1(3)] h1(4) by simp
  also have "\<dots> = (r, http_view g)"
    using IH(1) http_see_view [OF base_now [OF http_ok_base [OF h1(5)]]] seen by simp
  finally show ?case using IH by simp
qed simp

end
