(* ===== verification/Http_Message.thy ===== *)
theory Http_Message
  imports Http_Stream
begin

text \<open>
  What the analysis makes of a well-formed message: the lines of the head, the fields decoded
  from them, and the body or the chunks that follow.
\<close>

section \<open>Encoded lines\<close>

definition enc_line :: "bytes \<Rightarrow> bytes" where
  "enc_line l = l @ [CR, LF]"

definition enc_head :: "bytes list \<Rightarrow> bytes" where
  "enc_head ls = concat (map enc_line ls) @ [CR, LF]"

text \<open>What the analysis leaves of them in the buffer, and where it finds them.\<close>

definition zero_head :: "bytes list \<Rightarrow> bytes" where
  "zero_head ls = concat (map (\<lambda>l. l @ [0, 0]) ls) @ [0, 0]"

fun line_infos :: "nat \<Rightarrow> bytes list \<Rightarrow> line_info list" where
  "line_infos i [] = []"
| "line_infos i (l # ls) = (i, Some (length l)) # line_infos (i + length l + 2) ls"

definition good_lines :: "bytes list \<Rightarrow> bool" where
  "good_lines ls \<longleftrightarrow> (\<forall>l\<in>set ls. l \<noteq> [] \<and> LF \<notin> set l)"

lemma enc_head_simps [simp]:
  "enc_head [] = [CR, LF]" "enc_head (l # ls) = l @ CR # LF # enc_head ls"
  "zero_head [] = [0, 0]" "zero_head (l # ls) = l @ 0 # 0 # zero_head ls"
  by (simp_all add: enc_head_def zero_head_def enc_line_def)

lemma length_zero_head [simp]: "length (zero_head ls) = length (enc_head ls)"
  by (induction ls) simp_all

lemma good_lines_Cons [simp]: "good_lines (l # ls) \<longleftrightarrow> l \<noteq> [] \<and> LF \<notin> set l \<and> good_lines ls"
  by (auto simp: good_lines_def)

lemma enc_head_pos: "2 \<le> length (enc_head ls)"
  by (cases ls) simp_all

section \<open>One line\<close>

lemma line_loop_skip:
  assumes "\<And>j. j < k \<Longrightarrow> h_data h ! (h_analysisIndex h + j) \<noteq> LF"
    and "h_analysisIndex h + k \<le> length (h_data h)" and "h_analysisIndex h + k \<le> h_nowIndex h" and "h_analysisIndex h < h_nowIndex h"
  shows "line_loop finish h = line_continue finish (h\<lparr>h_analysisIndex := h_analysisIndex h + k\<rparr>)"
  using assms
proof (induction k)
  case 0
  then show ?case by (simp add: line_continue_def)
next
  case (Suc k)
  let ?g = "h\<lparr>h_analysisIndex := h_analysisIndex h + k\<rparr>"
  have "line_loop finish h = line_continue finish ?g" by (rule Suc.IH) (use Suc.prems in auto)
  also have "\<dots> = line_loop finish ?g" using Suc.prems by (simp add: line_continue_def)
  also have "\<dots> = line_continue finish (?g\<lparr>h_analysisIndex := Suc (h_analysisIndex ?g)\<rparr>)"
    by (rule line_loop_other) (use Suc.prems in auto)
  finally show ?case by simp
qed

text \<open>The context with a part of its data replaced, all of it received.\<close>

definition h_with :: "bytes \<Rightarrow> nat \<Rightarrow> line_info list \<Rightarrow> http_ctx \<Rightarrow> http_ctx" where
  "h_with d i ls h = (set_data d h)\<lparr>h_analysisIndex := i, h_lines := ls\<rparr>"

lemma h_with_simps [simp]:
  "h_data (h_with d i ls h) = d" "h_analysisIndex (h_with d i ls h) = i" "h_lines (h_with d i ls h) = ls"
  "h_nowIndex (h_with d i ls h) = h_nowIndex h" "h_state (h_with d i ls h) = h_state h"
  "h_chunks (h_with d i ls h) = h_chunks h" "h_with d' i' ls' (h_with d i ls h) = h_with d' i' ls' h"
  "(h_with d i ls h)\<lparr>h_analysisIndex := i'\<rparr> = h_with d i' ls h"
  "(h_with d i ls h)\<lparr>h_lines := ls'\<rparr> = h_with d i ls' h"
  "set_data d' (h_with d i ls h) = h_with d' i ls h"
  by (simp_all add: h_with_def set_data_def h_data_def)

lemma line_loop_line:
  assumes lf: "LF \<notin> set l" and len: "h_nowIndex h = length pre + length l + 2 + length post"
  shows "line_loop finish (h_with (pre @ l @ CR # LF # post) (length pre) (ls @ [(length pre, None)]) h) =
    (if l = [] then finish (h_with (pre @ 0 # 0 # post) (length pre + 2) ls h)
     else line_continue finish (h_with (pre @ l @ 0 # 0 # post) (length pre + length l + 2)
       (ls @ [(length pre, Some (length l)), (length pre + length l + 2, None)]) h))"
proof -
  let ?d = "pre @ l @ CR # LF # post" and ?n = "length pre + length l + 1" and ?ls = "ls @ [(length pre, None)]"
  have no: "?d ! (length pre + j) \<noteq> LF" if "j < length l + 1" for j
    using that lf by (cases "j < length l") (auto simp: nth_append dest: nth_mem)
  have skip: "line_loop finish (h_with ?d (length pre) ?ls h) = line_loop finish (h_with ?d ?n ?ls h)"
    using line_loop_skip [of "length l + 1" "h_with ?d (length pre) ?ls h" finish] no len
    by (simp add: line_continue_def)
  have z: "?d[length pre + length l := 0, ?n := 0] = pre @ l @ 0 # 0 # post"
    by (simp add: list_update_append)
  have nth: "?d ! ?n = LF" "?d ! (length pre + length l) = CR" by (simp_all add: nth_append)
  have feed: "line_feed (h_with ?d ?n ?ls h) = (if l = [] then (Line_empty, h_with (pre @ 0 # 0 # post) ?n ls h)
      else (Line_next, h_with (pre @ l @ 0 # 0 # post) ?n (ls @ [(length pre, Some (length l)), (Suc ?n, None)]) h))"
    using nth(2) z by (simp add: line_feed_def Let_def)
  have at: "h_analysisIndex (h_with ?d ?n ?ls h) < length (h_data (h_with ?d ?n ?ls h))"
    "h_data (h_with ?d ?n ?ls h) ! h_analysisIndex (h_with ?d ?n ?ls h) = LF"
    using nth(1) by simp_all
  show ?thesis
  proof (cases "l = []")
    case True
    then have "line_feed (h_with ?d ?n ?ls h) = (Line_empty, h_with (pre @ 0 # 0 # post) ?n ls h)" using feed by simp
    from line_loop_feed [OF at this, of finish] skip True show ?thesis by simp
  next
    case False
    then have "line_feed (h_with ?d ?n ?ls h)
        = (Line_next, h_with (pre @ l @ 0 # 0 # post) ?n (ls @ [(length pre, Some (length l)), (Suc ?n, None)]) h)" using feed by simp
    from line_loop_feed [OF at this, of finish] skip False show ?thesis by simp
  qed
qed

lemma line_loop_head:
  assumes "good_lines L" and "h_nowIndex h = length pre + length (enc_head L) + length post"
  shows "line_loop finish (h_with (pre @ enc_head L @ post) (length pre) (ls @ [(length pre, None)]) h) =
    finish (h_with (pre @ zero_head L @ post) (length pre + length (enc_head L)) (ls @ line_infos (length pre) L) h)"
  using assms
proof (induction L arbitrary: pre ls)
  case Nil
  then show ?case using line_loop_line [of "[]" h pre post finish ls] by simp
next
  case (Cons l L)
  let ?pre = "pre @ l @ [0, 0]"
  have "line_continue finish g = line_loop finish g"
    if "h_analysisIndex g = length ?pre" "h_nowIndex g = length ?pre + length (enc_head L) + length post" for g
    using that enc_head_pos [of L] by (cases "enc_head L") (simp_all add: line_continue_def)
  then show ?case
    using line_loop_line [of l h pre "enc_head L @ post" finish ls] Cons.IH [of ?pre "ls @ [(length pre, Some (length l))]"] Cons.prems
    by (simp add: add.assoc)
qed

section \<open>The decoded head\<close>

fun apply_fields :: "bytes list \<Rightarrow> http_ctx \<Rightarrow> http_ctx" where
  "apply_fields [] h = h"
| "apply_fields (l # ls) h =
     apply_fields ls (case header_fields l of None \<Rightarrow> h | Some (n, v) \<Rightarrow> kvDecoder n v h)"

lemma decode_line_at:
  "decode_line (pre @ l @ 0 # post) (length pre) (length l) = Some (header_fields l)"
  by (simp add: decode_line_def nth_append)

lemma kvDecoder_data [simp]: "h_data (kvDecoder n v h) = h_data h" "h_headerSize (kvDecoder n v h) = h_headerSize h"
  using quiet_data [OF kvDecoder_quiet(1)] by auto

lemma decode_lines_head:
  "h_data h = pre @ zero_head L @ post \<Longrightarrow> length pre + length (enc_head L) \<le> h_headerSize h \<Longrightarrow>
   decode_lines (line_infos (length pre) L) h = Some (apply_fields L h)"
proof (induction L arbitrary: pre h)
  case (Cons l L)
  have dec: "decode_line (h_data h) (length pre) (length l) = Some (header_fields l)"
    using Cons.prems(1) decode_line_at [of pre l "0 # zero_head L @ post"] by simp
  have rest: "decode_lines (line_infos (length pre + length l + 2) L) g = Some (apply_fields L g)"
    if "h_data g = h_data h" "h_headerSize g = h_headerSize h" for g
    using Cons.IH [of g "pre @ l @ [0, 0]"] Cons.prems that by (simp add: add.assoc)
  show ?case using dec rest Cons.prems(2) by (auto split: option.split)
qed simp

lemma line_parameters_head:
  "line_parameters (pre @ zero_head L @ post) (line_infos (length pre) L) = Some (List.map_filter header_fields L)"
proof (induction L arbitrary: pre)
  case Nil
  show ?case by (simp add: List.map_filter_def)
next
  case (Cons l L)
  have dec: "decode_line (pre @ l @ 0 # 0 # zero_head L @ post) (length pre) (length l) = Some (header_fields l)"
    by (rule decode_line_at)
  show ?case using dec Cons.IH [of "pre @ l @ [0, 0]"] by (auto simp: List.map_filter_def add.assoc split: option.split)
qed

section \<open>From the first byte to the end of the head\<close>

text \<open>Connection, content length and chunking as the head sets them.\<close>

definition kv_fields :: "http_ctx \<Rightarrow> bool \<times> u64 \<times> bool" where
  "kv_fields h = (h_bKeepAlive h, h_contentLength h, h_bChunked h)"

definition head_fields :: "bytes list \<Rightarrow> bool \<times> u64 \<times> bool" where
  "head_fields L = kv_fields (apply_fields L http_begin)"

lemma apply_fields_quiet: "http_quiet h (apply_fields L h) \<and> h_state (apply_fields L h) = h_state h"
proof (induction L arbitrary: h)
  case (Cons l L)
  show ?case
  proof (cases "header_fields l")
    case (Some nv)
    obtain n v where nv: "nv = (n, v)" by fastforce
    have "http_quiet h (apply_fields L (kvDecoder n v h))"
      using Cons.IH [of "kvDecoder n v h"] http_quiet_trans [OF kvDecoder_quiet(1)] by blast
    then show ?thesis using Some nv Cons.IH [of "kvDecoder n v h"] kvDecoder_quiet(2) by simp
  qed (use Cons.IH in simp)
qed simp

lemma kvDecoder_keeps: "http_quiet h h' \<Longrightarrow> http_quiet h (kvDecoder n v h')"
  using http_quiet_trans kvDecoder_quiet(1) by blast

lemma kvDecoder_fields: "kv_fields h = kv_fields g \<Longrightarrow> kv_fields (kvDecoder n v h) = kv_fields (kvDecoder n v g)"
  by (simp add: kv_fields_def kvDecoder_def)

lemma apply_fields_fields: "kv_fields h = kv_fields g \<Longrightarrow> kv_fields (apply_fields L h) = kv_fields (apply_fields L g)"
proof (induction L arbitrary: h g)
  case (Cons l L)
  show ?case
  proof (cases "header_fields l")
    case None
    then show ?thesis using Cons.IH [OF Cons.prems] by simp
  next
    case (Some nv)
    obtain n v where nv: "nv = (n, v)" by fastforce
    have "kv_fields (apply_fields L (kvDecoder n v h)) = kv_fields (apply_fields L (kvDecoder n v g))"
      by (rule Cons.IH, rule kvDecoder_fields, rule Cons.prems)
    then show ?thesis using Some nv by simp
  qed
qed simp

text \<open>The context after the head: the lines are found, the fields decoded, the state switched.\<close>

definition after_head :: "bytes list \<Rightarrow> bytes \<Rightarrow> http_ctx" where
  "after_head L post =
     switch_state (apply_fields L
       ((h_with (zero_head L @ post) (length (enc_head L)) (line_infos 0 L)
          (http_see (enc_head L @ post) http_begin))\<lparr>h_state := State_read_header, h_headerSize := length (enc_head L)\<rparr>))"

lemma see_begin [simp]:
  "h_data (http_see d http_begin) = d" "h_nowIndex (http_see d http_begin) = length d"
  "h_analysisIndex (http_see d http_begin) = 0" "h_lines (http_see d http_begin) = []"
  "h_state (http_see d http_begin) = State_start" "h_chunks (http_see d http_begin) = []"
  "kv_fields (http_see d http_begin) = kv_fields http_begin"
  by (simp_all add: http_see_def http_begin_def kv_fields_def)

lemma analysis_head:
  assumes "good_lines L" and "L \<noteq> []"
  shows "http_analysis (http_see (enc_head L @ post) http_begin) = http_analysis (after_head L post)"
proof -
  let ?d = "enc_head L @ post" and ?n = "length (enc_head L)"
  let ?b = "http_see ?d http_begin"
  let ?r = "?b\<lparr>h_state := State_read_header\<rparr>"
  obtain c cs where d: "?d = c # cs" "c \<noteq> LF"
    using assms by (cases L; cases "hd L") (auto simp: good_lines_def)
  have r: "?b\<lparr>h_state := State_read_header, h_lines := [(0, None)]\<rparr> = h_with ?d 0 [(0, None)] ?r"
    by (simp add: h_with_def set_data_def http_see_def h_put_def http_begin_def h_data_def)
  have "analysis_pass ?b = (Pass_again, h_with ?d 0 [(0, None)] ?r)"
    using d r by (simp add: analysis_pass_def)
  then have start: "http_analysis ?b = http_analysis (h_with ?d 0 [(0, None)] ?r)"
    using d(1) by (simp add: http_analysis_step)
  let ?e = "h_with (zero_head L @ post) ?n (line_infos 0 L) ?r"
  have "line_loop header_end (h_with ?d 0 [(0, None)] ?r) = header_end ?e"
    using line_loop_head [of L ?r "[]" post header_end "[]"] assms by simp
  also have "\<dots> = (Pass_again, after_head L post)"
  proof -
    let ?f = "?e\<lparr>h_headerSize := ?n\<rparr>"
    have "decode_lines (h_lines ?f) ?f = Some (apply_fields L ?f)"
      using decode_lines_head [of ?f "[]" L post] by simp
    moreover have "?f = (h_with (zero_head L @ post) ?n (line_infos 0 L) ?b)\<lparr>h_state := State_read_header, h_headerSize := ?n\<rparr>"
      by (simp add: h_with_def set_data_def)
    moreover have "h_analysisIndex ?e = ?n" by simp
    ultimately show ?thesis
      unfolding header_end_def decoderHeaderAndUpdateState_def after_head_def Let_def by (simp only: option.map option.case)
  qed
  finally have "analysis_pass (h_with ?d 0 [(0, None)] ?r) = (Pass_again, after_head L post)"
    by (simp add: analysis_pass_def)
  then show ?thesis using start d(1) by (simp add: http_analysis_step)
qed

lemma after_head_fields:
  "h_data (after_head L post) = zero_head L @ post" "h_lines (after_head L post) = line_infos 0 L"
  "h_analysisIndex (after_head L post) = length (enc_head L)" "h_nowIndex (after_head L post) = length (enc_head L) + length post"
  "h_chunks (after_head L post) = []"
  "kv_fields (after_head L post) = head_fields L"
  "h_state (after_head L post) = (case head_fields L of (ka, cl, ch) \<Rightarrow>
     if ch then State_read_chunk_header else if cl > 0 then State_read_body else State_done)"
  "snd (snd (head_fields L)) \<Longrightarrow> h_nowChunkSize (after_head L post) = 0 \<and> \<not> h_bChunkSizeStart (after_head L post)
     \<and> \<not> h_bChunkSizeDone (after_head L post)"
proof -
  let ?h = "(h_with (zero_head L @ post) (length (enc_head L)) (line_infos 0 L)
          (http_see (enc_head L @ post) http_begin))\<lparr>h_state := State_read_header, h_headerSize := length (enc_head L)\<rparr>"
  let ?a = "apply_fields L ?h"
  have q: "http_quiet ?h ?a" "h_data ?a = h_data ?h" using apply_fields_quiet [of ?h L] quiet_data by auto
  have "kv_fields ?h = kv_fields http_begin" by (simp add: kv_fields_def h_with_def set_data_def http_see_def http_begin_def h_put_def)
  then have f: "kv_fields ?a = head_fields L" unfolding head_fields_def by (rule apply_fields_fields)
  have s: "h_data (switch_state ?a) = h_data ?a" "http_quiet ?a (switch_state ?a)" "kv_fields (switch_state ?a) = kv_fields ?a"
    by (simp_all add: switch_state_def http_quiet_def kv_fields_def)
  show "h_data (after_head L post) = zero_head L @ post" "h_lines (after_head L post) = line_infos 0 L"
    "h_analysisIndex (after_head L post) = length (enc_head L)" "h_nowIndex (after_head L post) = length (enc_head L) + length post"
    "h_chunks (after_head L post) = []" "kv_fields (after_head L post) = head_fields L"
    using q s f by (simp_all add: after_head_def http_quiet_def)
  show "h_state (after_head L post) = (case head_fields L of (ka, cl, ch) \<Rightarrow>
     if ch then State_read_chunk_header else if cl > 0 then State_read_body else State_done)"
    using f by (auto simp: after_head_def switch_state_def kv_fields_def split: prod.split)
  show "snd (snd (head_fields L)) \<Longrightarrow> h_nowChunkSize (after_head L post) = 0 \<and> \<not> h_bChunkSizeStart (after_head L post)
     \<and> \<not> h_bChunkSizeDone (after_head L post)"
    unfolding f [symmetric] by (auto simp: after_head_def switch_state_def kv_fields_def)
qed

section \<open>A message with a content length\<close>

lemma analysis_plain:
  assumes L: "good_lines L" "L \<noteq> []" and f: "head_fields L = (ka, cl, False)" and len: "unat cl \<le> length post"
  shows "\<exists>g. http_analysis (http_see (enc_head L @ post) http_begin) = (Some True, g) \<and> h_state g = State_done
    \<and> h_data g = zero_head L @ post \<and> h_lines g = line_infos 0 L \<and> h_bKeepAlive g = ka
    \<and> h_chunks g = (if cl = 0 then [] else [(length (enc_head L), cl)])
    \<and> h_analysisIndex g = length (enc_head L) + unat cl \<and> h_nowIndex g = length (enc_head L) + length post"
proof (cases "cl = 0")
  case True
  then show ?thesis using analysis_head [OF L, of post] after_head_fields [of L post] f
    by (simp add: http_analysis_stop kv_fields_def)
next
  case False
  let ?h = "after_head L post"
  have st: "h_state ?h = State_read_body" "h_contentLength ?h = cl" "h_bKeepAlive ?h = ka"
    using after_head_fields(6,7) [of L post] f False by (simp_all add: kv_fields_def word_neq_0_conv)
  have "0 < unat cl" using False by (simp add: unat_gt_0)
  then have "post \<noteq> []" using len by auto
  then have "http_analysis ?h = (Some True, ?h\<lparr>h_chunks := [(length (enc_head L), cl)],
      h_analysisIndex := length (enc_head L) + unat cl, h_state := State_done\<rparr>)"
    using st after_head_fields(3-5) [of L post] len by (simp add: http_analysis_step analysis_pass_def)
  then show ?thesis using analysis_head [OF L, of post] st after_head_fields(1-5) [of L post] False by simp
qed

section \<open>Chunks\<close>

definition hex_digit :: "u8 \<Rightarrow> bool" where
  "hex_digit c \<longleftrightarrow> 48 \<le> c \<and> c \<le> 57 \<or> 97 \<le> c \<and> c \<le> 102 \<or> 65 \<le> c \<and> c \<le> 70"

definition hex_step :: "u64 \<Rightarrow> u8 \<Rightarrow> u64" where
  "hex_step n c =
     (if c \<le> 57 then push_bit 4 n + ucast c - 48
      else if 97 \<le> c then push_bit 4 n + ucast c - 97 + 10
      else push_bit 4 n + ucast c - 65 + 10)"

definition hex_size :: "bytes \<Rightarrow> u64" where
  "hex_size ds = foldl hex_step 0 ds"

lemma word8_ranges:
  "c \<le> 57 \<Longrightarrow> \<not> 97 \<le> (c :: u8)" "c \<le> 57 \<Longrightarrow> \<not> 65 \<le> (c :: u8)" "c \<le> 70 \<Longrightarrow> \<not> 97 \<le> (c :: u8)"
  by (simp_all add: word_le_nat_alt)

lemma chunk_digit_hex:
  assumes "hex_digit c" and "\<not> h_bChunkSizeDone h"
  shows "chunk_digit c h = h\<lparr>h_nowChunkSize := hex_step (h_nowChunkSize h) c, h_bChunkSizeStart := True\<rparr>"
proof -
  consider "48 \<le> c" "c \<le> 57" | "97 \<le> c" "c \<le> 102" "\<not> c \<le> 57" | "65 \<le> c" "c \<le> 70" "\<not> c \<le> 57" "\<not> 97 \<le> c"
    using assms(1) word8_ranges [of c] unfolding hex_digit_def by blast
  then show ?thesis using assms(2) by cases (simp_all add: chunk_digit_def hex_step_def)
qed

lemma hex_not_feed: "hex_digit c \<Longrightarrow> c \<noteq> LF"
  by (auto simp: hex_digit_def)

lemma chunk_loop_digits:
  assumes "h_data h = pre @ ds @ c # post" and "h_analysisIndex h = length pre" and "length pre + length ds < h_nowIndex h"
    and "\<forall>d\<in>set ds. hex_digit d" and "\<not> h_bChunkSizeDone h"
  shows "chunk_loop h = chunk_loop (h\<lparr>h_nowChunkSize := foldl hex_step (h_nowChunkSize h) ds,
    h_bChunkSizeStart := h_bChunkSizeStart h \<or> ds \<noteq> [], h_analysisIndex := length pre + length ds\<rparr>)"
  using assms
proof (induction ds arbitrary: h pre)
  case Nil
  then have "h\<lparr>h_analysisIndex := length pre\<rparr> = h" by (cases h) simp
  then show ?case by simp
next
  case (Cons d ds)
  let ?g = "(chunk_digit d h)\<lparr>h_analysisIndex := Suc (length pre)\<rparr>"
  have dig: "chunk_digit d h = h\<lparr>h_nowChunkSize := hex_step (h_nowChunkSize h) d, h_bChunkSizeStart := True\<rparr>"
    by (rule chunk_digit_hex) (use Cons.prems in simp_all)
  have "h_data h ! h_analysisIndex h = d" using Cons.prems(1,2) by simp
  moreover have "d \<noteq> LF" using Cons.prems(4) hex_not_feed by auto
  ultimately have "chunk_loop h = chunk_loop ?g"
    using chunk_loop_other [of h] Cons.prems(1-3) by (simp add: chunk_continue_def)
  also have "\<dots> = chunk_loop (?g\<lparr>h_nowChunkSize := foldl hex_step (h_nowChunkSize ?g) ds,
      h_bChunkSizeStart := h_bChunkSizeStart ?g \<or> ds \<noteq> [], h_analysisIndex := length (pre @ [d]) + length ds\<rparr>)"
    by (rule Cons.IH) (use Cons.prems dig in simp_all)
  finally show ?case by (simp add: dig)
qed

text \<open>A context at the start of a chunk header, with what is before and after it.\<close>

definition at_chunk :: "bytes \<Rightarrow> bytes \<Rightarrow> http_ctx \<Rightarrow> bool" where
  "at_chunk pre post h \<longleftrightarrow> h_state h = State_read_chunk_header \<and> h_data h = pre @ post \<and> h_analysisIndex h = length pre
     \<and> h_nowIndex h = length pre + length post \<and> h_nowChunkSize h = 0 \<and> \<not> h_bChunkSizeStart h \<and> \<not> h_bChunkSizeDone h"

lemma chunk_header:
  assumes at: "at_chunk pre (ds @ CR # LF # post) h" and hex: "\<forall>d\<in>set ds. hex_digit d"
  shows "\<exists>g. http_analysis h = http_analysis g \<and> h_data g = pre @ ds @ 0 # 0 # post \<and> h_analysisIndex g = length pre + length ds + 2
    \<and> h_nowIndex g = h_nowIndex h \<and> h_nowChunkSize g = hex_size ds \<and> h_chunks g = h_chunks h \<and> h_bKeepAlive g = h_bKeepAlive h
    \<and> h_state g = (if hex_size ds > 0 then State_read_chunk_body else State_read_chunk_footer)
    \<and> h_lines g = (if hex_size ds > 0 then h_lines h else h_lines h @ [(length pre + length ds + 2, None)])"
proof -
  let ?k = "length pre + length ds"
  let ?h1 = "h\<lparr>h_nowChunkSize := hex_size ds, h_bChunkSizeStart := ds \<noteq> [], h_analysisIndex := ?k\<rparr>"
  let ?h2 = "(chunk_digit CR ?h1)\<lparr>h_analysisIndex := Suc ?k\<rparr>"
  have f: "h_data h = pre @ ds @ CR # LF # post" "h_analysisIndex h = length pre" "h_nowIndex h = ?k + 2 + length post"
    "h_nowChunkSize h = 0" "\<not> h_bChunkSizeStart h" "\<not> h_bChunkSizeDone h" "h_state h = State_read_chunk_header"
    using at by (simp_all add: at_chunk_def)
  have "chunk_loop h = chunk_loop ?h1"
    using chunk_loop_digits [OF f(1,2) _ hex f(6)] f by (simp add: hex_size_def)
  also have "\<dots> = chunk_loop ?h2"
    using chunk_loop_other [of ?h1] f by (simp add: chunk_continue_def nth_append)
  also have "\<dots> = chunk_feed ?h2"
    using chunk_loop_feed [of ?h2] f by (simp add: nth_append)
  finally have run: "chunk_loop h = chunk_feed ?h2" .
  have dig: "h_nowChunkSize (chunk_digit CR ?h1) = hex_size ds" "h_bKeepAlive (chunk_digit CR ?h1) = h_bKeepAlive h"
    by (simp_all add: chunk_digit_def)
  have z: "(pre @ ds @ CR # LF # post)[?k := 0, Suc ?k := 0] = pre @ ds @ 0 # 0 # post"
    by (simp add: list_update_append)
  obtain g where g: "chunk_feed ?h2 = (Pass_again, g)" "h_data g = pre @ ds @ 0 # 0 # post" "h_analysisIndex g = Suc (Suc ?k)"
    "h_nowIndex g = h_nowIndex h" "h_nowChunkSize g = hex_size ds" "h_chunks g = h_chunks h" "h_bKeepAlive g = h_bKeepAlive h"
    "h_state g = (if hex_size ds > 0 then State_read_chunk_body else State_read_chunk_footer)"
    "h_lines g = (if hex_size ds > 0 then h_lines h else h_lines h @ [(Suc (Suc ?k), None)])"
    using f dig z by (simp add: chunk_feed_def Let_def nth_append)
  have "http_analysis h = http_analysis g"
    using f run g(1) by (simp add: http_analysis_step analysis_pass_def)
  then show ?thesis using g by (intro exI [of _ g]) simp
qed

lemma chunk_body:
  assumes "h_state h = State_read_chunk_body" and "h_data h = pre @ c @ x # y # post" and "h_analysisIndex h = length pre"
    and "h_nowIndex h = length pre + length c + 2 + length post" and "unat (h_nowChunkSize h) = length c" and "length c + 2 < 2 ^ 64"
  shows "\<exists>g. http_analysis h = http_analysis g \<and> at_chunk (pre @ c @ [x, y]) post g
    \<and> h_chunks g = h_chunks h @ [(length pre, of_nat (length c))] \<and> h_lines g = h_lines h \<and> h_bKeepAlive g = h_bKeepAlive h"
proof -
  have n: "unat (h_nowChunkSize h + 2) = length c + 2"
    using assms(5,6) by (simp add: unat_word_ariths)
  have w: "h_nowChunkSize h = of_nat (length c)" using assms(5) [symmetric] by simp
  let ?g = "h\<lparr>h_chunks := h_chunks h @ [(length pre, of_nat (length c))], h_analysisIndex := length pre + length c + 2,
      h_state := State_read_chunk_header, h_nowChunkSize := 0, h_bChunkSizeStart := False, h_bChunkSizeDone := False\<rparr>"
  have "http_analysis h = http_analysis ?g"
    using assms(1-4) n by (simp add: http_analysis_step analysis_pass_def flip: w)
  moreover have "at_chunk (pre @ c @ [x, y]) post ?g" using assms by (simp add: at_chunk_def)
  ultimately show ?thesis by (intro exI [of _ ?g]) simp
qed

section \<open>A chunked message\<close>

text \<open>A chunk: the digits of its size and its bytes.\<close>

type_synonym chunk = "bytes \<times> bytes"

fun good_chunk :: "chunk \<Rightarrow> bool" where
  "good_chunk (ds, c) \<longleftrightarrow> (\<forall>d\<in>set ds. hex_digit d) \<and> c \<noteq> [] \<and> length c + 2 < 2 ^ 64 \<and> unat (hex_size ds) = length c"

fun enc_chunks :: "chunk list \<Rightarrow> bytes" where
  "enc_chunks [] = []"
| "enc_chunks ((ds, c) # cs) = ds @ CR # LF # c @ CR # LF # enc_chunks cs"

fun zero_chunks :: "chunk list \<Rightarrow> bytes" where
  "zero_chunks [] = []"
| "zero_chunks ((ds, c) # cs) = ds @ 0 # 0 # c @ CR # LF # zero_chunks cs"

fun chunk_infos :: "nat \<Rightarrow> chunk list \<Rightarrow> (nat \<times> u64) list" where
  "chunk_infos i [] = []"
| "chunk_infos i ((ds, c) # cs) = (i + length ds + 2, of_nat (length c)) # chunk_infos (i + length ds + length c + 4) cs"

lemma length_zero_chunks [simp]: "length (zero_chunks cs) = length (enc_chunks cs)"
  by (induction cs rule: enc_chunks.induct) simp_all

lemma chunks_run:
  "at_chunk pre (enc_chunks cs @ post) h \<Longrightarrow> \<forall>c\<in>set cs. good_chunk c \<Longrightarrow>
   \<exists>g. http_analysis h = http_analysis g \<and> at_chunk (pre @ zero_chunks cs) post g
     \<and> h_chunks g = h_chunks h @ chunk_infos (length pre) cs \<and> h_lines g = h_lines h \<and> h_bKeepAlive g = h_bKeepAlive h"
proof (induction cs arbitrary: pre h rule: enc_chunks.induct)
  case 1
  then show ?case by auto
next
  case (2 ds c cs)
  let ?post = "enc_chunks cs @ post"
  have good: "\<forall>d\<in>set ds. hex_digit d" "c \<noteq> []" "length c + 2 < 2 ^ 64" "unat (hex_size ds) = length c"
    using 2(3) by simp_all
  have pos: "0 < hex_size ds" using good(2,4) by (auto simp: word_neq_0_conv [symmetric])
  have "at_chunk pre (ds @ CR # LF # (c @ CR # LF # ?post)) h" using 2(2) by simp
  from chunk_header [OF this good(1)] pos obtain g1 where g1: "http_analysis h = http_analysis g1"
    "h_data g1 = (pre @ ds @ [0, 0]) @ c @ CR # LF # ?post" "h_analysisIndex g1 = length (pre @ ds @ [0, 0])"
    "h_nowIndex g1 = h_nowIndex h" "h_nowChunkSize g1 = hex_size ds" "h_chunks g1 = h_chunks h" "h_bKeepAlive g1 = h_bKeepAlive h"
    "h_state g1 = State_read_chunk_body" "h_lines g1 = h_lines h"
    by auto
  have now: "h_nowIndex g1 = length (pre @ ds @ [0, 0]) + length c + 2 + length ?post"
    using 2(2) g1(4) by (simp add: at_chunk_def)
  obtain g2 where g2: "http_analysis g1 = http_analysis g2" "at_chunk (pre @ ds @ 0 # 0 # c @ [CR, LF]) ?post g2"
    "h_chunks g2 = h_chunks h @ [(length pre + length ds + 2, of_nat (length c))]" "h_lines g2 = h_lines h" "h_bKeepAlive g2 = h_bKeepAlive h"
    using chunk_body [OF g1(8,2,3) now, unfolded g1(5), OF good(4,3)] g1(6,7,9) by auto
  obtain g3 where "http_analysis g2 = http_analysis g3" "at_chunk ((pre @ ds @ 0 # 0 # c @ [CR, LF]) @ zero_chunks cs) post g3"
    "h_chunks g3 = h_chunks g2 @ chunk_infos (length (pre @ ds @ 0 # 0 # c @ [CR, LF])) cs" "h_lines g3 = h_lines g2" "h_bKeepAlive g3 = h_bKeepAlive g2"
    using 2(1) [OF g2(2)] 2(3) by auto
  then show ?case using g1(1) g2 by (intro exI [of _ g3]) (simp add: algebra_simps eval_nat_numeral)
qed

lemma h_with_keep [simp]: "h_bKeepAlive (h_with d i ls h) = h_bKeepAlive h"
  by (simp add: h_with_def set_data_def)

lemma h_with_same: "h_data h \<noteq> [] \<Longrightarrow> h_with (h_data h) (h_analysisIndex h) (h_lines h) h = h"
  by (cases h; cases "b_data (h_buffer h)") (simp_all add: h_with_def set_data_def h_data_def)

lemma analysis_chunked:
  assumes L: "good_lines L" "L \<noteq> []" and f: "head_fields L = (ka, cl, True)"
    and cs: "\<forall>c\<in>set cs. good_chunk c" and ds: "\<forall>d\<in>set ds. hex_digit d" "hex_size ds = 0" and F: "good_lines F"
  shows "\<exists>g. http_analysis (http_see (enc_head L @ enc_chunks cs @ ds @ CR # LF # enc_head F @ post) http_begin) = (Some True, g)
    \<and> h_state g = State_done \<and> h_data g = zero_head L @ zero_chunks cs @ ds @ 0 # 0 # zero_head F @ post
    \<and> h_lines g = line_infos 0 L @ line_infos (length (enc_head L @ enc_chunks cs @ ds) + 2) F \<and> h_bKeepAlive g = ka
    \<and> h_chunks g = chunk_infos (length (enc_head L)) cs
    \<and> h_analysisIndex g = length (enc_head L @ enc_chunks cs @ ds @ CR # LF # enc_head F)
    \<and> h_nowIndex g = length (enc_head L @ enc_chunks cs @ ds @ CR # LF # enc_head F) + length post"
proof -
  let ?post = "ds @ CR # LF # enc_head F @ post"
  let ?h = "after_head L (enc_chunks cs @ ?post)"
  note a = after_head_fields [of L "enc_chunks cs @ ?post"]
  have ka: "h_bKeepAlive ?h = ka" using a(6) f by (simp add: kv_fields_def)
  have at: "at_chunk (zero_head L) (enc_chunks cs @ ?post) ?h"
    using a(1,3,4,7,8) f by (simp add: at_chunk_def)
  obtain g1 where g1: "http_analysis ?h = http_analysis g1" "at_chunk (zero_head L @ zero_chunks cs) ?post g1"
    "h_chunks g1 = chunk_infos (length (enc_head L)) cs" "h_lines g1 = line_infos 0 L" "h_bKeepAlive g1 = ka"
    using chunks_run [OF at cs] a(2,5) ka by auto
  let ?pre = "zero_head L @ zero_chunks cs @ ds @ [0, 0]"
  obtain g2 where g2: "http_analysis g1 = http_analysis g2" "h_data g2 = ?pre @ enc_head F @ post" "h_analysisIndex g2 = length ?pre"
    "h_nowIndex g2 = h_nowIndex g1" "h_chunks g2 = chunk_infos (length (enc_head L)) cs" "h_bKeepAlive g2 = ka"
    "h_state g2 = State_read_chunk_footer" "h_lines g2 = line_infos 0 L @ [(length ?pre, None)]"
    using chunk_header [OF g1(2) ds(1)] g1(3-5) ds(2) by auto
  have now: "h_nowIndex g2 = length ?pre + length (enc_head F) + length post"
    using g1(2) g2(4) by (simp add: at_chunk_def)
  have lt: "h_analysisIndex g2 < h_nowIndex g2" unfolding g2(3) now using enc_head_pos [of F] by linarith
  have "g2 = h_with (?pre @ enc_head F @ post) (length ?pre) (line_infos 0 L @ [(length ?pre, None)]) g2"
    using h_with_same [of g2] g2(2,3,8) by simp
  then have "line_loop footer_end g2 = footer_end (h_with (?pre @ zero_head F @ post) (length ?pre + length (enc_head F))
      (line_infos 0 L @ line_infos (length ?pre) F) g2)"
    using line_loop_head [OF F now, of footer_end "line_infos 0 L"] by simp
  then have "http_analysis g2 = (Some True, (h_with (?pre @ zero_head F @ post) (length ?pre + length (enc_head F))
      (line_infos 0 L @ line_infos (length ?pre) F) g2)\<lparr>h_state := State_done\<rparr>)"
    using lt g2(7) by (simp add: http_analysis_step analysis_pass_def footer_end_def)
  then show ?thesis using analysis_head [OF L, of "enc_chunks cs @ ?post"] g1(1) g2 now by simp
qed

section \<open>The results of a message\<close>

lemma copy_chunks_slices:
  "\<forall>(f, l)\<in>set cs. f + unat l \<le> length src \<Longrightarrow> sum_list (map (\<lambda>(f, l). unat l) cs) \<le> room \<Longrightarrow>
   copy_chunks src room cs = Some (concat (map (\<lambda>(f, l). take (unat l) (drop f src)) cs))"
  by (induction src room cs rule: copy_chunks.induct) auto

lemma chunk_total_sum:
  "sum_list (map (\<lambda>(f, l). unat l) cs) < 2 ^ 64 \<Longrightarrow> unat (chunk_total cs) = sum_list (map (\<lambda>(f, l). unat l) cs)"
  by (induction cs) (auto simp: chunk_total_def unat_word_ariths)

lemma length_slices:
  "\<forall>(f, l)\<in>set cs. f + unat l \<le> length src \<Longrightarrow>
   length (concat (map (\<lambda>(f, l). take (unat l) (drop f src)) cs)) = sum_list (map (\<lambda>(f, l). unat l) cs)"
  by (induction cs) (auto simp: min_def)

lemma getContent_slices:
  assumes g: "h_state h = State_done" and cs: "\<forall>(f, l)\<in>set (h_chunks h). f + unat l \<le> length (h_data h)"
    and sum: "sum_list (map (\<lambda>(f, l). unat l) (h_chunks h)) < 2 ^ 64" and b: "buf_ok b"
  shows "\<exists>b' live'. getContent True fresh h b live = (True, Buf_ok, b', live') \<and> buf_ok b'
    \<and> buf_bytes b' = concat (map (\<lambda>(f, l). take (unat l) (drop f (h_data h))) (h_chunks h))
    \<and> live' - buf_held b' = live - buf_held b"
proof -
  define c where "c = concat (map (\<lambda>(f, l). take (unat l) (drop f (h_data h))) (h_chunks h))"
  have total: "unat (chunk_total (h_chunks h)) = length c"
    using chunk_total_sum [OF sum] length_slices [OF cs] by (simp add: c_def)
  have copy: "copy_chunks (h_data h) (length c) (h_chunks h) = Some c"
    unfolding c_def by (rule copy_chunks_slices [OF cs]) (simp add: length_slices [OF cs])
  obtain b1 where b1: "buf_resize True fresh (length c) 0 b live = (Buf_ok, b1, live - buf_held b + buf_held b1)"
    "buf_ok b1" "b_length b1 = length c"
    using buf_resize_normal [OF b, of True "length c" fresh 0 live] by auto
  show ?thesis
  proof (cases "c = []")
    case True
    then have "getContent True fresh h b live = (True, Buf_ok, b1, live - buf_held b + buf_held b1)"
      using g total copy b1(1) by (simp add: getContent_def)
    then show ?thesis using b1(2,3) True length_buf_bytes [OF b1(2)] by (simp flip: c_def)
  next
    case False
    then obtain d where d: "b_data b1 = Some d" "length c \<le> length d" "length d = b_maxLength b1"
      using b1(2,3) by (cases "b_data b1") (auto simp: buf_ok_def)
    have ci: "copy_in c (length c) (b_data b1) = Some (c @ drop (length c) d)" using d by (simp add: copy_in_def)
    let ?b = "b1\<lparr>b_data := Some (c @ drop (length c) d)\<rparr>"
    have run: "getContent True fresh h b live = (True, Buf_ok, ?b, live - buf_held b + buf_held b1)"
      using g total copy b1(1) False ci by (simp add: getContent_def)
    have "buf_ok ?b" "buf_bytes ?b = c" "buf_held ?b = buf_held b1"
      using b1(2,3) d by (auto simp: buf_ok_def buf_bytes_def buf_held_def)
    then show ?thesis using run by (simp flip: c_def)
  qed
qed

end
