(* ===== verification/Http_Properties.thy ===== *)
theory Http_Properties
  imports Http_Message
begin

text \<open>
  The theorems about \<open>ChttpContext\<close>: receiving is safe and does not depend on how the bytes
  are cut, well-formed messages are read back, pipelined messages are handed over one by one,
  and the inputs on which the code fails.
\<close>

section \<open>From a view to the context\<close>

lemma view_data:
  assumes "http_ok g"
  shows "h_data g = h_data (http_view g) @ drop (h_nowIndex g) (h_data g)"
  by (simp add: http_view_def)

lemma view_fields:
  "h_state (http_view g) = h_state g" "h_lines (http_view g) = h_lines g" "h_chunks (http_view g) = h_chunks g"
  "h_bKeepAlive (http_view g) = h_bKeepAlive g" "h_nowIndex (http_view g) = h_nowIndex g"
  "h_analysisIndex (http_view g) = h_analysisIndex g"
  by (simp_all add: http_view_def)

text \<open>What reading a stream of pieces from the start amounts to.\<close>

lemma receive_view:
  assumes "http_ready h" and "http_seen h = http_begin" and "receive_all ps h live = Some (r, g, live')"
    and "http_analysis (http_see (piece_bytes ps) http_begin) = (r', x)"
  shows "r' = r \<and> http_view g = x \<and> http_ok g \<and> h_state g = h_state x \<and> h_lines g = h_lines x \<and> h_chunks g = h_chunks x
    \<and> h_bKeepAlive g = h_bKeepAlive x \<and> h_analysisIndex g = h_analysisIndex x
    \<and> (\<exists>tail. h_data g = h_data x @ tail)"
proof -
  have a: "http_analysis (http_see (piece_bytes ps) http_begin) = (r, http_view g)" "http_ok g"
    using receive_all_see [OF assms(1,3)] assms(2) by simp_all
  then have x: "x = http_view g" "r' = r" using assms(4) by simp_all
  have "\<exists>tail. h_data g = h_data (http_view g) @ tail" using view_data [OF a(2)] by blast
  then show ?thesis using a(2) by (simp add: x view_fields)
qed

lemma slices_chunks:
  "\<forall>c\<in>set cs. good_chunk c \<Longrightarrow> src = pre @ zero_chunks cs @ post \<Longrightarrow> length pre = n \<Longrightarrow>
   (\<forall>(f, l)\<in>set (chunk_infos n cs). f + unat l \<le> length src)
   \<and> concat (map (\<lambda>(f, l). take (unat l) (drop f src)) (chunk_infos n cs)) = concat (map snd cs)
   \<and> sum_list (map (\<lambda>(f, l). unat l) (chunk_infos n cs)) = length (concat (map snd cs))"
proof (induction cs arbitrary: pre n rule: enc_chunks.induct)
  case (2 ds c cs)
  have l: "unat (of_nat (length c) :: u64) = length c"
    using 2(2) by (simp add: unat_of_nat take_bit_nat_eq_self)
  show ?case
    using 2(1) [of "pre @ ds @ 0 # 0 # c @ [CR, LF]" "length pre + length ds + length c + 4"] 2(2-4) l
    by (auto simp: add.assoc)
qed simp

section \<open>Streams of concrete bytes\<close>

definition request_line :: "bytes \<Rightarrow> bytes \<Rightarrow> bytes \<Rightarrow> bytes" where
  "request_line m u v = m @ SP # u @ SP # v"

definition plain_line :: "bytes \<Rightarrow> bytes \<Rightarrow> bytes \<Rightarrow> bool" where
  "plain_line m u v \<longleftrightarrow> SP \<notin> set m \<and> SP \<notin> set u \<and> 0 \<notin> set m \<and> 0 \<notin> set u \<and> 0 \<notin> set v"

definition demo_http :: http_ctx where
  "demo_http = http_new 0x1000000 http_begin"

lemma demo_ready: "http_ready demo_http" "http_seen demo_http = http_begin" "h_buffer demo_http = buf_empty"
  by (simp_all add: demo_http_def http_new_def http_ready_def http_seen_def)

text \<open>A new context takes a first piece of up to 4096 bytes.\<close>

lemma receive_first:
  assumes "length bs \<le> 0x1000"
  shows "\<exists>r g live'. receive_all [(True, fresh, bs)] demo_http live = Some (r, g, live')"
proof -
  obtain r place g live' where prep: "prepareBuffer True fresh demo_http live = (r, place, g, live')" by (metis prod_cases4)
  then have "r = Buf_ok \<and> place = Some (0, 0x1000)"
    by (auto simp: prepareBuffer_def http_init_def demo_http_def http_new_def http_begin_def buf_resize_def buf_empty_def
        free_block_def Let_def split: if_splits)
  then show ?thesis using prep assms by (simp add: receive_piece_def split: prod.split)
qed

lemma piece_bytes_one [simp]: "piece_bytes [(mem, fresh, bs)] = bs"
  by (simp add: piece_bytes_def)

definition demo_request :: bytes where
  "demo_request = request_line (ascii ''GET'') (ascii ''/'') (ascii ''HTTP/1.1'')"

definition demo_head :: "string \<Rightarrow> bytes list" where
  "demo_head field = [demo_request, ascii field]"

lemma demo_plain: "plain_line (ascii ''GET'') (ascii ''/'') (ascii ''HTTP/1.1'')"
  by code_simp

lemma demo_good: "good_lines (demo_head ''Content-Length: 3'')" "good_lines (demo_head ''Content-Length: -1'')"
  "good_lines (demo_head ''Transfer-Encoding: chunked'')"
  by code_simp+

lemma demo_fields: "head_fields (demo_head ''Content-Length: 3'') = (False, 3, False)"
  "head_fields (demo_head ''Content-Length: -1'') = (False, 2 ^ 64 - 1, False)"
  "head_fields (demo_head ''Transfer-Encoding: chunked'') = (False, 0, True)"
  by code_simp+

section \<open>Receiving\<close>

text \<open>
  C21: Receiving never runs into undefined behaviour. From a context that has just been created or
  has been working, a piece of any bytes either does not happen, because an allocation threw or
  the bytes do not fit into the room that was offered, or \<open>analysis\<close> returns: true exactly when
  a message is complete or malformed, false only when every further step needs bytes that have
  not come; the context is again one that the next piece may be received with, its capacity
  within the maximum, and it holds exactly its one block.
\<close>

theorem receive_safe:
  assumes "http_ready h" and "receive_piece (mem, fresh, bs) h live = Some (r, g, live')"
  shows "http_ready g \<and> b_length (h_buffer g) \<le> h_maxBufferSize g \<and> h_nowIndex g \<le> b_length (h_buffer g)
    \<and> (r = Some True \<and> (h_state g = State_done \<or> h_state g = State_bad) \<or> r = Some False \<and> http_waits g)
    \<and> live' - 1 = live - buf_held (h_buffer h)"
proof -
  obtain h1 where h1: "http_ok (http_feed bs h1)" "http_analysis (http_feed bs h1) = (r, g)" "r \<noteq> None" "http_ok g" "http_ready g"
    "live' - buf_held (h_buffer g) = live - buf_held (h_buffer h)"
    using assms by (auto elim: receive_piece_cases)
  note base = http_ok_base [OF h1(4)]
  have "room_ok g" using h1(5) base_not_empty [OF base] by (simp add: http_ready_def)
  then have size: "b_length (h_buffer g) \<le> h_maxBufferSize g" "h_nowIndex g \<le> b_length (h_buffer g)" "buf_held (h_buffer g) = 1"
    using base by (auto simp: room_ok_def base_ok_def buf_ok_def buf_held_def)
  show ?thesis
  proof (cases "r = Some True")
    case True
    then show ?thesis using h1 size http_analysis_ok [OF h1(1)] by simp
  next
    case False
    then have "r = Some False" using h1(3) by (cases r) auto
    then show ?thesis using h1 size http_analysis_waits [OF h1(1)] by simp
  qed
qed

text \<open>
  C20: How the bytes are cut into pieces makes no difference, nor what the allocator puts behind
  them: two streams of the same bytes end with the same answer and contexts that agree on
  everything but capacity and the unused rest of the block, so also on the request line and the
  parameters.
\<close>

theorem receive_fragmentation:
  assumes "http_ready h" and "receive_all ps h live = Some (r, g, live')" and "receive_all qs h live2 = Some (r2, g2, live2')"
    and "piece_bytes ps = piece_bytes qs"
  shows "r = r2 \<and> http_view g = http_view g2 \<and> h_state g = h_state g2 \<and> h_lines g = h_lines g2 \<and> h_chunks g = h_chunks g2
    \<and> take (h_nowIndex g) (h_data g) = take (h_nowIndex g2) (h_data g2)"
proof -
  have "http_view g = http_view g2 \<and> r = r2"
    using receive_all_see [OF assms(1,2)] receive_all_see [OF assms(1,3)] assms(4) by simp
  moreover have "h_data (http_view g) = take (h_nowIndex g) (h_data g)" for g by (simp add: http_view_def)
  ultimately show ?thesis using view_fields [of g] view_fields [of g2] by metis
qed

text \<open>
  C36: \<open>prepareBuffer\<close> keeps what was received, offers the free part of the block, and offers
  none only when the message already fills the maximal size; when the allocation throws, the
  context can still be used.
\<close>

theorem prepareBuffer_room:
  assumes "http_ready h" and "prepareBuffer mem fresh h live = (r, place, g, live')"
  shows "r \<noteq> Buf_undefined \<and> http_ready g \<and> (r = Buf_throw \<longrightarrow> \<not> mem)
    \<and> (r = Buf_ok \<longrightarrow> http_view g = http_seen h \<and> b_length (h_buffer g) \<le> h_maxBufferSize g
        \<and> (case place of
             None \<Rightarrow> h_nowIndex g = h_maxBufferSize g
           | Some (pos, room) \<Rightarrow> pos = h_nowIndex g \<and> 0 < room \<and> pos + room = b_length (h_buffer g)
               \<and> b_length (h_buffer g) \<le> length (h_data g)))"
proof -
  note p = prepareBuffer_ready [OF assms]
  show ?thesis
  proof (cases "r = Buf_ok")
    case True
    then have ok: "http_ok g" "room_ok g" "http_view g = http_seen h" using p by simp_all
    have size: "b_length (h_buffer g) \<le> length (h_data g)" "b_length (h_buffer g) \<le> h_maxBufferSize g"
      "h_nowIndex g \<le> b_length (h_buffer g)"
      using ok http_ok_base [OF ok(1)] base_data [of g] by (auto simp: room_ok_def base_ok_def buf_ok_def)
    have place: "place = (if h_nowIndex g < b_length (h_buffer g) then Some (h_nowIndex g, b_length (h_buffer g) - h_nowIndex g) else None)"
      "place = None \<Longrightarrow> h_nowIndex g = h_maxBufferSize g"
      using p True by blast+
    have "case place of None \<Rightarrow> h_nowIndex g = h_maxBufferSize g
        | Some (pos, room) \<Rightarrow> pos = h_nowIndex g \<and> 0 < room \<and> pos + room = b_length (h_buffer g)
            \<and> b_length (h_buffer g) \<le> length (h_data g)"
    proof (cases "h_nowIndex g < b_length (h_buffer g)")
      case True
      then have "place = Some (h_nowIndex g, b_length (h_buffer g) - h_nowIndex g)" using place(1) by (simp only: if_True)
      then show ?thesis using True size by simp
    next
      case False
      then have "place = None" using place(1) by (simp only: if_False)
      then show ?thesis using place(2) by simp
    qed
    then show ?thesis using True p ok(3) size(2) by blast
  next
    case False
    then show ?thesis using p by blast
  qed
qed

section \<open>Well-formed messages\<close>

lemma takeWhile_stop: "x \<notin> set xs \<Longrightarrow> takeWhile (\<lambda>c. c \<noteq> x) (xs @ x # ys) = xs"
  by (induction xs) auto

lemma takeWhile_none: "x \<notin> set xs \<Longrightarrow> takeWhile (\<lambda>c. c \<noteq> x) xs = xs"
  by (induction xs) auto

lemma cstring_first: "0 \<notin> set l \<Longrightarrow> cstring_at (l @ 0 # rest) 0 = Some l"
  by (simp add: cstring_at_def takeWhile_stop)

lemma getInfo_line:
  assumes "h_state g = State_done" and "h_lines g = (0, x) # ls" and "h_data g = request_line m u v @ 0 # rest"
    and "plain_line m u v"
  shows "getInfo g = Some (Some (m, u, v))"
proof -
  have z: "0 \<notin> set (request_line m u v)" using assms(4) by (auto simp: plain_line_def request_line_def)
  have "cstring_at (h_data g) 0 = Some (m @ SP # u @ SP # v)"
    unfolding assms(3) using cstring_first [OF z] by (simp add: request_line_def)
  then show ?thesis
    using assms(1,2,4) by (simp add: getInfo_def plain_line_def takeWhile_stop)
qed

lemma line_infos_first: "L \<noteq> [] \<Longrightarrow> \<exists>x ls. line_infos 0 L = (0, x) # ls"
  by (cases L) auto

lemma getParameter_lines:
  assumes "h_state g = State_done" and "h_lines g = line_infos 0 L @ line_infos n F"
    and "h_data g = zero_head L @ mid @ zero_head F @ rest" and "n = length (enc_head L) + length mid"
  shows "getParameter g = Some (Some (List.map_filter header_fields (L @ F)))"
proof -
  have "line_parameters d (as @ bs) = (case line_parameters d as of None \<Rightarrow> None
      | Some p \<Rightarrow> map_option ((@) p) (line_parameters d bs))" for d as bs
  proof (induction as)
    case Nil
    show ?case by (cases "line_parameters d bs") simp_all
  next
    case (Cons x as)
    then show ?case by (cases x; cases "line_parameters d bs") (auto split: option.splits)
  qed
  moreover have "line_parameters (h_data g) (line_infos 0 L) = Some (List.map_filter header_fields L)"
    using line_parameters_head [of "[]" L] assms(3) by simp
  moreover have "line_parameters (h_data g) (line_infos n F) = Some (List.map_filter header_fields F)"
    using line_parameters_head [of "zero_head L @ mid" F rest] assms(3,4) by simp
  ultimately show ?thesis using assms(1,2) by (simp add: getParameter_def List.map_filter_def)
qed

text \<open>
  C30: A message with a content length is read back, in whatever pieces it comes: request line,
  parameters, connection and content are those that were encoded, and the bytes behind it are
  left for the next message.
\<close>

theorem receive_plain:
  assumes "http_ready h" and "http_seen h = http_begin" and "receive_all ps h live = Some (r, g, live')"
    and "piece_bytes ps = enc_head (request_line m u v # H) @ content @ rest"
    and "plain_line m u v" and "good_lines (request_line m u v # H)"
    and "head_fields (request_line m u v # H) = (ka, of_nat (length content), False)" and "length content < 2 ^ 64" and "buf_ok b"
  shows "r = Some True \<and> isGood g \<and> isKeepAlive g = ka \<and> getInfo g = Some (Some (m, u, v))
    \<and> getParameter g = Some (Some (List.map_filter header_fields (request_line m u v # H)))
    \<and> (\<exists>b' live2'. getContent True fresh g b live2 = (True, Buf_ok, b', live2') \<and> buf_bytes b' = content
         \<and> live2' - buf_held b' = live2 - buf_held b)
    \<and> drop (h_analysisIndex g) (take (h_nowIndex g) (h_data g)) = rest"
proof -
  let ?L = "request_line m u v # H"
  have len: "unat (of_nat (length content) :: u64) = length content"
    using assms(8) by (simp add: unat_of_nat take_bit_nat_eq_self)
  obtain x where run: "http_analysis (http_see (piece_bytes ps) http_begin) = (Some True, x)"
    and x: "h_state x = State_done" "h_data x = zero_head ?L @ content @ rest" "h_lines x = line_infos 0 ?L" "h_bKeepAlive x = ka"
      "h_chunks x = (if content = [] then [] else [(length (enc_head ?L), of_nat (length content))])"
      "h_analysisIndex x = length (enc_head ?L) + length content"
      "h_nowIndex x = length (enc_head ?L) + length content + length rest"
    using analysis_plain [OF assms(6) _ assms(7), of "content @ rest"] len assms(4)
    by (cases content) (auto simp: word_neq_0_conv unat_eq_0 [symmetric])
  note g = receive_view [OF assms(1-3) run]
  have now: "h_nowIndex g = h_nowIndex x" using g view_fields(5) by metis
  obtain tail where data: "h_data g = zero_head ?L @ content @ rest @ tail" using g x(2) by auto
  have info: "getInfo g = Some (Some (m, u, v))"
    by (rule getInfo_line [OF _ _ _ assms(5), of g "Some (length (request_line m u v))"
          "line_infos (length (request_line m u v) + 2) H" "0 # zero_head H @ content @ rest @ tail"])
       (use g x data in simp_all)
  have par: "getParameter g = Some (Some (List.map_filter header_fields ?L))"
    using line_parameters_head [of "[]" ?L "content @ rest @ tail"] g x(1,3) data
    by (simp add: getParameter_def)
  have cs: "\<forall>(f, l)\<in>set (h_chunks g). f + unat l \<le> length (h_data g)"
    using g x(5) len by (simp add: data)
  have sum: "sum_list (map (\<lambda>(f, l). unat l) (h_chunks g)) < 2 ^ 64"
    using g x(5) len assms(8) by simp
  have slices: "concat (map (\<lambda>(f, l). take (unat l) (drop f (h_data g))) (h_chunks g)) = content"
    using g x(5) len by (simp add: data)
  have "drop (h_analysisIndex g) (take (h_nowIndex g) (h_data g)) = rest"
    unfolding now x(7) data using g x(6) by simp
  then show ?thesis
    using getContent_slices [OF _ cs sum assms(9), of fresh live2] g x(1,4) info par slices
    by (auto simp: isGood_def isKeepAlive_def)
qed

lemma drop_mid: "drop (length x) (take (length x + length r) (x @ r @ t)) = r"
  by simp

text \<open>
  C31: A chunked message is read back, in whatever pieces it comes: the chunks' sizes are
  hexadecimal digits of either case, the content is the chunks joined, the lines of the footer
  count among the parameters, and the bytes behind the message are left for the next one.
\<close>

theorem receive_chunked:
  assumes "http_ready h" and "http_seen h = http_begin" and "receive_all ps h live = Some (r, g, live')"
    and "piece_bytes ps = enc_head (request_line m u v # H) @ enc_chunks cs @ ds @ CR # LF # enc_head F @ rest"
    and "plain_line m u v" and "good_lines (request_line m u v # H)"
    and "head_fields (request_line m u v # H) = (ka, cl, True)"
    and "\<forall>c\<in>set cs. good_chunk c" and "\<forall>d\<in>set ds. hex_digit d" and "hex_size ds = 0" and "good_lines F"
    and "length (concat (map snd cs)) < 2 ^ 64" and "buf_ok b"
  shows "r = Some True \<and> isGood g \<and> isKeepAlive g = ka \<and> getInfo g = Some (Some (m, u, v))
    \<and> getParameter g = Some (Some (List.map_filter header_fields (request_line m u v # H @ F)))
    \<and> (\<exists>b' live2'. getContent True fresh g b live2 = (True, Buf_ok, b', live2') \<and> buf_bytes b' = concat (map snd cs)
         \<and> live2' - buf_held b' = live2 - buf_held b)
    \<and> drop (h_analysisIndex g) (take (h_nowIndex g) (h_data g)) = rest"
proof -
  let ?L = "request_line m u v # H" and ?n = "length (enc_head (request_line m u v # H) @ enc_chunks cs @ ds) + 2"
  obtain x where run: "http_analysis (http_see (piece_bytes ps) http_begin) = (Some True, x)"
    and x: "h_state x = State_done" "h_data x = zero_head ?L @ zero_chunks cs @ ds @ 0 # 0 # zero_head F @ rest"
      "h_lines x = line_infos 0 ?L @ line_infos ?n F" "h_bKeepAlive x = ka" "h_chunks x = chunk_infos (length (zero_head ?L)) cs"
      "h_analysisIndex x = length (zero_head ?L @ zero_chunks cs @ ds @ 0 # 0 # zero_head F)"
      "h_nowIndex x = length (zero_head ?L @ zero_chunks cs @ ds @ 0 # 0 # zero_head F) + length rest"
    using analysis_chunked [OF assms(6) _ assms(7-11), of rest] assms(4) by auto
  note g = receive_view [OF assms(1-3) run]
  have now: "h_nowIndex g = h_nowIndex x" using g view_fields(5) by metis
  obtain tail where data: "h_data g = zero_head ?L @ zero_chunks cs @ ds @ 0 # 0 # zero_head F @ rest @ tail" using g x(2) by auto
  have fin: "h_state g = State_done" using g x(1) by simp
  have info: "getInfo g = Some (Some (m, u, v))"
    by (rule getInfo_line [OF fin _ _ assms(5), of "Some (length (request_line m u v))"
          "line_infos (length (request_line m u v) + 2) H @ line_infos ?n F"
          "0 # zero_head H @ zero_chunks cs @ ds @ 0 # 0 # zero_head F @ rest @ tail"])
       (use g x data in simp_all)
  have par: "getParameter g = Some (Some (List.map_filter header_fields (?L @ F)))"
    by (rule getParameter_lines [OF fin, of _ ?n _ "zero_chunks cs @ ds @ [0, 0]" "rest @ tail"]) (use g x data in simp_all)
  have chunks: "h_chunks g = chunk_infos (length (zero_head ?L)) cs" using g x(5) by simp
  note s = slices_chunks [OF assms(8) data refl, folded chunks]
  have "drop (h_analysisIndex g) (take (h_nowIndex g) (h_data g)) = rest"
  proof -
    let ?X = "zero_head ?L @ zero_chunks cs @ ds @ 0 # 0 # zero_head F"
    have "h_data g = ?X @ rest @ tail" "h_analysisIndex g = length ?X" "h_nowIndex g = length ?X + length rest"
      using data g x(6,7) now by simp_all
    then show ?thesis by (simp only: drop_mid)
  qed
  then show ?thesis
    using getContent_slices [OF fin _ _ assms(13), of fresh live2] s assms(12) g x(4) fin info par
    by (auto simp: isGood_def isKeepAlive_def)
qed

section \<open>The next message\<close>

lemma decode_line_take:
  "f + n < k \<Longrightarrow> k \<le> length d \<Longrightarrow> take k d' = take k d \<Longrightarrow> k \<le> length d' \<Longrightarrow> decode_line d' f n = decode_line d f n"
proof -
  assume a: "f + n < k" "k \<le> length d" "take k d' = take k d" "k \<le> length d'"
  have "take n (drop f e) = take n (drop f (take k e))" for e :: bytes using a(1) by (simp add: take_drop min_def)
  then have "take n (drop f d') = take n (drop f d)" using a(3) by metis
  moreover have "d' ! (f + n) = d ! (f + n)" using a by (metis nth_take)
  ultimately show ?thesis using a by (simp add: decode_line_def)
qed

lemma line_parameters_take:
  assumes "lines_done d k ls" and "k \<le> length d" and "take k d' = take k d" and "k \<le> length d'"
  shows "line_parameters d' ls = line_parameters d ls"
  using assms(1)
proof (induction ls)
  case (Cons x ls)
  obtain f n where x: "x = (f, Some n)" "f + n < k" using Cons.prems by (cases x; cases "snd x") (auto simp: lines_done_def)
  have "decode_line d' f n = decode_line d f n" using x(2) assms(2-4) by (rule decode_line_take)
  then show ?case using Cons by (auto simp: x(1) lines_done_def split: option.split)
qed simp

lemma cstring_take:
  assumes "d ! i = 0" and "f \<le> i" and "i < k" and "k \<le> length d" and "take k d' = take k d" and "k \<le> length d'"
  shows "cstring_at d' f = cstring_at d f"
proof -
  have split: "drop f e = drop f (take k e) @ drop k e" if "k \<le> length e" for e :: bytes
    using that assms(2,3) by (metis append_take_drop_id drop_append length_take less_imp_le_nat min.absorb2 le_trans diff_is_0_eq drop_0)
  have "drop f (take k d) ! (i - f) = 0" using assms(1-4) by simp
  moreover have "i - f < length (drop f (take k d))" using assms(2-4) by simp
  ultimately have z: "0 \<in> set (drop f (take k d))" by (metis nth_mem)
  have "cstring_at e f = Some (takeWhile (\<lambda>c. c \<noteq> 0) (drop f (take k d)))" if "k \<le> length e" "take k e = take k d" for e
    using z split [OF that(1)] that(2) by (simp add: cstring_at_def takeWhile_append1)
  then show ?thesis using assms(4-6) by simp
qed

lemma getInfo_take:
  assumes "h_state g = h_state h" and "h_lines g = h_lines h" and "lines_done (h_data h) k (h_lines h)"
    and "k \<le> length (h_data h)" and "take k (h_data g) = take k (h_data h)" and "k \<le> length (h_data g)"
  shows "getInfo g = getInfo h"
proof (cases "h_lines h")
  case (Cons x ls)
  obtain f n where x: "x = (f, Some n)" "f + n < k" "h_data h ! (f + n) = 0"
    using assms(3) Cons by (cases x; cases "snd x") (auto simp: lines_done_def)
  have "cstring_at (h_data g) f = cstring_at (h_data h) f"
    using x(3) _ x(2) assms(4-6) by (rule cstring_take) simp
  then show ?thesis using assms(1,2) Cons x by (simp add: getInfo_def)
qed (use assms(1,2) in \<open>simp add: getInfo_def\<close>)

lemma reinit_run:
  assumes "h_state h = State_done" and b: "buf_set True fresh (h_data h) (h_analysisIndex h) (h_buffer former) live = (Buf_ok, b', live')"
  shows "\<exists>h' f'. reinitForNext True fresh h former live = (True, Buf_ok, h', f', live')
    \<and> h_buffer f' = b' \<and> h_state f' = State_done \<and> h_lines f' = h_lines h \<and> h_chunks f' = h_chunks h \<and> h_bKeepAlive f' = h_bKeepAlive h
    \<and> h_nowIndex f' = h_analysisIndex h \<and> h_analysisIndex f' = h_analysisIndex h
    \<and> h' = (set_data (take (h_nowIndex h - h_analysisIndex h) (drop (h_analysisIndex h) (h_data h))
              @ drop (h_nowIndex h - h_analysisIndex h) (h_data h)) h)\<lparr>
            h_nowIndex := h_nowIndex h - h_analysisIndex h, h_analysisIndex := 0, h_state := State_start, h_lines := [],
            h_headerSize := 0, h_bKeepAlive := False, h_bChunked := False, h_contentLength := 0, h_nowChunkSize := 0,
            h_bChunkSizeStart := False, h_bChunkSizeDone := False, h_chunks := []\<rparr>"
  using assms by (simp add: reinitForNext_def Let_def)

lemma reinit_ok:
  assumes ok: "http_ok h" "room_ok h" and st: "h_state h = State_done" and former: "buf_ok (h_buffer former)"
    and res: "reinitForNext True fresh h former live = (ret, e, h', f', live')"
  shows "ret \<and> e = Buf_ok \<and> isGood f' \<and> http_ok f' \<and> h_nowIndex h' = h_nowIndex h - h_analysisIndex h \<and> room_ok h' \<and> http_ok h' \<and> getInfo f' = getInfo h \<and> getParameter f' = getParameter h
    \<and> isKeepAlive f' = isKeepAlive h \<and> h_chunks f' = h_chunks h
    \<and> buf_bytes (h_buffer f') = take (h_analysisIndex h) (h_data h)
    \<and> live' - buf_held (h_buffer f') = live - buf_held (h_buffer former)
    \<and> http_ready h' \<and> http_seen h' = http_see (drop (h_analysisIndex h) (take (h_nowIndex h) (h_data h))) http_begin
    \<and> apsnd http_view (http_analysis h') = http_analysis (http_see (drop (h_analysisIndex h) (take (h_nowIndex h) (h_data h))) http_begin)"
proof -
  note base = http_ok_base [OF ok(1)]
  let ?i = "h_analysisIndex h" and ?n = "h_nowIndex h" and ?d = "h_data h"
  have idx: "?i \<le> ?n" "?n \<le> length ?d" using base base_now [OF base] by (simp_all add: base_ok_def)
  obtain b where set: "buf_set True fresh ?d ?i (h_buffer former) live = (Buf_ok, b, live - buf_held (h_buffer former) + buf_held b)"
    and b: "buf_ok b" "buf_bytes b = take ?i ?d"
    using buf_set_normal [OF former, of ?i ?d True fresh live] idx by auto
  let ?e = "take (?n - ?i) (drop ?i ?d)"
  have f': "h_buffer f' = b" "h_state f' = State_done" "h_lines f' = h_lines h" "h_chunks f' = h_chunks h" "h_bKeepAlive f' = h_bKeepAlive h"
      "h_nowIndex f' = ?i" "h_analysisIndex f' = ?i"
    and fin: "ret" "e = Buf_ok" "live' = live - buf_held (h_buffer former) + buf_held b"
    and h': "h' = (set_data (?e @ drop (?n - ?i) ?d) h)\<lparr>
            h_nowIndex := ?n - ?i, h_analysisIndex := 0, h_state := State_start, h_lines := [],
            h_headerSize := 0, h_bKeepAlive := False, h_bChunked := False, h_contentLength := 0, h_nowChunkSize := 0,
            h_bChunkSizeStart := False, h_bChunkSizeDone := False, h_chunks := []\<rparr>"
    using reinit_run [OF st set] res by auto
  have len: "?i \<le> length (h_data f')" "take ?i (h_data f') = take ?i ?d"
    using b f'(1) idx by (auto simp: h_data_def buf_bytes_def buf_ok_def split: option.splits) (metis length_take min.absorb2 le_trans linorder_le_cases take_all)+
  have lines: "lines_done ?d ?i (h_lines h)" using ok(1) st by (simp add: http_ok_def closed_ok_def)
  have i: "?i \<le> length ?d" using idx by simp
  have results: "getInfo f' = getInfo h" "getParameter f' = getParameter h"
    using getInfo_take [OF _ f'(3) lines i len(2,1)] line_parameters_take [OF lines i len(2,1)] f' st
    by (simp_all add: getParameter_def)
  have e: "?e = drop ?i (take ?n ?d)" by (simp add: drop_take)
  have base': "base_ok h'"
    using base idx by (auto simp: h' base_ok_def buf_ok_def set_data_def h_data_def split: option.splits)
  then have ready: "http_ok h'" "room_ok h'" using ok(2) by (simp_all add: h' http_ok_def room_ok_def)
  have view: "http_view h' = http_see (drop ?i (take ?n ?d)) http_begin"
    using idx by (simp add: h' http_view_def http_see_def h_put_def http_begin_def e [symmetric] min_def)
  have "http_seen h' = http_view h'" using base_not_empty [OF base'] by (simp add: http_seen_def)
  moreover have "http_ok f'"
  proof -
    have pos: "0 < ?i" using ok(1) st by (simp add: http_ok_def closed_ok_def)
    have blen: "b_length b = ?i" using length_buf_bytes [OF b(1)] b(2) idx by simp
    then have "b_data b \<noteq> None" using b(1) pos by (cases "b_data b") (auto simp: buf_ok_def)
    moreover have "lines_done (h_data f') ?i (h_lines h)"
      by (rule lines_done_keep [OF lines order.refl]) (metis len(2) nth_take)
    ultimately show ?thesis using b(1) blen pos f' by (simp add: http_ok_def closed_ok_def base_ok_def)
  qed
  moreover have "h_nowIndex h' = ?n - ?i" by (simp add: h')
  ultimately show ?thesis
    using fin f' b results ready view http_view_analysis [OF ready(1)] by (simp add: isGood_def isKeepAlive_def http_ready_def)
qed

text \<open>
  \<open>reinitForNext\<close> hands the finished message to the other context with everything that can
  be asked of it (request line, parameters, connection, chunks and their bytes), and leaves a
  context that is ready and has received exactly the bytes behind the message: its analysis
  answers as that of a new context would that had received them.
\<close>

theorem reinit_next:
  assumes ok: "http_ok h" "room_ok h" and st: "h_state h = State_done" and former: "buf_ok (h_buffer former)"
    and res: "reinitForNext True fresh h former live = (ret, e, h', f', live')"
  shows "ret \<and> e = Buf_ok \<and> isGood f' \<and> getInfo f' = getInfo h \<and> getParameter f' = getParameter h
    \<and> isKeepAlive f' = isKeepAlive h \<and> h_chunks f' = h_chunks h
    \<and> buf_bytes (h_buffer f') = take (h_analysisIndex h) (h_data h)
    \<and> live' - buf_held (h_buffer f') = live - buf_held (h_buffer former)
    \<and> http_ready h' \<and> http_seen h' = http_see (drop (h_analysisIndex h) (take (h_nowIndex h) (h_data h))) http_begin
    \<and> apsnd http_view (http_analysis h') = http_analysis (http_see (drop (h_analysisIndex h) (take (h_nowIndex h) (h_data h))) http_begin)"
  using reinit_ok [OF assms] by simp

section \<open>Malformed and hostile messages\<close>

lemma see_line_loop:
  assumes "LF \<notin> set s" and "s \<noteq> []" and "piece = s @ LF # rest"
  shows "http_analysis (http_see piece http_begin)
    = http_analysis (h_with piece 0 [(0, None)] ((http_see piece http_begin)\<lparr>h_state := State_read_header\<rparr>))"
    "analysis_pass (h_with piece 0 [(0, None)] ((http_see piece http_begin)\<lparr>h_state := State_read_header\<rparr>))
    = line_loop header_end (h_with piece (length s) [(0, None)] ((http_see piece http_begin)\<lparr>h_state := State_read_header\<rparr>))"
proof -
  let ?b = "http_see piece http_begin"
  let ?r = "h_with piece 0 [(0, None)] (?b\<lparr>h_state := State_read_header\<rparr>)"
  obtain c cs where d: "piece = c # cs" "c \<noteq> LF" using assms by (cases s) auto
  have "?b\<lparr>h_state := State_read_header, h_lines := [(0, None)]\<rparr> = ?r"
    by (simp add: h_with_def set_data_def http_see_def h_put_def http_begin_def h_data_def)
  then have "analysis_pass ?b = (Pass_again, ?r)" using d by (simp add: analysis_pass_def)
  then show "http_analysis ?b = http_analysis ?r" using d(1) by (simp add: http_analysis_step)
  have "\<And>j. j < length s \<Longrightarrow> h_data ?r ! j \<noteq> LF" using assms(1,3) by (auto simp: nth_append dest: nth_mem)
  then have "line_loop header_end ?r = line_continue header_end (?r\<lparr>h_analysisIndex := length s\<rparr>)"
    using line_loop_skip [of "length s" ?r header_end] assms(3) by simp
  then show "analysis_pass ?r = line_loop header_end (h_with piece (length s) [(0, None)] (?b\<lparr>h_state := State_read_header\<rparr>))"
    using assms(3) by (simp add: analysis_pass_def line_continue_def)
qed

text \<open>
  A line feed that does not follow a carriage return makes the message bad, also as the very
  first byte: \<open>analysis\<close> answers true and \<open>isGood\<close> is false, however the bytes come.
\<close>

theorem bare_line_feed_is_bad:
  assumes "http_ready h" and "http_seen h = http_begin" and "receive_all ps h live = Some (r, g, live')"
    and "piece_bytes ps = s @ LF # rest" and "LF \<notin> set s" and "s = [] \<or> last s \<noteq> CR"
  shows "r = Some True \<and> h_state g = State_bad \<and> \<not> isGood g \<and> getInfo g = Some None \<and> getParameter g = Some None"
proof -
  let ?p = "s @ LF # rest"
  let ?b = "http_see ?p http_begin"
  have "\<exists>x. http_analysis ?b = (Some True, x) \<and> h_state x = State_bad"
  proof (cases "s = []")
    case True
    then have "analysis_pass ?b = (Pass_return True, ?b\<lparr>h_state := State_bad\<rparr>)" by (simp add: analysis_pass_def)
    then show ?thesis using True by (simp add: http_analysis_step)
  next
    case False
    let ?r = "h_with ?p (length s) [(0, None)] (?b\<lparr>h_state := State_read_header\<rparr>)"
    have "?p ! (length s - 1) = last s" using False by (simp add: nth_append last_conv_nth)
    then have "line_feed ?r = (Line_bad, ?r\<lparr>h_state := State_bad\<rparr>)"
      using assms(6) False by (simp add: line_feed_def Let_def)
    then have "line_loop header_end ?r = (Pass_return True, ?r\<lparr>h_state := State_bad\<rparr>)"
      using line_loop_feed [of ?r Line_bad "?r\<lparr>h_state := State_bad\<rparr>" header_end] by simp
    then show ?thesis
      using see_line_loop [OF assms(5) False refl, of rest] by (simp add: http_analysis_step)
  qed
  then obtain x where "http_analysis (http_see (piece_bytes ps) http_begin) = (Some True, x)" "h_state x = State_bad"
    using assms(4) by auto
  then show ?thesis using receive_view [OF assms(1-3)] by (auto simp: isGood_def getInfo_def getParameter_def)
qed

text \<open>
  While fewer bytes have come than the head announced, the message waits. A negative length,
  as in the witness, is such a head: \<open>atoi\<close> gives an int, which becomes a huge \<open>size_t\<close>,
  and the connection waits for bytes that the buffer can never hold.
\<close>

theorem short_body_waits:
  assumes "http_ready h" and "http_seen h = http_begin" and "receive_all ps h live = Some (r, g, live')"
    and "piece_bytes ps = enc_head L @ post" and "good_lines L" and "L \<noteq> []"
    and "head_fields L = (ka, cl, False)" and "length post < unat cl"
  shows "r = Some False \<and> h_state g = State_read_body \<and> isGood g = False"
proof -
  let ?h = "after_head L post"
  have "cl \<noteq> 0" using assms(8) by auto
  then have st: "h_state ?h = State_read_body" "h_contentLength ?h = cl"
    using after_head_fields(6,7) [of L post] assms(7) by (simp_all add: kv_fields_def word_neq_0_conv)
  then have "http_waits ?h" using assms(8) after_head_fields(3,4) [of L post] by (simp add: http_waits_def)
  then have "http_analysis (http_see (piece_bytes ps) http_begin) = (Some False, ?h)"
    using analysis_head [OF assms(5,6), of post] http_waits_analysis assms(4) by simp
  then show ?thesis using receive_view [OF assms(1-3)] st(1) by (auto simp: isGood_def)
qed

text \<open>
  A first line with only one space makes \<open>getInfo\<close> undefined (the code tests the first
  blank twice and never the second), and so does a message whose first line is empty, which has
  no first line to look at.
\<close>

theorem short_request_line_undefined:
  assumes "http_ready h" and "http_seen h = http_begin" and "receive_all ps h live = Some (r, g, live')"
    and "piece_bytes ps = enc_head L @ rest" and "good_lines L" and "L = [] \<and> rest = [] \<or> (\<exists>m u H. L = (m @ SP # u) # H
      \<and> SP \<notin> set m \<and> SP \<notin> set u \<and> 0 \<notin> set m \<and> 0 \<notin> set u \<and> (\<exists>ka. head_fields L = (ka, 0, False)))"
  shows "r = Some True \<and> isGood g \<and> getInfo g = None"
proof (cases "L = []")
  case True
  let ?b = "(http_see [CR, LF] http_begin)\<lparr>h_state := State_read_header\<rparr>"
  have a: "http_analysis (http_see [CR, LF] http_begin) = http_analysis (h_with [CR, LF] 0 [(0, None)] ?b)"
    by (rule see_line_loop(1) [of "[CR]" _ "[]"]) simp_all
  have "line_loop header_end (h_with [CR, LF] 0 [(0, None)] ?b) = header_end (h_with [0, 0] 2 [] ?b)"
    using line_loop_line [of "[]" ?b "[]" "[]" header_end "[]"] by (simp add: eval_nat_numeral)
  also have "\<dots> = (Pass_again, (h_with [0, 0] 2 [] ?b)\<lparr>h_headerSize := 2, h_state := State_done\<rparr>)"
    by (simp add: header_end_def decoderHeaderAndUpdateState_def switch_state_def Let_def)
       (simp add: h_with_def set_data_def http_see_def h_put_def http_begin_def)
  finally have "http_analysis (h_with [CR, LF] 0 [(0, None)] ?b)
      = (Some True, (h_with [0, 0] 2 [] ?b)\<lparr>h_headerSize := 2, h_state := State_done\<rparr>)"
    by (simp add: http_analysis_step analysis_pass_def http_analysis_stop)
  then obtain x where "http_analysis (http_see (piece_bytes ps) http_begin) = (Some True, x)" "h_state x = State_done" "h_lines x = []"
    using a assms(4,6) True by auto
  then show ?thesis using receive_view [OF assms(1-3)] by (auto simp: isGood_def getInfo_def)
next
  case False
  then obtain m u H ka where L: "L = (m @ SP # u) # H" "SP \<notin> set m" "SP \<notin> set u" "0 \<notin> set m" "0 \<notin> set u"
    "head_fields L = (ka, 0, False)" using assms(6) by auto
  obtain x where run: "http_analysis (http_see (piece_bytes ps) http_begin) = (Some True, x)" and x: "h_state x = State_done"
    "h_data x = zero_head L @ rest" "h_lines x = line_infos 0 L"
    using analysis_plain [OF assms(5) False L(6), of rest] assms(4) by auto
  note g = receive_view [OF assms(1-3) run]
  obtain tail where "h_data g = (m @ SP # u) @ 0 # (0 # zero_head H @ rest @ tail)" using g x(2) L(1) by auto
  then have "cstring_at (h_data g) 0 = Some (m @ SP # u)" using cstring_first [of "m @ SP # u"] L(4,5) by simp
  then have "getInfo g = None"
    using g x(1,3) L(1-3) by (simp add: getInfo_def takeWhile_stop takeWhile_none)
  then show ?thesis using g x(1) by (simp add: isGood_def)
qed

text \<open>A chunk that claims 2^64 - 2 bytes, then one of 3.\<close>

definition overflow_message :: bytes where
  "overflow_message = enc_head [ascii ''POST / HTTP/1.1'', ascii ''Transfer-Encoding: chunked'']
     @ ascii ''fffffffffffffffe'' @ [CR, LF] @ ascii ''3'' @ [CR, LF] @ ascii ''abc'' @ [CR, LF] @ ascii ''0'' @ [CR, LF, CR, LF]"

lemma overflow_run:
  "(case http_analysis (http_see overflow_message http_begin) of
      (r, x) \<Rightarrow> r = Some True \<and> h_state x = State_done \<and> h_chunks x = [(65, 2 ^ 64 - 2), (68, 3)])"
  by code_simp

text \<open>
  C37: A chunk size of 2^64 - 2 makes the test \<open>m_nowChunkSize + 2\<close> wrap to 0: the chunk is
  accepted with none of its bytes there. The sum in \<open>getContent\<close> wraps as well, so that the
  buffer gets one byte and the copy runs out of both blocks.
\<close>

theorem chunk_size_overflow:
  assumes "http_ready h" and "http_seen h = http_begin" and "receive_all ps h live = Some (r, g, live')"
    and "piece_bytes ps = overflow_message" and "buf_ok b"
  shows "r = Some True \<and> isGood g \<and> chunk_total (h_chunks g) = 1 \<and> fst (snd (getContent True fresh g b live2)) = Buf_undefined"
proof -
  obtain r' x where run: "http_analysis (http_see overflow_message http_begin) = (r', x)" by fastforce
  then have x: "r' = Some True" "h_state x = State_done" "h_chunks x = [(65, 2 ^ 64 - 2), (68, 3)]"
    using overflow_run by simp_all
  have g: "r = Some True" "h_state g = State_done" "h_chunks g = [(65, 2 ^ 64 - 2), (68, 3)]"
    using receive_view [OF assms(1-3)] run x assms(4) by auto
  have total: "chunk_total (h_chunks g) = 1" by (simp add: g(3) chunk_total_def)
  obtain b1 where b1: "buf_resize True fresh 1 0 b live2 = (Buf_ok, b1, live2 - buf_held b + buf_held b1)"
    using buf_resize_normal [OF assms(5), of True 1 fresh 0 live2] by auto
  have "copy_chunks (h_data g) 1 (h_chunks g) = None" by (simp add: g(3))
  then show ?thesis using g total b1 by (simp add: getContent_def isGood_def)
qed

section \<open>Witnesses\<close>

text \<open>A request with a content of three bytes and one byte more.\<close>

definition demo_plain_bytes :: bytes where
  "demo_plain_bytes = enc_head (demo_head ''Content-Length: 3'') @ [97, 98, 99] @ [71]"

lemma demo_first:
  assumes "length bs \<le> 0x1000"
  obtains r g live' where "receive_all [(True, \<lambda>_. 0, bs)] demo_http 0 = Some (r, g, live')"
    "receive_piece (True, \<lambda>_. 0, bs) demo_http 0 = Some (r, g, live')"
  using receive_first [OF assms, of "\<lambda>_. 0" 0] by auto

lemma demo_lengths: "length demo_plain_bytes \<le> 0x1000" "length overflow_message \<le> 0x1000"
  by code_simp+

theorem receive_safe_witness:
  "\<exists>r g live'. receive_piece (True, \<lambda>_. 0, demo_plain_bytes) demo_http 0 = Some (r, g, live') \<and> http_ready g \<and> live' = 1"
proof -
  obtain r g live' where r: "receive_piece (True, \<lambda>_. 0, demo_plain_bytes) demo_http 0 = Some (r, g, live')"
    by (rule demo_first [OF demo_lengths(1)])
  with receive_safe [OF demo_ready(1) r] show ?thesis by (auto simp: demo_ready(3))
qed

lemma demo_two:
  assumes "length bs \<le> 0x1000"
  shows "\<exists>r g live'. receive_all [(True, fresh, []), (True, fresh, bs)] demo_http live = Some (r, g, live')"
proof -
  obtain r g live' where one: "receive_piece (True, fresh, []) demo_http live = Some (r, g, live')"
    using receive_first [of "[]" fresh live] by auto
  obtain h1 where h1: "http_ok h1" "http_view h1 = http_begin" "http_analysis (http_feed [] h1) = (r, g)" "http_ok g" "http_ready g"
    "http_ok (http_feed [] h1)" "h_nowIndex h1 + length ([] :: bytes) \<le> b_length (h_buffer h1)"
    using receive_piece_cases [OF demo_ready(1) one] demo_ready(2) by metis
  have "h_nowIndex h1 = 0" using view_fields(5) [of h1] h1(2) by (simp add: http_begin_def)
  moreover have "h_nowIndex (http_feed [] h1) = h_nowIndex h1" using http_feed_put [OF h1(1,7)] by simp
  ultimately have now: "h_nowIndex g = 0" using http_analysis_now [OF h1(6)] h1(3) by simp
  have room: "0x1000 \<le> b_length (h_buffer g)" "h_buffer g \<noteq> buf_empty"
    using h1(5) base_not_empty [OF http_ok_base [OF h1(4)]] by (simp_all add: http_ready_def room_ok_def)
  have "prepareBuffer True fresh g live' = (Buf_ok, Some (0, b_length (h_buffer g)), g, live')"
    using room now base_not_empty [OF http_ok_base [OF h1(4)]] by (simp add: prepareBuffer_def http_init_def)
  then have "\<exists>x. receive_piece (True, fresh, bs) g live' = Some x"
    using assms room by (simp add: receive_piece_def split: prod.split)
  then show ?thesis using one by auto
qed

theorem receive_fragmentation_witness:
  "\<exists>r g l r2 g2 l2. receive_all [(True, \<lambda>_. 0, demo_plain_bytes)] demo_http 0 = Some (r, g, l)
    \<and> receive_all [(True, \<lambda>_. 1, []), (True, \<lambda>_. 1, demo_plain_bytes)] demo_http 0 = Some (r2, g2, l2)
    \<and> r = r2 \<and> http_view g = http_view g2"
proof -
  obtain r g l where a: "receive_all [(True, \<lambda>_. 0, demo_plain_bytes)] demo_http 0 = Some (r, g, l)"
    by (rule demo_first [OF demo_lengths(1)])
  obtain r2 g2 l2 where b: "receive_all [(True, \<lambda>_. 1, []), (True, \<lambda>_. 1, demo_plain_bytes)] demo_http 0 = Some (r2, g2, l2)"
    using demo_two [OF demo_lengths(1)] by blast
  from receive_fragmentation [OF demo_ready(1) a b] a b show ?thesis by (simp add: piece_bytes_def)
qed

theorem prepareBuffer_room_witness:
  "\<exists>place g live'. prepareBuffer True (\<lambda>_. 0) demo_http 0 = (Buf_ok, place, g, live') \<and> http_ready g"
proof -
  obtain r place g live' where p: "prepareBuffer True (\<lambda>_. 0) demo_http 0 = (r, place, g, live')" by (metis prod_cases4)
  note prepareBuffer_room [OF demo_ready(1) p]
  then show ?thesis using p by (cases r) auto
qed

theorem receive_plain_witness:
  "\<exists>g live'. receive_all [(True, \<lambda>_. 0, demo_plain_bytes)] demo_http 0 = Some (Some True, g, live') \<and> isGood g
    \<and> getInfo g = Some (Some (ascii ''GET'', ascii ''/'', ascii ''HTTP/1.1''))
    \<and> getParameter g = Some (Some [(ascii ''Content-Length'', ascii ''3'')])"
proof -
  obtain r g l where a: "receive_all [(True, \<lambda>_. 0, demo_plain_bytes)] demo_http 0 = Some (r, g, l)"
    by (rule demo_first [OF demo_lengths(1)])
  have "List.map_filter header_fields (demo_head ''Content-Length: 3'') = [(ascii ''Content-Length'', ascii ''3'')]" by code_simp
  note head = this demo_good(1) demo_fields(1)
  have eq: "piece_bytes [(True, \<lambda>_. 0, demo_plain_bytes)] = enc_head (request_line (ascii ''GET'') (ascii ''/'') (ascii ''HTTP/1.1'')
      # [ascii ''Content-Length: 3'']) @ [97, 98, 99] @ [71]"
    by (simp only: piece_bytes_one demo_plain_bytes_def demo_head_def demo_request_def)
  have three: "of_nat (length [97, 98, 99 :: u8]) = (3 :: u64)" "length [97, 98, 99 :: u8] < 2 ^ 64" by simp_all
  note p = receive_plain [OF demo_ready(1,2) a eq demo_plain head(2) [unfolded demo_head_def demo_request_def]
      head(3) [unfolded demo_head_def demo_request_def, folded three(1)] three(2) buf_ok_empty(1)]
  note info = p [THEN conjunct2, THEN conjunct2, THEN conjunct2]
  show ?thesis
    by (intro exI conjI, rule a [unfolded p [THEN conjunct1]], rule p [THEN conjunct2, THEN conjunct1], rule info [THEN conjunct1],
        rule info [THEN conjunct2, THEN conjunct1, unfolded head(1) [unfolded demo_head_def demo_request_def]])
qed

definition demo_chunk_bytes :: bytes where
  "demo_chunk_bytes = enc_head (demo_head ''Transfer-Encoding: chunked'') @ enc_chunks [([51], [97, 98, 99]), ([97], replicate 10 120)]
     @ [48] @ CR # LF # enc_head [ascii ''X: y''] @ []"

lemma demo_chunks:
  "\<forall>c\<in>set [([51], [97, 98, 99]), ([97], replicate 10 120)]. good_chunk c" "\<forall>d\<in>set [48]. hex_digit d" "hex_size [48] = 0"
  by (simp_all add: hex_digit_def hex_size_def hex_step_def)

lemma demo_footer: "good_lines [ascii ''X: y'']" "length demo_chunk_bytes \<le> 0x1000"
  by code_simp+

theorem receive_chunked_witness:
  "\<exists>g live'. receive_all [(True, \<lambda>_. 0, demo_chunk_bytes)] demo_http 0 = Some (Some True, g, live') \<and> isGood g
    \<and> (\<exists>b' live2'. getContent True (\<lambda>_. 0) g buf_empty 0 = (True, Buf_ok, b', live2')
         \<and> buf_bytes b' = [97, 98, 99] @ replicate 10 120)"
proof -
  obtain r g l where a: "receive_all [(True, \<lambda>_. 0, demo_chunk_bytes)] demo_http 0 = Some (r, g, l)"
    by (rule demo_first [OF demo_footer(2)])
  have eq: "piece_bytes [(True, \<lambda>_. 0, demo_chunk_bytes)] = enc_head (request_line (ascii ''GET'') (ascii ''/'') (ascii ''HTTP/1.1'')
      # [ascii ''Transfer-Encoding: chunked'']) @ enc_chunks [([51], [97, 98, 99]), ([97], replicate 10 120)]
      @ [48] @ CR # LF # enc_head [ascii ''X: y''] @ []"
    by (simp only: piece_bytes_one demo_chunk_bytes_def demo_head_def demo_request_def)
  have joined: "concat (map snd [([51 :: u8], [97, 98, 99 :: u8]), ([97], replicate 10 120)]) = [97, 98, 99] @ replicate 10 120"
    "length (concat (map snd [([51 :: u8], [97, 98, 99 :: u8]), ([97], replicate 10 120)])) < 2 ^ 64" by simp_all
  from receive_chunked [OF demo_ready(1,2) a eq demo_plain demo_good(3) [unfolded demo_head_def demo_request_def]
      demo_fields(3) [unfolded demo_head_def demo_request_def] demo_chunks demo_footer(1) joined(2) buf_ok_empty(1), of "\<lambda>_. 0" 0, unfolded joined(1)]
  show ?thesis using a by blast
qed

lemma demo_plain_run:
  "(case http_analysis (http_see demo_plain_bytes http_begin) of
      (r, x) \<Rightarrow> r = Some True \<and> h_state x = State_done \<and> drop (h_analysisIndex x) (h_data x) = [71])"
  by code_simp

theorem reinit_next_witness:
  "\<exists>g live h' f' live'. receive_all [(True, \<lambda>_. 0, demo_plain_bytes)] demo_http 0 = Some (Some True, g, live)
    \<and> reinitForNext True (\<lambda>_. 0) g demo_http live = (True, Buf_ok, h', f', live')
    \<and> isGood f' \<and> http_ready h' \<and> http_seen h' = http_see [71] http_begin"
proof -
  obtain r g l where a: "receive_all [(True, \<lambda>_. 0, demo_plain_bytes)] demo_http 0 = Some (r, g, l)"
    by (rule demo_first [OF demo_lengths(1)])
  have see: "http_analysis (http_see demo_plain_bytes http_begin) = (r, http_view g)" and g: "http_ok g" "http_ready g"
    using receive_all_see [OF demo_ready(1) a] by (simp_all add: demo_ready(2))
  have x: "r = Some True" "h_state g = State_done" "drop (h_analysisIndex g) (take (h_nowIndex g) (h_data g)) = [71]"
    using demo_plain_run by (simp_all add: see view_fields) (simp add: http_view_def)
  have room: "room_ok g" using g base_not_empty [OF http_ok_base [OF g(1)]] by (simp add: http_ready_def)
  have former: "buf_ok (h_buffer demo_http)" by (simp add: demo_ready(3))
  obtain ret e h' f' l' where re: "reinitForNext True (\<lambda>_. 0) g demo_http l = (ret, e, h', f', l')" by (metis prod_cases5)
  note n = reinit_next [OF g(1) room x(2) former re, unfolded x(3)]
  have out: "ret" "e = Buf_ok" using n by blast+
  have "reinitForNext True (\<lambda>_. 0) g demo_http l = (True, Buf_ok, h', f', l')" using re out by simp
  then show ?thesis using a n unfolding x(1) by blast
qed

theorem bare_line_feed_is_bad_witness:
  "\<exists>g live'. receive_all [(True, \<lambda>_. 0, [71, 69, 84, LF, 13])] demo_http 0 = Some (Some True, g, live') \<and> h_state g = State_bad"
proof -
  obtain r g l where a: "receive_all [(True, \<lambda>_. 0, [71, 69, 84, LF, 13])] demo_http 0 = Some (r, g, l)"
    by (rule demo_first [of "[71, 69, 84, LF, 13]"]) simp_all
  have eq: "piece_bytes [(True, \<lambda>_. 0, [71, 69, 84, LF, 13])] = [71, 69, 84] @ LF # [13]" by simp
  have "LF \<notin> set [71, 69, 84]" "[71, 69, 84] = [] \<or> last [71, 69, 84] \<noteq> CR" by simp_all
  from bare_line_feed_is_bad [OF demo_ready(1,2) a eq this] a show ?thesis by blast
qed

theorem short_body_waits_witness:
  "\<exists>g live'. receive_all [(True, \<lambda>_. 0, enc_head (demo_head ''Content-Length: -1'') @ [97])] demo_http 0 = Some (Some False, g, live')
    \<and> h_state g = State_read_body"
proof -
  have "length (enc_head (demo_head ''Content-Length: -1'') @ [97]) \<le> 0x1000" by code_simp
  then obtain r g l where a: "receive_all [(True, \<lambda>_. 0, enc_head (demo_head ''Content-Length: -1'') @ [97])] demo_http 0 = Some (r, g, l)"
    by (rule demo_first)
  have "demo_head ''Content-Length: -1'' \<noteq> []" "length [97 :: u8] < unat (2 ^ 64 - 1 :: u64)" by (simp_all add: demo_head_def)
  from short_body_waits [OF demo_ready(1,2) a piece_bytes_one demo_good(2) this(1) demo_fields(2) this(2)] a show ?thesis by blast
qed

theorem short_request_line_undefined_witness:
  "\<exists>g live'. receive_all [(True, \<lambda>_. 0, enc_head [[71, 69, 84] @ SP # [47]] @ [])] demo_http 0 = Some (Some True, g, live') \<and> getInfo g = None"
proof -
  have "length (enc_head [[71, 69, 84] @ SP # [47]] @ []) \<le> 0x1000" by simp
  then obtain r g l where a: "receive_all [(True, \<lambda>_. 0, enc_head [[71, 69, 84] @ SP # [47]] @ [])] demo_http 0 = Some (r, g, l)"
    by (rule demo_first)
  have good: "good_lines [[71, 69, 84] @ SP # [47]]" and "head_fields [[71, 69, 84] @ SP # [47]] = (False, 0, False)"
    by code_simp+
  then have "[[71, 69, 84] @ SP # [47]] = [] \<and> [] = [] \<or> (\<exists>m u H. [[71, 69, 84] @ SP # [47]] = (m @ SP # u) # H
      \<and> SP \<notin> set m \<and> SP \<notin> set u \<and> 0 \<notin> set m \<and> 0 \<notin> set u \<and> (\<exists>ka. head_fields [[71, 69, 84] @ SP # [47]] = (ka, 0, False)))"
    by (intro disjI2 exI [of _ "[71, 69, 84]"] exI [of _ "[47]"] exI [of _ "[]"])
       (intro conjI exI [of _ False], simp_all)
  from short_request_line_undefined [OF demo_ready(1,2) a piece_bytes_one good this] a show ?thesis by blast
qed

theorem chunk_size_overflow_witness:
  "\<exists>g live'. receive_all [(True, \<lambda>_. 0, overflow_message)] demo_http 0 = Some (Some True, g, live') \<and> isGood g
    \<and> fst (snd (getContent True (\<lambda>_. 0) g buf_empty 0)) = Buf_undefined"
proof -
  obtain r g l where a: "receive_all [(True, \<lambda>_. 0, overflow_message)] demo_http 0 = Some (r, g, l)"
    by (rule demo_first [OF demo_lengths(2)])
  from chunk_size_overflow [OF demo_ready(1,2) a piece_bytes_one buf_ok_empty(1), of "\<lambda>_. 0" 0] a show ?thesis by blast
qed

end
