(* ===== verification/Network_Node.thy ===== *)
theory Network_Node
  imports Np_Prelude "HOL-Library.List_Lexorder"
begin

text \<open>
  \<open>network_node.h\<close>: socket addresses (\<open>Csockaddr\<close>), network nodes (\<open>CnetworkNode\<close>) and
  address pairs (\<open>CnetworkPair\<close>) with the comparisons and hashes that make them keys of the
  pool's hash containers.

  The union \<open>__sockaddr_mix\<close> is a tagged union: every reader first looks at \<open>family\<close>, and every
  writer leaves it at 0, \<open>AF_INET\<close> or \<open>AF_INET6\<close>, so it is a datatype with one constructor
  per family. Ports and addresses are kept as the raw network-order integers the code
  compares and hashes. \<open>uv_ip4_addr\<close> and \<open>uv_ip6_addr\<close> (libuv) are parameters: a function
  from text and port to the parsed address, \<open>None\<close> for a non-zero return.
\<close>

unbundle bit_operations_syntax

section \<open>Csockaddr\<close>

definition AF_INET :: u16 where "AF_INET = 2"
definition AF_INET6 :: u16 where "AF_INET6 = 10"

text \<open>The four 32-bit words of an IPv6 address, as the loops over \<open>addr0[i]\<close> read them.\<close>

datatype in6_addr = In6_addr (s6_addr0: u32) (s6_addr1: u32) (s6_addr2: u32) (s6_addr3: u32)

datatype csockaddr =
    Sa_none
  | Sa_in (sin_port: u16) (sin_addr: u32)
  | Sa_in6 (sin6_port: u16) (sin6_addr: in6_addr) (sin6_flowinfo: u32) (sin6_scope_id: u32)

fun sa_family :: "csockaddr \<Rightarrow> u16" where
  "sa_family Sa_none = 0"
| "sa_family (Sa_in p a) = AF_INET"
| "sa_family (Sa_in6 p a fl sc) = AF_INET6"

fun addr_words :: "in6_addr \<Rightarrow> u32 list" where
  "addr_words (In6_addr a b c d) = [a, b, c, d]"

subsection \<open>Initialisation\<close>

text \<open>What a caller's \<open>const sockaddr *\<close> points to: a family with that family's fields.\<close>

datatype raw_sockaddr =
    Raw_in u16 u32
  | Raw_in6 u16 in6_addr u32 u32
  | Raw_other u16

definition sizeof_sockaddr_in6 :: nat where "sizeof_sockaddr_in6 = 28"

definition init_raw :: "raw_sockaddr \<Rightarrow> nat \<Rightarrow> csockaddr \<times> bool" where
  "init_raw raw sz =
     (if sz < 8 then (Sa_none, False)
      else case raw of
        Raw_in p a \<Rightarrow> (Sa_in p a, True)
      | Raw_in6 p a fl sc \<Rightarrow>
          (if sz < sizeof_sockaddr_in6 then (Sa_none, False) else (Sa_in6 p a fl sc, True))
      | Raw_other f \<Rightarrow> (Sa_none, False))"

type_synonym ip4_parser = "string \<Rightarrow> u16 \<Rightarrow> (u16 \<times> u32) option"
type_synonym ip6_parser = "string \<Rightarrow> u16 \<Rightarrow> (u16 \<times> in6_addr \<times> u32 \<times> u32) option"

definition init_ip :: "ip4_parser \<Rightarrow> ip6_parser \<Rightarrow> string \<Rightarrow> u16 \<Rightarrow> csockaddr \<times> bool" where
  "init_ip uv_ip4_addr uv_ip6_addr ip port =
     (if CHR '':'' \<notin> set ip
      then (case uv_ip4_addr ip port of
              None \<Rightarrow> (Sa_none, False)
            | Some (p, a) \<Rightarrow> (Sa_in p a, True))
      else (case uv_ip6_addr ip port of
              None \<Rightarrow> (Sa_none, False)
            | Some (p, a, fl, sc) \<Rightarrow> (Sa_in6 p a fl sc, True)))"

fun init_copy :: "csockaddr \<Rightarrow> csockaddr \<times> bool" where
  "init_copy (Sa_in p a) = (Sa_in p a, True)"
| "init_copy (Sa_in6 p (In6_addr a b c d) fl sc) = (Sa_in6 p (In6_addr a b c d) fl sc, True)"
| "init_copy Sa_none = (Sa_none, False)"

subsection \<open>Comparison and hash\<close>

text \<open>
  The loops over the address words: \<open>Some r\<close> when a word differs and the loop returns \<open>r\<close>,
  \<open>None\<close> when it runs to its end.
\<close>

fun words_less_loop :: "u32 list \<Rightarrow> u32 list \<Rightarrow> bool option" where
  "words_less_loop (a # as) (b # bs) = (if a \<noteq> b then Some (a < b) else words_less_loop as bs)"
| "words_less_loop _ _ = None"

fun words_eq_loop :: "u32 list \<Rightarrow> u32 list \<Rightarrow> bool option" where
  "words_eq_loop (a # as) (b # bs) = (if a \<noteq> b then Some False else words_eq_loop as bs)"
| "words_eq_loop _ _ = None"

fun sockaddr_less :: "csockaddr \<Rightarrow> csockaddr \<Rightarrow> bool" where
  "sockaddr_less (Sa_in p a) (Sa_in p' a') = (if p \<noteq> p' then p < p' else a < a')"
| "sockaddr_less (Sa_in6 p a fl sc) (Sa_in6 p' a' fl' sc') =
     (if p \<noteq> p' then p < p'
      else case words_less_loop (addr_words a) (addr_words a') of
             Some r \<Rightarrow> r
           | None \<Rightarrow> if fl \<noteq> fl' then fl < fl' else sc < sc')"
| "sockaddr_less x y =
     (if sa_family x \<noteq> sa_family y then sa_family x < sa_family y else False)"

fun sockaddr_eq :: "csockaddr \<Rightarrow> csockaddr \<Rightarrow> bool" where
  "sockaddr_eq (Sa_in p a) (Sa_in p' a') = (if p \<noteq> p' then False else a = a')"
| "sockaddr_eq (Sa_in6 p a fl sc) (Sa_in6 p' a' fl' sc') =
     (if p \<noteq> p' then False
      else case words_eq_loop (addr_words a) (addr_words a') of
             Some r \<Rightarrow> r
           | None \<Rightarrow> if fl \<noteq> fl' then False else sc = sc')"
| "sockaddr_eq x y = (if sa_family x \<noteq> sa_family y then False else True)"

fun sockaddr_hash :: "csockaddr \<Rightarrow> u64 \<Rightarrow> u64" where
  "sockaddr_hash (Sa_in p a) h = push_bit 16 (h + ucast a) OR ucast p"
| "sockaddr_hash (Sa_in6 p (In6_addr a b c d) fl sc) h =
     (let h = h + ucast a;
          h = h * 0xFFFF + ucast b;
          h = h * 0xFFFF + ucast c;
          h = h * 0xFFFF + ucast d
      in push_bit 16 h OR ucast p)"
| "sockaddr_hash Sa_none h = h + ucast (sa_family Sa_none)"

subsection \<open>Observers\<close>

text \<open>\<open>ntohs\<close> on the little-endian machines the Makefile targets swaps the two bytes.\<close>

definition ntohs :: "u16 \<Rightarrow> u16" where
  "ntohs x = push_bit 8 x OR drop_bit 8 x"

fun get_port :: "csockaddr \<Rightarrow> u16" where
  "get_port (Sa_in p a) = ntohs p"
| "get_port (Sa_in6 p a fl sc) = ntohs p"
| "get_port Sa_none = 0"

text \<open>
  \<open>uv_ip4_name\<close> and \<open>uv_ip6_name\<close> (libuv) are parameters: \<open>None\<close> for a non-zero return, which
  includes a text too long for the buffer.
\<close>

type_synonym ip4_printer = "u32 \<Rightarrow> string option"
type_synonym ip6_printer = "in6_addr \<Rightarrow> string option"

fun get_ip :: "ip4_printer \<Rightarrow> ip6_printer \<Rightarrow> csockaddr \<Rightarrow> string" where
  "get_ip uv_ip4_name uv_ip6_name (Sa_in p a) = (case uv_ip4_name a of None \<Rightarrow> '''' | Some ip \<Rightarrow> ip)"
| "get_ip uv_ip4_name uv_ip6_name (Sa_in6 p a fl sc) = (case uv_ip6_name a of None \<Rightarrow> '''' | Some ip \<Rightarrow> ip)"
| "get_ip uv_ip4_name uv_ip6_name Sa_none = ''''"

definition is_ipv6 :: "csockaddr \<Rightarrow> bool" where
  "is_ipv6 sa \<longleftrightarrow> sa_family sa = AF_INET6"

definition valid :: "csockaddr \<Rightarrow> bool" where
  "valid sa \<longleftrightarrow> AF_INET = sa_family sa \<or> AF_INET6 = sa_family sa"

section \<open>CnetworkNode\<close>

datatype protocol_type = Protocol_tcp | Protocol_udp

fun protocol_val :: "protocol_type \<Rightarrow> u32" where
  "protocol_val Protocol_tcp = 0"
| "protocol_val Protocol_udp = 1"

datatype network_node =
  Network_node (m_protocol: protocol_type) (m_sockaddr: csockaddr) (m_hash: u64)

definition node_rehash :: "protocol_type \<Rightarrow> csockaddr \<Rightarrow> u64" where
  "node_rehash prot sa = sockaddr_hash sa (ucast (protocol_val prot * 31))"

definition node_default :: network_node where
  "node_default = Network_node Protocol_tcp Sa_none 0"

definition node_of_raw :: "protocol_type \<Rightarrow> raw_sockaddr \<Rightarrow> nat \<Rightarrow> network_node" where
  "node_of_raw prot raw sz =
     (let sa = fst (init_raw raw sz) in Network_node prot sa (node_rehash prot sa))"

definition node_of_ip ::
  "ip4_parser \<Rightarrow> ip6_parser \<Rightarrow> protocol_type \<Rightarrow> string \<Rightarrow> u16 \<Rightarrow> network_node" where
  "node_of_ip p4 p6 prot ip port =
     (let sa = fst (init_ip p4 p6 ip port) in Network_node prot sa (node_rehash prot sa))"

definition node_copy :: "network_node \<Rightarrow> network_node" where
  "node_copy n = Network_node (m_protocol n) (fst (init_copy (m_sockaddr n))) (m_hash n)"

definition node_assign :: "network_node \<Rightarrow> network_node \<Rightarrow> network_node" where
  "node_assign self another =
     Network_node (m_protocol another) (fst (init_copy (m_sockaddr another))) (m_hash another)"

definition node_set_raw ::
  "network_node \<Rightarrow> protocol_type \<Rightarrow> raw_sockaddr \<Rightarrow> nat \<Rightarrow> network_node \<times> bool" where
  "node_set_raw n prot raw sz =
     (let (sa, ret) = init_raw raw sz in (Network_node prot sa (node_rehash prot sa), ret))"

definition node_set_ip ::
  "ip4_parser \<Rightarrow> ip6_parser \<Rightarrow> network_node \<Rightarrow> protocol_type \<Rightarrow> string \<Rightarrow> u16 \<Rightarrow> network_node \<times> bool"
where
  "node_set_ip p4 p6 n prot ip port =
     (let (sa, ret) = init_ip p4 p6 ip port in (Network_node prot sa (node_rehash prot sa), ret))"

definition node_less :: "network_node \<Rightarrow> network_node \<Rightarrow> bool" where
  "node_less a b =
     (if m_hash a \<noteq> m_hash b then m_hash a < m_hash b
      else if m_protocol a \<noteq> m_protocol b
           then protocol_val (m_protocol a) < protocol_val (m_protocol b)
      else sockaddr_less (m_sockaddr a) (m_sockaddr b))"

definition node_eq :: "network_node \<Rightarrow> network_node \<Rightarrow> bool" where
  "node_eq a b \<longleftrightarrow> m_hash a = m_hash b \<and> m_protocol a = m_protocol b
     \<and> sockaddr_eq (m_sockaddr a) (m_sockaddr b)"

section \<open>CnetworkPair\<close>

record network_pair =
  p_protocol :: protocol_type
  p_local :: csockaddr
  p_remote :: csockaddr
  p_hash :: u64

definition pair_rehash :: "network_pair \<Rightarrow> network_pair" where
  "pair_rehash p = p\<lparr>p_hash := sockaddr_hash (p_remote p)
     (sockaddr_hash (p_local p) (ucast (protocol_val (p_protocol p) * 31)))\<rparr>"

definition pair_default :: network_pair where
  "pair_default = \<lparr>p_protocol = Protocol_tcp, p_local = Sa_none, p_remote = Sa_none, p_hash = 0\<rparr>"

definition pair_make :: "protocol_type \<Rightarrow> csockaddr \<Rightarrow> csockaddr \<Rightarrow> network_pair" where
  "pair_make prot loc rem =
     pair_rehash \<lparr>p_protocol = prot, p_local = fst (init_copy loc),
       p_remote = fst (init_copy rem), p_hash = 0\<rparr>"

definition pair_copy :: "network_pair \<Rightarrow> network_pair" where
  "pair_copy p = \<lparr>p_protocol = p_protocol p, p_local = fst (init_copy (p_local p)),
     p_remote = fst (init_copy (p_remote p)), p_hash = p_hash p\<rparr>"

text \<open>\<open>operator=\<close>: the addresses and the hash are taken from the other pair.\<close>

definition pair_assign :: "network_pair \<Rightarrow> network_pair \<Rightarrow> network_pair" where
  "pair_assign self another =
     self\<lparr>p_local := fst (init_copy (p_local another)),
          p_remote := fst (init_copy (p_remote another)),
          p_hash := p_hash another\<rparr>"

definition pair_less :: "network_pair \<Rightarrow> network_pair \<Rightarrow> bool" where
  "pair_less a b =
     (if p_hash a \<noteq> p_hash b then p_hash a < p_hash b
      else if \<not> sockaddr_eq (p_remote a) (p_remote b)
           then sockaddr_less (p_remote a) (p_remote b)
      else sockaddr_less (p_local a) (p_local b))"

definition pair_eq :: "network_pair \<Rightarrow> network_pair \<Rightarrow> bool" where
  "pair_eq a b \<longleftrightarrow> p_hash a = p_hash b \<and> sockaddr_eq (p_remote a) (p_remote b)
     \<and> sockaddr_eq (p_local a) (p_local b)"

definition pair_set_protocol :: "network_pair \<Rightarrow> protocol_type \<Rightarrow> network_pair" where
  "pair_set_protocol p prot = pair_rehash (p\<lparr>p_protocol := prot\<rparr>)"

definition pair_set_local :: "network_pair \<Rightarrow> csockaddr \<Rightarrow> network_pair" where
  "pair_set_local p loc = pair_rehash (p\<lparr>p_local := fst (init_copy loc)\<rparr>)"

definition pair_set_remote :: "network_pair \<Rightarrow> csockaddr \<Rightarrow> network_pair" where
  "pair_set_remote p rem = pair_rehash (p\<lparr>p_remote := fst (init_copy rem)\<rparr>)"


section \<open>Addresses: equality, order, copies\<close>

lemma init_copy_id [simp]: "fst (init_copy sa) = sa"
  by (cases sa rule: init_copy.cases) simp_all

lemma words_eq_loop_None: "length as = length bs \<Longrightarrow> words_eq_loop as bs = None \<longleftrightarrow> as = bs"
  by (induction as bs rule: words_eq_loop.induct) auto

lemma words_eq_loop_Some: "words_eq_loop as bs = Some r \<Longrightarrow> \<not> r \<and> as \<noteq> bs"
  by (induction as bs rule: words_eq_loop.induct) (auto split: if_splits)

lemma words_less_loop_None: "length as = length bs \<Longrightarrow> words_less_loop as bs = None \<longleftrightarrow> as = bs"
  by (induction as bs rule: words_less_loop.induct) auto

lemma words_less_loop_Some:
  "length as = length bs \<Longrightarrow> words_less_loop as bs = Some r \<Longrightarrow> r \<longleftrightarrow> as < bs"
  by (induction as bs rule: words_less_loop.induct) (auto split: if_splits)

lemma addr_words_length [simp]: "length (addr_words a) = 4"
  by (cases a) simp

lemma addr_words_inj [simp]: "addr_words a = addr_words b \<longleftrightarrow> a = b"
  by (cases a; cases b) simp

lemma family_distinct [simp]: "AF_INET \<noteq> AF_INET6" "AF_INET6 \<noteq> AF_INET" "AF_INET \<noteq> 0" "AF_INET6 \<noteq> 0"
  by (simp_all add: AF_INET_def AF_INET6_def)

lemma family_less [simp]: "0 < AF_INET" "0 < AF_INET6" "AF_INET < AF_INET6"
    "\<not> AF_INET6 < AF_INET" "\<not> AF_INET < 0" "\<not> AF_INET6 < 0"
  by (simp_all add: AF_INET_def AF_INET6_def)

lemma sa_family_0 [simp]: "sa_family sa = 0 \<longleftrightarrow> sa = Sa_none" "0 = sa_family sa \<longleftrightarrow> sa = Sa_none"
  by (cases sa; simp)+

lemma unat_inj_iff [simp]: "unat x = unat y \<longleftrightarrow> x = y"
  by (simp add: word_unat_eq_iff)

lemma sockaddr_eq_iff [simp]: "sockaddr_eq a b \<longleftrightarrow> a = b"
proof (cases "(a, b)" rule: sockaddr_eq.cases)
  case (2 p a fl sc p' a' fl' sc')
  then show ?thesis
    using words_eq_loop_None [of "addr_words a" "addr_words a'"]
    by (auto split: option.split dest: words_eq_loop_Some)
qed auto

text \<open>
  The order is the lexicographic order of the numbers the comparison visits: family, port,
  address words, flow information and scope.
\<close>

fun sockaddr_key :: "csockaddr \<Rightarrow> nat list" where
  "sockaddr_key Sa_none = [0]"
| "sockaddr_key (Sa_in p a) = [1, unat p, unat a]"
| "sockaddr_key (Sa_in6 p a fl sc) = 2 # unat p # map unat (addr_words a) @ [unat fl, unat sc]"

lemma sockaddr_key_inj: "sockaddr_key a = sockaddr_key b \<longleftrightarrow> a = b"
proof (cases a; cases b)
  fix p a' fl sc p' b' fl' sc'
  assume "a = Sa_in6 p a' fl sc" "b = Sa_in6 p' b' fl' sc'"
  then show ?thesis by (cases a'; cases b') simp
qed auto

lemma words_less_key:
  "length as = length bs \<Longrightarrow> Q \<longleftrightarrow> xs < (ys :: nat list) \<Longrightarrow>
   (case words_less_loop as bs of Some r \<Rightarrow> r | None \<Rightarrow> Q)
     \<longleftrightarrow> map unat as @ xs < map unat bs @ ys"
  by (induction as bs rule: words_less_loop.induct) (auto simp: word_less_nat_alt)

lemma sockaddr_less_key: "sockaddr_less a b \<longleftrightarrow> sockaddr_key a < sockaddr_key b"
proof (cases "(a, b)" rule: sockaddr_less.cases)
  case (2 p a fl sc p' a' fl' sc')
  have "(if fl \<noteq> fl' then fl < fl' else sc < sc') \<longleftrightarrow> [unat fl, unat sc] < [unat fl', unat sc']"
    by (auto simp: word_less_nat_alt)
  then show ?thesis
    using 2 by (simp add: words_less_key word_less_nat_alt)
qed (cases a; cases b; auto simp: word_less_nat_alt AF_INET_def AF_INET6_def)+

instantiation csockaddr :: linorder
begin

definition less_csockaddr :: "csockaddr \<Rightarrow> csockaddr \<Rightarrow> bool" where
  "less_csockaddr = sockaddr_less"

definition less_eq_csockaddr :: "csockaddr \<Rightarrow> csockaddr \<Rightarrow> bool" where
  "less_eq_csockaddr a b \<longleftrightarrow> sockaddr_less a b \<or> sockaddr_eq a b"

instance
  by standard
    (auto simp: less_csockaddr_def less_eq_csockaddr_def sockaddr_less_key
      simp flip: sockaddr_key_inj)

end


lemma sockaddr_less_lt [simp]: "sockaddr_less a b \<longleftrightarrow> a < b"
  by (simp add: less_csockaddr_def)

section \<open>Nodes: equality, order and the cached hash\<close>

lemma protocol_val_inj [simp]: "protocol_val p = protocol_val q \<longleftrightarrow> p = q"
  by (cases p; cases q) simp_all

lemma node_eq_iff [simp]: "node_eq a b \<longleftrightarrow> a = b"
  by (cases a; cases b) (auto simp: node_eq_def)

lemma node_copy_id [simp]: "node_copy n = n" "node_assign self n = n"
  by (simp_all add: node_copy_def node_assign_def)

definition node_key :: "network_node \<Rightarrow> u64 list \<times> csockaddr" where
  "node_key n = ([m_hash n, ucast (protocol_val (m_protocol n))], m_sockaddr n)"

lemma node_less_lex:
  "node_less a b \<longleftrightarrow>
     m_hash a < m_hash b \<or> m_hash a = m_hash b \<and>
       (protocol_val (m_protocol a) < protocol_val (m_protocol b)
        \<or> m_protocol a = m_protocol b \<and> m_sockaddr a < m_sockaddr b)"
  by (auto simp: node_less_def)

instantiation network_node :: linorder
begin

definition less_network_node :: "network_node \<Rightarrow> network_node \<Rightarrow> bool" where
  "less_network_node = node_less"

definition less_eq_network_node :: "network_node \<Rightarrow> network_node \<Rightarrow> bool" where
  "less_eq_network_node a b \<longleftrightarrow> node_less a b \<or> node_eq a b"

instance
proof
  fix a b c :: network_node
  show "a < b \<longleftrightarrow> a \<le> b \<and> \<not> b \<le> a"
    by (auto simp: less_network_node_def less_eq_network_node_def node_less_lex)
  show "a \<le> a"
    by (simp add: less_eq_network_node_def)
  show "a \<le> b \<Longrightarrow> b \<le> c \<Longrightarrow> a \<le> c"
    by (auto simp: less_eq_network_node_def node_less_lex)
  show "a \<le> b \<Longrightarrow> b \<le> a \<Longrightarrow> a = b"
    by (auto simp: less_eq_network_node_def node_less_lex)
  show "a \<le> b \<or> b \<le> a"
    by (cases a; cases b) (auto simp: less_eq_network_node_def node_less_lex)
qed

end

lemma node_less_lt [simp]: "node_less a b \<longleftrightarrow> a < b"
  by (simp add: less_network_node_def)

text \<open>Every node the program can hold is built by one of the constructors and setters.\<close>

inductive node_built :: "network_node \<Rightarrow> bool" where
  built_default: "node_built node_default"
| built_raw: "node_built (node_of_raw prot raw sz)"
| built_ip: "node_built (node_of_ip p4 p6 prot ip port)"
| built_copy: "node_built n \<Longrightarrow> node_built (node_copy n)"
| built_assign: "node_built n \<Longrightarrow> node_built m \<Longrightarrow> node_built (node_assign n m)"
| built_set_raw: "node_built n \<Longrightarrow> node_built (fst (node_set_raw n prot raw sz))"
| built_set_ip: "node_built n \<Longrightarrow> node_built (fst (node_set_ip p4 p6 n prot ip port))"

definition node_hash_ok :: "network_node \<Rightarrow> bool" where
  "node_hash_ok n \<longleftrightarrow> m_hash n = node_rehash (m_protocol n) (m_sockaddr n)"

lemma node_built_hash_ok: "node_built n \<Longrightarrow> node_hash_ok n"
  by (induction rule: node_built.induct)
    (auto simp: node_hash_ok_def node_default_def node_rehash_def node_of_raw_def node_of_ip_def
      node_set_raw_def node_set_ip_def Let_def split: prod.split)

section \<open>Pairs: what the cached hash knows of the protocol\<close>

definition pair_hash_ok :: "network_pair \<Rightarrow> bool" where
  "pair_hash_ok p \<longleftrightarrow> p_hash p = p_hash (pair_rehash p)"

lemma pair_eq_iff:
  "pair_eq a b \<longleftrightarrow> p_hash a = p_hash b \<and> p_remote a = p_remote b \<and> p_local a = p_local b"
  by (simp add: pair_eq_def)

text \<open>
  Each address family turns the hash it is given into a multiple of it plus a number that
  does not depend on it, so two protocols give hashes a known distance apart.
\<close>

fun hash_factor :: "csockaddr \<Rightarrow> u64" where
  "hash_factor Sa_none = 1"
| "hash_factor (Sa_in p a) = 0x10000"
| "hash_factor (Sa_in6 p a fl sc) = 0x10000 * 0xFFFF * 0xFFFF * 0xFFFF"

lemma shift_or_add: "push_bit 16 h OR ucast (p :: u16) = h * 0x10000 + (ucast p :: u64)"
proof -
  have "push_bit 16 h + ucast p = push_bit 16 h OR (ucast p :: u64)"
    by (rule disjunctive_add_eq_or, rule bit_eqI) (auto simp: bit_simps dest: bit_imp_le_length)
  then show ?thesis by (simp add: push_bit_eq_mult)
qed

lemma sockaddr_hash_diff:
  "sockaddr_hash sa h - sockaddr_hash sa h' = hash_factor sa * (h - h')"
proof (cases sa)
  case (Sa_in6 p a fl sc)
  then show ?thesis by (cases a) (simp add: shift_or_add Let_def algebra_simps)
qed (simp_all add: shift_or_add algebra_simps)

lemma pair_hash_protocol:
  "sockaddr_hash r (sockaddr_hash l (ucast (protocol_val p * 31)))
     = sockaddr_hash r (sockaddr_hash l (ucast (protocol_val q * 31))) \<longleftrightarrow> p = q"
proof -
  have diff: "sockaddr_hash r (sockaddr_hash l h) - sockaddr_hash r (sockaddr_hash l h')
      = hash_factor r * (hash_factor l * (h - h'))" for h h'
    by (simp add: sockaddr_hash_diff)
  have "hash_factor r * (hash_factor l * 31) \<noteq> 0" "hash_factor r * (hash_factor l * - 31) \<noteq> 0"
    by (cases r; cases l; simp)+
  then show ?thesis
    using diff [of "ucast (protocol_val p * 31)" "ucast (protocol_val q * 31)"]
    by (cases p; cases q) auto
qed


text \<open>Pairs as the program builds them without \<open>operator=\<close>.\<close>

inductive pair_built :: "network_pair \<Rightarrow> bool" where
  pair_built_default: "pair_built pair_default"
| pair_built_make: "pair_built (pair_make prot loc rem)"
| pair_built_copy: "pair_built p \<Longrightarrow> pair_built (pair_copy p)"
| pair_built_protocol: "pair_built p \<Longrightarrow> pair_built (pair_set_protocol p prot)"
| pair_built_local: "pair_built p \<Longrightarrow> pair_built (pair_set_local p loc)"
| pair_built_remote: "pair_built p \<Longrightarrow> pair_built (pair_set_remote p rem)"

lemma pair_rehash_ok [simp]: "pair_hash_ok (pair_rehash p)"
  by (simp add: pair_hash_ok_def pair_rehash_def)

lemma pair_rehash_fields [simp]:
  "p_protocol (pair_rehash p) = p_protocol p" "p_local (pair_rehash p) = p_local p"
  "p_remote (pair_rehash p) = p_remote p"
  by (simp_all add: pair_rehash_def)

lemma pair_built_hash_ok: "pair_built p \<Longrightarrow> pair_hash_ok p"
proof (induction rule: pair_built.induct)
  case pair_built_default
  show ?case by (simp add: pair_hash_ok_def pair_default_def pair_rehash_def)
next
  case (pair_built_copy p)
  then show ?case by (simp add: pair_hash_ok_def pair_copy_def pair_rehash_def)
qed (simp_all add: pair_make_def pair_set_protocol_def pair_set_local_def pair_set_remote_def)

lemma pair_hash_ok_eq:
  "pair_hash_ok a \<Longrightarrow> pair_hash_ok b \<Longrightarrow> p_remote a = p_remote b \<Longrightarrow> p_local a = p_local b \<Longrightarrow>
   p_hash a = p_hash b \<longleftrightarrow> p_protocol a = p_protocol b"
  by (simp add: pair_hash_ok_def pair_rehash_def pair_hash_protocol)

section \<open>Both types are keys of hash containers\<close>

definition node_hash :: "network_node \<Rightarrow> u64" where "node_hash n = m_hash n"
definition pair_hash :: "network_pair \<Rightarrow> u64" where "pair_hash p = p_hash p"

interpretation node_key: hashed_key node_eq node_hash
  by unfold_locales (auto simp: node_hash_def)

interpretation pair_key: hashed_key pair_eq pair_hash
  by unfold_locales (auto simp: pair_eq_iff pair_hash_def)

section \<open>Properties\<close>

text \<open>\<open>CnetworkNode::operator<\<close> is a strict total order that agrees with \<open>operator==\<close>:
  it is irreflexive and transitive, and two nodes are equal exactly when neither is less than
  the other, so nodes can be keys of ordered containers as well as of hash containers.\<close>

theorem node_less_strict_total:
  "\<not> node_less a a \<and> (node_eq a b \<longleftrightarrow> \<not> node_less a b \<and> \<not> node_less b a)
   \<and> (node_less a b \<and> node_less b c \<longrightarrow> node_less a c)"
  by auto

theorem node_less_strict_total_witness:
  "node_less (Network_node Protocol_tcp (Sa_in 80 1) 5) (Network_node Protocol_tcp (Sa_in 80 2) 7)"
proof -
  have "node_less (Network_node Protocol_tcp (Sa_in 80 1) 5) (Network_node Protocol_udp Sa_none 5)"
    "node_less (Network_node Protocol_udp Sa_none 5) (Network_node Protocol_tcp (Sa_in 80 2) 7)"
    unfolding node_less_def by simp_all
  then show ?thesis using node_less_strict_total by blast
qed

text \<open>C29: Two nodes built by any sequence of the constructors, copies, assignments and setters are
  equal exactly when their protocols and addresses are: the cached \<open>m_hash\<close>, which
  \<open>operator==\<close> compares first, never makes equal addresses look different.\<close>

theorem node_eq_by_value:
  assumes "node_built a" and "node_built b"
  shows "node_eq a b \<longleftrightarrow> m_protocol a = m_protocol b \<and> sockaddr_eq (m_sockaddr a) (m_sockaddr b)"
  using assms [THEN node_built_hash_ok]
  by (cases a; cases b) (auto simp: node_hash_ok_def)

theorem node_eq_by_value_witness:
  "node_eq node_default (node_of_raw Protocol_tcp (Raw_other 1) 128)"
proof -
  have "m_protocol node_default = m_protocol (node_of_raw Protocol_tcp (Raw_other 1) 128)"
    "sockaddr_eq (m_sockaddr node_default) (m_sockaddr (node_of_raw Protocol_tcp (Raw_other 1) 128))"
    by (simp_all add: node_default_def node_of_raw_def init_raw_def Let_def)
  then show ?thesis
    using node_eq_by_value [OF built_default built_raw] by blast
qed

text \<open>\<open>CnetworkPair::operator==\<close> never compares the protocols, and need not: for pairs whose
  hash was computed by \<open>rehash\<close>, equal hashes and equal addresses force equal protocols,
  because each address family multiplies the protocol's share of the hash by a number whose
  product with 31 is not 0 modulo \<open>2^64\<close>.\<close>

theorem pair_eq_protocol:
  assumes "pair_built a" and "pair_built b"
  shows "pair_eq a b \<longleftrightarrow> p_protocol a = p_protocol b \<and> p_local a = p_local b \<and> p_remote a = p_remote b"
proof -
  have "pair_hash_ok a" "pair_hash_ok b" using assms by (auto intro: pair_built_hash_ok)
  then show ?thesis using pair_hash_ok_eq by (auto simp: pair_eq_iff)
qed

theorem pair_eq_protocol_witness:
  "\<not> pair_eq (pair_make Protocol_tcp (Sa_in 1 2) (Sa_in 3 4))
             (pair_make Protocol_udp (Sa_in 1 2) (Sa_in 3 4))"
  using pair_eq_protocol [OF pair_built_make pair_built_make]
  by (simp add: pair_make_def)

text \<open>\<open>CnetworkPair::operator=\<close> copies the addresses and the hash but not the protocol. The
  assigned pair equals the source, yet its hash is the one its own fields give exactly when
  the two protocols were equal before.\<close>

theorem pair_assign_stale_hash:
  assumes "pair_built b"
  shows "pair_eq (pair_assign a b) b \<and> p_protocol (pair_assign a b) = p_protocol a
    \<and> (pair_hash_ok (pair_assign a b) \<longleftrightarrow> p_protocol a = p_protocol b)"
  using pair_built_hash_ok [OF assms]
  by (auto simp: pair_hash_ok_def pair_assign_def pair_rehash_def pair_hash_protocol pair_eq_iff)

theorem pair_assign_stale_hash_witness:
  "\<not> pair_hash_ok (pair_assign pair_default (pair_make Protocol_udp (Sa_in 1 2) (Sa_in 3 4)))"
  using pair_assign_stale_hash [OF pair_built_make, of pair_default Protocol_udp "Sa_in 1 2" "Sa_in 3 4"]
  by (simp add: pair_default_def pair_make_def)

section \<open>Addresses as text\<close>

lemma ntohs_twice: "ntohs (ntohs p) = p"
proof (rule bit_word_eqI)
  fix n assume n: "n < LENGTH(16)"
  have "\<not> bit p m" if "16 \<le> m" for m using that bit_imp_le_length [of p m] by auto
  then show "bit (ntohs (ntohs p)) n = bit p n"
    using n by (cases "8 \<le> n") (simp_all add: ntohs_def bit_or_iff bit_push_bit_iff bit_drop_bit_eq)
qed

text \<open>
  What libuv says of its four functions: the text of an address is read back as that address, with the
  port in network order and no more than that; the text of an IPv4 address has no colon, that of an
  IPv6 address has one.
\<close>

definition ip_text_law :: "ip4_printer \<Rightarrow> ip6_printer \<Rightarrow> ip4_parser \<Rightarrow> ip6_parser \<Rightarrow> bool" where
  "ip_text_law n4 n6 p4 p6 \<longleftrightarrow>
     (\<forall>a ip port. n4 a = Some ip \<longrightarrow> CHR '':'' \<notin> set ip \<and> p4 ip port = Some (ntohs port, a))
     \<and> (\<forall>a ip port. n6 a = Some ip \<longrightarrow> CHR '':'' \<in> set ip \<and> p6 ip port = Some (ntohs port, a, 0, 0))"

text \<open>
  \<open>getIp\<close> and \<open>getPort\<close> say all there is to an address, apart from the flow information and the scope of
  IPv6: the address made of them is the old one. An address without a text makes \<open>getIp\<close> empty.
\<close>

theorem ip_text_roundtrip:
  assumes "ip_text_law n4 n6 p4 p6" and "get_ip n4 n6 sa \<noteq> ''''"
  shows "fst (init_ip p4 p6 (get_ip n4 n6 sa) (get_port sa)) =
    (case sa of Sa_in6 p a fl sc \<Rightarrow> Sa_in6 p a 0 0 | _ \<Rightarrow> sa)"
  using assms by (cases sa) (auto simp: ip_text_law_def init_ip_def ntohs_twice split: option.splits)

theorem ip_text_roundtrip_witness:
  "fst (init_ip (\<lambda>ip port. Some (ntohs port, 1)) (\<lambda>ip port. None) ''1.0.0.0'' (get_port (Sa_in 80 1))) = Sa_in 80 1"
proof -
  let ?n4 = "\<lambda>a. if a = 1 then Some ''1.0.0.0'' else None" and ?n6 = "\<lambda>a. None"
  have ip: "get_ip ?n4 ?n6 (Sa_in 80 1) = ''1.0.0.0''" by simp
  have "CHR '':'' \<notin> set ''1.0.0.0''" by code_simp
  then have "ip_text_law ?n4 ?n6 (\<lambda>ip port. Some (ntohs port, 1)) (\<lambda>ip port. None)"
    unfolding ip_text_law_def by (metis option.distinct(1) option.inject)
  from ip_text_roundtrip [OF this, of "Sa_in 80 1"] show ?thesis unfolding ip by (simp only: csockaddr.case) blast
qed

end
