(* ===== verification/Fast_Allocator.thy ===== *)
theory Fast_Allocator
  imports Np_Prelude
begin

text \<open>
  \<open>fast_allocator.h\<close> and \<open>fast_allocator.cpp\<close>: one free list per block size in front of the C
  heap. A free block's first word is the link to the next free block of its size, so the lists
  live inside the blocks they hold; \<open>chain\<close> relates a list head in memory to the list it
  stands for.

  The C heap is the map of blocks \<open>malloc\<close> has given out with their real sizes. What
  \<open>malloc\<close> answers is an argument of the operations: 0 for failure, otherwise an address that
  is not allocated (\<open>heap_offers\<close>). A second map records what the callers hold, with the size
  they asked for; it is not state of the code but the callers' side of the contract.
\<close>

section \<open>State\<close>

type_synonym addr = nat

definition max_allocator_slot :: nat where "max_allocator_slot = 4096"
definition sizeof_ptr :: nat where "sizeof_ptr = 8"

text \<open>The sizes of the classes are fixed by the compiler and by libuv's headers.\<close>

record abi_sizes =
  sizeof_CnetworkNode :: nat
  sizeof_Cbuffer :: nat
  sizeof_uv_shutdown_t :: nat
  sizeof_uv_connect_t :: nat
  sizeof_write_with_info :: nat
  sizeof_udp_send_with_info :: nat
  sizeof_Casync :: nat
  sizeof_Ctcp :: nat
  sizeof_Cudp :: nat

record fa_state =
  s_allocatorStore :: "nat \<Rightarrow> addr"
  s_allocatorStoreCount :: "nat \<Rightarrow> nat"
  s_maxAllocatorStoreNumber :: "nat \<Rightarrow> nat"
  s_storeNumberInit :: bool
  heap_word :: "addr \<Rightarrow> nat"
  heap_block :: "addr \<rightharpoonup> nat"

definition fa_init :: fa_state where
  "fa_init = \<lparr>s_allocatorStore = (\<lambda>_. 0), s_allocatorStoreCount = (\<lambda>_. 0),
     s_maxAllocatorStoreNumber = (\<lambda>_. 0), s_storeNumberInit = False,
     heap_word = (\<lambda>_. 0), heap_block = Map.empty\<rparr>"

section \<open>The C heap\<close>

definition heap_offers :: "fa_state \<Rightarrow> addr \<Rightarrow> bool" where
  "heap_offers s r \<longleftrightarrow> r = 0 \<or> heap_block s r = None"

definition c_malloc :: "addr \<Rightarrow> nat \<Rightarrow> fa_state \<Rightarrow> addr \<times> fa_state" where
  "c_malloc r n s = (r, if r = 0 then s else s\<lparr>heap_block := (heap_block s)(r \<mapsto> n)\<rparr>)"

definition c_free :: "addr \<Rightarrow> fa_state \<Rightarrow> fa_state" where
  "c_free p s = s\<lparr>heap_block := (heap_block s)(p := None)\<rparr>"

definition read_word :: "addr \<Rightarrow> fa_state \<Rightarrow> nat" where
  "read_word p s = heap_word s p"

definition write_word :: "addr \<Rightarrow> nat \<Rightarrow> fa_state \<Rightarrow> fa_state" where
  "write_word p v s = s\<lparr>heap_word := (heap_word s)(p := v)\<rparr>"

section \<open>Operations\<close>

definition set_max_store_number :: "nat \<Rightarrow> nat \<Rightarrow> fa_state \<Rightarrow> fa_state" where
  "set_max_store_number sz n s =
     (if sz < max_allocator_slot
      then s\<lparr>s_maxAllocatorStoreNumber := (s_maxAllocatorStoreNumber s)(sz := n)\<rparr> else s)"

definition init_store_number :: "abi_sizes \<Rightarrow> fa_state \<Rightarrow> fa_state" where
  "init_store_number abi s =
     (if s_storeNumberInit s then s
      else let s = set_max_store_number (sizeof_CnetworkNode abi) 512 s;
               s = set_max_store_number (sizeof_Cbuffer abi) 512 s;
               s = set_max_store_number (sizeof_uv_shutdown_t abi + 8) 1024 s;
               s = set_max_store_number (sizeof_uv_connect_t abi + 8) 1024 s;
               s = set_max_store_number (sizeof_write_with_info abi + 8) 4096 s;
               s = set_max_store_number (sizeof_udp_send_with_info abi + 8) 4096 s;
               s = set_max_store_number (sizeof_Casync abi + 8) 0 s;
               s = set_max_store_number (sizeof_Ctcp abi + 8) 16384 s;
               s = set_max_store_number (sizeof_Cudp abi + 8) 0 s
           in s\<lparr>s_storeNumberInit := True\<rparr>)"

text \<open>A size that bypasses the free lists.\<close>

definition no_store :: "fa_state \<Rightarrow> nat \<Rightarrow> bool" where
  "no_store s sz \<longleftrightarrow> sz \<ge> max_allocator_slot \<or> s_maxAllocatorStoreNumber s sz = 0"

definition fa_alloc :: "abi_sizes \<Rightarrow> addr \<Rightarrow> nat \<Rightarrow> fa_state \<Rightarrow> addr \<times> fa_state" where
  "fa_alloc abi r sz s0 =
     (let s = init_store_number abi s0
      in if no_store s sz then c_malloc r sz s
         else if s_allocatorStore s sz \<noteq> 0
         then let take = s_allocatorStore s sz
              in (take, s\<lparr>s_allocatorStore := (s_allocatorStore s)(sz := read_word take s),
                          s_allocatorStoreCount :=
                            (s_allocatorStoreCount s)(sz := s_allocatorStoreCount s sz - 1)\<rparr>)
         else c_malloc r (if sz < sizeof_ptr then sizeof_ptr else sz) s)"

definition fa_free :: "addr \<Rightarrow> nat \<Rightarrow> fa_state \<Rightarrow> fa_state" where
  "fa_free p sz s =
     (if p = 0 then s
      else if no_store s sz then c_free p s
      else if s_allocatorStoreCount s sz < s_maxAllocatorStoreNumber s sz
      then let s = write_word p (s_allocatorStore s sz) s
           in s\<lparr>s_allocatorStore := (s_allocatorStore s)(sz := p),
                s_allocatorStoreCount :=
                  (s_allocatorStoreCount s)(sz := s_allocatorStoreCount s sz + 1)\<rparr>
      else c_free p s)"

text \<open>\<open>CfastAllocator::operator new\<close>: \<open>None\<close> is \<open>std::bad_alloc\<close>.\<close>

definition operator_new :: "abi_sizes \<Rightarrow> addr \<Rightarrow> nat \<Rightarrow> fa_state \<Rightarrow> addr option \<times> fa_state" where
  "operator_new abi r sz s =
     (let (p, s) = fa_alloc abi r sz s in (if p = 0 then None else Some p, s))"

definition operator_new_nothrow :: "abi_sizes \<Rightarrow> addr \<Rightarrow> nat \<Rightarrow> fa_state \<Rightarrow> addr \<times> fa_state" where
  "operator_new_nothrow abi r sz s = fa_alloc abi r sz s"

definition operator_delete :: "nat \<Rightarrow> addr \<Rightarrow> fa_state \<Rightarrow> fa_state" where
  "operator_delete sizeof_T p s = fa_free p sizeof_T s"

section \<open>Free lists in memory\<close>

fun chain :: "(addr \<Rightarrow> addr) \<Rightarrow> addr \<Rightarrow> addr list \<Rightarrow> bool" where
  "chain nxt p [] \<longleftrightarrow> p = 0"
| "chain nxt p (x # xs) \<longleftrightarrow> p = x \<and> x \<noteq> 0 \<and> chain nxt (nxt x) xs"

lemma chain_upd [simp]: "a \<notin> set xs \<Longrightarrow> chain (nxt(a := v)) p xs = chain nxt p xs"
  by (induction xs arbitrary: p) auto

text \<open>The free lists of a state, as one list per size.\<close>

type_synonym stores = "nat \<Rightarrow> addr list"

definition fa_lists :: "fa_state \<Rightarrow> stores \<Rightarrow> bool" where
  "fa_lists s L \<longleftrightarrow> (\<forall>sz. chain (heap_word s) (s_allocatorStore s sz) (L sz)
     \<and> s_allocatorStoreCount s sz = length (L sz)
     \<and> length (L sz) \<le> s_maxAllocatorStoreNumber s sz)"

text \<open>Every cached block is cached once, under one size.\<close>

definition fa_separate :: "stores \<Rightarrow> bool" where
  "fa_separate L \<longleftrightarrow> (\<forall>sz. distinct (L sz)) \<and> (\<forall>sz sz' a. a \<in> set (L sz) \<longrightarrow> a \<in> set (L sz') \<longrightarrow> sz = sz')"

text \<open>
  The callers' holdings \<open>out\<close> and the free lists split the C heap between them, and every
  block is big enough for the size it is used for, link word included.
\<close>

definition fa_partition :: "fa_state \<Rightarrow> stores \<Rightarrow> (addr \<rightharpoonup> nat) \<Rightarrow> bool" where
  "fa_partition s L out \<longleftrightarrow>
     (\<forall>a. heap_block s a \<noteq> None \<longleftrightarrow> a \<in> dom out \<or> (\<exists>sz. a \<in> set (L sz)))
     \<and> (\<forall>a sz. a \<in> set (L sz) \<longrightarrow> a \<notin> dom out)"

definition fits :: "fa_state \<Rightarrow> nat \<Rightarrow> addr \<Rightarrow> bool" where
  "fits s sz a \<longleftrightarrow> a \<noteq> 0 \<and> (\<exists>n. heap_block s a = Some n \<and> sz \<le> n \<and> (no_store s sz \<or> sizeof_ptr \<le> n))"

definition fa_sized :: "fa_state \<Rightarrow> stores \<Rightarrow> (addr \<rightharpoonup> nat) \<Rightarrow> bool" where
  "fa_sized s L out \<longleftrightarrow> (\<forall>sz a. a \<in> set (L sz) \<or> out a = Some sz \<longrightarrow> fits s sz a)"

definition fa_owns :: "fa_state \<Rightarrow> (addr \<rightharpoonup> nat) \<Rightarrow> bool" where
  "fa_owns s out \<longleftrightarrow> (\<exists>L. fa_lists s L \<and> fa_separate L \<and> fa_partition s L out \<and> fa_sized s L out)
     \<and> (\<not> s_storeNumberInit s \<longrightarrow> out = Map.empty \<and> s_maxAllocatorStoreNumber s = (\<lambda>_. 0))"


section \<open>Each operation keeps the holdings right\<close>

lemmas fa_owns_defs = fa_owns_def fa_lists_def fa_separate_def fa_partition_def fa_sized_def fits_def
  no_store_def

lemma fa_ownsI:
  "fa_lists s L \<Longrightarrow> fa_separate L \<Longrightarrow> fa_partition s L out \<Longrightarrow> fa_sized s L out \<Longrightarrow>
   s_storeNumberInit s \<Longrightarrow> fa_owns s out"
  by (auto simp: fa_owns_def)

lemma fa_owns_empty: "fa_owns fa_init Map.empty"
  unfolding fa_owns_def
proof (intro conjI exI [of _ "\<lambda>_. []"])
  show "fa_lists fa_init (\<lambda>_. [])" by (simp add: fa_lists_def fa_init_def)
qed (simp_all add: fa_separate_def fa_partition_def fa_sized_def fa_init_def)

lemma set_max_fields [simp]:
  "s_allocatorStore (set_max_store_number sz n s) = s_allocatorStore s"
  "s_allocatorStoreCount (set_max_store_number sz n s) = s_allocatorStoreCount s"
  "heap_word (set_max_store_number sz n s) = heap_word s"
  "heap_block (set_max_store_number sz n s) = heap_block s"
  by (simp_all add: set_max_store_number_def)

lemma init_store_fields [simp]:
  "s_allocatorStore (init_store_number abi s) = s_allocatorStore s"
  "s_allocatorStoreCount (init_store_number abi s) = s_allocatorStoreCount s"
  "heap_word (init_store_number abi s) = heap_word s"
  "heap_block (init_store_number abi s) = heap_block s"
  "s_storeNumberInit (init_store_number abi s)"
  by (simp_all add: init_store_number_def Let_def)

lemma fa_owns_init_store:
  assumes "fa_owns s out"
  shows "fa_owns (init_store_number abi s) out"
proof (cases "s_storeNumberInit s")
  case True
  then show ?thesis using assms by (simp add: init_store_number_def)
next
  case False
  let ?s = "init_store_number abi s"
  from assms obtain L where L: "fa_lists s L" "fa_separate L" "fa_partition s L out"
    by (auto simp: fa_owns_def)
  from assms False have e: "out = Map.empty" "s_maxAllocatorStoreNumber s = (\<lambda>_. 0)"
    by (auto simp: fa_owns_def)
  with L have n: "L = (\<lambda>_. [])" by (auto simp: fa_lists_def fun_eq_iff)
  have "fa_lists ?s L" "fa_partition ?s L out" "fa_sized ?s L out"
    using L e n by (simp_all add: fa_lists_def fa_partition_def fa_sized_def)
  with L(2) show ?thesis by (auto simp: fa_owns_def)
qed

lemma fa_owns_malloc:
  assumes own: "fa_owns s out" and off: "heap_offers s r" and ready: "s_storeNumberInit s"
    and n: "sz \<le> n" "no_store s sz \<or> sizeof_ptr \<le> n" and nz: "r \<noteq> 0"
  shows "out r = None \<and> fa_owns (snd (c_malloc r n s)) (out(r \<mapsto> sz)) \<and> fits (snd (c_malloc r n s)) sz r"
proof -
  let ?s = "snd (c_malloc r n s)"
  from own obtain L where L: "fa_lists s L" "fa_separate L" "fa_partition s L out" "fa_sized s L out"
    by (auto simp: fa_owns_def)
  have new: "r \<notin> dom out" "\<And>sz. r \<notin> set (L sz)"
    using L(3) off nz unfolding fa_partition_def heap_offers_def by blast+
  have keep: "fits ?s z a" if "fits s z a" for z a
    using that nz off by (auto simp: fits_def c_malloc_def heap_offers_def no_store_def)
  have here: "fits ?s sz r"
    using n nz by (auto simp: fits_def c_malloc_def no_store_def)
  have "fa_lists ?s L" using L(1) by (simp add: fa_lists_def c_malloc_def)
  moreover have "fa_partition ?s L (out(r \<mapsto> sz))"
    using L(3) new nz by (auto simp: fa_partition_def c_malloc_def)
  moreover have "fa_sized ?s L (out(r \<mapsto> sz))"
    using L(4) new keep here by (auto simp: fa_sized_def)
  ultimately have "fa_owns ?s (out(r \<mapsto> sz))"
    using L(2) ready by (auto simp: fa_owns_def c_malloc_def)
  with new here show ?thesis by auto
qed

lemma fa_owns_pop:
  assumes own: "fa_owns s out" and ready: "s_storeNumberInit s" and nz: "s_allocatorStore s sz = p" "p \<noteq> 0"
  defines "s' \<equiv> s\<lparr>s_allocatorStore := (s_allocatorStore s)(sz := read_word p s),
    s_allocatorStoreCount := (s_allocatorStoreCount s)(sz := s_allocatorStoreCount s sz - 1)\<rparr>"
  shows "out p = None \<and> fa_owns s' (out(p \<mapsto> sz)) \<and> fits s' sz p"
proof -
  from own obtain L where L: "fa_lists s L" "fa_separate L" "fa_partition s L out" "fa_sized s L out"
    by (auto simp: fa_owns_def)
  from L(1) nz obtain xs where xs: "L sz = p # xs"
    by (cases "L sz") (auto simp: fa_lists_def dest!: spec [of _ sz])
  let ?L = "L(sz := xs)"
  have pin: "p \<in> set (L sz)" by (simp add: xs)
  have sub: "set (?L z) \<subseteq> set (L z)" for z by (auto simp: xs)
  have gone: "p \<notin> set (?L z)" for z
    using L(2) xs pin by (cases "z = sz") (auto simp: fa_separate_def dest: spec [of _ sz])
  have "fa_lists s' ?L"
    using L(1) xs nz(1) by (auto simp: fa_lists_def s'_def read_word_def dest: spec [of _ sz])
  moreover have "fa_separate ?L"
    unfolding fa_separate_def
  proof (intro conjI allI impI)
    show "distinct (?L z)" for z
      using L(2) xs by (cases "z = sz") (auto simp: fa_separate_def dest: spec [of _ sz])
    show "z = z'" if "a \<in> set (?L z)" "a \<in> set (?L z')" for z z' a
      using L(2) that sub [of z] sub [of z'] unfolding fa_separate_def by blast
  qed
  moreover have "fa_partition s' ?L (out(p \<mapsto> sz))"
  proof -
    have "(\<exists>z. a \<in> set (L z)) \<longleftrightarrow> a = p \<or> (\<exists>z. a \<in> set (?L z))" for a
    proof (cases "a = p")
      case False
      then have "a \<in> set (L z) \<longleftrightarrow> a \<in> set (?L z)" for z by (simp add: xs)
      with False show ?thesis by simp
    qed (use pin in blast)
    then have "heap_block s' a \<noteq> None \<longleftrightarrow> a \<in> dom (out(p \<mapsto> sz)) \<or> (\<exists>z. a \<in> set (?L z))" for a
      using L(3) unfolding fa_partition_def s'_def by auto
    moreover have "a \<notin> dom (out(p \<mapsto> sz))" if "a \<in> set (?L z)" for a z
    proof -
      have "a \<noteq> p" "a \<in> set (L z)" using that gone sub by blast+
      then show ?thesis using L(3) by (auto simp: fa_partition_def)
    qed
    ultimately show ?thesis unfolding fa_partition_def by blast
  qed
  moreover have keep: "fits s z a \<Longrightarrow> fits s' z a" for z a
    by (simp add: fits_def s'_def no_store_def)
  have here: "fits s' sz p" using L(4) pin keep by (simp add: fa_sized_def)
  have "fa_sized s' ?L (out(p \<mapsto> sz))"
    unfolding fa_sized_def
  proof (intro allI impI)
    fix z a
    assume "a \<in> set (?L z) \<or> (out(p \<mapsto> sz)) a = Some z"
    then have "a \<in> set (L z) \<or> out a = Some z \<or> a = p \<and> z = sz"
      using sub [of z] by (auto split: if_splits)
    then show "fits s' z a" using L(4) keep here unfolding fa_sized_def by blast
  qed
  moreover have "s_storeNumberInit s'" using ready by (simp add: s'_def)
  ultimately have "fa_owns s' (out(p \<mapsto> sz))" by (intro fa_ownsI)
  then show ?thesis using here L(3) pin by (auto simp: fa_partition_def)
qed


lemma fa_owns_push:
  assumes own: "fa_owns s out" and held: "out p = Some sz" and store: "\<not> no_store s sz"
    and room: "s_allocatorStoreCount s sz < s_maxAllocatorStoreNumber s sz"
  defines "s' \<equiv> (write_word p (s_allocatorStore s sz) s)
    \<lparr>s_allocatorStore := (s_allocatorStore s)(sz := p),
     s_allocatorStoreCount := (s_allocatorStoreCount s)(sz := s_allocatorStoreCount s sz + 1)\<rparr>"
  shows "fa_owns s' (out(p := None))"
proof -
  from own obtain L where L: "fa_lists s L" "fa_separate L" "fa_partition s L out" "fa_sized s L out"
    by (auto simp: fa_owns_def)
  let ?L = "L(sz := p # L sz)"
  have new: "p \<notin> set (L z)" for z
    using L(3) held by (auto simp: fa_partition_def)
  have fp: "fits s sz p" using L(4) held by (auto simp: fa_sized_def)
  then have nz: "p \<noteq> 0" by (simp add: fits_def)
  have "fa_lists s' ?L"
    using L(1) room new nz by (auto simp: fa_lists_def s'_def write_word_def)
  moreover have "fa_separate ?L"
    using L(2) new by (auto simp: fa_separate_def)
  moreover have "fa_partition s' ?L (out(p := None))"
    unfolding fa_partition_def
  proof (intro conjI allI impI)
    fix a
    have "(\<exists>z. a \<in> set (?L z)) \<longleftrightarrow> a = p \<or> (\<exists>z. a \<in> set (L z))" by auto
    then show "heap_block s' a \<noteq> None \<longleftrightarrow> a \<in> dom (out(p := None)) \<or> (\<exists>z. a \<in> set (?L z))"
      using L(3) held unfolding fa_partition_def s'_def write_word_def by auto
    show "a \<notin> dom (out(p := None))" if "a \<in> set (?L z)" for z
      using L(3) that unfolding fa_partition_def by (auto split: if_splits)
  qed
  moreover have "fits s z a \<Longrightarrow> fits s' z a" for z a
    by (simp add: fits_def s'_def no_store_def write_word_def)
  with L(4) fp have "fa_sized s' ?L (out(p := None))"
    unfolding fa_sized_def by (auto split: if_splits)
  ultimately show ?thesis
    using own held by (auto simp: fa_owns_def s'_def write_word_def)
qed

lemma fa_owns_c_free:
  assumes own: "fa_owns s out" and held: "out p = Some sz"
  shows "fa_owns (c_free p s) (out(p := None))"
proof -
  from own obtain L where L: "fa_lists s L" "fa_separate L" "fa_partition s L out" "fa_sized s L out"
    by (auto simp: fa_owns_def)
  have new: "p \<notin> set (L z)" for z
    using L(3) held by (auto simp: fa_partition_def)
  have "fa_lists (c_free p s) L" using L(1) by (simp add: fa_lists_def c_free_def)
  moreover have "fa_partition (c_free p s) L (out(p := None))"
    using L(3) new unfolding fa_partition_def c_free_def by auto
  moreover have "fits s z a \<Longrightarrow> a \<noteq> p \<Longrightarrow> fits (c_free p s) z a" for z a
    by (simp add: fits_def c_free_def no_store_def)
  with L(4) new have "fa_sized (c_free p s) L (out(p := None))"
    unfolding fa_sized_def by (metis fun_upd_apply option.distinct(1))
  ultimately show ?thesis
    using L(2) own held by (auto simp: fa_owns_def c_free_def)
qed

lemma fa_owns_write: "fa_owns s out \<Longrightarrow> out p \<noteq> None \<Longrightarrow> fa_owns (write_word p v s) out"
proof -
  assume own: "fa_owns s out" and held: "out p \<noteq> None"
  from own obtain L where L: "fa_lists s L" "fa_separate L" "fa_partition s L out" "fa_sized s L out"
    by (auto simp: fa_owns_def)
  have new: "p \<notin> set (L z)" for z
    using L(3) held by (auto simp: fa_partition_def)
  have "fa_lists (write_word p v s) L"
    using L(1) new by (auto simp: fa_lists_def write_word_def)
  moreover have "fits s z a \<Longrightarrow> fits (write_word p v s) z a" for z a
    by (simp add: fits_def write_word_def no_store_def)
  with L(4) have "fa_sized (write_word p v s) L out" by (auto simp: fa_sized_def)
  ultimately show ?thesis
    using L(2,3) own by (auto simp: fa_owns_def write_word_def fa_partition_def)
qed

lemma fa_alloc_owns:
  assumes own: "fa_owns s out" and off: "heap_offers s r" and run: "fa_alloc abi r sz s = (p, s')"
  shows "if p = 0 then fa_owns s' out else out p = None \<and> fa_owns s' (out(p \<mapsto> sz)) \<and> fits s' sz p"
proof -
  let ?s = "init_store_number abi s"
  have own': "fa_owns ?s out" using own by (rule fa_owns_init_store)
  have off': "heap_offers ?s r" using off by (simp add: heap_offers_def)
  have ptr: "\<not> sz < sizeof_ptr \<Longrightarrow> sizeof_ptr \<le> sz" by simp
  consider "no_store ?s sz" | "\<not> no_store ?s sz" "s_allocatorStore ?s sz \<noteq> 0"
    | "\<not> no_store ?s sz" "s_allocatorStore ?s sz = 0" by blast
  then show ?thesis
  proof cases
    case 1
    then have "(p, s') = c_malloc r sz ?s" using run by (simp add: fa_alloc_def Let_def)
    then show ?thesis
      using fa_owns_malloc [OF own' off', of sz sz] own' 1 by (auto simp: c_malloc_def split: if_splits)
  next
    case 2
    then show ?thesis
      using fa_owns_pop [OF own', of sz p] run by (auto simp: fa_alloc_def Let_def)
  next
    case 3
    then have "(p, s') = c_malloc r (if sz < sizeof_ptr then sizeof_ptr else sz) ?s"
      using run by (simp add: fa_alloc_def Let_def)
    then show ?thesis
      using fa_owns_malloc [OF own' off', of sz "if sz < sizeof_ptr then sizeof_ptr else sz"] own'
      by (auto simp: c_malloc_def split: if_splits)
  qed
qed

lemma fa_free_owns:
  assumes "fa_owns s out" and "out p = Some sz"
  shows "fa_owns (fa_free p sz s) (out(p := None))"
proof -
  have "p \<noteq> 0" using assms by (auto simp: fa_owns_defs)
  with assms show ?thesis
    using fa_owns_push [OF assms] fa_owns_c_free [OF assms]
    by (auto simp: fa_free_def Let_def write_word_def)
qed


section \<open>The contract the clients rely on\<close>

text \<open>
  A client asks for blocks, writes into the first word of blocks it holds and gives them
  back. \<open>owns s out\<close> says that \<open>out\<close> is what the clients hold, with the sizes they asked for.
\<close>

locale block_provider =
  fixes alloc :: "addr \<Rightarrow> nat \<Rightarrow> 's \<Rightarrow> addr \<times> 's"
    and release :: "addr \<Rightarrow> nat \<Rightarrow> 's \<Rightarrow> 's"
    and rd :: "addr \<Rightarrow> 's \<Rightarrow> nat"
    and wr :: "addr \<Rightarrow> nat \<Rightarrow> 's \<Rightarrow> 's"
    and offers :: "'s \<Rightarrow> addr \<Rightarrow> bool"
    and owns :: "'s \<Rightarrow> (addr \<rightharpoonup> nat) \<Rightarrow> bool"
  assumes alloc_null: "owns s out \<Longrightarrow> offers s r \<Longrightarrow> alloc r n s = (0, s') \<Longrightarrow> owns s' out"
    and alloc_new: "owns s out \<Longrightarrow> offers s r \<Longrightarrow> alloc r n s = (p, s') \<Longrightarrow> p \<noteq> 0 \<Longrightarrow>
      out p = None \<and> owns s' (out(p \<mapsto> n))"
    and alloc_rd: "owns s out \<Longrightarrow> alloc r n s = (p, s') \<Longrightarrow> out q \<noteq> None \<Longrightarrow> rd q s' = rd q s"
    and release_owns: "owns s out \<Longrightarrow> out p = Some n \<Longrightarrow> owns (release p n s) (out(p := None))"
    and release_rd: "q \<noteq> p \<Longrightarrow> rd q (release p n s) = rd q s"
    and wr_owns: "owns s out \<Longrightarrow> out p \<noteq> None \<Longrightarrow> owns (wr p v s) out"
    and rd_wr: "rd q (wr p v s) = (if q = p then v else rd q s)"
begin

text \<open>Every block held carries its own size in its first word.\<close>

definition headed :: "'s \<Rightarrow> (addr \<rightharpoonup> nat) \<Rightarrow> bool" where
  "headed s out \<longleftrightarrow> owns s out \<and> (\<forall>p n. out p = Some n \<longrightarrow> rd p s = n)"

lemma headed_owns: "headed s out \<Longrightarrow> owns s out"
  by (simp add: headed_def)

lemma headed_size: "headed s out \<Longrightarrow> out p = Some n \<Longrightarrow> rd p s = n"
  by (simp add: headed_def)

lemma headed_alloc_null:
  "headed s out \<Longrightarrow> offers s r \<Longrightarrow> alloc r n s = (0, s') \<Longrightarrow> headed s' out"
  unfolding headed_def using alloc_null alloc_rd by (metis option.distinct(1))

lemma headed_alloc:
  assumes h: "headed s out" and off: "offers s r" and run: "alloc r n s = (p, s')" and nz: "p \<noteq> 0"
  shows "out p = None \<and> headed (wr p n s') (out(p \<mapsto> n))"
proof -
  from h have o: "owns s out" by (rule headed_owns)
  from alloc_new [OF o off run nz] have new: "out p = None" "owns s' (out(p \<mapsto> n))" by auto
  have "owns (wr p n s') (out(p \<mapsto> n))" using new(2) by (rule wr_owns) simp
  moreover have "rd q (wr p n s') = m" if "(out(p \<mapsto> n)) q = Some m" for q m
    using that h alloc_rd [OF o run] by (auto simp: rd_wr headed_def split: if_splits)
  ultimately show ?thesis using new(1) by (simp add: headed_def)
qed

lemma headed_release:
  "headed s out \<Longrightarrow> out p = Some n \<Longrightarrow> headed (release p (rd p s) s) (out(p := None))"
  using release_owns release_rd by (auto simp: headed_def)

end

interpretation fa: block_provider "fa_alloc abi" fa_free read_word write_word heap_offers fa_owns
  for abi
proof
  show "fa_alloc abi r n s = (0, s') \<Longrightarrow> fa_owns s' out" if "fa_owns s out" "heap_offers s r" for s out r n s'
    using fa_alloc_owns [OF that] by fastforce
  show "out p = None \<and> fa_owns s' (out(p \<mapsto> n))"
    if "fa_owns s out" "heap_offers s r" "fa_alloc abi r n s = (p, s')" "p \<noteq> 0" for s out r n p s'
    using fa_alloc_owns [OF that(1-3)] that(4) by simp
  show "read_word q s' = read_word q s" if "fa_alloc abi r n s = (p, s')" for s out r n p s' q
    using that by (auto simp: fa_alloc_def c_malloc_def read_word_def Let_def split: if_splits)
  show "fa_owns (fa_free p n s) (out(p := None))" if "fa_owns s out" "out p = Some n" for s out p n
    using that by (rule fa_free_owns)
  show "fa_owns (write_word p v s) out" if "fa_owns s out" "out p \<noteq> None" for s out p v
    using that by (rule fa_owns_write)
qed (auto simp: fa_free_def c_free_def read_word_def write_word_def Let_def)

section \<open>Runs\<close>

text \<open>
  The states that callers who keep to the contract can reach: they free only what they hold,
  once, with the size they asked for, and write only into blocks they hold.
\<close>

inductive fa_reach :: "abi_sizes \<Rightarrow> fa_state \<Rightarrow> (addr \<rightharpoonup> nat) \<Rightarrow> bool" for abi where
  fa_start: "fa_reach abi fa_init Map.empty"
| fa_allocate: "fa_reach abi s out \<Longrightarrow> heap_offers s r \<Longrightarrow> fa_alloc abi r sz s = (p, s') \<Longrightarrow>
    fa_reach abi s' (if p = 0 then out else out(p \<mapsto> sz))"
| fa_release: "fa_reach abi s out \<Longrightarrow> out p = Some sz \<Longrightarrow> fa_reach abi (fa_free p sz s) (out(p := None))"
| fa_release_null: "fa_reach abi s out \<Longrightarrow> fa_reach abi (fa_free 0 sz s) out"
| fa_write: "fa_reach abi s out \<Longrightarrow> out p \<noteq> None \<Longrightarrow> fa_reach abi (write_word p v s) out"

lemma fa_reach_owns: "fa_reach abi s out \<Longrightarrow> fa_owns s out"
proof (induction rule: fa_reach.induct)
  case (fa_allocate s out r sz p s')
  then show ?case using fa_alloc_owns [of s out r abi sz p s'] by (simp split: if_splits)
next
  case fa_start
  show ?case by (rule fa_owns_empty)
next
  case (fa_release s out p sz)
  then show ?case by (simp only: fa.release_owns)
next
  case (fa_release_null s out sz)
  then show ?case by (simp add: fa_free_def)
next
  case (fa_write s out p v)
  then show ?case by (blast intro: fa.wr_owns)
qed

section \<open>A run for the witnesses\<close>

definition abi_example :: abi_sizes where
  "abi_example = \<lparr>sizeof_CnetworkNode = 48, sizeof_Cbuffer = 32, sizeof_uv_shutdown_t = 80,
     sizeof_uv_connect_t = 96, sizeof_write_with_info = 216, sizeof_udp_send_with_info = 344,
     sizeof_Casync = 152, sizeof_Ctcp = 464, sizeof_Cudp = 288\<rparr>"

text \<open>One block of size 48 is allocated at address 1000.\<close>

definition fa_one :: fa_state where
  "fa_one = snd (fa_alloc abi_example 1000 48 fa_init)"

lemma fa_one_run: "fa_alloc abi_example 1000 48 fa_init = (1000, fa_one)"
  by (simp add: fa_one_def fa_alloc_def abi_example_def init_store_number_def set_max_store_number_def fa_init_def
      max_allocator_slot_def no_store_def c_malloc_def sizeof_ptr_def Let_def)

lemma fa_one_reach: "fa_reach abi_example fa_one [1000 \<mapsto> 48]"
  using fa_allocate [OF fa_start _ fa_one_run] by (simp add: heap_offers_def fa_init_def)

lemma fa_one_store: "\<not> no_store fa_one 48" "s_allocatorStoreCount fa_one 48 < s_maxAllocatorStoreNumber fa_one 48"
  by (simp_all add: fa_one_def fa_alloc_def abi_example_def init_store_number_def set_max_store_number_def fa_init_def
      max_allocator_slot_def no_store_def c_malloc_def sizeof_ptr_def Let_def)

section \<open>Properties\<close>

text \<open>\<open>__alloc\<close> never hands out a block that some caller still holds, whether the block comes
  from a free list or from \<open>malloc\<close>, and the block is at least as big as the request.\<close>

theorem fa_alloc_fresh:
  assumes "fa_reach abi s out" and "heap_offers s r" and "fa_alloc abi r sz s = (p, s')" and "p \<noteq> 0"
  shows "out p = None \<and> (\<exists>n. heap_block s' p = Some n \<and> sz \<le> n)"
proof -
  from assms(1) have "fa_owns s out" by (rule fa_reach_owns)
  from fa_alloc_owns [OF this assms(2,3)] assms(4) show ?thesis by (auto simp: fits_def)
qed

theorem fa_alloc_fresh_witness:
  "\<exists>n. heap_block fa_one 1000 = Some n \<and> 48 \<le> n"
  using fa_alloc_fresh [OF fa_start _ fa_one_run] by (simp add: heap_offers_def fa_init_def)

text \<open>C27: Nothing leaks and nothing is cached twice: in every reachable state the blocks of the C heap
  are exactly those callers hold and those in the free lists, the two never overlap, a block is in at most one
  list, each list in memory ends after \<open>s_allocatorStoreCount\<close> links, and that count is never
  above its limit.\<close>

theorem fa_heap_partition:
  assumes "fa_reach abi s out"
  shows "\<exists>L. fa_lists s L \<and> fa_separate L \<and> fa_partition s L out
    \<and> (\<forall>sz. s_allocatorStoreCount s sz = length (L sz)
           \<and> s_allocatorStoreCount s sz \<le> s_maxAllocatorStoreNumber s sz)"
proof -
  from assms have "fa_owns s out" by (rule fa_reach_owns)
  then show ?thesis by (fastforce simp: fa_owns_def fa_lists_def)
qed

theorem fa_heap_partition_witness:
  "\<exists>L. fa_lists (fa_free 0 16 fa_init) L \<and> fa_partition (fa_free 0 16 fa_init) L Map.empty"
  using fa_heap_partition [OF fa_release_null [OF fa_start]] by blast

text \<open>The free lists are stacks: a block of a cached size that is freed while its list has room is
  the next one \<open>__alloc\<close> returns for that size, whatever \<open>malloc\<close> would answer, and the list
  head and its count are then what they were before.\<close>

theorem fa_free_alloc_reuse:
  assumes "fa_reach abi s out" and "out p = Some sz" and "\<not> no_store s sz"
    and "s_allocatorStoreCount s sz < s_maxAllocatorStoreNumber s sz"
  shows "\<exists>s'. fa_alloc abi r sz (fa_free p sz s) = (p, s')
    \<and> s_allocatorStore s' = s_allocatorStore s \<and> s_allocatorStoreCount s' = s_allocatorStoreCount s
    \<and> heap_block s' = heap_block s"
proof -
  from assms(1) have own: "fa_owns s out" by (rule fa_reach_owns)
  with assms(2) have nz: "p \<noteq> 0" by (auto simp: fa_owns_defs)
  have ready: "s_storeNumberInit s" using own assms(2) by (auto simp: fa_owns_def)
  let ?t = "fa_free p sz s"
  have t: "init_store_number abi ?t = ?t" "\<not> no_store ?t sz" "s_allocatorStore ?t sz = p"
    "s_allocatorStore ?t = (s_allocatorStore s)(sz := p)" "heap_word ?t p = s_allocatorStore s sz"
    "s_allocatorStoreCount ?t = (s_allocatorStoreCount s)(sz := Suc (s_allocatorStoreCount s sz))"
    "heap_block ?t = heap_block s"
    using assms(3,4) nz ready
    by (simp_all add: fa_free_def Let_def init_store_number_def no_store_def write_word_def)
  then show ?thesis using nz by (simp add: fa_alloc_def read_word_def)
qed

theorem fa_free_alloc_reuse_witness:
  "\<exists>s'. fa_alloc abi_example 0 48 (fa_free 1000 48 fa_one) = (1000, s')"
  using fa_free_alloc_reuse [OF fa_one_reach, of 1000 48 0] fa_one_store by auto

end
