(* ===== verification/Memory_Trace.thy ===== *)
theory Memory_Trace
  imports Fast_Allocator
begin

text \<open>
  \<open>memory_trace.h\<close>: \<open>CmemoryTrace\<close> puts a header of one \<open>size_t\<close> in front of every block it
  hands out, holding the size it asked the allocator for, and keeps the total of these sizes
  and the number of blocks in two atomic counters. The counters wrap as the machine integers
  do (\<open>int64_t\<close> and \<open>int32_t\<close>, read back as unsigned). Constructors and destructors of the
  objects made by \<open>_new_throw\<close> and its kin are the owners' business: only whether they throw
  is an argument here.
\<close>

section \<open>State and operations\<close>

record mt_state =
  mt_size :: u64
  mt_count :: u32
  mt_heap :: fa_state

definition mt_init :: "fa_state \<Rightarrow> mt_state" where
  "mt_init h = \<lparr>mt_size = 0, mt_count = 0, mt_heap = h\<rparr>"

definition get_object_count :: "mt_state \<Rightarrow> u32" where
  "get_object_count s = mt_count s"

definition get_memory_usage :: "mt_state \<Rightarrow> u64" where
  "get_memory_usage s = mt_size s"

text \<open>\<open>Terminated\<close> is \<open>std::terminate\<close>; \<open>Threw\<close> an exception of the object's constructor.\<close>

datatype malloc_result = Terminated | Bad_alloc | Null | Threw | Ptr addr

definition mt_malloc :: "malloc_result \<Rightarrow> abi_sizes \<Rightarrow> addr \<Rightarrow> u64 \<Rightarrow> mt_state \<Rightarrow> malloc_result \<times> mt_state"
where
  "mt_malloc on_null abi r sz s =
     (let allocSize = 8 + sz
      in if allocSize < sz then (Terminated, s)
         else let (p, h) = fa_alloc abi r (unat allocSize) (mt_heap s)
              in if p = 0 then (on_null, s\<lparr>mt_heap := h\<rparr>)
                 else (Ptr (p + 8),
                       s\<lparr>mt_heap := write_word p (unat allocSize) h,
                         mt_size := mt_size s + allocSize,
                         mt_count := mt_count s + 1\<rparr>))"

definition malloc_throw :: "abi_sizes \<Rightarrow> addr \<Rightarrow> u64 \<Rightarrow> mt_state \<Rightarrow> malloc_result \<times> mt_state" where
  "malloc_throw = mt_malloc Bad_alloc"

definition malloc_no_throw :: "abi_sizes \<Rightarrow> addr \<Rightarrow> u64 \<Rightarrow> mt_state \<Rightarrow> malloc_result \<times> mt_state" where
  "malloc_no_throw = mt_malloc Null"

text \<open>The caller's pointer becomes null; here the caller drops it.\<close>

definition free_set_nullptr :: "addr \<Rightarrow> mt_state \<Rightarrow> mt_state" where
  "free_set_nullptr ptr s =
     (if ptr = 0 then s
      else let org = ptr - 8;
               allocSize = read_word org (mt_heap s)
           in s\<lparr>mt_size := mt_size s - of_nat allocSize,
                mt_count := mt_count s - 1,
                mt_heap := fa_free org allocSize (mt_heap s)\<rparr>)"

definition new_throw :: "abi_sizes \<Rightarrow> addr \<Rightarrow> u64 \<Rightarrow> bool \<Rightarrow> mt_state \<Rightarrow> malloc_result \<times> mt_state" where
  "new_throw abi r sizeof_T ctor_throws s =
     (case malloc_throw abi r sizeof_T s of
        (Ptr p, s') \<Rightarrow> if ctor_throws then (Threw, free_set_nullptr p s') else (Ptr p, s')
      | (e, s') \<Rightarrow> (e, s'))"

definition new_no_throw :: "abi_sizes \<Rightarrow> addr \<Rightarrow> u64 \<Rightarrow> bool \<Rightarrow> mt_state \<Rightarrow> malloc_result \<times> mt_state" where
  "new_no_throw abi r sizeof_T ctor_throws s =
     (case malloc_no_throw abi r sizeof_T s of
        (Ptr p, s') \<Rightarrow> if ctor_throws then (Threw, free_set_nullptr p s') else (Ptr p, s')
      | (e, s') \<Rightarrow> (e, s'))"

text \<open>The result says whether the destructor's exception goes on to the caller.\<close>

definition delete_set_nullptr :: "bool \<Rightarrow> addr \<Rightarrow> mt_state \<Rightarrow> bool \<times> mt_state" where
  "delete_set_nullptr dtor_throws ptr s =
     (if ptr = 0 then (False, s) else (dtor_throws, free_set_nullptr ptr s))"

section \<open>The blocks clients hold\<close>

text \<open>
  \<open>live\<close> maps a client's pointer to the size it asked for; the allocator sees the block eight
  bytes earlier, with the header included.
\<close>

definition blocks_of :: "(addr \<rightharpoonup> u64) \<Rightarrow> (addr \<rightharpoonup> nat)" where
  "blocks_of live = (\<lambda>q. map_option (\<lambda>sz. unat (8 + sz)) (live (q + 8)))"

definition mt_total :: "(addr \<rightharpoonup> u64) \<Rightarrow> u64" where
  "mt_total live = (\<Sum>p\<in>dom live. 8 + the (live p))"

definition mt_inv :: "mt_state \<Rightarrow> (addr \<rightharpoonup> u64) \<Rightarrow> bool" where
  "mt_inv s live \<longleftrightarrow> fa.headed (mt_heap s) (blocks_of live)
     \<and> finite (dom live) \<and> (\<forall>p\<in>dom live. 8 \<le> p)
     \<and> mt_count s = of_nat (card (dom live)) \<and> mt_size s = mt_total live"

lemma blocks_of_new: "blocks_of (live(p + 8 \<mapsto> sz)) = (blocks_of live)(p \<mapsto> unat (8 + sz))"
  by (auto simp: blocks_of_def)

lemma blocks_of_free: "8 \<le> p \<Longrightarrow> blocks_of (live(p := None)) = (blocks_of live)(p - 8 := None)"
  by (auto simp: blocks_of_def fun_eq_iff)

lemma blocks_of_Some: "8 \<le> p \<Longrightarrow> live p = Some sz \<Longrightarrow> blocks_of live (p - 8) = Some (unat (8 + sz))"
  by (simp add: blocks_of_def)

lemma mt_total_new: "finite (dom live) \<Longrightarrow> live p = None \<Longrightarrow>
    mt_total (live(p \<mapsto> sz)) = mt_total live + (8 + sz)"
proof -
  assume "finite (dom live)" and new: "live p = None"
  moreover have "(\<Sum>q\<in>dom live. 8 + the ((live(p \<mapsto> sz)) q)) = mt_total live"
    unfolding mt_total_def using new by (intro sum.cong) auto
  moreover have "p \<notin> dom live" using new by (simp add: domIff)
  ultimately show ?thesis by (simp add: mt_total_def add_ac)
qed

lemma mt_total_free: "finite (dom live) \<Longrightarrow> live p = Some sz \<Longrightarrow>
    mt_total (live(p := None)) = mt_total live - (8 + sz)"
proof -
  assume fin: "finite (dom live)" and old: "live p = Some sz"
  have "mt_total ((live(p := None))(p \<mapsto> sz)) = mt_total (live(p := None)) + (8 + sz)"
    using fin by (intro mt_total_new) auto
  moreover have "(live(p := None))(p \<mapsto> sz) = live" using old by auto
  ultimately show ?thesis by simp
qed

lemma of_nat_card_new: "finite (dom live) \<Longrightarrow> live p = None \<Longrightarrow>
    of_nat (card (dom (live(p \<mapsto> sz)))) = (of_nat (card (dom live)) + 1 :: u32)"
  by (simp add: domIff add.commute)

lemma of_nat_card_free: "finite (dom live) \<Longrightarrow> live p = Some sz \<Longrightarrow>
    of_nat (card (dom (live(p := None)))) = (of_nat (card (dom live)) - 1 :: u32)"
proof -
  assume fin: "finite (dom live)" and old: "live p = Some sz"
  then have "card (dom live) = Suc (card (dom live - {p}))"
    by (intro card.remove) auto
  then show ?thesis by simp
qed

lemma mt_inv_malloc:
  assumes inv: "mt_inv s live" and off: "heap_offers (mt_heap s) r"
    and run: "mt_malloc on_null abi r sz s = (res, s')" and null: "\<forall>p. on_null \<noteq> Ptr p"
  shows "case res of Ptr p \<Rightarrow> live p = None \<and> mt_inv s' (live(p \<mapsto> sz)) | _ \<Rightarrow> mt_inv s' live"
proof (cases "8 + sz < sz")
  case True
  then show ?thesis using run inv by (auto simp: mt_malloc_def)
next
  case False
  obtain q h where q: "fa_alloc abi r (unat (8 + sz)) (mt_heap s) = (q, h)" by fastforce
  from inv have hd: "fa.headed (mt_heap s) (blocks_of live)" by (simp add: mt_inv_def)
  show ?thesis
  proof (cases "q = 0")
    case True
    with fa.headed_alloc_null [OF hd off] q run False inv null show ?thesis
      by (auto simp: mt_malloc_def mt_inv_def split: malloc_result.split)
  next
    case nz: False
    from fa.headed_alloc [OF hd off q nz]
    have new: "live (q + 8) = None" "fa.headed (write_word q (unat (8 + sz)) h) (blocks_of (live(q + 8 \<mapsto> sz)))"
      by (simp_all add: blocks_of_new) (simp add: blocks_of_def)
    from run False q nz have res: "res = Ptr (q + 8)"
      "s' = s\<lparr>mt_heap := write_word q (unat (8 + sz)) h, mt_size := mt_size s + (8 + sz), mt_count := mt_count s + 1\<rparr>"
      by (auto simp: mt_malloc_def Let_def)
    with inv new show ?thesis
      by (simp add: mt_inv_def mt_total_new of_nat_card_new del: dom_fun_upd) auto
  qed
qed

lemma mt_inv_free:
  assumes inv: "mt_inv s live" and held: "live p = Some sz"
  shows "mt_inv (free_set_nullptr p s) (live(p := None))"
proof -
  from inv held have p: "8 \<le> p" by (auto simp: mt_inv_def)
  from inv have hd: "fa.headed (mt_heap s) (blocks_of live)" by (simp add: mt_inv_def)
  have b: "blocks_of live (p - 8) = Some (unat (8 + sz))" using p held by (rule blocks_of_Some)
  have size: "read_word (p - 8) (mt_heap s) = unat (8 + sz)" using hd b by (rule fa.headed_size)
  have "fa.headed (fa_free (p - 8) (unat (8 + sz)) (mt_heap s)) (blocks_of (live(p := None)))"
    using fa.headed_release [OF hd b] by (simp add: size blocks_of_free p)
  with inv held p size show ?thesis
    by (auto simp: mt_inv_def free_set_nullptr_def Let_def mt_total_free of_nat_card_free
        simp del: dom_fun_upd) auto
qed


section \<open>Runs\<close>

text \<open>The states clients reach that free only what they hold; \<open>live\<close> is what they hold.\<close>

inductive mt_reach :: "abi_sizes \<Rightarrow> mt_state \<Rightarrow> (addr \<rightharpoonup> u64) \<Rightarrow> bool" for abi where
  mt_start: "mt_reach abi (mt_init fa_init) Map.empty"
| mt_malloc_throw: "mt_reach abi s live \<Longrightarrow> heap_offers (mt_heap s) r \<Longrightarrow>
    malloc_throw abi r sz s = (res, s') \<Longrightarrow>
    mt_reach abi s' (case res of Ptr p \<Rightarrow> live(p \<mapsto> sz) | _ \<Rightarrow> live)"
| mt_malloc_no_throw: "mt_reach abi s live \<Longrightarrow> heap_offers (mt_heap s) r \<Longrightarrow>
    malloc_no_throw abi r sz s = (res, s') \<Longrightarrow>
    mt_reach abi s' (case res of Ptr p \<Rightarrow> live(p \<mapsto> sz) | _ \<Rightarrow> live)"
| mt_new_throw: "mt_reach abi s live \<Longrightarrow> heap_offers (mt_heap s) r \<Longrightarrow>
    new_throw abi r sz ctor_throws s = (res, s') \<Longrightarrow>
    mt_reach abi s' (case res of Ptr p \<Rightarrow> live(p \<mapsto> sz) | _ \<Rightarrow> live)"
| mt_new_no_throw: "mt_reach abi s live \<Longrightarrow> heap_offers (mt_heap s) r \<Longrightarrow>
    new_no_throw abi r sz ctor_throws s = (res, s') \<Longrightarrow>
    mt_reach abi s' (case res of Ptr p \<Rightarrow> live(p \<mapsto> sz) | _ \<Rightarrow> live)"
| mt_free: "mt_reach abi s live \<Longrightarrow> live p \<noteq> None \<Longrightarrow>
    mt_reach abi (free_set_nullptr p s) (live(p := None))"
| mt_delete: "mt_reach abi s live \<Longrightarrow> live p \<noteq> None \<Longrightarrow>
    mt_reach abi (snd (delete_set_nullptr dtor_throws p s)) (live(p := None))"
| mt_free_null: "mt_reach abi s live \<Longrightarrow> mt_reach abi (free_set_nullptr 0 s) live"

lemma mt_inv_new:
  assumes inv: "mt_inv s live" and off: "heap_offers (mt_heap s) r"
    and run: "(case mt_malloc on_null abi r sz s of
        (Ptr p, s') \<Rightarrow> if ctor_throws then (Threw, free_set_nullptr p s') else (Ptr p, s')
      | (e, s') \<Rightarrow> (e, s')) = (res, s')" and null: "\<forall>p. on_null \<noteq> Ptr p"
  shows "mt_inv s' (case res of Ptr p \<Rightarrow> live(p \<mapsto> sz) | _ \<Rightarrow> live)"
proof -
  obtain res1 s1 where m: "mt_malloc on_null abi r sz s = (res1, s1)" by fastforce
  note step = mt_inv_malloc [OF inv off m null]
  show ?thesis
  proof (cases res1)
    case (Ptr p)
    with step have new: "live p = None" "mt_inv s1 (live(p \<mapsto> sz))" by auto
    then have "mt_inv (free_set_nullptr p s1) live"
      using mt_inv_free [OF new(2), of p sz] by (simp add: fun_upd_idem)
    with new run m Ptr show ?thesis by (auto split: if_splits)
  qed (use step run m in auto)
qed

lemma mt_reach_inv: "mt_reach abi s live \<Longrightarrow> mt_inv s live"
proof (induction rule: mt_reach.induct)
  case mt_start
  have "fa_owns fa_init (blocks_of Map.empty)"
    using fa_owns_empty by (simp add: blocks_of_def)
  then show ?case
    by (simp add: mt_inv_def mt_init_def mt_total_def fa.headed_def blocks_of_def)
next
  case (mt_malloc_throw s live r sz res s')
  then show ?case
    using mt_inv_malloc [of s live r Bad_alloc abi sz res s']
    by (auto simp: malloc_throw_def split: malloc_result.splits)
next
  case (mt_malloc_no_throw s live r sz res s')
  then show ?case
    using mt_inv_malloc [of s live r Null abi sz res s']
    by (auto simp: malloc_no_throw_def split: malloc_result.splits)
next
  case (mt_new_throw s live r sz ctor_throws res s')
  then show ?case
    using mt_inv_new [where on_null = Bad_alloc and s = s and live = live and r = r and abi = abi
      and sz = sz and ctor_throws = ctor_throws and res = res and s' = s']
    by (simp add: new_throw_def malloc_throw_def)
next
  case (mt_new_no_throw s live r sz ctor_throws res s')
  then show ?case
    using mt_inv_new [where on_null = Null and s = s and live = live and r = r and abi = abi
      and sz = sz and ctor_throws = ctor_throws and res = res and s' = s']
    by (simp add: new_no_throw_def malloc_no_throw_def)
next
  case (mt_free s live p)
  then show ?case using mt_inv_free by blast
next
  case (mt_delete s live p dtor_throws)
  then have "8 \<le> p" by (simp add: mt_inv_def dom_def)
  then have "p \<noteq> 0" by simp
  from mt_delete obtain sz where "live p = Some sz" by blast
  moreover have "snd (delete_set_nullptr dtor_throws p s) = free_set_nullptr p s"
    using \<open>p \<noteq> 0\<close> by (simp add: delete_set_nullptr_def)
  ultimately show ?case using mt_inv_free mt_delete.IH by (metis (no_types))
next
  case (mt_free_null s live)
  then show ?case by (simp add: free_set_nullptr_def)
qed

section \<open>Properties\<close>

text \<open>C28: The counters of \<open>CmemoryTrace\<close> are exact in every reachable state: \<open>getObjectCount\<close> is the
  number of blocks the clients hold and \<open>getMemoryUsage\<close> the sum of their sizes with one
  8-byte header each, modulo the width of the counters. Failed allocations, allocations of any size that
  overflow, and constructors that throw leave no trace in them.\<close>

theorem memory_trace_accounting:
  assumes "mt_reach abi s live"
  shows "get_object_count s = of_nat (card (dom live))
    \<and> get_memory_usage s = (\<Sum>p\<in>dom live. 8 + the (live p)) \<and> finite (dom live)"
  using mt_reach_inv [OF assms]
  by (simp add: get_object_count_def get_memory_usage_def mt_inv_def mt_total_def)

theorem memory_trace_accounting_witness:
  "get_object_count (snd (malloc_throw abi_example 0 (- 1) (mt_init fa_init))) = 0"
proof -
  have "malloc_throw abi_example 0 (- 1) (mt_init fa_init) = (Terminated, mt_init fa_init)"
    by (simp add: malloc_throw_def mt_malloc_def mt_init_def)
  from memory_trace_accounting [OF mt_malloc_throw [OF mt_start _ this]] this show ?thesis
    by (simp add: heap_offers_def)
qed

text \<open>The overflow test of \<open>_malloc_throw\<close> is exact: the program is terminated exactly when the
  size with its header does not fit in 64 bits, and otherwise a returned pointer is 8 bytes into a heap block
  with room for the header and all the bytes asked for, which no client holds yet.\<close>

theorem malloc_throw_bounds:
  assumes "mt_reach abi s live" and "heap_offers (mt_heap s) r"
    and "malloc_throw abi r sz s = (res, s')"
  shows "(res = Terminated \<longleftrightarrow> 2 ^ 64 \<le> 8 + unat sz) \<and>
    (case res of Ptr p \<Rightarrow> live p = None \<and> 8 \<le> p
        \<and> (\<exists>n. heap_block (mt_heap s') (p - 8) = Some n \<and> 8 + unat sz \<le> n)
     | _ \<Rightarrow> True)"
proof -
  from assms(1) have inv: "mt_inv s live" by (rule mt_reach_inv)
  then have own: "fa_owns (mt_heap s) (blocks_of live)" by (simp add: mt_inv_def fa.headed_def)
  have over: "8 + sz < sz \<longleftrightarrow> 2 ^ 64 \<le> 8 + unat sz"
  proof -
    have "unat sz < 2 ^ 64" by (rule order_less_le_trans [OF unsigned_less]) simp
    then show ?thesis
      by (cases "8 + unat sz < 2 ^ 64") (simp_all add: word_less_nat_alt unat_word_ariths mod_if)
  qed
  show ?thesis
  proof (cases "8 + sz < sz")
    case True
    then show ?thesis using assms(3) over by (auto simp: malloc_throw_def mt_malloc_def)
  next
    case False
    obtain q h where q: "fa_alloc abi r (unat (8 + sz)) (mt_heap s) = (q, h)" by fastforce
    have "unat (8 + sz) = 8 + unat sz"
      using False over by (simp add: unat_word_ariths)
    then show ?thesis
      using False over q assms(3) fa_alloc_owns [OF own assms(2) q] 
      by (cases "q = 0")
        (auto simp: malloc_throw_def mt_malloc_def fits_def write_word_def blocks_of_def Let_def)
  qed
qed

theorem malloc_throw_bounds_witness:
  "fst (malloc_throw abi_example 1000 40 (mt_init fa_init)) \<noteq> Terminated"
proof -
  obtain res s' where run: "malloc_throw abi_example 1000 40 (mt_init fa_init) = (res, s')" by fastforce
  show ?thesis
    using malloc_throw_bounds [OF mt_start _ run] run by (simp add: heap_offers_def mt_init_def fa_init_def)
qed

end
