(* ===== verification/Uv_Wrapper.thy ===== *)
theory Uv_Wrapper
  imports Network_Node
begin

text \<open>
  \<open>uv_wrapper.h\<close> and \<open>uv_wrapper.cpp\<close>: the reference types \<open>Casync\<close>, \<open>Ctcp\<close> and \<open>Cudp\<close>
  around libuv's handles, and the state that the pool shares with libuv.

  \<^item> Objects live in maps from their address (an \<open>oid\<close>) to their fields; a freed object is not
    in the map, and using one sets the flag \<open>np_ub\<close>, which never goes down again.
  \<^item> libuv and the memory allocator answer through \<open>np_env\<close>, one answer per call, so a theorem
    about all states is a theorem about all behaviours of libuv. A call that returns 0 has
    succeeded; for \<open>Call_malloc\<close>, any other answer is a null pointer.
  \<^item> Requests libuv has accepted and not yet called back are kept in lists; the fields
    \<open>t_timer_active\<close> and \<open>t_reading\<close> of a connection are libuv's, too.
  \<^item> \<open>np_mem\<close> counts the blocks obtained from \<open>CmemoryTrace\<close> and not given back, as its
    \<open>m_count\<close> does.
\<close>

section \<open>Settings\<close>

record network_settings =
  tcp_enable_nodelay :: int
  tcp_enable_keepalive :: int
  tcp_keepalive_time_in_seconds :: u32
  tcp_enable_simultaneous_accepts :: int
  tcp_backlog :: int
  tcp_send_buffer_size :: int
  tcp_recv_buffer_size :: int
  tcp_connect_timeout_in_seconds :: u32
  tcp_idle_timeout_in_seconds :: u32
  tcp_send_timeout_in_seconds :: u32
  udp_ttl :: int

definition preferred_network_settings :: network_settings where
  "preferred_network_settings =
     \<lparr>tcp_enable_nodelay = 1, tcp_enable_keepalive = 1, tcp_keepalive_time_in_seconds = 30,
      tcp_enable_simultaneous_accepts = 1, tcp_backlog = 128, tcp_send_buffer_size = 0,
      tcp_recv_buffer_size = 0, tcp_connect_timeout_in_seconds = 10,
      tcp_idle_timeout_in_seconds = 30, tcp_send_timeout_in_seconds = 30, udp_ttl = 64\<rparr>"

section \<open>Calls out of the program and their answers\<close>

datatype env_call =
    Call_malloc
  | Call_uv_loop_init
  | Call_uv_async_init
  | Call_uv_tcp_init
  | Call_uv_timer_init
  | Call_uv_tcp_nodelay int
  | Call_uv_tcp_keepalive int u32
  | Call_uv_tcp_simultaneous_accepts int
  | Call_uv_send_buffer_size int
  | Call_uv_recv_buffer_size int
  | Call_uv_timer_start u64
  | Call_uv_read_start
  | Call_uv_accept
  | Call_uv_tcp_getpeername
  | Call_uv_tcp_bind csockaddr
  | Call_uv_listen int
  | Call_uv_tcp_connect csockaddr
  | Call_uv_write
  | Call_uv_shutdown
  | Call_write_queue_size
  | Call_uv_udp_init
  | Call_uv_udp_set_ttl int
  | Call_uv_udp_bind csockaddr
  | Call_uv_udp_recv_start
  | Call_uv_udp_recv_stop
  | Call_uv_udp_send csockaddr

text \<open>What the user's callback object is told, and the two ends of a message's way.\<close>

datatype event =
    Cb_allocate network_node
  | Cb_deallocate network_node
  | Cb_message network_node bytes
  | Cb_drop network_node bytes
  | Cb_bindStatus network_node bool
  | Cb_connectionStatus network_node bool
  | Cb_tcpListenError network_node int
  | Cb_udpSendError network_node int
  | Cb_udpRecvError network_node int
  | Write_completed network_node bytes

section \<open>Objects\<close>

type_synonym oid = nat

record ctcp =
  m_tcpInited :: bool
  m_timerInited :: bool
  m_closing :: bool
  m_shutdown :: bool
  t_node :: network_node
  t_timer_active :: bool
  t_reading :: bool

record cudp =
  u_inited :: bool
  u_closing :: bool
  u_node :: network_node

record casync =
  a_inited :: bool
  a_closing :: bool

text \<open>A \<open>uv_buf_t\<close>: the bytes of one message, in a block of their own.\<close>

type_synonym uv_buf = bytes

record np_uv =
  np_settings :: network_settings
  np_env :: "nat \<Rightarrow> env_call \<Rightarrow> int"
  np_tick :: nat
  np_log :: "event list"
  np_mem :: int
  np_ub :: bool
  np_next :: oid
  np_tcps :: "oid \<rightharpoonup> ctcp"
  np_udps :: "oid \<rightharpoonup> cudp"
  np_async :: "casync option"
  np_writes :: "(oid \<times> uv_buf list) list"
  np_connects :: "oid list"
  np_shutdowns :: "oid list"
  np_udp_sends :: "(oid \<times> uv_buf list) list"

definition env_ret :: "env_call \<Rightarrow> 'a np_uv_scheme \<Rightarrow> int \<times> 'a np_uv_scheme" where
  "env_ret c s = (np_env s (np_tick s) c, s\<lparr>np_tick := Suc (np_tick s)\<rparr>)"

definition emit :: "event \<Rightarrow> 'a np_uv_scheme \<Rightarrow> 'a np_uv_scheme" where
  "emit e s = s\<lparr>np_log := np_log s @ [e]\<rparr>"

definition mem_add :: "int \<Rightarrow> 'a np_uv_scheme \<Rightarrow> 'a np_uv_scheme" where
  "mem_add k s = s\<lparr>np_mem := np_mem s + k\<rparr>"

definition undefined_behaviour :: "'a np_uv_scheme \<Rightarrow> 'a np_uv_scheme" where
  "undefined_behaviour s = s\<lparr>np_ub := True\<rparr>"

section \<open>Casync\<close>

definition casync_alloc :: "'a np_uv_scheme \<Rightarrow> bool \<times> 'a np_uv_scheme" where
  "casync_alloc s =
     (let (r, s) = env_ret Call_malloc s
      in if r \<noteq> 0 then (False, s)
         else let s = mem_add 1 (s\<lparr>np_async := Some \<lparr>a_inited = False, a_closing = False\<rparr>\<rparr>);
                  (r, s) = env_ret Call_uv_async_init s
              in if r \<noteq> 0 then (False, mem_add (- 1) (s\<lparr>np_async := None\<rparr>))
                 else (True, s\<lparr>np_async := Some \<lparr>a_inited = True, a_closing = False\<rparr>\<rparr>))"

definition casync_close :: "'a np_uv_scheme \<Rightarrow> 'a np_uv_scheme" where
  "casync_close s =
     (case np_async s of
        None \<Rightarrow> undefined_behaviour s
      | Some a \<Rightarrow>
          if a_inited a
          then (if \<not> a_closing a then s\<lparr>np_async := Some (a\<lparr>a_closing := True\<rparr>)\<rparr> else s)
          else mem_add (- 1) (s\<lparr>np_async := None\<rparr>))"

definition on_async_closed :: "'a np_uv_scheme \<Rightarrow> 'a np_uv_scheme" where
  "on_async_closed s =
     (case np_async s of
        None \<Rightarrow> undefined_behaviour s
      | Some a \<Rightarrow> mem_add (- 1) (s\<lparr>np_async := None\<rparr>))"

section \<open>Ctcp\<close>

definition tcp_new :: ctcp where
  "tcp_new = \<lparr>m_tcpInited = False, m_timerInited = False, m_closing = False, m_shutdown = False,
     t_node = node_default, t_timer_active = False, t_reading = False\<rparr>"

definition upd_tcp :: "oid \<Rightarrow> (ctcp \<Rightarrow> ctcp) \<Rightarrow> 'a np_uv_scheme \<Rightarrow> 'a np_uv_scheme" where
  "upd_tcp t f s =
     (case np_tcps s t of
        None \<Rightarrow> undefined_behaviour s
      | Some c \<Rightarrow> s\<lparr>np_tcps := (np_tcps s)(t \<mapsto> f c)\<rparr>)"

definition delete_tcp :: "oid \<Rightarrow> 'a np_uv_scheme \<Rightarrow> 'a np_uv_scheme" where
  "delete_tcp t s = mem_add (- 1) (s\<lparr>np_tcps := (np_tcps s)(t := None)\<rparr>)"

definition set_tcp :: "'a np_uv_scheme \<Rightarrow> bool \<times> 'a np_uv_scheme" where
  "set_tcp s =
     (let st = np_settings s;
          (r, s) = env_ret (Call_uv_tcp_nodelay (tcp_enable_nodelay st)) s
      in if r \<noteq> 0 then (False, s)
         else let (r, s) = env_ret (Call_uv_tcp_keepalive (tcp_enable_keepalive st)
                              (tcp_keepalive_time_in_seconds st)) s
              in if r \<noteq> 0 then (False, s)
                 else let (r, s) = env_ret (Call_uv_tcp_simultaneous_accepts
                                      (tcp_enable_simultaneous_accepts st)) s
                      in if r \<noteq> 0 then (False, s)
                         else let s = (if tcp_send_buffer_size st \<noteq> 0
                                       then snd (env_ret (Call_uv_send_buffer_size
                                                   (tcp_send_buffer_size st)) s) else s);
                                  s = (if tcp_recv_buffer_size st \<noteq> 0
                                       then snd (env_ret (Call_uv_recv_buffer_size
                                                   (tcp_recv_buffer_size st)) s) else s)
                              in (True, s))"

definition ctcp_close :: "oid \<Rightarrow> 'a np_uv_scheme \<Rightarrow> 'a np_uv_scheme" where
  "ctcp_close t s =
     (case np_tcps s t of
        None \<Rightarrow> undefined_behaviour s
      | Some c \<Rightarrow>
          if m_tcpInited c \<or> m_timerInited c
          then (if \<not> m_closing c
                then upd_tcp t (\<lambda>c. c\<lparr>m_closing := True, t_timer_active := False, t_reading := False\<rparr>) s
                else s)
          else delete_tcp t s)"

definition ctcp_alloc :: "bool \<Rightarrow> 'a np_uv_scheme \<Rightarrow> oid option \<times> 'a np_uv_scheme" where
  "ctcp_alloc initTimer s =
     (let (r, s) = env_ret Call_malloc s
      in if r \<noteq> 0 then (None, s)
         else let t = np_next s;
                  s = mem_add 1 (s\<lparr>np_tcps := (np_tcps s)(t \<mapsto> tcp_new), np_next := Suc t\<rparr>);
                  (r, s) = env_ret Call_uv_tcp_init s
              in if r \<noteq> 0 then (None, ctcp_close t s)
                 else let s = upd_tcp t (\<lambda>c. c\<lparr>m_tcpInited := True\<rparr>) s;
                          (r, s) = (if initTimer then env_ret Call_uv_timer_init s else (0, s))
                      in if r \<noteq> 0 then (None, ctcp_close t s)
                         else let s = (if initTimer then upd_tcp t (\<lambda>c. c\<lparr>m_timerInited := True\<rparr>) s else s);
                                  (ok, s) = set_tcp s
                              in if \<not> ok then (None, ctcp_close t s) else (Some t, s))"

text \<open>The two close callbacks; whichever comes last deletes the object.\<close>

definition on_tcp_closed :: "oid \<Rightarrow> 'a np_uv_scheme \<Rightarrow> 'a np_uv_scheme" where
  "on_tcp_closed t s =
     (case np_tcps s t of
        None \<Rightarrow> undefined_behaviour s
      | Some c \<Rightarrow>
          let s = upd_tcp t (\<lambda>c. c\<lparr>m_tcpInited := False\<rparr>) s
          in if \<not> m_timerInited c then delete_tcp t s else s)"

definition on_timer_closed :: "oid \<Rightarrow> 'a np_uv_scheme \<Rightarrow> 'a np_uv_scheme" where
  "on_timer_closed t s =
     (case np_tcps s t of
        None \<Rightarrow> undefined_behaviour s
      | Some c \<Rightarrow>
          let s = upd_tcp t (\<lambda>c. c\<lparr>m_timerInited := False\<rparr>) s
          in if \<not> m_tcpInited c then delete_tcp t s else s)"

definition ctcp_shutdown_and_close :: "oid \<Rightarrow> 'a np_uv_scheme \<Rightarrow> 'a np_uv_scheme" where
  "ctcp_shutdown_and_close t s =
     (case np_tcps s t of
        None \<Rightarrow> undefined_behaviour s
      | Some c \<Rightarrow>
          if \<not> m_tcpInited c then ctcp_close t s
          else if \<not> m_closing c \<and> \<not> m_shutdown c
          then let (r, s) = env_ret Call_malloc s
               in if r \<noteq> 0 then ctcp_close t s
                  else let s = mem_add 1 s;
                           (r, s) = env_ret Call_uv_shutdown s
                       in if r \<noteq> 0 then ctcp_close t (mem_add (- 1) s)
                          else upd_tcp t (\<lambda>c. c\<lparr>m_shutdown := True\<rparr>)
                                 (s\<lparr>np_shutdowns := t # np_shutdowns s\<rparr>)
          else s)"

text \<open>The callback of \<open>uv_shutdown\<close>; the request leaves libuv's list when it is called.\<close>

definition on_shutdown_done :: "oid \<Rightarrow> 'a np_uv_scheme \<Rightarrow> 'a np_uv_scheme" where
  "on_shutdown_done t s =
     ctcp_close t (mem_add (- 1) (s\<lparr>np_shutdowns := remove1 t (np_shutdowns s)\<rparr>))"

section \<open>Cudp\<close>

definition upd_udp :: "oid \<Rightarrow> (cudp \<Rightarrow> cudp) \<Rightarrow> 'a np_uv_scheme \<Rightarrow> 'a np_uv_scheme" where
  "upd_udp u f s =
     (case np_udps s u of
        None \<Rightarrow> undefined_behaviour s
      | Some c \<Rightarrow> s\<lparr>np_udps := (np_udps s)(u \<mapsto> f c)\<rparr>)"

definition delete_udp :: "oid \<Rightarrow> 'a np_uv_scheme \<Rightarrow> 'a np_uv_scheme" where
  "delete_udp u s = mem_add (- 1) (s\<lparr>np_udps := (np_udps s)(u := None)\<rparr>)"

definition set_udp :: "'a np_uv_scheme \<Rightarrow> bool \<times> 'a np_uv_scheme" where
  "set_udp s = (True, snd (env_ret (Call_uv_udp_set_ttl (udp_ttl (np_settings s))) s))"

definition cudp_close :: "oid \<Rightarrow> 'a np_uv_scheme \<Rightarrow> 'a np_uv_scheme" where
  "cudp_close u s =
     (case np_udps s u of
        None \<Rightarrow> undefined_behaviour s
      | Some c \<Rightarrow>
          if u_inited c
          then (if \<not> u_closing c then upd_udp u (\<lambda>c. c\<lparr>u_closing := True\<rparr>) s else s)
          else delete_udp u s)"

definition cudp_alloc :: "'a np_uv_scheme \<Rightarrow> oid option \<times> 'a np_uv_scheme" where
  "cudp_alloc s =
     (let (r, s) = env_ret Call_malloc s
      in if r \<noteq> 0 then (None, s)
         else let u = np_next s;
                  s = mem_add 1 (s\<lparr>np_udps := (np_udps s)(u \<mapsto>
                        \<lparr>u_inited = False, u_closing = False, u_node = node_default\<rparr>), np_next := Suc u\<rparr>);
                  (r, s) = env_ret Call_uv_udp_init s
              in if r \<noteq> 0 then (None, delete_udp u s)
                 else let s = upd_udp u (\<lambda>c. c\<lparr>u_inited := True\<rparr>) s;
                          (ok, s) = set_udp s
                      in if \<not> ok then (None, cudp_close u s) else (Some u, s))"

definition on_udp_closed :: "oid \<Rightarrow> 'a np_uv_scheme \<Rightarrow> 'a np_uv_scheme" where
  "on_udp_closed u s =
     (case np_udps s u of None \<Rightarrow> undefined_behaviour s | Some c \<Rightarrow> delete_udp u s)"

end
