(* ===== verification/Network_Pool.thy ===== *)
theory Network_Pool
  imports Uv_Wrapper
begin

text \<open>
  \<open>network_pool.h\<close> and \<open>network_pool.cpp\<close>: the pool's state and everything its internal
  thread does, one definition per function or callback. The three queues between the user's
  threads and the internal thread are filled by \<open>pool_bind\<close>, \<open>pool_send\<close> and
  \<open>pool_close\<close> and emptied by \<open>on_wakeup\<close>. User callbacks are events of the log; the only
  pool functions they may call are those three, which touch nothing but the queues.

  A function that takes a reference to a pointer and nulls it takes the object's address; the
  callers never use the pointer again. \<open>goto _ec\<close> is the \<open>else\<close> branch it jumps over.
  \<open>m_udpIndex\<close> is an \<open>int\<close> in the code and a natural number here: it is never negative and never
  exceeds the number of servers it was last reduced by.
\<close>

section \<open>State\<close>

record pending_send =
  ps_node :: network_node
  ps_data :: bytes
  ps_bAutoConnect :: bool

record np_pool = np_uv +
  m_bWantExit :: bool
  m_pendingBind :: "(network_node \<times> bool) list"
  m_pendingSend :: "pending_send list"
  m_pendingClose :: "(network_node \<times> bool) list"
  m_udpIndex :: nat
  m_tcpServers :: "(network_node, oid) umap"
  m_udpServers :: "oid list"
  m_node2stream :: "(network_node, oid) umap"
  m_connecting :: "oid list"
  m_waitingSend :: "(network_node, uv_buf list) umap"

section \<open>The interface for the user's threads\<close>

text \<open>
  Each ends in \<open>uv_async_send(m_wakeup->getAsync())\<close>. \<open>m_wakeup\<close> points to the
  async object until \<open>on_wakeup\<close> closes that object and nulls the pointer.
\<close>

definition async_send :: "np_pool \<Rightarrow> np_pool" where
  "async_send s =
     (case np_async s of
        None \<Rightarrow> undefined_behaviour s
      | Some a \<Rightarrow> if a_closing a then undefined_behaviour s else s)"

definition pool_bind :: "network_node \<Rightarrow> bool \<Rightarrow> np_pool \<Rightarrow> np_pool" where
  "pool_bind node bBind s = async_send (s\<lparr>m_pendingBind := m_pendingBind s @ [(node, bBind)]\<rparr>)"

text \<open>\<open>None\<close> for data is a null pointer; the result is False when the copy throws \<open>bad_alloc\<close>.\<close>

definition pool_send :: "network_node \<Rightarrow> bytes option \<Rightarrow> bool \<Rightarrow> np_pool \<Rightarrow> bool \<times> np_pool" where
  "pool_send node data bAutoConnect s =
     (case data of
        None \<Rightarrow> (True, s)
      | Some d \<Rightarrow>
          if length d = 0 then (True, s)
          else if m_protocol node = Protocol_udp \<and> length d > 65507 then (True, s)
          else let (r, s) = env_ret Call_malloc s
               in if r \<noteq> 0 then (False, s)
                  else let s = mem_add 1 s
                       in (True, async_send (s\<lparr>m_pendingSend := m_pendingSend s @
                             [\<lparr>ps_node = node, ps_data = d, ps_bAutoConnect = bAutoConnect\<rparr>]\<rparr>)))"

definition pool_close :: "network_node \<Rightarrow> bool \<Rightarrow> np_pool \<Rightarrow> np_pool" where
  "pool_close node bForceClose s =
     (if m_protocol node \<noteq> Protocol_tcp then s
      else async_send (s\<lparr>m_pendingClose := m_pendingClose s @ [(node, bForceClose)]\<rparr>))"

text \<open>The destructor raises the flag and wakes the loop; the rest happens in \<open>on_wakeup\<close>.\<close>

definition pool_destroy :: "np_pool \<Rightarrow> np_pool" where
  "pool_destroy s = async_send (s\<lparr>m_bWantExit := True\<rparr>)"

section \<open>libuv calls with an effect on its side\<close>

definition milliseconds :: "u32 \<Rightarrow> u64" where
  "milliseconds secs = ucast (secs * 1000)"

definition uv_timer_start :: "oid \<Rightarrow> u64 \<Rightarrow> np_pool \<Rightarrow> int \<times> np_pool" where
  "uv_timer_start t ms s =
     (let (r, s) = env_ret (Call_uv_timer_start ms) s
      in (r, if r = 0 then upd_tcp t (\<lambda>c. c\<lparr>t_timer_active := True\<rparr>) s else s))"

definition uv_read_start :: "oid \<Rightarrow> np_pool \<Rightarrow> int \<times> np_pool" where
  "uv_read_start t s =
     (let (r, s) = env_ret Call_uv_read_start s
      in (r, if r = 0 then upd_tcp t (\<lambda>c. c\<lparr>t_reading := True\<rparr>) s else s))"

definition uv_write :: "oid \<Rightarrow> uv_buf list \<Rightarrow> np_pool \<Rightarrow> int \<times> np_pool" where
  "uv_write t bufs s =
     (let (r, s) = env_ret Call_uv_write s
      in (r, if r = 0 then s\<lparr>np_writes := np_writes s @ [(t, bufs)]\<rparr> else s))"

section \<open>Waiting messages\<close>

definition getStreamByNode :: "network_node \<Rightarrow> np_pool \<Rightarrow> oid option" where
  "getStreamByNode node s = um_find node (m_node2stream s)"

text \<open>The loops that tell the user of each dropped buffer and free it.\<close>

fun drop_and_free :: "network_node \<Rightarrow> uv_buf list \<Rightarrow> np_pool \<Rightarrow> np_pool" where
  "drop_and_free node [] s = s"
| "drop_and_free node (b # bs) s = drop_and_free node bs (mem_add (- 1) (emit (Cb_drop node b) s))"

definition dropWaiting :: "network_node \<Rightarrow> np_pool \<Rightarrow> np_pool" where
  "dropWaiting node s =
     (case um_find node (m_waitingSend s) of
        None \<Rightarrow> s
      | Some bufs \<Rightarrow>
          let s = drop_and_free node bufs s
          in s\<lparr>m_waitingSend := fst (um_erase node (m_waitingSend s))\<rparr>)"

definition pushWaiting :: "network_node \<Rightarrow> uv_buf \<Rightarrow> np_pool \<Rightarrow> np_pool" where
  "pushWaiting node buf s =
     (case um_find node (m_waitingSend s) of
        None \<Rightarrow> s\<lparr>m_waitingSend := fst (um_insert node [buf] (m_waitingSend s))\<rparr>
      | Some bufs \<Rightarrow> s\<lparr>m_waitingSend := AList.update node (bufs @ [buf]) (m_waitingSend s)\<rparr>)"

definition dropWriteAndFree :: "network_node \<Rightarrow> uv_buf list \<Rightarrow> np_pool \<Rightarrow> np_pool" where
  "dropWriteAndFree node bufs s = mem_add (- 1) (drop_and_free node bufs s)"

definition getWriteFromWaitingByNode :: "network_node \<Rightarrow> np_pool \<Rightarrow> uv_buf list option \<times> np_pool" where
  "getWriteFromWaitingByNode node s =
     (case um_find node (m_waitingSend s) of
        None \<Rightarrow> (None, s)
      | Some bufs \<Rightarrow>
          let (r, s) = env_ret Call_malloc s
          in if r \<noteq> 0 then (None, dropWaiting node s)
             else (Some bufs,
                   mem_add 1 (s\<lparr>m_waitingSend := fst (um_erase node (m_waitingSend s))\<rparr>)))"

section \<open>Connections up and down\<close>

definition shutdownTcpConnection :: "oid \<Rightarrow> bool \<Rightarrow> bool \<Rightarrow> np_pool \<Rightarrow> np_pool" where
  "shutdownTcpConnection t bAlwaysNotify bShutdown s =
     (case np_tcps s t of
        None \<Rightarrow> undefined_behaviour s
      | Some c \<Rightarrow>
          let node = t_node c;
              (m, sz) = um_erase node (m_node2stream s);
              s = s\<lparr>m_node2stream := m\<rparr>;
              s = (if sz > 0 \<or> bAlwaysNotify then emit (Cb_connectionStatus node False) s else s);
              s = dropWaiting node s
          in if bShutdown then ctcp_shutdown_and_close t s else ctcp_close t s)"

text \<open>
  \<open>uv_timer_start(\<dots>) != 0 || uv_write(\<dots>) != 0\<close>: the write is tried only after the timer
  is set; on either failure the buffers are dropped and the connection is shut down.
\<close>

definition write_or_shutdown :: "oid \<Rightarrow> network_node \<Rightarrow> uv_buf list \<Rightarrow> np_pool \<Rightarrow> np_pool" where
  "write_or_shutdown t node bufs s =
     (let (r, s) = uv_timer_start t
            (milliseconds (tcp_send_timeout_in_seconds (np_settings s))) s;
          (r, s) = (if r \<noteq> 0 then (r, s) else uv_write t bufs s)
      in if r \<noteq> 0 then shutdownTcpConnection t False False (dropWriteAndFree node bufs s) else s)"

definition startupTcpConnection :: "oid \<Rightarrow> np_pool \<Rightarrow> np_pool" where
  "startupTcpConnection t s =
     (case np_tcps s t of
        None \<Rightarrow> undefined_behaviour s
      | Some c \<Rightarrow>
          if \<not> valid (m_sockaddr (t_node c)) then ctcp_close t s
          else let (m, inserted) = um_insert (t_node c) t (m_node2stream s)
               in if \<not> inserted then ctcp_close t s
                  else let s = s\<lparr>m_node2stream := m\<rparr>;
                           s = emit (Cb_connectionStatus (t_node c) True) s;
                           (writeInfo, s) = getWriteFromWaitingByNode (t_node c) s
                       in case writeInfo of
                            None \<Rightarrow> s
                          | Some bufs \<Rightarrow> write_or_shutdown t (t_node c) bufs s)"

section \<open>TCP callbacks\<close>

definition tcp_alloc_buffer :: "oid \<Rightarrow> np_pool \<Rightarrow> np_pool" where
  "tcp_alloc_buffer t s =
     (case np_tcps s t of
        None \<Rightarrow> undefined_behaviour s
      | Some c \<Rightarrow> emit (Cb_allocate (t_node c)) s)"

definition on_tcp_timeout :: "oid \<Rightarrow> np_pool \<Rightarrow> np_pool" where
  "on_tcp_timeout t s = shutdownTcpConnection t False False s"

definition reset_tcp_idle_timeout :: "oid \<Rightarrow> np_pool \<Rightarrow> np_pool" where
  "reset_tcp_idle_timeout t s =
     (let (q, s) = env_ret Call_write_queue_size s
      in if q = 0
         then let (r, s) = uv_timer_start t
                    (milliseconds (tcp_idle_timeout_in_seconds (np_settings s))) s
              in if r \<noteq> 0 then shutdownTcpConnection t False False s else s
         else s)"

text \<open>\<open>data\<close> is what libuv put into the buffer when \<open>nread\<close> is positive.\<close>

definition on_tcp_read :: "oid \<Rightarrow> int \<Rightarrow> bytes \<Rightarrow> np_pool \<Rightarrow> np_pool" where
  "on_tcp_read t nread data s =
     (case np_tcps s t of
        None \<Rightarrow> undefined_behaviour s
      | Some c \<Rightarrow>
          if nread > 0
          then let s = emit (Cb_deallocate (t_node c)) (emit (Cb_message (t_node c) data) s)
               in if \<not> m_closing c \<and> \<not> m_shutdown c then reset_tcp_idle_timeout t s else s
          else let s = emit (Cb_deallocate (t_node c)) s
               in if nread < 0 then shutdownTcpConnection t False False s else s)"

fun emit_all :: "event list \<Rightarrow> np_pool \<Rightarrow> np_pool" where
  "emit_all [] s = s"
| "emit_all (e # es) s = emit_all es (emit e s)"

text \<open>
  The request leaves libuv's list when its callback is called; \<open>Write_completed\<close> marks the
  buffers the kernel took.
\<close>

definition on_tcp_write_done :: "oid \<times> uv_buf list \<Rightarrow> int \<Rightarrow> np_pool \<Rightarrow> np_pool" where
  "on_tcp_write_done req status s0 =
     (let t = fst req; bufs = snd req;
          s = s0\<lparr>np_writes := remove1 req (np_writes s0)\<rparr>
      in case np_tcps s t of
           None \<Rightarrow> undefined_behaviour s
         | Some c \<Rightarrow>
             let s = (if status \<noteq> 0
                      then shutdownTcpConnection t False False (emit_all (map (Cb_drop (t_node c)) bufs) s)
                      else let s = emit_all (map (Write_completed (t_node c)) bufs) s
                           in if \<not> m_closing c \<and> \<not> m_shutdown c then reset_tcp_idle_timeout t s else s)
             in mem_add (- 1) (mem_add (- int (length bufs)) s))"

text \<open>
  \<open>peer\<close> and \<open>len\<close> are what \<open>uv_tcp_getpeername\<close> stores for the accepted connection.
\<close>

definition on_new_connection :: "oid \<Rightarrow> int \<Rightarrow> raw_sockaddr \<Rightarrow> nat \<Rightarrow> np_pool \<Rightarrow> np_pool" where
  "on_new_connection server status peer len s =
     (case np_tcps s server of
        None \<Rightarrow> undefined_behaviour s
      | Some sv \<Rightarrow>
          if status \<noteq> 0 then emit (Cb_tcpListenError (t_node sv) status) s
          else case ctcp_alloc True s of
                 (None, s) \<Rightarrow> s
               | (Some t, s) \<Rightarrow>
                   let (r, s) = env_ret Call_uv_accept s
                   in if r \<noteq> 0 then ctcp_close t s
                      else let (r, s) = env_ret Call_uv_tcp_getpeername s
                           in if r \<noteq> 0 then ctcp_close t s
                              else let (node, ok) = node_set_raw node_default Protocol_tcp peer len;
                                       s = upd_tcp t (\<lambda>c. c\<lparr>t_node := node\<rparr>) s
                                   in if \<not> ok then ctcp_close t s
                                      else if getStreamByNode node s \<noteq> None then ctcp_close t s
                                      else let (r, s) = uv_timer_start t
                                             (milliseconds (tcp_idle_timeout_in_seconds (np_settings s))) s
                                           in if r \<noteq> 0 then ctcp_close t s
                                              else let (r, s) = uv_read_start t s
                                                   in if r \<noteq> 0 then ctcp_close t s
                                                      else startupTcpConnection t s)"

definition on_connect_done :: "oid \<Rightarrow> int \<Rightarrow> np_pool \<Rightarrow> np_pool" where
  "on_connect_done t status s0 =
     (let s = mem_add (- 1) (s0\<lparr>np_connects := remove1 t (np_connects s0),
                               m_connecting := removeAll t (m_connecting s0)\<rparr>)
      in case np_tcps s t of
           None \<Rightarrow> undefined_behaviour s
         | Some c \<Rightarrow>
             if status < 0 \<or> m_closing c then shutdownTcpConnection t True False s
             else let (r, s) = uv_timer_start t
                        (milliseconds (tcp_idle_timeout_in_seconds (np_settings s))) s
                  in if r \<noteq> 0 then shutdownTcpConnection t True False s
                     else let (r, s) = uv_read_start t s
                          in if r \<noteq> 0 then shutdownTcpConnection t True False s
                             else startupTcpConnection t s)"

section \<open>Binding and connecting\<close>

definition bindAndListenTcp :: "network_node \<Rightarrow> np_pool \<Rightarrow> oid option \<times> np_pool" where
  "bindAndListenTcp node s =
     (if m_protocol node \<noteq> Protocol_tcp then (None, s)
      else case ctcp_alloc False s of
             (None, s) \<Rightarrow> (None, s)
           | (Some t, s) \<Rightarrow>
               let s = upd_tcp t (\<lambda>c. c\<lparr>t_node := node_assign (t_node c) node\<rparr>) s;
                   (r, s) = env_ret (Call_uv_tcp_bind (m_sockaddr node)) s
               in if r \<noteq> 0 then (None, ctcp_close t s)
                  else let (r, s) = env_ret (Call_uv_listen (tcp_backlog (np_settings s))) s
                       in if r \<noteq> 0 then (None, ctcp_close t s) else (Some t, s))"

definition connectTcp :: "network_node \<Rightarrow> np_pool \<Rightarrow> oid option \<times> np_pool" where
  "connectTcp node s =
     (if m_protocol node \<noteq> Protocol_tcp then (None, s)
      else let (r, s) = env_ret Call_malloc s
           in if r \<noteq> 0 then (None, s)
              else let s = mem_add 1 s
                   in case ctcp_alloc True s of
                        (None, s) \<Rightarrow> (None, mem_add (- 1) s)
                      | (Some t, s) \<Rightarrow>
                          let s = upd_tcp t (\<lambda>c. c\<lparr>t_node := node_assign (t_node c) node\<rparr>) s;
                              (r, s) = uv_timer_start t
                                (milliseconds (tcp_connect_timeout_in_seconds (np_settings s))) s
                          in if r \<noteq> 0 then (None, ctcp_close t (mem_add (- 1) s))
                             else let (r, s) = env_ret (Call_uv_tcp_connect (m_sockaddr node)) s
                                  in if r \<noteq> 0 then (None, ctcp_close t (mem_add (- 1) s))
                                     else (Some t, s\<lparr>np_connects := t # np_connects s\<rparr>))"

section \<open>UDP\<close>

definition udp_alloc_buffer :: "oid \<Rightarrow> np_pool \<Rightarrow> np_pool" where
  "udp_alloc_buffer u s =
     (case np_udps s u of
        None \<Rightarrow> undefined_behaviour s
      | Some c \<Rightarrow> emit (Cb_allocate (u_node c)) s)"

text \<open>\<open>None\<close> for the sender's address is a null \<open>addr\<close>; 128 is the size of \<open>sockaddr_storage\<close>.\<close>

definition on_udp_recv :: "oid \<Rightarrow> int \<Rightarrow> bytes \<Rightarrow> raw_sockaddr option \<Rightarrow> np_pool \<Rightarrow> np_pool" where
  "on_udp_recv u nread data addr s =
     (case np_udps s u of
        None \<Rightarrow> undefined_behaviour s
      | Some c \<Rightarrow>
          if nread < 0
          then emit (Cb_udpRecvError (u_node c) nread) (emit (Cb_deallocate (u_node c)) s)
          else case addr of
                 Some raw \<Rightarrow> emit (Cb_deallocate (u_node c))
                               (emit (Cb_message (node_of_raw Protocol_udp raw 128) data) s)
               | None \<Rightarrow> emit (Cb_deallocate (u_node c)) s)"

definition on_udp_send_done :: "oid \<times> uv_buf list \<Rightarrow> int \<Rightarrow> np_pool \<Rightarrow> np_pool" where
  "on_udp_send_done req status s0 =
     (let u = fst req; bufs = snd req;
          s = s0\<lparr>np_udp_sends := remove1 req (np_udp_sends s0)\<rparr>
      in case np_udps s u of
           None \<Rightarrow> undefined_behaviour s
         | Some c \<Rightarrow>
             let s = (if status \<noteq> 0 then emit (Cb_udpSendError (u_node c) status) s else s)
             in mem_add (- 1) (mem_add (- int (length bufs)) s))"

definition bindAndListenUdp :: "network_node \<Rightarrow> np_pool \<Rightarrow> oid option \<times> np_pool" where
  "bindAndListenUdp node s =
     (if m_protocol node \<noteq> Protocol_udp then (None, s)
      else case cudp_alloc s of
             (None, s) \<Rightarrow> (None, s)
           | (Some u, s) \<Rightarrow>
               let s = upd_udp u (\<lambda>c. c\<lparr>u_node := node_assign (u_node c) node\<rparr>) s;
                   (r, s) = env_ret (Call_uv_udp_bind (m_sockaddr node)) s
               in if r \<noteq> 0 then (None, cudp_close u s)
                  else let (r, s) = env_ret Call_uv_udp_recv_start s
                       in if r \<noteq> 0 then (None, cudp_close u s) else (Some u, s))"


section \<open>\<open>on_wakeup\<close>: leaving\<close>

fun close_tcp_servers :: "(network_node \<times> oid) list \<Rightarrow> np_pool \<Rightarrow> np_pool" where
  "close_tcp_servers [] s = s"
| "close_tcp_servers ((node, t) # rest) s =
     close_tcp_servers rest (ctcp_close t (emit (Cb_bindStatus node False) s))"

fun close_udp_servers :: "oid list \<Rightarrow> np_pool \<Rightarrow> np_pool" where
  "close_udp_servers [] s = s"
| "close_udp_servers (u # rest) s =
     (case np_udps s u of
        None \<Rightarrow> close_udp_servers rest (undefined_behaviour s)
      | Some c \<Rightarrow>
          let s = emit (Cb_bindStatus (u_node c) False) s;
              s = snd (env_ret Call_uv_udp_recv_stop s)
          in close_udp_servers rest (cudp_close u s))"

text \<open>For the connections and for the set of connecting objects alike.\<close>

fun close_connections :: "oid list \<Rightarrow> np_pool \<Rightarrow> np_pool" where
  "close_connections [] s = s"
| "close_connections (t # rest) s =
     (case np_tcps s t of
        None \<Rightarrow> close_connections rest (undefined_behaviour s)
      | Some c \<Rightarrow>
          close_connections rest (ctcp_close t (emit (Cb_connectionStatus (t_node c) False) s)))"

fun drop_all_waiting :: "(network_node \<times> uv_buf list) list \<Rightarrow> np_pool \<Rightarrow> np_pool" where
  "drop_all_waiting [] s = s"
| "drop_all_waiting ((node, bufs) # rest) s = drop_all_waiting rest (drop_and_free node bufs s)"

fun drop_all_sends :: "pending_send list \<Rightarrow> np_pool \<Rightarrow> np_pool" where
  "drop_all_sends [] s = s"
| "drop_all_sends (req # rest) s = drop_all_sends rest (drop_and_free (ps_node req) [ps_data req] s)"

definition wakeup_exit :: "(network_node \<times> bool) list \<Rightarrow> pending_send list \<Rightarrow> np_pool \<Rightarrow> np_pool" where
  "wakeup_exit bindCopy sendCopy s =
     (let s = casync_close s;
          tmpTcpServers = m_tcpServers s;
          s = close_tcp_servers tmpTcpServers (s\<lparr>m_tcpServers := []\<rparr>);
          tmpUdpServers = m_udpServers s;
          s = close_udp_servers tmpUdpServers (s\<lparr>m_udpServers := []\<rparr>);
          tmpNode2stream = m_node2stream s;
          s = close_connections (map snd tmpNode2stream) (s\<lparr>m_node2stream := []\<rparr>);
          tmpConnecting = m_connecting s;
          s = close_connections tmpConnecting (s\<lparr>m_connecting := []\<rparr>);
          s = (drop_all_waiting (m_waitingSend s) s)\<lparr>m_waitingSend := []\<rparr>;
          s = emit_all (map (\<lambda>(node, bBind). Cb_bindStatus node False) bindCopy) s
      in drop_all_sends sendCopy s)"

section \<open>\<open>on_wakeup\<close>: binding\<close>

fun find_udp :: "network_node \<Rightarrow> oid list \<Rightarrow> np_pool \<Rightarrow> oid option \<times> np_pool" where
  "find_udp node [] s = (None, s)"
| "find_udp node (u # us) s =
     (case np_udps s u of
        None \<Rightarrow> (None, undefined_behaviour s)
      | Some c \<Rightarrow> if node_eq (u_node c) node then (Some u, s) else find_udp node us s)"

definition wakeup_bind_tcp :: "network_node \<Rightarrow> bool \<Rightarrow> np_pool \<Rightarrow> np_pool" where
  "wakeup_bind_tcp node bBind s =
     (case um_find node (m_tcpServers s) of
        Some t \<Rightarrow>
          if bBind then emit (Cb_bindStatus node True) s
          else let s = s\<lparr>m_tcpServers := fst (um_erase node (m_tcpServers s))\<rparr>
               in ctcp_close t (emit (Cb_bindStatus node False) s)
      | None \<Rightarrow>
          if bBind
          then let (server, s) = bindAndListenTcp node s;
                   s = (case server of
                          Some t \<Rightarrow> s\<lparr>m_tcpServers := fst (um_insert node t (m_tcpServers s))\<rparr>
                        | None \<Rightarrow> s)
               in emit (Cb_bindStatus node (server \<noteq> None)) s
          else emit (Cb_bindStatus node False) s)"

definition wakeup_bind_udp :: "network_node \<Rightarrow> bool \<Rightarrow> np_pool \<Rightarrow> np_pool" where
  "wakeup_bind_udp node bBind s =
     (let (found, s) = find_udp node (m_udpServers s) s
      in case found of
           Some u \<Rightarrow>
             if bBind then emit (Cb_bindStatus node True) s
             else let s = s\<lparr>m_udpServers := remove1 u (m_udpServers s)\<rparr>;
                      s = emit (Cb_bindStatus node False) s;
                      s = snd (env_ret Call_uv_udp_recv_stop s)
                  in cudp_close u s
         | None \<Rightarrow>
             if bBind
             then let (server, s) = bindAndListenUdp node s;
                      s = (case server of
                             Some u \<Rightarrow> s\<lparr>m_udpServers := m_udpServers s @ [u]\<rparr>
                           | None \<Rightarrow> s)
                  in emit (Cb_bindStatus node (server \<noteq> None)) s
             else emit (Cb_bindStatus node False) s)"

fun wakeup_bind :: "network_node \<times> bool \<Rightarrow> np_pool \<Rightarrow> np_pool" where
  "wakeup_bind (node, bBind) s =
     (case m_protocol node of
        Protocol_tcp \<Rightarrow> wakeup_bind_tcp node bBind s
      | Protocol_udp \<Rightarrow> wakeup_bind_udp node bBind s)"

section \<open>\<open>on_wakeup\<close>: sending\<close>

text \<open>
  A message whose buffer is not handed on is freed by the destructor of the local queue;
  the model frees it where the code is done with it.
\<close>

definition wakeup_send_tcp :: "pending_send \<Rightarrow> np_pool \<Rightarrow> np_pool" where
  "wakeup_send_tcp req s =
     (let node = ps_node req; data = ps_data req
      in case getStreamByNode node s of
           None \<Rightarrow>
             let bNeedConnect = (um_find node (m_waitingSend s) = None)
             in if bNeedConnect \<and> \<not> ps_bAutoConnect req then drop_and_free node [data] s
                else let s = pushWaiting node data s
                     in if bNeedConnect
                        then case connectTcp node s of
                               (None, s) \<Rightarrow> dropWaiting node (emit (Cb_connectionStatus node False) s)
                             | (Some t, s) \<Rightarrow> s\<lparr>m_connecting := List.insert t (m_connecting s)\<rparr>
                        else s
         | Some t \<Rightarrow>
             let (r, s) = env_ret Call_malloc s
             in if r \<noteq> 0 then drop_and_free node [data] s
                else write_or_shutdown t node [data] (mem_add 1 s))"

definition wakeup_send_udp :: "pending_send \<Rightarrow> np_pool \<Rightarrow> np_pool" where
  "wakeup_send_udp req s =
     (let node = ps_node req; data = ps_data req
      in if length (m_udpServers s) > 0
         then let (r, s) = env_ret Call_malloc s
              in if r = 0
                 then let s = mem_add 1 s;
                          s = s\<lparr>m_udpIndex := m_udpIndex s mod length (m_udpServers s)\<rparr>;
                          sender = m_udpServers s ! m_udpIndex s;
                          s = s\<lparr>m_udpIndex := m_udpIndex s + 1\<rparr>
                      in case np_udps s sender of
                           None \<Rightarrow> undefined_behaviour s
                         | Some c \<Rightarrow>
                             let (iRet, s) = env_ret (Call_uv_udp_send (m_sockaddr node)) s
                             in if iRet \<noteq> 0
                                then emit (Cb_udpSendError (u_node c) iRet) (mem_add (- 1) (mem_add (- 1) s))
                                else s\<lparr>np_udp_sends := np_udp_sends s @ [(sender, [data])]\<rparr>
                 else mem_add (- 1) s
         else mem_add (- 1) s)"

definition wakeup_send :: "pending_send \<Rightarrow> np_pool \<Rightarrow> np_pool" where
  "wakeup_send req s =
     (case m_protocol (ps_node req) of
        Protocol_tcp \<Rightarrow> wakeup_send_tcp req s
      | Protocol_udp \<Rightarrow> wakeup_send_udp req s)"

section \<open>\<open>on_wakeup\<close>: closing, and the whole\<close>

fun wakeup_close :: "network_node \<times> bool \<Rightarrow> np_pool \<Rightarrow> np_pool" where
  "wakeup_close (node, bForceClose) s =
     (case getStreamByNode node s of
        None \<Rightarrow> s
      | Some t \<Rightarrow>
          let (r, s) = (if \<not> bForceClose
                        then uv_timer_start t (milliseconds (tcp_send_timeout_in_seconds (np_settings s))) s
                        else (0, s))
          in if \<not> bForceClose \<and> r \<noteq> 0 then shutdownTcpConnection t False False s
             else shutdownTcpConnection t False (\<not> bForceClose) s)"

definition on_wakeup :: "np_pool \<Rightarrow> np_pool" where
  "on_wakeup s =
     (let bindCopy = m_pendingBind s;
          sendCopy = m_pendingSend s;
          closeCopy = m_pendingClose s;
          s = s\<lparr>m_pendingBind := [], m_pendingSend := [], m_pendingClose := []\<rparr>
      in if m_bWantExit s then wakeup_exit bindCopy sendCopy s
         else let s = fold wakeup_bind bindCopy s;
                  s = fold wakeup_send sendCopy s
              in fold wakeup_close closeCopy s)"

section \<open>Starting\<close>

datatype internal_state = Initializing | Good | Bad

definition pool_fresh :: "network_settings \<Rightarrow> (nat \<Rightarrow> env_call \<Rightarrow> int) \<Rightarrow> np_pool" where
  "pool_fresh settings env =
     \<lparr>np_settings = settings, np_env = env, np_tick = 0, np_log = [], np_mem = 0, np_ub = False,
      np_next = 0, np_tcps = Map.empty, np_udps = Map.empty, np_async = None, np_writes = [],
      np_connects = [], np_shutdowns = [], np_udp_sends = [], m_bWantExit = False,
      m_pendingBind = [], m_pendingSend = [], m_pendingClose = [], m_udpIndex = 0,
      m_tcpServers = [], m_udpServers = [], m_node2stream = [], m_connecting = [],
      m_waitingSend = []\<rparr>"

text \<open>\<open>internalThread\<close> up to \<open>uv_run\<close>, which then calls the callbacks.\<close>

definition internal_thread_start :: "np_pool \<Rightarrow> internal_state \<times> np_pool" where
  "internal_thread_start s =
     (let (r, s) = env_ret Call_uv_loop_init s
      in if r \<noteq> 0 then (Bad, s)
         else let (ok, s) = casync_alloc s in if \<not> ok then (Bad, s) else (Good, s))"

text \<open>The constructor; \<open>None\<close> when it throws. The block of the \<open>std::thread\<close> object is counted.\<close>

definition pool_construct ::
  "network_settings \<Rightarrow> (nat \<Rightarrow> env_call \<Rightarrow> int) \<Rightarrow> bool \<times> np_pool"
where
  "pool_construct settings env =
     (let (r, s) = env_ret Call_malloc (pool_fresh settings env)
      in if r \<noteq> 0 then (False, s)
         else let (st, s) = internal_thread_start (mem_add 1 s) in (st = Good, s))"

end
