(* ===== verification/Pool_Invariant.thy ===== *)
theory Pool_Invariant
  imports Network_Pool
begin

text \<open>
  The invariant of \<open>CnetworkPool\<close>: which objects the pool's tables may refer to and in which
  phase of their life, and the lemmas that every function of the pool keeps it. The parameters
  \<open>X\<close> and \<open>T\<close> are exceptions that hold only inside a callback: nodes whose waiting messages
  have no connection attempt at the moment, and objects not yet armed or closed.
\<close>

section \<open>Fields an operation leaves alone\<close>

text \<open>These are stated on the pool's state, for the simplifier.\<close>

lemma emit_fields [simp, np_frame]:
  "np_settings (emit e (s :: np_pool)) = np_settings s"
  "np_env (emit e (s :: np_pool)) = np_env s"
  "np_tick (emit e (s :: np_pool)) = np_tick s"
  "np_mem (emit e (s :: np_pool)) = np_mem s"
  "np_ub (emit e (s :: np_pool)) = np_ub s"
  "np_next (emit e (s :: np_pool)) = np_next s"
  "np_tcps (emit e (s :: np_pool)) = np_tcps s"
  "np_udps (emit e (s :: np_pool)) = np_udps s"
  "np_async (emit e (s :: np_pool)) = np_async s"
  "np_writes (emit e (s :: np_pool)) = np_writes s"
  "np_connects (emit e (s :: np_pool)) = np_connects s"
  "np_shutdowns (emit e (s :: np_pool)) = np_shutdowns s"
  "np_udp_sends (emit e (s :: np_pool)) = np_udp_sends s"
  "m_bWantExit (emit e (s :: np_pool)) = m_bWantExit s"
  "m_pendingBind (emit e (s :: np_pool)) = m_pendingBind s"
  "m_pendingSend (emit e (s :: np_pool)) = m_pendingSend s"
  "m_pendingClose (emit e (s :: np_pool)) = m_pendingClose s"
  "m_udpIndex (emit e (s :: np_pool)) = m_udpIndex s"
  "m_tcpServers (emit e (s :: np_pool)) = m_tcpServers s"
  "m_udpServers (emit e (s :: np_pool)) = m_udpServers s"
  "m_node2stream (emit e (s :: np_pool)) = m_node2stream s"
  "m_connecting (emit e (s :: np_pool)) = m_connecting s"
  "m_waitingSend (emit e (s :: np_pool)) = m_waitingSend s"
  by (simp_all add: emit_def)

lemma mem_add_fields [simp, np_frame]:
  "np_settings (mem_add k (s :: np_pool)) = np_settings s"
  "np_env (mem_add k (s :: np_pool)) = np_env s"
  "np_tick (mem_add k (s :: np_pool)) = np_tick s"
  "np_log (mem_add k (s :: np_pool)) = np_log s"
  "np_ub (mem_add k (s :: np_pool)) = np_ub s"
  "np_next (mem_add k (s :: np_pool)) = np_next s"
  "np_tcps (mem_add k (s :: np_pool)) = np_tcps s"
  "np_udps (mem_add k (s :: np_pool)) = np_udps s"
  "np_async (mem_add k (s :: np_pool)) = np_async s"
  "np_writes (mem_add k (s :: np_pool)) = np_writes s"
  "np_connects (mem_add k (s :: np_pool)) = np_connects s"
  "np_shutdowns (mem_add k (s :: np_pool)) = np_shutdowns s"
  "np_udp_sends (mem_add k (s :: np_pool)) = np_udp_sends s"
  "m_bWantExit (mem_add k (s :: np_pool)) = m_bWantExit s"
  "m_pendingBind (mem_add k (s :: np_pool)) = m_pendingBind s"
  "m_pendingSend (mem_add k (s :: np_pool)) = m_pendingSend s"
  "m_pendingClose (mem_add k (s :: np_pool)) = m_pendingClose s"
  "m_udpIndex (mem_add k (s :: np_pool)) = m_udpIndex s"
  "m_tcpServers (mem_add k (s :: np_pool)) = m_tcpServers s"
  "m_udpServers (mem_add k (s :: np_pool)) = m_udpServers s"
  "m_node2stream (mem_add k (s :: np_pool)) = m_node2stream s"
  "m_connecting (mem_add k (s :: np_pool)) = m_connecting s"
  "m_waitingSend (mem_add k (s :: np_pool)) = m_waitingSend s"
  by (simp_all add: mem_add_def)

lemma emit_all_fields [simp, np_frame]:
  "np_settings (emit_all es (s :: np_pool)) = np_settings s"
  "np_env (emit_all es (s :: np_pool)) = np_env s"
  "np_tick (emit_all es (s :: np_pool)) = np_tick s"
  "np_mem (emit_all es (s :: np_pool)) = np_mem s"
  "np_ub (emit_all es (s :: np_pool)) = np_ub s"
  "np_next (emit_all es (s :: np_pool)) = np_next s"
  "np_tcps (emit_all es (s :: np_pool)) = np_tcps s"
  "np_udps (emit_all es (s :: np_pool)) = np_udps s"
  "np_async (emit_all es (s :: np_pool)) = np_async s"
  "np_writes (emit_all es (s :: np_pool)) = np_writes s"
  "np_connects (emit_all es (s :: np_pool)) = np_connects s"
  "np_shutdowns (emit_all es (s :: np_pool)) = np_shutdowns s"
  "np_udp_sends (emit_all es (s :: np_pool)) = np_udp_sends s"
  "m_bWantExit (emit_all es (s :: np_pool)) = m_bWantExit s"
  "m_pendingBind (emit_all es (s :: np_pool)) = m_pendingBind s"
  "m_pendingSend (emit_all es (s :: np_pool)) = m_pendingSend s"
  "m_pendingClose (emit_all es (s :: np_pool)) = m_pendingClose s"
  "m_udpIndex (emit_all es (s :: np_pool)) = m_udpIndex s"
  "m_tcpServers (emit_all es (s :: np_pool)) = m_tcpServers s"
  "m_udpServers (emit_all es (s :: np_pool)) = m_udpServers s"
  "m_node2stream (emit_all es (s :: np_pool)) = m_node2stream s"
  "m_connecting (emit_all es (s :: np_pool)) = m_connecting s"
  "m_waitingSend (emit_all es (s :: np_pool)) = m_waitingSend s"
  by (induction es arbitrary: s) simp_all

lemma drop_and_free_fields [simp, np_frame]:
  "np_settings (drop_and_free n bs (s :: np_pool)) = np_settings s"
  "np_env (drop_and_free n bs (s :: np_pool)) = np_env s"
  "np_tick (drop_and_free n bs (s :: np_pool)) = np_tick s"
  "np_ub (drop_and_free n bs (s :: np_pool)) = np_ub s"
  "np_next (drop_and_free n bs (s :: np_pool)) = np_next s"
  "np_tcps (drop_and_free n bs (s :: np_pool)) = np_tcps s"
  "np_udps (drop_and_free n bs (s :: np_pool)) = np_udps s"
  "np_async (drop_and_free n bs (s :: np_pool)) = np_async s"
  "np_writes (drop_and_free n bs (s :: np_pool)) = np_writes s"
  "np_connects (drop_and_free n bs (s :: np_pool)) = np_connects s"
  "np_shutdowns (drop_and_free n bs (s :: np_pool)) = np_shutdowns s"
  "np_udp_sends (drop_and_free n bs (s :: np_pool)) = np_udp_sends s"
  "m_bWantExit (drop_and_free n bs (s :: np_pool)) = m_bWantExit s"
  "m_pendingBind (drop_and_free n bs (s :: np_pool)) = m_pendingBind s"
  "m_pendingSend (drop_and_free n bs (s :: np_pool)) = m_pendingSend s"
  "m_pendingClose (drop_and_free n bs (s :: np_pool)) = m_pendingClose s"
  "m_udpIndex (drop_and_free n bs (s :: np_pool)) = m_udpIndex s"
  "m_tcpServers (drop_and_free n bs (s :: np_pool)) = m_tcpServers s"
  "m_udpServers (drop_and_free n bs (s :: np_pool)) = m_udpServers s"
  "m_node2stream (drop_and_free n bs (s :: np_pool)) = m_node2stream s"
  "m_connecting (drop_and_free n bs (s :: np_pool)) = m_connecting s"
  "m_waitingSend (drop_and_free n bs (s :: np_pool)) = m_waitingSend s"
  by (induction bs arbitrary: s) simp_all

lemma upd_tcp_fields [simp, np_frame]:
  "np_settings (upd_tcp t f (s :: np_pool)) = np_settings s"
  "np_env (upd_tcp t f (s :: np_pool)) = np_env s"
  "np_tick (upd_tcp t f (s :: np_pool)) = np_tick s"
  "np_log (upd_tcp t f (s :: np_pool)) = np_log s"
  "np_mem (upd_tcp t f (s :: np_pool)) = np_mem s"
  "np_next (upd_tcp t f (s :: np_pool)) = np_next s"
  "np_udps (upd_tcp t f (s :: np_pool)) = np_udps s"
  "np_async (upd_tcp t f (s :: np_pool)) = np_async s"
  "np_writes (upd_tcp t f (s :: np_pool)) = np_writes s"
  "np_connects (upd_tcp t f (s :: np_pool)) = np_connects s"
  "np_shutdowns (upd_tcp t f (s :: np_pool)) = np_shutdowns s"
  "np_udp_sends (upd_tcp t f (s :: np_pool)) = np_udp_sends s"
  "m_bWantExit (upd_tcp t f (s :: np_pool)) = m_bWantExit s"
  "m_pendingBind (upd_tcp t f (s :: np_pool)) = m_pendingBind s"
  "m_pendingSend (upd_tcp t f (s :: np_pool)) = m_pendingSend s"
  "m_pendingClose (upd_tcp t f (s :: np_pool)) = m_pendingClose s"
  "m_udpIndex (upd_tcp t f (s :: np_pool)) = m_udpIndex s"
  "m_tcpServers (upd_tcp t f (s :: np_pool)) = m_tcpServers s"
  "m_udpServers (upd_tcp t f (s :: np_pool)) = m_udpServers s"
  "m_node2stream (upd_tcp t f (s :: np_pool)) = m_node2stream s"
  "m_connecting (upd_tcp t f (s :: np_pool)) = m_connecting s"
  "m_waitingSend (upd_tcp t f (s :: np_pool)) = m_waitingSend s"
  by (simp_all add: upd_tcp_def undefined_behaviour_def split: option.split)

lemma delete_tcp_fields [simp, np_frame]:
  "np_settings (delete_tcp t (s :: np_pool)) = np_settings s"
  "np_env (delete_tcp t (s :: np_pool)) = np_env s"
  "np_tick (delete_tcp t (s :: np_pool)) = np_tick s"
  "np_log (delete_tcp t (s :: np_pool)) = np_log s"
  "np_ub (delete_tcp t (s :: np_pool)) = np_ub s"
  "np_next (delete_tcp t (s :: np_pool)) = np_next s"
  "np_udps (delete_tcp t (s :: np_pool)) = np_udps s"
  "np_async (delete_tcp t (s :: np_pool)) = np_async s"
  "np_writes (delete_tcp t (s :: np_pool)) = np_writes s"
  "np_connects (delete_tcp t (s :: np_pool)) = np_connects s"
  "np_shutdowns (delete_tcp t (s :: np_pool)) = np_shutdowns s"
  "np_udp_sends (delete_tcp t (s :: np_pool)) = np_udp_sends s"
  "m_bWantExit (delete_tcp t (s :: np_pool)) = m_bWantExit s"
  "m_pendingBind (delete_tcp t (s :: np_pool)) = m_pendingBind s"
  "m_pendingSend (delete_tcp t (s :: np_pool)) = m_pendingSend s"
  "m_pendingClose (delete_tcp t (s :: np_pool)) = m_pendingClose s"
  "m_udpIndex (delete_tcp t (s :: np_pool)) = m_udpIndex s"
  "m_tcpServers (delete_tcp t (s :: np_pool)) = m_tcpServers s"
  "m_udpServers (delete_tcp t (s :: np_pool)) = m_udpServers s"
  "m_node2stream (delete_tcp t (s :: np_pool)) = m_node2stream s"
  "m_connecting (delete_tcp t (s :: np_pool)) = m_connecting s"
  "m_waitingSend (delete_tcp t (s :: np_pool)) = m_waitingSend s"
  by (simp_all add: delete_tcp_def)

lemma ctcp_close_fields [simp, np_frame]:
  "np_settings (ctcp_close t (s :: np_pool)) = np_settings s"
  "np_env (ctcp_close t (s :: np_pool)) = np_env s"
  "np_tick (ctcp_close t (s :: np_pool)) = np_tick s"
  "np_log (ctcp_close t (s :: np_pool)) = np_log s"
  "np_next (ctcp_close t (s :: np_pool)) = np_next s"
  "np_udps (ctcp_close t (s :: np_pool)) = np_udps s"
  "np_async (ctcp_close t (s :: np_pool)) = np_async s"
  "np_writes (ctcp_close t (s :: np_pool)) = np_writes s"
  "np_connects (ctcp_close t (s :: np_pool)) = np_connects s"
  "np_shutdowns (ctcp_close t (s :: np_pool)) = np_shutdowns s"
  "np_udp_sends (ctcp_close t (s :: np_pool)) = np_udp_sends s"
  "m_bWantExit (ctcp_close t (s :: np_pool)) = m_bWantExit s"
  "m_pendingBind (ctcp_close t (s :: np_pool)) = m_pendingBind s"
  "m_pendingSend (ctcp_close t (s :: np_pool)) = m_pendingSend s"
  "m_pendingClose (ctcp_close t (s :: np_pool)) = m_pendingClose s"
  "m_udpIndex (ctcp_close t (s :: np_pool)) = m_udpIndex s"
  "m_tcpServers (ctcp_close t (s :: np_pool)) = m_tcpServers s"
  "m_udpServers (ctcp_close t (s :: np_pool)) = m_udpServers s"
  "m_node2stream (ctcp_close t (s :: np_pool)) = m_node2stream s"
  "m_connecting (ctcp_close t (s :: np_pool)) = m_connecting s"
  "m_waitingSend (ctcp_close t (s :: np_pool)) = m_waitingSend s"
  by (simp_all add: ctcp_close_def undefined_behaviour_def split: option.split)

section \<open>The invariant\<close>

text \<open>Phases of a connection object.\<close>

definition tcp_open :: "ctcp \<Rightarrow> bool" where
  "tcp_open c \<longleftrightarrow> m_tcpInited c \<and> m_timerInited c \<and> \<not> m_closing c \<and> \<not> m_shutdown c"

definition tcp_server :: "ctcp \<Rightarrow> bool" where
  "tcp_server c \<longleftrightarrow> m_tcpInited c \<and> \<not> m_timerInited c \<and> \<not> m_closing c \<and> \<not> m_shutdown c"

definition tcp_conn :: "ctcp \<Rightarrow> bool" where
  "tcp_conn c \<longleftrightarrow> m_tcpInited c \<and> (m_timerInited c \<or> m_closing c)"

text \<open>
  At rest, an object that is not closing has its connection handle, and its timer is running
  if it has one; a closing object still waits for at least one close callback.
\<close>

definition tcp_settled :: "ctcp \<Rightarrow> bool" where
  "tcp_settled c \<longleftrightarrow> (m_tcpInited c \<or> m_timerInited c)
     \<and> (\<not> m_closing c \<longrightarrow> m_tcpInited c \<and> (m_timerInited c \<longrightarrow> t_timer_active c))
     \<and> (t_timer_active c \<or> t_reading c \<longrightarrow> m_timerInited c \<and> \<not> m_closing c)"

definition tcp_is :: "np_pool \<Rightarrow> oid \<Rightarrow> (ctcp \<Rightarrow> bool) \<Rightarrow> bool" where
  "tcp_is s t P \<longleftrightarrow> (\<exists>c. np_tcps s t = Some c \<and> P c)"

definition objects_ok :: "oid set \<Rightarrow> np_pool \<Rightarrow> bool" where
  "objects_ok T s \<longleftrightarrow> (\<forall>t c. np_tcps s t = Some c \<longrightarrow> t < np_next s \<and> (t \<notin> T \<longrightarrow> tcp_settled c))
     \<and> (\<forall>u c. np_udps s u = Some c \<longrightarrow> u < np_next s \<and> u_inited c)"

definition streams_ok :: "np_pool \<Rightarrow> bool" where
  "streams_ok s \<longleftrightarrow> um_ok (m_node2stream s) \<and> (\<forall>n t. um_find n (m_node2stream s) = Some t \<longrightarrow>
     t \<notin> set (np_connects s) \<and> tcp_is s t (\<lambda>c. t_node c = n \<and> tcp_open c))"

definition servers_ok :: "np_pool \<Rightarrow> bool" where
  "servers_ok s \<longleftrightarrow> um_ok (m_tcpServers s) \<and> (\<forall>n t. um_find n (m_tcpServers s) = Some t \<longrightarrow>
     tcp_is s t (\<lambda>c. t_node c = n \<and> tcp_server c))"

definition connects_ok :: "np_pool \<Rightarrow> bool" where
  "connects_ok s \<longleftrightarrow> distinct (np_connects s) \<and> distinct (m_connecting s)
     \<and> set (m_connecting s) \<subseteq> set (np_connects s)
     \<and> (\<forall>t\<in>set (np_connects s). tcp_is s t (\<lambda>c. tcp_conn c \<and> \<not> m_shutdown c \<and> valid (m_sockaddr (t_node c))))"

definition waiting_ok :: "network_node set \<Rightarrow> np_pool \<Rightarrow> bool" where
  "waiting_ok X s \<longleftrightarrow> um_ok (m_waitingSend s) \<and> (\<forall>n bufs. um_find n (m_waitingSend s) = Some bufs \<longrightarrow>
     bufs \<noteq> [] \<and> (n \<in> X \<or> um_find n (m_node2stream s) = None
       \<and> (\<exists>t\<in>set (m_connecting s). tcp_is s t (\<lambda>c. t_node c = n \<and> \<not> m_closing c))))"

definition requests_ok :: "np_pool \<Rightarrow> bool" where
  "requests_ok s \<longleftrightarrow> (\<forall>req\<in>set (np_writes s). tcp_is s (fst req) tcp_conn)
     \<and> distinct (np_shutdowns s) \<and> (\<forall>t\<in>set (np_shutdowns s). tcp_is s t (\<lambda>c. tcp_conn c \<and> m_shutdown c))
     \<and> (\<forall>req\<in>set (np_udp_sends s). np_udps s (fst req) \<noteq> None)"

definition udp_servers_ok :: "np_pool \<Rightarrow> bool" where
  "udp_servers_ok s \<longleftrightarrow> distinct (m_udpServers s)
     \<and> (\<forall>u\<in>set (m_udpServers s). \<exists>c. np_udps s u = Some c \<and> \<not> u_closing c \<and> m_protocol (u_node c) = Protocol_udp)
     \<and> (\<forall>u\<in>set (m_udpServers s). \<forall>v\<in>set (m_udpServers s). \<forall>c d.
          np_udps s u = Some c \<longrightarrow> np_udps s v = Some d \<longrightarrow> u_node c = u_node d \<longrightarrow> u = v)"

definition core :: "network_node set \<Rightarrow> oid set \<Rightarrow> np_pool \<Rightarrow> bool" where
  "core X T s \<longleftrightarrow> \<not> np_ub s \<and> objects_ok T s \<and> streams_ok s \<and> servers_ok s \<and> connects_ok s
     \<and> waiting_ok X s \<and> requests_ok s \<and> udp_servers_ok s"

lemmas core_defs = core_def objects_ok_def streams_ok_def servers_ok_def connects_ok_def
  waiting_ok_def requests_ok_def udp_servers_ok_def tcp_is_def

section \<open>What leaves it alone\<close>

lemma core_tick [simp]: "core X T (s\<lparr>np_tick := k\<rparr>) = core X T s"
  by (simp add: core_defs)

lemma core_emit [simp]: "core X T (emit e s) = core X T s"
  by (simp add: core_defs emit_def)

lemma core_mem_add [simp]: "core X T (mem_add k s) = core X T s"
  by (simp add: core_defs mem_add_def)

lemma core_emit_all [simp]: "core X T (emit_all es s) = core X T s"
  by (induction es arbitrary: s) simp_all

lemma core_drop_and_free [simp]: "core X T (drop_and_free n bs s) = core X T s"
  by (induction bs arbitrary: s) simp_all

lemma core_pending [simp]:
  "core X T (s\<lparr>m_pendingBind := b\<rparr>) = core X T s"
  "core X T (s\<lparr>m_pendingSend := p\<rparr>) = core X T s"
  "core X T (s\<lparr>m_pendingClose := q\<rparr>) = core X T s"
  "core X T (s\<lparr>m_bWantExit := e\<rparr>) = core X T s"
  "core X T (s\<lparr>m_udpIndex := i\<rparr>) = core X T s"
  "core X T (s\<lparr>np_async := a\<rparr>) = core X T s"
  by (simp_all add: core_defs)

lemma core_mono: "core X T s \<Longrightarrow> X \<subseteq> Y \<Longrightarrow> T \<subseteq> U \<Longrightarrow> core Y U s"
  unfolding core_def objects_ok_def waiting_ok_def by blast


lemma upd_tcp_some [simp]:
  "np_tcps s t = Some c \<Longrightarrow> np_tcps (upd_tcp t f s) = (np_tcps s)(t \<mapsto> f c)"
  "np_tcps s t = Some c \<Longrightarrow> np_ub (upd_tcp t f s) = np_ub s"
  by (simp_all add: upd_tcp_def)

lemma delete_tcp_tcps [simp]: "np_tcps (delete_tcp t s) = (np_tcps s)(t := None)"
  by (simp add: delete_tcp_def mem_add_def)

section \<open>Changing one connection object\<close>

text \<open>Who refers to an object, and what it may change into while they do.\<close>

definition unref :: "oid \<Rightarrow> np_pool \<Rightarrow> bool" where
  "unref t s \<longleftrightarrow> (\<forall>n. um_find n (m_node2stream s) \<noteq> Some t) \<and> (\<forall>n. um_find n (m_tcpServers s) \<noteq> Some t)
     \<and> t \<notin> set (np_connects s) \<and> t \<notin> fst ` set (np_writes s) \<and> t \<notin> set (np_shutdowns s)"

definition may_become :: "np_pool \<Rightarrow> oid \<Rightarrow> ctcp \<Rightarrow> ctcp \<Rightarrow> bool" where
  "may_become s t c c' \<longleftrightarrow>
     (\<forall>n. um_find n (m_node2stream s) = Some t \<longrightarrow> tcp_open c' \<and> t_node c' = t_node c)
     \<and> (\<forall>n. um_find n (m_tcpServers s) = Some t \<longrightarrow> tcp_server c' \<and> t_node c' = t_node c)
     \<and> (t \<in> set (np_connects s) \<longrightarrow> tcp_conn c' \<and> \<not> m_shutdown c' \<and> valid (m_sockaddr (t_node c')))
     \<and> (t \<in> set (m_connecting s) \<longrightarrow> t_node c' = t_node c \<and> (m_closing c' \<longrightarrow> m_closing c)
          \<or> um_find (t_node c) (m_waitingSend s) = None)
     \<and> (t \<in> fst ` set (np_writes s) \<longrightarrow> tcp_conn c')
     \<and> (t \<in> set (np_shutdowns s) \<longrightarrow> tcp_conn c' \<and> m_shutdown c')"

lemma may_become_unref: "core X T s \<Longrightarrow> unref t s \<Longrightarrow> may_become s t c c'"
  by (auto simp: may_become_def unref_def core_def connects_ok_def)

lemma may_become_stream: "may_become s t c c' \<Longrightarrow> um_find n (m_node2stream s) = Some t \<Longrightarrow>
    tcp_open c' \<and> t_node c' = t_node c"
  unfolding may_become_def by blast

lemma may_become_server: "may_become s t c c' \<Longrightarrow> um_find n (m_tcpServers s) = Some t \<Longrightarrow>
    tcp_server c' \<and> t_node c' = t_node c"
  unfolding may_become_def by blast

lemma may_become_connecting: "may_become s t c c' \<Longrightarrow> t \<in> set (m_connecting s) \<Longrightarrow>
    um_find (t_node c) (m_waitingSend s) \<noteq> None \<Longrightarrow> t_node c' = t_node c \<and> (m_closing c' \<longrightarrow> m_closing c)"
  unfolding may_become_def by blast

lemma core_upd:
  assumes core: "core X T s" and t: "np_tcps s t = Some c" and ok: "may_become s t c (f c)"
    and settled: "t \<in> T' \<or> tcp_settled (f c)" and sub: "T \<subseteq> insert t T'"
  shows "core X T' (upd_tcp t f s)"
proof -
  have becomes: "tcp_is (upd_tcp t f s) u P \<longleftrightarrow> (if u = t then P (f c) else tcp_is s u P)" for u P
    by (simp add: tcp_is_def t)
  have here: "tcp_is s t P \<longleftrightarrow> P c" for P by (simp add: tcp_is_def t)
  have waits: "tcp_is (upd_tcp t f s) u (\<lambda>c. t_node c = n \<and> \<not> m_closing c)"
    if "u \<in> set (m_connecting s)" "tcp_is s u (\<lambda>c. t_node c = n \<and> \<not> m_closing c)"
      "um_find n (m_waitingSend s) = Some bufs" for u n bufs
  proof (cases "u = t")
    case True
    with that ok show ?thesis using may_become_connecting [OF ok] by (auto simp: becomes here)
  qed (use that in \<open>simp add: becomes\<close>)
  have strs: "tcp_is (upd_tcp t f s) u (\<lambda>c. t_node c = n \<and> tcp_open c)"
    if "um_find n (m_node2stream s) = Some u" "tcp_is s u (\<lambda>c. t_node c = n \<and> tcp_open c)" for u n
  proof (cases "u = t")
    case True
    with that ok show ?thesis by (simp add: becomes here may_become_stream)
  qed (use that in \<open>simp add: becomes\<close>)
  have srvs: "tcp_is (upd_tcp t f s) u (\<lambda>c. t_node c = n \<and> tcp_server c)"
    if "um_find n (m_tcpServers s) = Some u" "tcp_is s u (\<lambda>c. t_node c = n \<and> tcp_server c)" for u n
  proof (cases "u = t")
    case True
    with that ok show ?thesis by (simp add: becomes here may_become_server)
  qed (use that in \<open>simp add: becomes\<close>)
  show ?thesis
    unfolding core_def
  proof (intro conjI)
    show "\<not> np_ub (upd_tcp t f s)" using core t by (simp add: core_def)
    show "objects_ok T' (upd_tcp t f s)"
      using core t settled sub unfolding core_def objects_ok_def by (auto split: if_splits)
    show "streams_ok (upd_tcp t f s)"
      using core strs unfolding core_def streams_ok_def by simp
    show "servers_ok (upd_tcp t f s)"
      using core srvs unfolding core_def servers_ok_def by simp
    show "connects_ok (upd_tcp t f s)"
      using core ok unfolding core_def connects_ok_def may_become_def by (simp add: becomes)
    show "requests_ok (upd_tcp t f s)"
      using core ok unfolding core_def requests_ok_def may_become_def by (auto simp: becomes)
    show "udp_servers_ok (upd_tcp t f s)"
      using core unfolding core_def udp_servers_ok_def by simp
    have "waiting_ok X s" using core by (simp add: core_def)
    then show "waiting_ok X (upd_tcp t f s)"
      using waits unfolding waiting_ok_def by simp blast
  qed
qed

lemma core_delete:
  assumes core: "core X T s" and t: "np_tcps s t = Some c" and un: "unref t s" and sub: "T \<subseteq> insert t T'"
  shows "core X T' (delete_tcp t s)"
proof -
  have other: "tcp_is s u P \<Longrightarrow> u \<noteq> t \<Longrightarrow> tcp_is (delete_tcp t s) u P" for u P
    by (simp add: tcp_is_def)
  have conn: "u \<noteq> t" if "u \<in> set (m_connecting s)" for u
    using that un core by (auto simp: core_def connects_ok_def unref_def)
  have ne: "um_find n (m_node2stream s) = Some u \<Longrightarrow> u \<noteq> t" "um_find n (m_tcpServers s) = Some u \<Longrightarrow> u \<noteq> t"
    "u \<in> set (np_connects s) \<Longrightarrow> u \<noteq> t" "req \<in> set (np_writes s) \<Longrightarrow> fst req \<noteq> t"
    "u \<in> set (np_shutdowns s) \<Longrightarrow> u \<noteq> t" for n u req
    using un by (auto simp: unref_def)
  show ?thesis
    unfolding core_def
  proof (intro conjI)
    show "objects_ok T' (delete_tcp t s)"
      using core sub unfolding core_def objects_ok_def by (auto split: if_splits)
    show "streams_ok (delete_tcp t s)"
      using core other ne(1) unfolding core_def streams_ok_def by simp
    show "servers_ok (delete_tcp t s)"
      using core other ne(2) unfolding core_def servers_ok_def by simp
    show "connects_ok (delete_tcp t s)"
      using core other ne(3) unfolding core_def connects_ok_def by simp
    show "requests_ok (delete_tcp t s)"
      using core other ne(4,5) unfolding core_def requests_ok_def by simp
    show "waiting_ok X (delete_tcp t s)"
      using core other conn unfolding core_def waiting_ok_def by simp blast
    show "\<not> np_ub (delete_tcp t s)" "udp_servers_ok (delete_tcp t s)"
      using core unfolding core_def udp_servers_ok_def by simp_all
  qed
qed

section \<open>What the invariant says of one object\<close>

lemma tcp_phase:
  "tcp_conn c \<Longrightarrow> m_tcpInited c" "tcp_open c \<Longrightarrow> tcp_conn c" "tcp_open c \<Longrightarrow> \<not> m_closing c"
  "tcp_open c \<Longrightarrow> \<not> m_shutdown c" "tcp_server c \<Longrightarrow> \<not> tcp_conn c" "tcp_server c \<Longrightarrow> m_tcpInited c"
  by (simp_all add: tcp_conn_def tcp_open_def tcp_server_def)

lemma tcp_isD: "tcp_is s t P \<Longrightarrow> np_tcps s t = Some c \<Longrightarrow> P c"
  by (simp add: tcp_is_def)

lemma core_stream: "core X T s \<Longrightarrow> um_find n (m_node2stream s) = Some t \<Longrightarrow>
    t \<notin> set (np_connects s) \<and> (\<exists>c. np_tcps s t = Some c \<and> t_node c = n \<and> tcp_open c)"
  by (simp add: core_def streams_ok_def tcp_is_def)

lemma core_server: "core X T s \<Longrightarrow> um_find n (m_tcpServers s) = Some t \<Longrightarrow>
    \<exists>c. np_tcps s t = Some c \<and> t_node c = n \<and> tcp_server c"
  by (simp add: core_def servers_ok_def tcp_is_def)

lemma core_connect: "core X T s \<Longrightarrow> t \<in> set (np_connects s) \<Longrightarrow>
    \<exists>c. np_tcps s t = Some c \<and> tcp_conn c \<and> \<not> m_shutdown c \<and> valid (m_sockaddr (t_node c))"
  by (simp add: core_def connects_ok_def tcp_is_def)

lemma core_connecting: "core X T s \<Longrightarrow> t \<in> set (m_connecting s) \<Longrightarrow> t \<in> set (np_connects s)"
  unfolding core_def connects_ok_def by blast

lemma core_write: "core X T s \<Longrightarrow> req \<in> set (np_writes s) \<Longrightarrow>
    \<exists>c. np_tcps s (fst req) = Some c \<and> tcp_conn c"
  by (simp add: core_def requests_ok_def tcp_is_def)

lemma core_shutdown: "core X T s \<Longrightarrow> t \<in> set (np_shutdowns s) \<Longrightarrow>
    \<exists>c. np_tcps s t = Some c \<and> tcp_conn c \<and> m_shutdown c"
  by (simp add: core_def requests_ok_def tcp_is_def)

lemma core_object: "core X T s \<Longrightarrow> np_tcps s t = Some c \<Longrightarrow> t < np_next s \<and> (t \<notin> T \<longrightarrow> tcp_settled c)"
  by (simp add: core_def objects_ok_def)

lemma core_no_ub: "core X T s \<Longrightarrow> \<not> np_ub s"
  by (simp add: core_def)

lemma core_waiting: "core X T s \<Longrightarrow> um_find n (m_waitingSend s) = Some bufs \<Longrightarrow>
    bufs \<noteq> [] \<and> (n \<in> X \<or> um_find n (m_node2stream s) = None
      \<and> (\<exists>t\<in>set (m_connecting s). tcp_is s t (\<lambda>c. t_node c = n \<and> \<not> m_closing c)))"
  by (simp add: core_def waiting_ok_def)

lemma core_maps: "core X T s \<Longrightarrow> um_ok (m_node2stream s) \<and> um_ok (m_tcpServers s) \<and> um_ok (m_waitingSend s)"
  by (simp add: core_def streams_ok_def servers_ok_def waiting_ok_def)

lemma core_udp_server: "core X T s \<Longrightarrow> u \<in> set (m_udpServers s) \<Longrightarrow>
    \<exists>c. np_udps s u = Some c \<and> u_inited c \<and> \<not> u_closing c \<and> m_protocol (u_node c) = Protocol_udp"
  unfolding core_def udp_servers_ok_def objects_ok_def by blast

lemma core_udp_send: "core X T s \<Longrightarrow> req \<in> set (np_udp_sends s) \<Longrightarrow> \<exists>c. np_udps s (fst req) = Some c"
  unfolding core_def requests_ok_def by blast

text \<open>An object whose connection handle is not open is in no table.\<close>

lemma core_dead_unref:
  assumes core: "core X T s" and t: "np_tcps s t = Some c" and dead: "\<not> m_tcpInited c"
  shows "unref t s"
  unfolding unref_def
proof (intro conjI allI notI)
  show False if "um_find n (m_node2stream s) = Some t" for n
    using core_stream [OF core that] t dead by (auto simp: tcp_phase)
  show False if "um_find n (m_tcpServers s) = Some t" for n
    using core_server [OF core that] t dead by (auto simp: tcp_phase)
  show False if "t \<in> set (np_connects s)"
    using core_connect [OF core that] t dead by (auto simp: tcp_phase)
  show False if "t \<in> fst ` set (np_writes s)"
    using that t dead by (auto dest!: core_write [OF core] simp: tcp_phase)
  show False if "t \<in> set (np_shutdowns s)"
    using core_shutdown [OF core that] t dead by (auto simp: tcp_phase)
qed

section \<open>Closing\<close>

definition off_tables :: "oid \<Rightarrow> np_pool \<Rightarrow> bool" where
  "off_tables t s \<longleftrightarrow> (\<forall>n. um_find n (m_node2stream s) \<noteq> Some t) \<and> (\<forall>n. um_find n (m_tcpServers s) \<noteq> Some t)
     \<and> (t \<in> set (m_connecting s) \<longrightarrow> (\<forall>c. np_tcps s t = Some c \<longrightarrow> um_find (t_node c) (m_waitingSend s) = None))"

lemma off_tables_unref: "core X T s \<Longrightarrow> unref t s \<Longrightarrow> off_tables t s"
  using core_connecting [of X T s t] by (simp add: off_tables_def unref_def) blast

lemma may_become_off:
  assumes core: "core X T s" and t: "np_tcps s t = Some c" and off: "off_tables t s"
    and conn: "tcp_conn c \<Longrightarrow> tcp_conn c'" and same: "m_shutdown c' = m_shutdown c" "t_node c' = t_node c"
  shows "may_become s t c c'"
  unfolding may_become_def
proof (intro conjI impI allI)
  assume "t \<in> set (np_connects s)"
  from core_connect [OF core this] t same conn
  show "tcp_conn c'" "\<not> m_shutdown c'" "valid (m_sockaddr (t_node c'))" by auto
next
  assume "t \<in> set (np_shutdowns s)"
  from core_shutdown [OF core this] t same conn show "tcp_conn c'" "m_shutdown c'" by auto
next
  assume "t \<in> fst ` set (np_writes s)"
  then show "tcp_conn c'" using t conn by (auto dest!: core_write [OF core])
qed (use off t in \<open>auto simp: off_tables_def\<close>)

lemma core_close:
  assumes core: "core X T s" and t: "np_tcps s t = Some c" and off: "off_tables t s"
    and sub: "T \<subseteq> (if m_closing c then T' else insert t T')"
  shows "core X T' (ctcp_close t s)"
proof -
  consider "m_tcpInited c \<or> m_timerInited c" "\<not> m_closing c" | "m_tcpInited c \<or> m_timerInited c" "m_closing c"
    | "\<not> m_tcpInited c" "\<not> m_timerInited c" by blast
  then show ?thesis
  proof cases
    case 1
    let ?f = "\<lambda>c. c\<lparr>m_closing := True, t_timer_active := False, t_reading := False\<rparr>"
    have "may_become s t c (?f c)"
      using core t off by (rule may_become_off) (simp_all add: tcp_conn_def)
    moreover have "tcp_settled (?f c)" using 1 by (simp add: tcp_settled_def)
    ultimately have "core X T' (upd_tcp t ?f s)" using core t sub 1 by (intro core_upd) auto
    then show ?thesis using 1 t by (simp add: ctcp_close_def)
  next
    case 2
    then have s: "ctcp_close t s = s" using t by (simp add: ctcp_close_def)
    have "T \<subseteq> T'" using sub 2 by simp
    then show ?thesis using core_mono [OF core] s by simp
  next
    case 3
    have "T \<subseteq> insert t T'" using sub by (auto split: if_splits)
    with 3 show ?thesis using t core_delete [OF core t core_dead_unref [OF core t]] by (simp add: ctcp_close_def)
  qed
qed

section \<open>Parts of the invariant that an update does not touch\<close>

lemma tcp_is_frame [simp]:
  "tcp_is (s\<lparr>np_connects := v_np_connects\<rparr>) t P = tcp_is s t P"
  "tcp_is (s\<lparr>np_writes := v_np_writes\<rparr>) t P = tcp_is s t P"
  "tcp_is (s\<lparr>np_shutdowns := v_np_shutdowns\<rparr>) t P = tcp_is s t P"
  "tcp_is (s\<lparr>np_udp_sends := v_np_udp_sends\<rparr>) t P = tcp_is s t P"
  "tcp_is (s\<lparr>m_node2stream := v_m_node2stream\<rparr>) t P = tcp_is s t P"
  "tcp_is (s\<lparr>m_tcpServers := v_m_tcpServers\<rparr>) t P = tcp_is s t P"
  "tcp_is (s\<lparr>m_connecting := v_m_connecting\<rparr>) t P = tcp_is s t P"
  "tcp_is (s\<lparr>m_waitingSend := v_m_waitingSend\<rparr>) t P = tcp_is s t P"
  "tcp_is (s\<lparr>m_udpServers := v_m_udpServers\<rparr>) t P = tcp_is s t P"
  by (simp_all add: tcp_is_def)

lemma objects_ok_frame [simp]:
  "objects_ok T (s\<lparr>np_connects := v_np_connects\<rparr>) = objects_ok T s"
  "objects_ok T (s\<lparr>np_writes := v_np_writes\<rparr>) = objects_ok T s"
  "objects_ok T (s\<lparr>np_shutdowns := v_np_shutdowns\<rparr>) = objects_ok T s"
  "objects_ok T (s\<lparr>np_udp_sends := v_np_udp_sends\<rparr>) = objects_ok T s"
  "objects_ok T (s\<lparr>m_node2stream := v_m_node2stream\<rparr>) = objects_ok T s"
  "objects_ok T (s\<lparr>m_tcpServers := v_m_tcpServers\<rparr>) = objects_ok T s"
  "objects_ok T (s\<lparr>m_connecting := v_m_connecting\<rparr>) = objects_ok T s"
  "objects_ok T (s\<lparr>m_waitingSend := v_m_waitingSend\<rparr>) = objects_ok T s"
  "objects_ok T (s\<lparr>m_udpServers := v_m_udpServers\<rparr>) = objects_ok T s"
  by (simp_all add: objects_ok_def)

lemma streams_ok_frame [simp]:
  "streams_ok (s\<lparr>np_writes := v_np_writes\<rparr>) = streams_ok s"
  "streams_ok (s\<lparr>np_shutdowns := v_np_shutdowns\<rparr>) = streams_ok s"
  "streams_ok (s\<lparr>np_udp_sends := v_np_udp_sends\<rparr>) = streams_ok s"
  "streams_ok (s\<lparr>m_tcpServers := v_m_tcpServers\<rparr>) = streams_ok s"
  "streams_ok (s\<lparr>m_connecting := v_m_connecting\<rparr>) = streams_ok s"
  "streams_ok (s\<lparr>m_waitingSend := v_m_waitingSend\<rparr>) = streams_ok s"
  "streams_ok (s\<lparr>m_udpServers := v_m_udpServers\<rparr>) = streams_ok s"
  by (simp_all add: streams_ok_def)

lemma servers_ok_frame [simp]:
  "servers_ok (s\<lparr>np_connects := v_np_connects\<rparr>) = servers_ok s"
  "servers_ok (s\<lparr>np_writes := v_np_writes\<rparr>) = servers_ok s"
  "servers_ok (s\<lparr>np_shutdowns := v_np_shutdowns\<rparr>) = servers_ok s"
  "servers_ok (s\<lparr>np_udp_sends := v_np_udp_sends\<rparr>) = servers_ok s"
  "servers_ok (s\<lparr>m_node2stream := v_m_node2stream\<rparr>) = servers_ok s"
  "servers_ok (s\<lparr>m_connecting := v_m_connecting\<rparr>) = servers_ok s"
  "servers_ok (s\<lparr>m_waitingSend := v_m_waitingSend\<rparr>) = servers_ok s"
  "servers_ok (s\<lparr>m_udpServers := v_m_udpServers\<rparr>) = servers_ok s"
  by (simp_all add: servers_ok_def)

lemma connects_ok_frame [simp]:
  "connects_ok (s\<lparr>np_writes := v_np_writes\<rparr>) = connects_ok s"
  "connects_ok (s\<lparr>np_shutdowns := v_np_shutdowns\<rparr>) = connects_ok s"
  "connects_ok (s\<lparr>np_udp_sends := v_np_udp_sends\<rparr>) = connects_ok s"
  "connects_ok (s\<lparr>m_node2stream := v_m_node2stream\<rparr>) = connects_ok s"
  "connects_ok (s\<lparr>m_tcpServers := v_m_tcpServers\<rparr>) = connects_ok s"
  "connects_ok (s\<lparr>m_waitingSend := v_m_waitingSend\<rparr>) = connects_ok s"
  "connects_ok (s\<lparr>m_udpServers := v_m_udpServers\<rparr>) = connects_ok s"
  by (simp_all add: connects_ok_def)

lemma waiting_ok_frame [simp]:
  "waiting_ok X (s\<lparr>np_connects := v_np_connects\<rparr>) = waiting_ok X s"
  "waiting_ok X (s\<lparr>np_writes := v_np_writes\<rparr>) = waiting_ok X s"
  "waiting_ok X (s\<lparr>np_shutdowns := v_np_shutdowns\<rparr>) = waiting_ok X s"
  "waiting_ok X (s\<lparr>np_udp_sends := v_np_udp_sends\<rparr>) = waiting_ok X s"
  "waiting_ok X (s\<lparr>m_tcpServers := v_m_tcpServers\<rparr>) = waiting_ok X s"
  "waiting_ok X (s\<lparr>m_udpServers := v_m_udpServers\<rparr>) = waiting_ok X s"
  by (simp_all add: waiting_ok_def)

lemma requests_ok_frame [simp]:
  "requests_ok (s\<lparr>np_connects := v_np_connects\<rparr>) = requests_ok s"
  "requests_ok (s\<lparr>m_node2stream := v_m_node2stream\<rparr>) = requests_ok s"
  "requests_ok (s\<lparr>m_tcpServers := v_m_tcpServers\<rparr>) = requests_ok s"
  "requests_ok (s\<lparr>m_connecting := v_m_connecting\<rparr>) = requests_ok s"
  "requests_ok (s\<lparr>m_waitingSend := v_m_waitingSend\<rparr>) = requests_ok s"
  "requests_ok (s\<lparr>m_udpServers := v_m_udpServers\<rparr>) = requests_ok s"
  by (simp_all add: requests_ok_def)

lemma udp_servers_ok_frame [simp]:
  "udp_servers_ok (s\<lparr>np_connects := v_np_connects\<rparr>) = udp_servers_ok s"
  "udp_servers_ok (s\<lparr>np_writes := v_np_writes\<rparr>) = udp_servers_ok s"
  "udp_servers_ok (s\<lparr>np_shutdowns := v_np_shutdowns\<rparr>) = udp_servers_ok s"
  "udp_servers_ok (s\<lparr>np_udp_sends := v_np_udp_sends\<rparr>) = udp_servers_ok s"
  "udp_servers_ok (s\<lparr>m_node2stream := v_m_node2stream\<rparr>) = udp_servers_ok s"
  "udp_servers_ok (s\<lparr>m_tcpServers := v_m_tcpServers\<rparr>) = udp_servers_ok s"
  "udp_servers_ok (s\<lparr>m_connecting := v_m_connecting\<rparr>) = udp_servers_ok s"
  "udp_servers_ok (s\<lparr>m_waitingSend := v_m_waitingSend\<rparr>) = udp_servers_ok s"
  by (simp_all add: udp_servers_ok_def)

section \<open>Tables and request lists\<close>

lemma core_erase_stream: "core X T s \<Longrightarrow> core X T (s\<lparr>m_node2stream := AList.delete n (m_node2stream s)\<rparr>)"
  by (simp add: core_def streams_ok_def waiting_ok_def) blast

lemma core_erase_server: "core X T s \<Longrightarrow> core X T (s\<lparr>m_tcpServers := AList.delete n (m_tcpServers s)\<rparr>)"
  by (simp add: core_def servers_ok_def)

lemma core_erase_waiting:
  "core X T s \<Longrightarrow> X \<subseteq> insert n Y \<Longrightarrow> core Y T (s\<lparr>m_waitingSend := AList.delete n (m_waitingSend s)\<rparr>)"
  by (simp add: core_def waiting_ok_def) blast

lemma core_insert_stream:
  assumes "core X T s" and "um_find n (m_node2stream s) = None" and "t \<notin> set (np_connects s)"
    and "np_tcps s t = Some c" and "t_node c = n" and "tcp_open c"
  shows "core (insert n X) T (s\<lparr>m_node2stream := (n, t) # m_node2stream s\<rparr>)"
proof -
  have "streams_ok (s\<lparr>m_node2stream := (n, t) # m_node2stream s\<rparr>)"
    using assms by (simp add: core_def streams_ok_def) (simp add: tcp_is_def)
  moreover have "waiting_ok (insert n X) (s\<lparr>m_node2stream := (n, t) # m_node2stream s\<rparr>)"
    using assms(1) by (simp add: core_def waiting_ok_def) blast
  ultimately show ?thesis using assms(1) by (simp add: core_def)
qed

lemma core_insert_server:
  assumes "core X T s" and "um_find n (m_tcpServers s) = None"
    and "np_tcps s t = Some c" and "t_node c = n" and "tcp_server c"
  shows "core X T (s\<lparr>m_tcpServers := (n, t) # m_tcpServers s\<rparr>)"
  using assms by (simp add: core_def servers_ok_def) (simp add: tcp_is_def)

lemma core_add_write:
  "core X T s \<Longrightarrow> np_tcps s t = Some c \<Longrightarrow> tcp_conn c \<Longrightarrow> core X T (s\<lparr>np_writes := np_writes s @ [(t, bufs)]\<rparr>)"
  by (simp add: core_def requests_ok_def) (auto simp: tcp_is_def)

lemma core_remove_write: "core X T s \<Longrightarrow> core X T (s\<lparr>np_writes := remove1 req (np_writes s)\<rparr>)"
  by (simp add: core_def requests_ok_def) (meson notin_set_remove1)

lemma core_add_shutdown:
  "core X T s \<Longrightarrow> np_tcps s t = Some c \<Longrightarrow> tcp_conn c \<Longrightarrow> m_shutdown c \<Longrightarrow> t \<notin> set (np_shutdowns s) \<Longrightarrow>
   core X T (s\<lparr>np_shutdowns := t # np_shutdowns s\<rparr>)"
  by (simp add: core_def requests_ok_def) (simp add: tcp_is_def)

lemma core_remove_shutdown: "core X T s \<Longrightarrow> core X T (s\<lparr>np_shutdowns := remove1 t (np_shutdowns s)\<rparr>)"
  by (simp add: core_def requests_ok_def)

lemma core_add_udp_send:
  "core X T s \<Longrightarrow> np_udps s u = Some c \<Longrightarrow> core X T (s\<lparr>np_udp_sends := np_udp_sends s @ [(u, bufs)]\<rparr>)"
  by (simp add: core_def requests_ok_def)

lemma core_remove_udp_send: "core X T s \<Longrightarrow> core X T (s\<lparr>np_udp_sends := remove1 req (np_udp_sends s)\<rparr>)"
  by (simp add: core_def requests_ok_def) (meson notin_set_remove1)

lemma core_add_connect:
  assumes "core X T s" and "np_tcps s t = Some c" and "tcp_conn c" and "\<not> m_shutdown c"
    and "valid (m_sockaddr (t_node c))" and "unref t s"
  shows "core X T (s\<lparr>np_connects := t # np_connects s\<rparr>)"
proof -
  have "connects_ok (s\<lparr>np_connects := t # np_connects s\<rparr>)"
    using assms by (simp add: core_def connects_ok_def unref_def) (auto simp: tcp_is_def)
  moreover have "streams_ok (s\<lparr>np_connects := t # np_connects s\<rparr>)"
    using assms(1,6) by (auto simp: core_def streams_ok_def unref_def)
  ultimately show ?thesis using assms(1) by (simp add: core_def)
qed

lemma core_add_connecting:
  assumes "core X T s" and "t \<in> set (np_connects s)" and "np_tcps s t = Some c" and "\<not> m_closing c"
    and "um_find (t_node c) (m_node2stream s) = None" and "X \<subseteq> insert (t_node c) Y"
  shows "core Y T (s\<lparr>m_connecting := List.insert t (m_connecting s)\<rparr>)"
proof -
  have "connects_ok (s\<lparr>m_connecting := List.insert t (m_connecting s)\<rparr>)"
    using assms(1,2) by (simp add: core_def connects_ok_def)
  moreover have "tcp_is s t (\<lambda>c'. t_node c' = t_node c \<and> \<not> m_closing c')"
    using assms(3,4) by (simp add: tcp_is_def)
  with assms(1,5,6) have "waiting_ok Y (s\<lparr>m_connecting := List.insert t (m_connecting s)\<rparr>)"
    by (simp add: core_def waiting_ok_def) blast
  ultimately show ?thesis using assms(1) by (simp add: core_def)
qed

lemma core_remove_connect:
  assumes core: "core X T s" and t: "np_tcps s t = Some c"
  shows "core (insert (t_node c) X) T
    (s\<lparr>np_connects := remove1 t (np_connects s), m_connecting := removeAll t (m_connecting s)\<rparr>)" (is "core ?X T ?s")
proof -
  have d: "distinct (np_connects s)" using core by (simp add: core_def connects_ok_def)
  have "connects_ok ?s"
    using core d by (auto simp: core_def connects_ok_def distinct_removeAll)
  moreover have "streams_ok ?s" using core d by (simp add: core_def streams_ok_def)
  moreover have here: "tcp_is s t P \<Longrightarrow> P c" for P using t by (simp add: tcp_is_def)
  have "n = t_node c \<or> (\<exists>u\<in>set (m_connecting s) - {t}. tcp_is s u (\<lambda>c. t_node c = n \<and> \<not> m_closing c))"
    if "u \<in> set (m_connecting s)" "tcp_is s u (\<lambda>c. t_node c = n \<and> \<not> m_closing c)" for u n
    using that here [of "\<lambda>c. t_node c = n \<and> \<not> m_closing c"] by (cases "u = t") auto
  with core have "waiting_ok ?X ?s" by (simp add: core_def waiting_ok_def) blast
  ultimately show ?thesis using core by (simp add: core_def)
qed

end
