(* ===== verification/Pool_Operations.thy ===== *)
theory Pool_Operations
  imports Pool_Invariant
begin

text \<open>
  Every function the internal thread calls keeps the invariant \<open>core\<close>. A lemma
  \<open>f_cases\<close> lists the ways a function that asks libuv can end; a lemma \<open>core_f\<close> says
  what holds after \<open>f\<close>.
\<close>

section \<open>Waiting messages\<close>

lemma dropWaiting_fields [simp, np_frame]:
  "np_settings (dropWaiting n (s :: np_pool)) = np_settings s"
  "np_env (dropWaiting n (s :: np_pool)) = np_env s"
  "np_tick (dropWaiting n (s :: np_pool)) = np_tick s"
  "np_ub (dropWaiting n (s :: np_pool)) = np_ub s"
  "np_next (dropWaiting n (s :: np_pool)) = np_next s"
  "np_tcps (dropWaiting n (s :: np_pool)) = np_tcps s"
  "np_udps (dropWaiting n (s :: np_pool)) = np_udps s"
  "np_async (dropWaiting n (s :: np_pool)) = np_async s"
  "np_writes (dropWaiting n (s :: np_pool)) = np_writes s"
  "np_connects (dropWaiting n (s :: np_pool)) = np_connects s"
  "np_shutdowns (dropWaiting n (s :: np_pool)) = np_shutdowns s"
  "np_udp_sends (dropWaiting n (s :: np_pool)) = np_udp_sends s"
  "m_bWantExit (dropWaiting n (s :: np_pool)) = m_bWantExit s"
  "m_pendingBind (dropWaiting n (s :: np_pool)) = m_pendingBind s"
  "m_pendingSend (dropWaiting n (s :: np_pool)) = m_pendingSend s"
  "m_pendingClose (dropWaiting n (s :: np_pool)) = m_pendingClose s"
  "m_udpIndex (dropWaiting n (s :: np_pool)) = m_udpIndex s"
  "m_tcpServers (dropWaiting n (s :: np_pool)) = m_tcpServers s"
  "m_udpServers (dropWaiting n (s :: np_pool)) = m_udpServers s"
  "m_node2stream (dropWaiting n (s :: np_pool)) = m_node2stream s"
  "m_connecting (dropWaiting n (s :: np_pool)) = m_connecting s"
  by (simp_all add: dropWaiting_def Let_def split: option.split)

lemma pushWaiting_fields [simp, np_frame]:
  "np_settings (pushWaiting n b (s :: np_pool)) = np_settings s"
  "np_env (pushWaiting n b (s :: np_pool)) = np_env s"
  "np_tick (pushWaiting n b (s :: np_pool)) = np_tick s"
  "np_log (pushWaiting n b (s :: np_pool)) = np_log s"
  "np_mem (pushWaiting n b (s :: np_pool)) = np_mem s"
  "np_ub (pushWaiting n b (s :: np_pool)) = np_ub s"
  "np_next (pushWaiting n b (s :: np_pool)) = np_next s"
  "np_tcps (pushWaiting n b (s :: np_pool)) = np_tcps s"
  "np_udps (pushWaiting n b (s :: np_pool)) = np_udps s"
  "np_async (pushWaiting n b (s :: np_pool)) = np_async s"
  "np_writes (pushWaiting n b (s :: np_pool)) = np_writes s"
  "np_connects (pushWaiting n b (s :: np_pool)) = np_connects s"
  "np_shutdowns (pushWaiting n b (s :: np_pool)) = np_shutdowns s"
  "np_udp_sends (pushWaiting n b (s :: np_pool)) = np_udp_sends s"
  "m_bWantExit (pushWaiting n b (s :: np_pool)) = m_bWantExit s"
  "m_pendingBind (pushWaiting n b (s :: np_pool)) = m_pendingBind s"
  "m_pendingSend (pushWaiting n b (s :: np_pool)) = m_pendingSend s"
  "m_pendingClose (pushWaiting n b (s :: np_pool)) = m_pendingClose s"
  "m_udpIndex (pushWaiting n b (s :: np_pool)) = m_udpIndex s"
  "m_tcpServers (pushWaiting n b (s :: np_pool)) = m_tcpServers s"
  "m_udpServers (pushWaiting n b (s :: np_pool)) = m_udpServers s"
  "m_node2stream (pushWaiting n b (s :: np_pool)) = m_node2stream s"
  "m_connecting (pushWaiting n b (s :: np_pool)) = m_connecting s"
  by (simp_all add: pushWaiting_def split: option.split)


lemma dropWaiting_waiting [simp]: "m_waitingSend (dropWaiting n s) = AList.delete n (m_waitingSend s)"
  by (simp add: dropWaiting_def um_erase_def split: option.split)

lemma core_dropWaiting:
  assumes "core X T s" and "X \<subseteq> insert n Y"
  shows "core Y T (dropWaiting n s)"
proof (cases "um_find n (m_waitingSend s)")
  case None
  then show ?thesis using core_erase_waiting [OF assms] by (simp add: dropWaiting_def)
next
  case (Some bufs)
  have "core X T (drop_and_free n bufs s)" using assms(1) by simp
  from core_erase_waiting [OF this assms(2)] Some show ?thesis
    by (simp add: dropWaiting_def um_erase_def)
qed

lemma core_no_waiting: "core X T s \<Longrightarrow> um_find n (m_waitingSend s) = None \<Longrightarrow> X \<subseteq> insert n Y \<Longrightarrow> core Y T s"
  using core_erase_waiting [of X T s n Y] by simp

lemma um_ok_update [simp]: "um_ok m \<Longrightarrow> um_ok (AList.update k v m)"
  by (simp add: um_ok_def distinct_update)

lemma um_find_update [simp]: "um_find k (AList.update k' v m) = (if k = k' then Some v else um_find k m)"
  by (simp add: um_find_def update_conv')

lemma core_pushWaiting: "core X T s \<Longrightarrow> core (insert n X) T (pushWaiting n b s)"
  by (cases "um_find n (m_waitingSend s)")
    (simp_all add: pushWaiting_def um_insert_new core_def waiting_ok_def)

lemma core_exception:
  assumes core: "core (insert n X) T s"
    and "um_find n (m_waitingSend s) = None \<or> um_find n (m_node2stream s) = None
      \<and> (\<exists>t\<in>set (m_connecting s). tcp_is s t (\<lambda>c. t_node c = n \<and> \<not> m_closing c))"
  shows "core X T s"
proof (cases "um_find n (m_waitingSend s)")
  case None
  then show ?thesis by (intro core_no_waiting [OF core]) auto
next
  case (Some bufs)
  then have "waiting_ok X s" using core assms(2) unfolding core_def waiting_ok_def by (simp, blast)
  then show ?thesis using core by (simp add: core_def)
qed

lemma core_pushWaiting_old:
  assumes core: "core X T s" and old: "um_find n (m_waitingSend s) \<noteq> None"
  shows "core X T (pushWaiting n b s)"
proof (cases "n \<in> X")
  case True
  then show ?thesis using core_pushWaiting [OF core, of n b] by (simp add: insert_absorb)
next
  case False
  then have "um_find n (m_node2stream s) = None
      \<and> (\<exists>t\<in>set (m_connecting s). tcp_is s t (\<lambda>c. t_node c = n \<and> \<not> m_closing c))"
    using old core_waiting [OF core, of n] by auto
  moreover have "tcp_is (pushWaiting n b s) t P = tcp_is s t P" for t P by (simp add: tcp_is_def)
  ultimately show ?thesis by (intro core_exception [OF core_pushWaiting [OF core]]) simp
qed

lemma getWrite_cases:
  obtains (none) "um_find n (m_waitingSend s) = None" "getWriteFromWaitingByNode n s = (None, s)"
  | (no_memory) k where "getWriteFromWaitingByNode n s = (None, dropWaiting n (s\<lparr>np_tick := k\<rparr>))"
  | (ready) k bufs where "um_find n (m_waitingSend s) = Some bufs"
      "getWriteFromWaitingByNode n s
         = (Some bufs, mem_add 1 (s\<lparr>m_waitingSend := AList.delete n (m_waitingSend s), np_tick := k\<rparr>))"
proof (cases "um_find n (m_waitingSend s)")
  case None
  show ?thesis by (rule none) (simp_all add: getWriteFromWaitingByNode_def None)
next
  case (Some bufs)
  show ?thesis
  proof (cases "np_env s (np_tick s) Call_malloc = 0")
    case True
    show ?thesis
      by (rule ready [of bufs "Suc (np_tick s)"]) (simp_all add: getWriteFromWaitingByNode_def env_ret_def um_erase_def mem_add_def Some True)
  next
    case False
    show ?thesis
      by (rule no_memory [of "Suc (np_tick s)"]) (simp add: getWriteFromWaitingByNode_def env_ret_def Some False)
  qed
qed

lemma core_same:
  assumes "core X T s" and "np_ub s' = np_ub s" "np_next s' = np_next s" "np_tcps s' = np_tcps s"
    "np_udps s' = np_udps s" "np_writes s' = np_writes s" "np_connects s' = np_connects s"
    "np_shutdowns s' = np_shutdowns s" "np_udp_sends s' = np_udp_sends s" "m_tcpServers s' = m_tcpServers s"
    "m_udpServers s' = m_udpServers s" "m_node2stream s' = m_node2stream s"
    "m_connecting s' = m_connecting s" "m_waitingSend s' = m_waitingSend s"
  shows "core X T s'"
  using assms(1) unfolding core_defs assms(2-) .

section \<open>Timers, reading, writing\<close>

lemma may_become_same:
  assumes "core X T s" and "np_tcps s t = Some c" and "t_node c' = t_node c" and "m_closing c' = m_closing c"
    and "m_tcpInited c' = m_tcpInited c" and "m_timerInited c' = m_timerInited c" and "m_shutdown c' = m_shutdown c"
  shows "may_become s t c c'"
proof -
  have "tcp_open c' = tcp_open c" "tcp_server c' = tcp_server c" "tcp_conn c' = tcp_conn c"
    by (simp_all only: tcp_open_def tcp_server_def tcp_conn_def assms(3-))
  moreover have "tcp_open c" if "um_find n (m_node2stream s) = Some t" for n
    using core_stream [OF assms(1) that] assms(2) by auto
  moreover have "tcp_server c" if "um_find n (m_tcpServers s) = Some t" for n
    using core_server [OF assms(1) that] assms(2) by auto
  moreover have "tcp_conn c \<and> \<not> m_shutdown c \<and> valid (m_sockaddr (t_node c))" if "t \<in> set (np_connects s)"
    using core_connect [OF assms(1) that] assms(2) by auto
  moreover have "tcp_conn c" if "t \<in> fst ` set (np_writes s)"
    using that assms(2) by (auto dest!: core_write [OF assms(1)])
  moreover have "tcp_conn c \<and> m_shutdown c" if "t \<in> set (np_shutdowns s)"
    using core_shutdown [OF assms(1) that] assms(2) by auto
  ultimately show ?thesis
    by (simp add: may_become_def assms(3-))
qed

lemma uv_timer_start_cases:
  obtains (fail) r k where "r \<noteq> 0" "uv_timer_start t ms s = (r, s\<lparr>np_tick := k\<rparr>)"
  | (ok) k where "uv_timer_start t ms s = (0, upd_tcp t (\<lambda>c. c\<lparr>t_timer_active := True\<rparr>) (s\<lparr>np_tick := k\<rparr>))"
proof (cases "np_env s (np_tick s) (Call_uv_timer_start ms) = 0")
  case True
  show ?thesis by (rule ok [of "Suc (np_tick s)"]) (simp add: uv_timer_start_def env_ret_def True)
next
  case False
  show ?thesis by (rule fail [of "np_env s (np_tick s) (Call_uv_timer_start ms)" "Suc (np_tick s)"]) (simp_all add: uv_timer_start_def env_ret_def False)
qed

lemma uv_read_start_cases:
  obtains (fail) r k where "r \<noteq> 0" "uv_read_start t s = (r, s\<lparr>np_tick := k\<rparr>)"
  | (ok) k where "uv_read_start t s = (0, upd_tcp t (\<lambda>c. c\<lparr>t_reading := True\<rparr>) (s\<lparr>np_tick := k\<rparr>))"
proof (cases "np_env s (np_tick s) Call_uv_read_start = 0")
  case True
  show ?thesis by (rule ok [of "Suc (np_tick s)"]) (simp add: uv_read_start_def env_ret_def True)
next
  case False
  show ?thesis by (rule fail [of "np_env s (np_tick s) Call_uv_read_start" "Suc (np_tick s)"]) (simp_all add: uv_read_start_def env_ret_def False)
qed

lemma uv_write_cases:
  obtains (fail) r k where "r \<noteq> 0" "uv_write t bufs s = (r, s\<lparr>np_tick := k\<rparr>)"
  | (ok) k where "uv_write t bufs s = (0, s\<lparr>np_writes := np_writes s @ [(t, bufs)], np_tick := k\<rparr>)"
proof (cases "np_env s (np_tick s) Call_uv_write = 0")
  case True
  show ?thesis by (rule ok [of "Suc (np_tick s)"]) (simp add: uv_write_def env_ret_def True)
next
  case False
  show ?thesis by (rule fail [of "np_env s (np_tick s) Call_uv_write" "Suc (np_tick s)"]) (simp_all add: uv_write_def env_ret_def False)
qed

lemma core_timer_active:
  assumes "core X T s" and "np_tcps s t = Some c" and "m_tcpInited c" and "m_timerInited c" and "\<not> m_closing c"
    and "T \<subseteq> insert t U"
  shows "core X U (upd_tcp t (\<lambda>c. c\<lparr>t_timer_active := True\<rparr>) s)"
  using assms by (intro core_upd [OF assms(1,2)]) (simp_all add: may_become_same tcp_settled_def)

lemma core_reading:
  assumes "core X T s" and "np_tcps s t = Some c" and "m_timerInited c" and "\<not> m_closing c"
  shows "core X T (upd_tcp t (\<lambda>c. c\<lparr>t_reading := True\<rparr>) s)"
  using assms core_object [OF assms(1,2)]
  by (intro core_upd [OF assms(1,2)]) (auto simp: may_become_same tcp_settled_def)

section \<open>Shutting down\<close>

lemma off_tables_frame [simp]:
  "off_tables t (s\<lparr>np_tick := k\<rparr>) = off_tables t s" "off_tables t (mem_add j s) = off_tables t s"
  "off_tables t (emit e s) = off_tables t s" "off_tables t (drop_and_free n bs s) = off_tables t s"
  by (simp_all add: off_tables_def)

lemma unref_frame [simp]:
  "unref t (s\<lparr>np_tick := k\<rparr>) = unref t s" "unref t (mem_add j s) = unref t s"
  "unref t (emit e s) = unref t s" "unref t (drop_and_free n bs s) = unref t s"
  "unref t (upd_tcp u f s) = unref t s"
  by (simp_all add: unref_def)

lemma core_not_server: "core X T s \<Longrightarrow> np_tcps s t = Some c \<Longrightarrow> m_timerInited c \<or> tcp_conn c \<Longrightarrow>
    um_find n (m_tcpServers s) \<noteq> Some t"
  using core_server [of X T s n t] by (auto simp: tcp_server_def tcp_conn_def)

lemma core_shutdown_and_close:
  assumes core: "core X T s" and t: "np_tcps s t = Some c" and c: "tcp_open c" "t \<notin> T"
    and un: "t \<notin> set (np_connects s)" and off: "off_tables t s"
  shows "core X T (ctcp_shutdown_and_close t s)"
proof -
  have phase: "m_tcpInited c" "\<not> m_closing c" "\<not> m_shutdown c" using c(1) by (simp_all add: tcp_open_def)
  have close: "core X T (ctcp_close t (s\<lparr>np_tick := k\<rparr>))" for k
    using core t off by (intro core_close [where c = c]) auto
  have close': "core X T (ctcp_close t (mem_add j (mem_add i (s\<lparr>np_tick := k\<rparr>)\<lparr>np_tick := l\<rparr>)))" for i j k l
    using core t off by (intro core_close [where c = c]) auto
  define f :: "ctcp \<Rightarrow> ctcp" where "f = (\<lambda>c. c\<lparr>m_shutdown := True\<rparr>)"
  have settled: "tcp_settled (f c)" and conn: "tcp_conn (f c)"
    using core_object [OF core t] c by (simp_all add: tcp_settled_def f_def tcp_conn_def tcp_open_def)
  have fresh: "t \<notin> set (np_shutdowns s)" using core_shutdown [OF core, of t] t phase by auto
  have noconn: "t \<notin> set (m_connecting s)" using core_connecting [OF core, of t] un by auto
  have "may_become s t c (f c)" unfolding may_become_def
    using off un fresh noconn conn by (simp add: off_tables_def)
  then have "core X T (upd_tcp t f s)" using core t settled by (intro core_upd) auto
  then have "core X T ((upd_tcp t f s)\<lparr>np_shutdowns := t # np_shutdowns (upd_tcp t f s)\<rparr>)"
    by (rule core_add_shutdown [where c = "f c"]) (use t conn fresh in \<open>simp_all add: f_def\<close>)
  then have ok: "core X T (upd_tcp t f (mem_add j (s\<lparr>np_tick := k\<rparr>)\<lparr>np_tick := i, np_shutdowns := t # np_shutdowns s\<rparr>))" for i j k
    by (rule core_same) (simp_all add: t)
  show ?thesis
    using t phase close close' ok
    by (simp add: ctcp_shutdown_and_close_def env_ret_def f_def Let_def)
qed

lemma core_shutdownTcp:
  assumes core: "core X T s" and t: "np_tcps s t = Some c" and srv: "m_timerInited c \<or> tcp_conn c"
    and X: "X \<subseteq> insert (t_node c) Y"
  defines "mid \<equiv> \<lambda>s'. dropWaiting (t_node c) s'"
  shows "T \<subseteq> (if m_closing c then U else insert t U) \<Longrightarrow> core Y U (shutdownTcpConnection t b False s)" (is "_ \<Longrightarrow> ?close")
    and "tcp_open c \<Longrightarrow> t \<notin> T \<Longrightarrow> t \<notin> set (np_connects s) \<Longrightarrow> core Y T (shutdownTcpConnection t b True s)" (is "_ \<Longrightarrow> _ \<Longrightarrow> _ \<Longrightarrow> ?down")
proof -
  define s1 where "s1 = s\<lparr>m_node2stream := AList.delete (t_node c) (m_node2stream s)\<rparr>"
  define s2 where "s2 = (if um_find (t_node c) (m_node2stream s) \<noteq> None \<or> b
      then emit (Cb_connectionStatus (t_node c) False) s1 else s1)"
  define s3 where "s3 = dropWaiting (t_node c) s2"
  have "core X T s2" using core_erase_stream [OF core, of "t_node c"] core by (simp add: s2_def s1_def)
  then have core3: "core Y T s3" using X unfolding s3_def by (rule core_dropWaiting)
  have t3: "np_tcps s3 t = Some c" using t by (simp add: s3_def s2_def s1_def)
  have off: "off_tables t s3"
    unfolding off_tables_def s3_def s2_def s1_def
    using t core_stream [OF core, of _ t] core_not_server [OF core t srv] by auto
  have sh: "shutdownTcpConnection t b d s
      = (if d then ctcp_shutdown_and_close t s3 else ctcp_close t s3)" for d
    using t by (simp add: shutdownTcpConnection_def um_erase_def s3_def s2_def s1_def Let_def)
  show "T \<subseteq> (if m_closing c then U else insert t U) \<Longrightarrow> ?close"
    using core_close [OF core3 t3 off] by (simp add: sh)
  have "np_connects s3 = np_connects s" by (simp add: s3_def s2_def s1_def)
  then show "tcp_open c \<Longrightarrow> t \<notin> T \<Longrightarrow> t \<notin> set (np_connects s) \<Longrightarrow> ?down"
    using core_shutdown_and_close [OF core3 t3 _ _ _ off] by (simp add: sh)
qed

lemma core_write_or_shutdown:
  assumes core: "core X T s" and t: "np_tcps s t = Some c" and c: "tcp_open c" and T: "T \<subseteq> insert t U"
    and X: "X \<subseteq> insert (t_node c) Y" "um_find (t_node c) (m_waitingSend s) = None"
  shows "core Y U (write_or_shutdown t n bufs s)"
proof -
  have phase: "m_tcpInited c" "m_timerInited c" "\<not> m_closing c" "tcp_conn c" using c by (auto simp: tcp_open_def tcp_conn_def)
  have bad: "core Y U (shutdownTcpConnection t False False (dropWriteAndFree n bufs s'))"
    if "core X V s'" "np_tcps s' t = Some c'" "m_timerInited c'" "\<not> m_closing c'" "t_node c' = t_node c"
      "V \<subseteq> insert t U" for s' V c'
    by (rule core_shutdownTcp(1) [of X V _ _ c'])
      (use that X in \<open>simp_all add: dropWriteAndFree_def\<close>)
  let ?ms = "milliseconds (tcp_send_timeout_in_seconds (np_settings s))"
  show ?thesis
  proof (cases rule: uv_timer_start_cases [of t ?ms s])
    case (fail r k)
    then show ?thesis
      using bad [of T "s\<lparr>np_tick := k\<rparr>" c] core t phase T
      by (simp add: write_or_shutdown_def Let_def)
  next
    case (ok k)
    define s' where "s' = upd_tcp t (\<lambda>c. c\<lparr>t_timer_active := True\<rparr>) (s\<lparr>np_tick := k\<rparr>)"
    have core': "core X U s'" and t': "np_tcps s' t = Some (c\<lparr>t_timer_active := True\<rparr>)"
      unfolding s'_def using core t phase T by (auto intro!: core_timer_active [of X T])
    have coreY: "core Y U s'" using core' X by (rule_tac core_no_waiting [of X U s' "t_node c"]) (simp_all add: s'_def)
    show ?thesis
    proof (cases rule: uv_write_cases [of t bufs s'])
      case (fail r k')
      then show ?thesis
        using bad [of U "s'\<lparr>np_tick := k'\<rparr>" "c\<lparr>t_timer_active := True\<rparr>"] core' t' phase ok subset_insertI [of U t]
        by (simp add: write_or_shutdown_def Let_def s'_def)
    next
      case (ok k')
      have "tcp_conn (c\<lparr>t_timer_active := True\<rparr>)" using phase by (simp add: tcp_conn_def)
      from core_add_write [OF coreY t' this, of bufs] ok show ?thesis
        using \<open>uv_timer_start t ?ms s = _\<close> by (simp add: write_or_shutdown_def Let_def s'_def)
    qed
  qed
qed

section \<open>Connections coming up\<close>

lemma core_startup:
  assumes core: "core (insert (t_node c) X) T s" and t: "np_tcps s t = Some c" and c: "tcp_open c" "t \<notin> T"
    and un: "off_tables t s" "t \<notin> set (np_connects s)"
    and v: "valid (m_sockaddr (t_node c)) \<or> um_find (t_node c) (m_waitingSend s) = None"
    and w: "um_find (t_node c) (m_waitingSend s) = None \<or> um_find (t_node c) (m_node2stream s) = None"
  shows "core X T (startupTcpConnection t s)"
proof -
  have close: "core X T (ctcp_close t s)" if "um_find (t_node c) (m_waitingSend s) = None"
  proof -
    have "core X T s" using that by (intro core_no_waiting [OF core]) auto
    then show ?thesis using t un(1) by (rule core_close) (use c in auto)
  qed
  consider "\<not> valid (m_sockaddr (t_node c))" | "valid (m_sockaddr (t_node c))" "um_find (t_node c) (m_node2stream s) \<noteq> None"
    | "valid (m_sockaddr (t_node c))" "um_find (t_node c) (m_node2stream s) = None" by blast
  then show ?thesis
  proof cases
    case 1
    then show ?thesis using close v t by (simp add: startupTcpConnection_def)
  next
    case 2
    then show ?thesis using close w t by (auto simp: startupTcpConnection_def um_insert_old)
  next
    case 3
    define s1 where "s1 = emit (Cb_connectionStatus (t_node c) True) (s\<lparr>m_node2stream := (t_node c, t) # m_node2stream s\<rparr>)"
    have core1: "core (insert (t_node c) X) T s1"
      using core_insert_stream [OF core 3(2) un(2) t refl c(1)] by (simp add: s1_def)
    have eq: "startupTcpConnection t s
        = (let (writeInfo, s) = getWriteFromWaitingByNode (t_node c) s1
           in case writeInfo of None \<Rightarrow> s | Some bufs \<Rightarrow> write_or_shutdown t (t_node c) bufs s)"
      using 3 t by (simp add: startupTcpConnection_def um_insert_new s1_def)
    show ?thesis
    proof (cases rule: getWrite_cases [of "t_node c" s1])
      case none
      then have "core X T s1" by (intro core_no_waiting [OF core1]) auto
      then show ?thesis using none eq by simp
    next
      case (no_memory k)
      have "core X T (dropWaiting (t_node c) (s1\<lparr>np_tick := k\<rparr>))"
        by (rule core_dropWaiting [of "insert (t_node c) X"]) (use core1 in auto)
      then show ?thesis using no_memory eq by simp
    next
      case (ready k bufs)
      have "core X T (s1\<lparr>m_waitingSend := AList.delete (t_node c) (m_waitingSend s1)\<rparr>)"
        by (rule core_erase_waiting [OF core1]) auto
      then have "core X T (write_or_shutdown t (t_node c) bufs
          (mem_add 1 (s1\<lparr>m_waitingSend := AList.delete (t_node c) (m_waitingSend s1), np_tick := k\<rparr>)))"
        using t c by (intro core_write_or_shutdown [where c = c and T = T and X = X]) (auto simp: s1_def)
      then show ?thesis using ready eq by simp
    qed
  qed
qed

section \<open>New objects\<close>

definition new_tcp :: "ctcp \<Rightarrow> nat \<Rightarrow> np_pool \<Rightarrow> np_pool" where
  "new_tcp c k s = s\<lparr>np_tcps := (np_tcps s)(np_next s \<mapsto> c), np_next := Suc (np_next s),
     np_mem := np_mem s + 1, np_tick := k\<rparr>"

lemma new_tcp_fields [simp, np_frame]:
  "np_settings (new_tcp c k (s :: np_pool)) = np_settings s"
  "np_env (new_tcp c k (s :: np_pool)) = np_env s"
  "np_log (new_tcp c k (s :: np_pool)) = np_log s"
  "np_ub (new_tcp c k (s :: np_pool)) = np_ub s"
  "np_udps (new_tcp c k (s :: np_pool)) = np_udps s"
  "np_async (new_tcp c k (s :: np_pool)) = np_async s"
  "np_writes (new_tcp c k (s :: np_pool)) = np_writes s"
  "np_connects (new_tcp c k (s :: np_pool)) = np_connects s"
  "np_shutdowns (new_tcp c k (s :: np_pool)) = np_shutdowns s"
  "np_udp_sends (new_tcp c k (s :: np_pool)) = np_udp_sends s"
  "m_bWantExit (new_tcp c k (s :: np_pool)) = m_bWantExit s"
  "m_pendingBind (new_tcp c k (s :: np_pool)) = m_pendingBind s"
  "m_pendingSend (new_tcp c k (s :: np_pool)) = m_pendingSend s"
  "m_pendingClose (new_tcp c k (s :: np_pool)) = m_pendingClose s"
  "m_udpIndex (new_tcp c k (s :: np_pool)) = m_udpIndex s"
  "m_tcpServers (new_tcp c k (s :: np_pool)) = m_tcpServers s"
  "m_udpServers (new_tcp c k (s :: np_pool)) = m_udpServers s"
  "m_node2stream (new_tcp c k (s :: np_pool)) = m_node2stream s"
  "m_connecting (new_tcp c k (s :: np_pool)) = m_connecting s"
  "m_waitingSend (new_tcp c k (s :: np_pool)) = m_waitingSend s"
  by (simp_all add: new_tcp_def)

lemma new_tcp_next [simp]:
  "np_tcps (new_tcp c k s) = (np_tcps s)(np_next s \<mapsto> c)" "np_next (new_tcp c k s) = Suc (np_next s)"
  "np_mem (new_tcp c k s) = np_mem s + 1" "np_tick (new_tcp c k s) = k"
  by (simp_all add: new_tcp_def)

lemma upd_new_tcp: "upd_tcp (np_next s) f (new_tcp c k s) = new_tcp (f c) k s"
  by (simp add: upd_tcp_def new_tcp_def)

lemma tick_new_tcp: "(new_tcp c k s)\<lparr>np_tick := j\<rparr> = new_tcp c j s"
  by (simp add: new_tcp_def)

lemma core_fresh: "core X T s \<Longrightarrow> np_tcps s (np_next s) = None" "core X T s \<Longrightarrow> np_udps s (np_next s) = None"
  unfolding core_def objects_ok_def by (metis less_irrefl not_None_eq)+

lemma unref_fresh:
  assumes core: "core X T s" and t: "np_tcps s t = None"
  shows "unref t s"
  unfolding unref_def
proof (intro conjI allI notI)
  show False if "um_find n (m_node2stream s) = Some t" for n
    using core_stream [OF core that] t by auto
  show False if "um_find n (m_tcpServers s) = Some t" for n
    using core_server [OF core that] t by auto
  show False if "t \<in> set (np_connects s)"
    using core_connect [OF core that] t by auto
  show False if "t \<in> fst ` set (np_writes s)"
    using that t by (auto dest!: core_write [OF core])
  show False if "t \<in> set (np_shutdowns s)"
    using core_shutdown [OF core that] t by auto
qed

lemma core_new_tcp:
  assumes core: "core X T s"
  shows "core X (insert (np_next s) T) (new_tcp c k s)"
proof -
  have other: "tcp_is (new_tcp c k s) t P" if "tcp_is s t P" for t P
    using that core_fresh [OF core] by (auto simp: tcp_is_def)
  show ?thesis
    unfolding core_def
  proof (intro conjI)
    show "objects_ok (insert (np_next s) T) (new_tcp c k s)"
      using core by (auto simp: core_def objects_ok_def less_Suc_eq)
    show "streams_ok (new_tcp c k s)" using core other by (simp add: core_def streams_ok_def)
    show "servers_ok (new_tcp c k s)" using core other by (simp add: core_def servers_ok_def)
    show "connects_ok (new_tcp c k s)" using core other by (simp add: core_def connects_ok_def)
    show "requests_ok (new_tcp c k s)" using core other by (simp add: core_def requests_ok_def)
    show "waiting_ok X (new_tcp c k s)"
      using core other unfolding core_def waiting_ok_def by simp blast
    show "\<not> np_ub (new_tcp c k s)" "udp_servers_ok (new_tcp c k s)"
      using core unfolding core_def udp_servers_ok_def by simp_all
  qed
qed

lemma unref_new_tcp: "core X T s \<Longrightarrow> unref (np_next s) (new_tcp c k s)"
  using unref_fresh [OF _ core_fresh(1), of X T s X T] by (simp add: unref_def)

lemma set_tcp_cases: obtains r k where "set_tcp s = (r, s\<lparr>np_tick := k\<rparr>)"
proof -
  have "\<exists>k. snd (set_tcp s) = s\<lparr>np_tick := k\<rparr>"
    unfolding set_tcp_def env_ret_def Let_def by (simp split: if_split) blast
  then show ?thesis using that by (metis prod.collapse)
qed

definition tcp_fresh :: "bool \<Rightarrow> ctcp" where
  "tcp_fresh initTimer = tcp_new\<lparr>m_tcpInited := True, m_timerInited := initTimer\<rparr>"

lemma tcp_fresh_simps [simp]:
  "m_tcpInited (tcp_fresh b)" "m_timerInited (tcp_fresh b) = b" "\<not> m_closing (tcp_fresh b)"
  "\<not> m_shutdown (tcp_fresh b)" "t_node (tcp_fresh b) = node_default" "\<not> t_timer_active (tcp_fresh b)"
  "\<not> t_reading (tcp_fresh b)"
  by (simp_all add: tcp_fresh_def tcp_new_def)

lemma ctcp_alloc_cases:
  obtains (none) k where "ctcp_alloc b s = (None, s\<lparr>np_tick := k\<rparr>)"
  | (failed) c k where "\<not> m_closing c" "ctcp_alloc b s = (None, ctcp_close (np_next s) (new_tcp c k s))"
  | (ok) k where "ctcp_alloc b s = (Some (np_next s), new_tcp (tcp_fresh b) k s)"
proof (cases "np_env s (np_tick s) Call_malloc = 0")
  case False
  show ?thesis by (rule none [of "Suc (np_tick s)"]) (simp add: ctcp_alloc_def env_ret_def False)
next
  case malloc: True
  let ?k = "Suc (np_tick s)"
  let ?t = "np_next s"
  have step1: "ctcp_alloc b s = (let (r, u) = env_ret Call_uv_tcp_init (new_tcp tcp_new ?k s) in
      if r \<noteq> 0 then (None, ctcp_close ?t u)
      else let u = upd_tcp ?t (\<lambda>c. c\<lparr>m_tcpInited := True\<rparr>) u;
               (r, u) = (if b then env_ret Call_uv_timer_init u else (0, u))
           in if r \<noteq> 0 then (None, ctcp_close ?t u)
              else let u = (if b then upd_tcp ?t (\<lambda>c. c\<lparr>m_timerInited := True\<rparr>) u else u);
                       (ok, u) = set_tcp u
                   in if \<not> ok then (None, ctcp_close ?t u) else (Some ?t, u))"
    using malloc by (simp add: ctcp_alloc_def env_ret_def Let_def new_tcp_def mem_add_def cong: if_cong)
  show ?thesis
  proof (cases "np_env s ?k Call_uv_tcp_init = 0")
    case False
    show ?thesis
      by (rule failed [of tcp_new "Suc ?k"]) (use False in \<open>simp_all add: step1 env_ret_def tick_new_tcp tcp_new_def\<close>)
  next
    case init: True
    let ?c = "tcp_new\<lparr>m_tcpInited := True\<rparr>"
    show ?thesis
    proof (cases "b \<and> np_env s (Suc ?k) Call_uv_timer_init \<noteq> 0")
      case True
      then have "ctcp_alloc b s = (None, ctcp_close ?t (new_tcp ?c (Suc (Suc ?k)) s))"
        unfolding step1 using init by (simp add: env_ret_def tick_new_tcp upd_new_tcp)
      then show ?thesis by (rule failed [rotated]) (simp add: tcp_new_def)
    next
      case False
      define j where "j = (if b then Suc (Suc ?k) else Suc ?k)"
      have step2: "ctcp_alloc b s = (let (ok, s') = set_tcp (new_tcp (tcp_fresh b) j s) in
          if \<not> ok then (None, ctcp_close (np_next s) s') else (Some (np_next s), s'))"
        unfolding step1 using init False
        by (cases b; cases rule: set_tcp_cases [of "new_tcp (tcp_fresh b) j s"])
          (simp_all add: env_ret_def tick_new_tcp upd_new_tcp tcp_fresh_def j_def tcp_new_def)
      show ?thesis
      proof (cases rule: set_tcp_cases [of "new_tcp (tcp_fresh b) j s"])
        case (1 r k)
        show ?thesis
        proof (cases r)
          case True
          show ?thesis by (rule ok [of k]) (simp add: step2 1 True tick_new_tcp)
        next
          case False
          show ?thesis by (rule failed [of "tcp_fresh b" k]) (simp_all add: step2 1 False tick_new_tcp)
        qed
      qed
    qed
  qed
qed

lemma core_new_close:
  assumes "core X T s" and "\<not> m_closing c"
  shows "core X T (ctcp_close (np_next s) (new_tcp c k s))"
  by (rule core_close [OF core_new_tcp [OF assms(1)]])
    (use assms off_tables_unref [OF core_new_tcp [OF assms(1)] unref_new_tcp [OF assms(1)]] in auto)

text \<open>Giving a new object its node and starting its timer.\<close>

lemma core_new_upd:
  assumes core: "core X T s" and "tcp_settled c"
  shows "core X T (new_tcp c k s)"
proof -
  have "core X T (upd_tcp (np_next s) (\<lambda>_. c) (new_tcp c k s))"
    by (rule core_upd [OF core_new_tcp [OF core]])
      (use assms may_become_unref [OF core_new_tcp [OF core] unref_new_tcp [OF core]] in auto)
  then show ?thesis by (simp add: upd_new_tcp)
qed


lemma mem_add_normal:
  "mem_add i (mem_add j s) = mem_add (i + j) s" "mem_add 0 s = s"
  "(mem_add i s)\<lparr>np_tick := k\<rparr> = mem_add i (s\<lparr>np_tick := k\<rparr>)"
  "upd_tcp t f (mem_add i s) = mem_add i (upd_tcp t f s)"
  "new_tcp c k (mem_add i s) = mem_add i (new_tcp c k s)" "new_tcp c k (s\<lparr>np_tick := l\<rparr>) = new_tcp c k s"
  "ctcp_close t (mem_add i s) = mem_add i (ctcp_close t s)"
  by (auto simp: mem_add_def upd_tcp_def new_tcp_def ctcp_close_def delete_tcp_def undefined_behaviour_def
      split: option.split)

lemma connectTcp_cases:
  obtains (none) k where "connectTcp node s = (None, s\<lparr>np_tick := k\<rparr>)"
  | (failed) c k where "\<not> m_closing c" "connectTcp node s = (None, ctcp_close (np_next s) (new_tcp c k s))"
  | (ok) j k where "np_env s j (Call_uv_tcp_connect (m_sockaddr node)) = 0" "m_protocol node = Protocol_tcp"
      "connectTcp node s = (Some (np_next s),
         (mem_add 1 (new_tcp ((tcp_fresh True)\<lparr>t_node := node, t_timer_active := True\<rparr>) k s))
           \<lparr>np_connects := np_next s # np_connects s\<rparr>)"
proof (cases "m_protocol node = Protocol_tcp")
  case False
  show ?thesis by (rule none [of "np_tick s"]) (simp add: connectTcp_def False)
next
  case proto: True
  show ?thesis
  proof (cases "np_env s (np_tick s) Call_malloc = 0")
    case False
    show ?thesis by (rule none [of "Suc (np_tick s)"]) (simp add: connectTcp_def env_ret_def False proto)
  next
    case malloc: True
    let ?s1 = "mem_add 1 (s\<lparr>np_tick := Suc (np_tick s)\<rparr>)"
    show ?thesis
    proof (cases rule: ctcp_alloc_cases [of True ?s1])
      case (none k)
      show ?thesis
        by (rule that(1) [of k])
          (simp add: connectTcp_def env_ret_def malloc proto none Let_def mem_add_normal)
    next
      case (failed c k)
      show ?thesis
        by (rule that(2) [of c k])
          (simp_all add: connectTcp_def env_ret_def malloc proto failed Let_def mem_add_normal)
    next
      case (ok k)
      let ?c = "(tcp_fresh True)\<lparr>t_node := node\<rparr>"
      have upd: "upd_tcp (np_next s) (\<lambda>c. c\<lparr>t_node := node\<rparr>) (new_tcp (tcp_fresh True) k s) = new_tcp ?c k s"
        by (simp add: upd_new_tcp)
      let ?ms = "milliseconds (tcp_connect_timeout_in_seconds (np_settings s))"
      show ?thesis
      proof (cases "np_env s k (Call_uv_timer_start ?ms) = 0")
        case False
        show ?thesis
          by (rule that(2) [of ?c "Suc k"])
            (simp_all add: connectTcp_def env_ret_def malloc proto ok Let_def mem_add_normal upd
               uv_timer_start_def False tick_new_tcp)
      next
        case timer: True
        show ?thesis
        proof (cases "np_env s (Suc k) (Call_uv_tcp_connect (m_sockaddr node)) = 0")
          case False
          show ?thesis
            by (rule that(2) [of "?c\<lparr>t_timer_active := True\<rparr>" "Suc (Suc k)"])
              (simp_all add: connectTcp_def env_ret_def malloc proto ok Let_def mem_add_normal upd
                 uv_timer_start_def False timer tick_new_tcp upd_new_tcp)
        next
          case True
          show ?thesis
            by (rule that(3) [of "Suc k" "Suc (Suc k)"])
              (simp_all add: connectTcp_def env_ret_def malloc proto ok Let_def mem_add_normal upd True
                 uv_timer_start_def timer tick_new_tcp upd_new_tcp)
        qed
      qed
    qed
  qed
qed

lemma core_connectTcp:
  assumes core: "core X T s" and law: "\<forall>k a. \<not> valid a \<longrightarrow> np_env s k (Call_uv_tcp_connect a) \<noteq> 0"
    and res: "connectTcp node s = (r, s')"
  shows "core X T s' \<and> m_node2stream s' = m_node2stream s \<and> (\<forall>t. r = Some t \<longrightarrow> t \<in> set (np_connects s')
    \<and> (\<exists>c. np_tcps s' t = Some c \<and> \<not> m_closing c \<and> t_node c = node))"
proof (cases rule: connectTcp_cases [of node s])
  case (none k)
  then show ?thesis using res core by auto
next
  case (failed c k)
  then show ?thesis using res core_new_close [OF core] by auto
next
  case (ok j k)
  let ?c = "(tcp_fresh True)\<lparr>t_node := node, t_timer_active := True\<rparr>"
  have "core X T (mem_add 1 (new_tcp ?c k s))"
    using core by (simp add: core_new_upd tcp_settled_def)
  then have "core X T ((mem_add 1 (new_tcp ?c k s))\<lparr>np_connects := np_next s # np_connects (mem_add 1 (new_tcp ?c k s))\<rparr>)"
    by (rule core_add_connect [where c = ?c])
      (use law ok(1) unref_new_tcp [OF core] in \<open>auto simp: tcp_conn_def\<close>)
  then show ?thesis using ok res by auto
qed

lemma bindAndListenTcp_cases:
  obtains (none) k where "bindAndListenTcp node s = (None, s\<lparr>np_tick := k\<rparr>)"
  | (failed) c k where "\<not> m_closing c" "bindAndListenTcp node s = (None, ctcp_close (np_next s) (new_tcp c k s))"
  | (ok) k where "m_protocol node = Protocol_tcp"
      "bindAndListenTcp node s = (Some (np_next s), new_tcp ((tcp_fresh False)\<lparr>t_node := node\<rparr>) k s)"
proof (cases "m_protocol node = Protocol_tcp")
  case False
  show ?thesis by (rule none [of "np_tick s"]) (simp add: bindAndListenTcp_def False)
next
  case proto: True
  show ?thesis
  proof (cases rule: ctcp_alloc_cases [of False s])
    case (none k)
    show ?thesis by (rule that(1) [of k]) (simp add: bindAndListenTcp_def proto none)
  next
    case (failed c k)
    show ?thesis by (rule that(2) [of c k]) (simp_all add: bindAndListenTcp_def proto failed)
  next
    case (ok k)
    let ?c = "(tcp_fresh False)\<lparr>t_node := node\<rparr>"
    have upd: "upd_tcp (np_next s) (\<lambda>c. c\<lparr>t_node := node\<rparr>) (new_tcp (tcp_fresh False) k s) = new_tcp ?c k s"
      by (simp add: upd_new_tcp)
    note defs = bindAndListenTcp_def env_ret_def proto ok Let_def upd tick_new_tcp
    show ?thesis
    proof (cases "np_env s k (Call_uv_tcp_bind (m_sockaddr node)) = 0")
      case False
      show ?thesis by (rule that(2) [of ?c "Suc k"]) (simp_all add: defs False)
    next
      case bind: True
      show ?thesis
      proof (cases "np_env s (Suc k) (Call_uv_listen (tcp_backlog (np_settings s))) = 0")
        case False
        show ?thesis by (rule that(2) [of ?c "Suc (Suc k)"]) (simp_all add: defs bind False)
      next
        case True
        show ?thesis by (rule that(3) [of "Suc (Suc k)"]) (simp_all add: defs bind True)
      qed
    qed
  qed
qed

lemma core_bindAndListenTcp:
  assumes core: "core X T s" and res: "bindAndListenTcp node s = (r, s')"
  shows "core X T s' \<and> m_tcpServers s' = m_tcpServers s \<and> (\<forall>t. r = Some t \<longrightarrow>
    (\<exists>c. np_tcps s' t = Some c \<and> t_node c = node \<and> tcp_server c))"
proof (cases rule: bindAndListenTcp_cases [of node s])
  case (none k)
  then show ?thesis using res core by auto
next
  case (failed c k)
  then show ?thesis using res core_new_close [OF core] by auto
next
  case (ok k)
  have "core X T (new_tcp ((tcp_fresh False)\<lparr>t_node := node\<rparr>) k s)"
    using core by (simp add: core_new_upd tcp_settled_def)
  then show ?thesis using ok res by (auto simp: tcp_server_def)
qed

section \<open>UDP\<close>

lemma upd_udp_fields [simp, np_frame]:
  "np_settings (upd_udp u f (s :: np_pool)) = np_settings s"
  "np_env (upd_udp u f (s :: np_pool)) = np_env s"
  "np_tick (upd_udp u f (s :: np_pool)) = np_tick s"
  "np_log (upd_udp u f (s :: np_pool)) = np_log s"
  "np_mem (upd_udp u f (s :: np_pool)) = np_mem s"
  "np_next (upd_udp u f (s :: np_pool)) = np_next s"
  "np_tcps (upd_udp u f (s :: np_pool)) = np_tcps s"
  "np_async (upd_udp u f (s :: np_pool)) = np_async s"
  "np_writes (upd_udp u f (s :: np_pool)) = np_writes s"
  "np_connects (upd_udp u f (s :: np_pool)) = np_connects s"
  "np_shutdowns (upd_udp u f (s :: np_pool)) = np_shutdowns s"
  "np_udp_sends (upd_udp u f (s :: np_pool)) = np_udp_sends s"
  "m_bWantExit (upd_udp u f (s :: np_pool)) = m_bWantExit s"
  "m_pendingBind (upd_udp u f (s :: np_pool)) = m_pendingBind s"
  "m_pendingSend (upd_udp u f (s :: np_pool)) = m_pendingSend s"
  "m_pendingClose (upd_udp u f (s :: np_pool)) = m_pendingClose s"
  "m_udpIndex (upd_udp u f (s :: np_pool)) = m_udpIndex s"
  "m_tcpServers (upd_udp u f (s :: np_pool)) = m_tcpServers s"
  "m_udpServers (upd_udp u f (s :: np_pool)) = m_udpServers s"
  "m_node2stream (upd_udp u f (s :: np_pool)) = m_node2stream s"
  "m_connecting (upd_udp u f (s :: np_pool)) = m_connecting s"
  "m_waitingSend (upd_udp u f (s :: np_pool)) = m_waitingSend s"
  by (simp_all add: upd_udp_def undefined_behaviour_def split: option.split)

lemma delete_udp_fields [simp, np_frame]:
  "np_settings (delete_udp u (s :: np_pool)) = np_settings s"
  "np_env (delete_udp u (s :: np_pool)) = np_env s"
  "np_tick (delete_udp u (s :: np_pool)) = np_tick s"
  "np_log (delete_udp u (s :: np_pool)) = np_log s"
  "np_ub (delete_udp u (s :: np_pool)) = np_ub s"
  "np_next (delete_udp u (s :: np_pool)) = np_next s"
  "np_tcps (delete_udp u (s :: np_pool)) = np_tcps s"
  "np_async (delete_udp u (s :: np_pool)) = np_async s"
  "np_writes (delete_udp u (s :: np_pool)) = np_writes s"
  "np_connects (delete_udp u (s :: np_pool)) = np_connects s"
  "np_shutdowns (delete_udp u (s :: np_pool)) = np_shutdowns s"
  "np_udp_sends (delete_udp u (s :: np_pool)) = np_udp_sends s"
  "m_bWantExit (delete_udp u (s :: np_pool)) = m_bWantExit s"
  "m_pendingBind (delete_udp u (s :: np_pool)) = m_pendingBind s"
  "m_pendingSend (delete_udp u (s :: np_pool)) = m_pendingSend s"
  "m_pendingClose (delete_udp u (s :: np_pool)) = m_pendingClose s"
  "m_udpIndex (delete_udp u (s :: np_pool)) = m_udpIndex s"
  "m_tcpServers (delete_udp u (s :: np_pool)) = m_tcpServers s"
  "m_udpServers (delete_udp u (s :: np_pool)) = m_udpServers s"
  "m_node2stream (delete_udp u (s :: np_pool)) = m_node2stream s"
  "m_connecting (delete_udp u (s :: np_pool)) = m_connecting s"
  "m_waitingSend (delete_udp u (s :: np_pool)) = m_waitingSend s"
  by (simp_all add: delete_udp_def)

lemma upd_udp_some [simp]:
  "np_udps s u = Some c \<Longrightarrow> np_udps (upd_udp u f s) = (np_udps s)(u \<mapsto> f c)"
  "np_udps s u = Some c \<Longrightarrow> np_ub (upd_udp u f s) = np_ub s"
  by (simp_all add: upd_udp_def)

lemma delete_udp_udps [simp]: "np_udps (delete_udp u s) = (np_udps s)(u := None)"
  by (simp add: delete_udp_def mem_add_def)

lemma tcp_is_udp [simp]: "tcp_is (upd_udp u f s) t P = tcp_is s t P" "tcp_is (delete_udp u s) t P = tcp_is s t P"
  by (simp_all add: tcp_is_def)

lemma core_udp_only:
  assumes core: "core X T s" and same: "\<And>t P. tcp_is s' t P = tcp_is s t P"
    and fields: "np_ub s' = np_ub s" "np_tcps s' = np_tcps s" "np_writes s' = np_writes s"
      "np_connects s' = np_connects s" "np_shutdowns s' = np_shutdowns s" "m_tcpServers s' = m_tcpServers s"
      "m_node2stream s' = m_node2stream s" "m_connecting s' = m_connecting s" "m_waitingSend s' = m_waitingSend s"
    and nxt: "np_next s \<le> np_next s'" and udps: "\<And>u c. np_udps s' u = Some c \<Longrightarrow> u < np_next s' \<and> u_inited c"
    and sends: "\<And>req. req \<in> set (np_udp_sends s') \<Longrightarrow> np_udps s' (fst req) \<noteq> None" and servers: "udp_servers_ok s'"
  shows "core X T s'"
  unfolding core_def
proof (intro conjI)
  show "objects_ok T s'"
    unfolding objects_ok_def
    using udps core_object [OF core] nxt by (auto simp: fields) (meson less_le_trans)
  show "\<not> np_ub s'" "streams_ok s'" "servers_ok s'" "connects_ok s'" "waiting_ok X s'"
    using core by (simp_all add: core_def fields streams_ok_def servers_ok_def connects_ok_def waiting_ok_def same)
  show "requests_ok s'"
    using core sends by (simp add: core_def requests_ok_def fields same)
  show "udp_servers_ok s'" by (rule servers)
qed

lemma core_udp_object: "core X T s \<Longrightarrow> np_udps s u = Some c \<Longrightarrow> u < np_next s \<and> u_inited c"
  by (simp add: core_def objects_ok_def)

lemma core_upd_udp:
  assumes core: "core X T s" and u: "np_udps s u = Some c" and inited: "u_inited (f c)"
    and off: "u \<notin> set (m_udpServers s)"
  shows "core X T (upd_udp u f s)"
proof (rule core_udp_only [OF core])
  show "udp_servers_ok (upd_udp u f s)"
    using core u off by (auto simp: core_def udp_servers_ok_def)
  show "np_udps (upd_udp u f s) (fst req) \<noteq> None" if "req \<in> set (np_udp_sends (upd_udp u f s))" for req
    using that core_udp_send [OF core, of req] u by auto
qed (use core_udp_object [OF core] u inited in \<open>auto split: if_splits\<close>)

lemma core_delete_udp:
  assumes core: "core X T s" and off: "u \<notin> set (m_udpServers s)" "u \<notin> fst ` set (np_udp_sends s)"
    and u: "np_udps s u = Some c"
  shows "core X T (delete_udp u s)"
proof (rule core_udp_only [OF core])
  show "udp_servers_ok (delete_udp u s)"
    using core off by (auto simp: core_def udp_servers_ok_def)
  show "np_udps (delete_udp u s) (fst req) \<noteq> None" if "req \<in> set (np_udp_sends (delete_udp u s))" for req
    using that core_udp_send [OF core, of req] off by auto
qed (use core_udp_object [OF core] in \<open>auto split: if_splits\<close>)

lemma core_cudp_close:
  assumes core: "core X T s" and u: "np_udps s u = Some c" and off: "u \<notin> set (m_udpServers s)"
  shows "core X T (cudp_close u s)"
  using core_upd_udp [OF core u, of "\<lambda>c. c\<lparr>u_closing := True\<rparr>"] core_udp_object [OF core u] core u off
  by (simp add: cudp_close_def)

definition new_udp :: "cudp \<Rightarrow> nat \<Rightarrow> np_pool \<Rightarrow> np_pool" where
  "new_udp c k s = s\<lparr>np_udps := (np_udps s)(np_next s \<mapsto> c), np_next := Suc (np_next s),
     np_mem := np_mem s + 1, np_tick := k\<rparr>"

lemma new_udp_fields [simp, np_frame]:
  "np_settings (new_udp c k (s :: np_pool)) = np_settings s"
  "np_env (new_udp c k (s :: np_pool)) = np_env s"
  "np_log (new_udp c k (s :: np_pool)) = np_log s"
  "np_ub (new_udp c k (s :: np_pool)) = np_ub s"
  "np_tcps (new_udp c k (s :: np_pool)) = np_tcps s"
  "np_async (new_udp c k (s :: np_pool)) = np_async s"
  "np_writes (new_udp c k (s :: np_pool)) = np_writes s"
  "np_connects (new_udp c k (s :: np_pool)) = np_connects s"
  "np_shutdowns (new_udp c k (s :: np_pool)) = np_shutdowns s"
  "np_udp_sends (new_udp c k (s :: np_pool)) = np_udp_sends s"
  "m_bWantExit (new_udp c k (s :: np_pool)) = m_bWantExit s"
  "m_pendingBind (new_udp c k (s :: np_pool)) = m_pendingBind s"
  "m_pendingSend (new_udp c k (s :: np_pool)) = m_pendingSend s"
  "m_pendingClose (new_udp c k (s :: np_pool)) = m_pendingClose s"
  "m_udpIndex (new_udp c k (s :: np_pool)) = m_udpIndex s"
  "m_tcpServers (new_udp c k (s :: np_pool)) = m_tcpServers s"
  "m_udpServers (new_udp c k (s :: np_pool)) = m_udpServers s"
  "m_node2stream (new_udp c k (s :: np_pool)) = m_node2stream s"
  "m_connecting (new_udp c k (s :: np_pool)) = m_connecting s"
  "m_waitingSend (new_udp c k (s :: np_pool)) = m_waitingSend s"
  by (simp_all add: new_udp_def)

lemma new_udp_next [simp]:
  "np_udps (new_udp c k s) = (np_udps s)(np_next s \<mapsto> c)" "np_next (new_udp c k s) = Suc (np_next s)"
  "np_mem (new_udp c k s) = np_mem s + 1" "np_tick (new_udp c k s) = k"
  by (simp_all add: new_udp_def)

lemma upd_new_udp: "upd_udp (np_next s) f (new_udp c k s) = new_udp (f c) k s"
  by (simp add: upd_udp_def new_udp_def)

lemma tick_new_udp: "(new_udp c k s)\<lparr>np_tick := j\<rparr> = new_udp c j s"
  by (simp add: new_udp_def)

lemma core_udp_server_old: "core X T s \<Longrightarrow> np_next s \<notin> set (m_udpServers s)"
  using core_udp_server [of X T s "np_next s"] core_fresh(2) [of X T s] by auto

lemma core_new_udp:
  assumes core: "core X T s" and c: "u_inited c"
  shows "core X T (new_udp c k s)"
proof (rule core_udp_only [OF core])
  show "udp_servers_ok (new_udp c k s)"
    using core core_udp_server_old [OF core] by (auto simp: core_def udp_servers_ok_def)
  show "np_udps (new_udp c k s) (fst req) \<noteq> None" if "req \<in> set (np_udp_sends (new_udp c k s))" for req
    using that core_udp_send [OF core, of req] by auto
qed (use core_udp_object [OF core] c in \<open>auto simp: tcp_is_def less_Suc_eq split: if_splits\<close>)

lemma cudp_alloc_cases:
  obtains (none) k where "cudp_alloc s = (None, s\<lparr>np_tick := k\<rparr>)"
  | (failed) c k where "cudp_alloc s = (None, delete_udp (np_next s) (new_udp c k s))"
  | (ok) k where "cudp_alloc s = (Some (np_next s),
      new_udp \<lparr>u_inited = True, u_closing = False, u_node = node_default\<rparr> k s)"
proof (cases "np_env s (np_tick s) Call_malloc = 0")
  case False
  show ?thesis by (rule none [of "Suc (np_tick s)"]) (simp add: cudp_alloc_def env_ret_def False)
next
  case malloc: True
  let ?k = "Suc (np_tick s)" and ?c = "\<lparr>u_inited = False, u_closing = False, u_node = node_default\<rparr>"
  have step1: "cudp_alloc s = (let (r, u) = env_ret Call_uv_udp_init (new_udp ?c ?k s) in
      if r \<noteq> 0 then (None, delete_udp (np_next s) u)
      else let u = upd_udp (np_next s) (\<lambda>c. c\<lparr>u_inited := True\<rparr>) u; (ok, u) = set_udp u
           in if \<not> ok then (None, cudp_close (np_next s) u) else (Some (np_next s), u))"
    using malloc by (simp add: cudp_alloc_def env_ret_def Let_def new_udp_def mem_add_def cong: if_cong)
  show ?thesis
  proof (cases "np_env s ?k Call_uv_udp_init = 0")
    case False
    show ?thesis by (rule failed [of ?c "Suc ?k"]) (simp add: step1 env_ret_def tick_new_udp False)
  next
    case True
    show ?thesis
      by (rule ok [of "Suc (Suc ?k)"])
        (simp add: step1 env_ret_def tick_new_udp upd_new_udp set_udp_def True)
  qed
qed

lemma bindAndListenUdp_cases:
  obtains (none) k where "bindAndListenUdp node s = (None, s\<lparr>np_tick := k\<rparr>)"
  | (failed) c k where "bindAndListenUdp node s = (None, delete_udp (np_next s) (new_udp c k s))"
  | (closed) c k where "u_inited c" "bindAndListenUdp node s = (None, cudp_close (np_next s) (new_udp c k s))"
  | (ok) k where "m_protocol node = Protocol_udp"
      "bindAndListenUdp node s = (Some (np_next s), new_udp \<lparr>u_inited = True, u_closing = False, u_node = node\<rparr> k s)"
proof (cases "m_protocol node = Protocol_udp")
  case False
  show ?thesis by (rule none [of "np_tick s"]) (simp add: bindAndListenUdp_def False)
next
  case proto: True
  show ?thesis
  proof (cases rule: cudp_alloc_cases [of s])
    case (none k)
    show ?thesis by (rule that(1) [of k]) (simp add: bindAndListenUdp_def proto none)
  next
    case (failed c k)
    show ?thesis by (rule that(2) [of c k]) (simp add: bindAndListenUdp_def proto failed)
  next
    case (ok k)
    let ?c = "\<lparr>u_inited = True, u_closing = False, u_node = node\<rparr>"
    note defs = bindAndListenUdp_def env_ret_def proto ok Let_def upd_new_udp tick_new_udp
    show ?thesis
    proof (cases "np_env s k (Call_uv_udp_bind (m_sockaddr node)) = 0")
      case False
      show ?thesis by (rule that(3) [of ?c "Suc k"]) (simp_all add: defs False)
    next
      case bind: True
      show ?thesis
      proof (cases "np_env s (Suc k) Call_uv_udp_recv_start = 0")
        case False
        show ?thesis by (rule that(3) [of ?c "Suc (Suc k)"]) (simp_all add: defs bind False)
      next
        case True
        show ?thesis by (rule that(4) [of "Suc (Suc k)"]) (simp_all add: defs bind True)
      qed
    qed
  qed
qed

lemma delete_new_udp:
  assumes core: "core X T s"
  shows "core X T (delete_udp (np_next s) (new_udp c k s))"
proof (rule core_udp_only [OF core])
  have fresh: "np_udps s (np_next s) = None" using core by (rule core_fresh)
  show "np_udps (delete_udp (np_next s) (new_udp c k s)) (fst req) \<noteq> None"
    if "req \<in> set (np_udp_sends (delete_udp (np_next s) (new_udp c k s)))" for req
    using that core_udp_send [OF core, of req] fresh by auto
  show "udp_servers_ok (delete_udp (np_next s) (new_udp c k s))"
    using core fresh by (auto simp: core_def udp_servers_ok_def)
qed (use core_udp_object [OF core] in \<open>auto simp: tcp_is_def less_Suc_eq split: if_splits\<close>)

lemma core_bindAndListenUdp:
  assumes core: "core X T s" and res: "bindAndListenUdp node s = (r, s')"
  shows "core X T s' \<and> m_udpServers s' = m_udpServers s \<and> (\<forall>u\<in>set (m_udpServers s). np_udps s' u = np_udps s u)
    \<and> (\<forall>u. r = Some u \<longrightarrow> u \<notin> set (m_udpServers s) \<and> m_protocol node = Protocol_udp
        \<and> np_udps s' u = Some \<lparr>u_inited = True, u_closing = False, u_node = node\<rparr>)"
proof (cases rule: bindAndListenUdp_cases [of node s])
  case (none k)
  then show ?thesis using res core by auto
next
  case (failed c k)
  then show ?thesis using res delete_new_udp [OF core] core_udp_server_old [OF core] by auto
next
  case (closed c k)
  have "core X T s'"
    using closed res core_cudp_close [OF core_new_udp [OF core, of c k]] core_udp_server_old [OF core] by auto
  then show ?thesis using closed res core_udp_server_old [OF core] by (auto simp: cudp_close_def)
next
  case (ok k)
  then show ?thesis using res core_new_udp [OF core] core_udp_server_old [OF core] by auto
qed

end
