(* ===== verification/Pool_Steps.thy ===== *)
theory Pool_Steps
  imports Pool_Operations
begin

text \<open>
  The callbacks of the internal thread keep the invariant, and the transition system they
  form: \<open>np_step\<close> has one rule per thing that can happen next, and \<open>np_reach\<close> the
  states a pool can get into.
\<close>

section \<open>The answers of the environment are not changed\<close>

lemma env_calls [simp, np_frame]:
  "np_env (snd (env_ret e (s :: np_pool))) = np_env s" "np_env (snd (uv_timer_start t ms s)) = np_env s"
  "np_env (snd (uv_read_start t s)) = np_env s" "np_env (snd (uv_write t bufs s)) = np_env s"
  by (simp_all add: env_ret_def uv_timer_start_def uv_read_start_def uv_write_def)

lemma env_shutdown_and_close [simp, np_frame]: "np_env (ctcp_shutdown_and_close t (s :: np_pool)) = np_env s"
  by (simp add: ctcp_shutdown_and_close_def env_ret_def undefined_behaviour_def Let_def split: option.split)

lemma env_shutdownTcp [simp, np_frame]: "np_env (shutdownTcpConnection t a b s) = np_env s"
  by (simp add: shutdownTcpConnection_def um_erase_def undefined_behaviour_def Let_def split: option.split)

lemma env_write_or_shutdown [simp, np_frame]: "np_env (write_or_shutdown t n bufs s) = np_env s"
  by (simp add: write_or_shutdown_def uv_timer_start_def uv_write_def env_ret_def dropWriteAndFree_def Let_def
      split: prod.split)

lemma env_getWrite [simp, np_frame]: "np_env (snd (getWriteFromWaitingByNode n s)) = np_env s"
  by (cases rule: getWrite_cases [of n s]) simp_all

lemma env_startup [simp, np_frame]: "np_env (startupTcpConnection t s) = np_env s"
proof -
  have "np_env (case getWriteFromWaitingByNode n s' of (None, s) \<Rightarrow> s | (Some b, s) \<Rightarrow> write_or_shutdown t n b s) = np_env s'"
    for n s' by (cases rule: getWrite_cases [of n s']) simp_all
  then show ?thesis
    by (simp add: startupTcpConnection_def undefined_behaviour_def Let_def um_insert_def split: option.split)
qed

lemma env_reset_idle [simp, np_frame]: "np_env (reset_tcp_idle_timeout t s) = np_env s"
  by (simp add: reset_tcp_idle_timeout_def uv_timer_start_def env_ret_def Let_def)

lemma env_bind_tcp [simp, np_frame]: "np_env (snd (bindAndListenTcp n s)) = np_env s"
  by (cases rule: bindAndListenTcp_cases [of n s]) simp_all

lemma env_connect [simp, np_frame]: "np_env (snd (connectTcp n s)) = np_env s"
  by (cases rule: connectTcp_cases [of n s]) simp_all

lemma env_udp_close [simp, np_frame]: "np_env (cudp_close u (s :: np_pool)) = np_env s"
  by (simp add: cudp_close_def undefined_behaviour_def split: option.split)

lemma env_bind_udp [simp, np_frame]: "np_env (snd (bindAndListenUdp n s)) = np_env s"
  by (cases rule: bindAndListenUdp_cases [of n s]) simp_all

lemma env_new_connection: "np_env (on_new_connection server status peer len s) = np_env s"
proof (cases rule: ctcp_alloc_cases [of True s])
  case (ok k)
  then show ?thesis
    by (simp add: on_new_connection_def uv_timer_start_def uv_read_start_def env_ret_def undefined_behaviour_def
        Let_def split: option.split prod.split)
qed (simp_all add: on_new_connection_def undefined_behaviour_def split: option.split)

lemma env_callbacks:
  "np_env (tcp_alloc_buffer t s) = np_env s" "np_env (on_tcp_timeout t s) = np_env s"
  "np_env (on_tcp_read t nread data s) = np_env s" "np_env (on_tcp_write_done req status s) = np_env s"
  "np_env (on_connect_done t status s) = np_env s"
  "np_env (udp_alloc_buffer u s) = np_env s" "np_env (on_udp_recv u nread data addr s) = np_env s"
  "np_env (on_udp_send_done ureq status s) = np_env s"
  "np_env (on_tcp_closed t s) = np_env s" "np_env (on_timer_closed t s) = np_env s"
  "np_env (on_udp_closed u s) = np_env s" "np_env (on_shutdown_done t s) = np_env s"
  "np_env (on_async_closed s) = np_env s"
  by (simp_all add: tcp_alloc_buffer_def on_tcp_timeout_def on_tcp_read_def on_tcp_write_done_def on_connect_done_def
      udp_alloc_buffer_def on_udp_recv_def on_udp_send_done_def on_tcp_closed_def on_timer_closed_def
      on_udp_closed_def on_shutdown_done_def on_async_closed_def undefined_behaviour_def mem_add_def [of _ "_\<lparr>np_async := _\<rparr>"]
      uv_timer_start_def uv_read_start_def env_ret_def Let_def split: option.split prod.split)

section \<open>Callbacks\<close>

lemma core_restart_timer:
  assumes core: "core {} {} s" and t: "np_tcps s t = Some c" and c: "m_tcpInited c" "m_timerInited c" "\<not> m_closing c"
  shows "core {} {} (reset_tcp_idle_timeout t s)"
proof -
  let ?s1 = "s\<lparr>np_tick := Suc (np_tick s)\<rparr>"
  let ?ms = "milliseconds (tcp_idle_timeout_in_seconds (np_settings s))"
  have eq: "reset_tcp_idle_timeout t s = (if np_env s (np_tick s) Call_write_queue_size = 0
      then let (r, s) = uv_timer_start t ?ms ?s1 in if r \<noteq> 0 then shutdownTcpConnection t False False s else s
      else ?s1)"
    by (simp add: reset_tcp_idle_timeout_def env_ret_def)
  show ?thesis
  proof (cases rule: uv_timer_start_cases [of t ?ms ?s1])
    case (fail r k)
    have "core {} {} (shutdownTcpConnection t False False (?s1\<lparr>np_tick := k\<rparr>))"
      using core t c by (intro core_shutdownTcp(1) [of "{}" "{}" _ _ c]) auto
    then show ?thesis using fail core by (simp add: eq)
  next
    case (ok k)
    have "core {} {} (upd_tcp t (\<lambda>c. c\<lparr>t_timer_active := True\<rparr>) (?s1\<lparr>np_tick := k\<rparr>))"
      using core t c by (intro core_timer_active [of "{}" "{}" _ _ c]) auto
    then show ?thesis using ok core by (simp add: eq)
  qed
qed

lemma core_timeout:
  assumes core: "core {} {} s" and t: "np_tcps s t = Some c" and c: "t_timer_active c"
  shows "core {} {} (on_tcp_timeout t (upd_tcp t (\<lambda>c. c\<lparr>t_timer_active := False\<rparr>) s))"
proof -
  let ?f = "\<lambda>c. c\<lparr>t_timer_active := False\<rparr>"
  have c': "m_timerInited c" "\<not> m_closing c" using core_object [OF core t] c by (auto simp: tcp_settled_def)
  have "core {} {t} (upd_tcp t ?f s)"
    using core t by (intro core_upd [of "{}" "{}" _ _ c]) (simp_all add: may_become_same)
  then show ?thesis
    unfolding on_tcp_timeout_def
    by (rule core_shutdownTcp(1) [where c = "?f c"]) (use t c' in auto)
qed

lemma core_read:
  assumes core: "core {} {} s" and t: "np_tcps s t = Some c" and c: "t_reading c"
  shows "core {} {} (on_tcp_read t nread data (tcp_alloc_buffer t s))"
proof -
  have c': "m_tcpInited c" "m_timerInited c" "\<not> m_closing c" using core_object [OF core t] c by (auto simp: tcp_settled_def)
  let ?s1 = "tcp_alloc_buffer t s"
  have s1: "core {} {} ?s1" "np_tcps ?s1 = np_tcps s" using core t by (simp_all add: tcp_alloc_buffer_def)
  have close: "core {} {} (shutdownTcpConnection t False False (emit (Cb_deallocate (t_node c)) ?s1))"
    using s1 t c' by (intro core_shutdownTcp(1) [of "{}" "{}" _ _ c]) auto
  have "core {} {} (reset_tcp_idle_timeout t (emit (Cb_deallocate (t_node c)) (emit (Cb_message (t_node c) data) ?s1)))"
    using s1 t c' by (intro core_restart_timer [where c = c]) auto
  with close s1 t show ?thesis by (simp add: on_tcp_read_def Let_def)
qed

lemma core_write_done:
  assumes core: "core {} {} s" and req: "req \<in> set (np_writes s)"
  shows "core {} {} (on_tcp_write_done req status s)"
proof -
  let ?t = "fst req" and ?s1 = "s\<lparr>np_writes := remove1 req (np_writes s)\<rparr>"
  obtain c where t: "np_tcps s ?t = Some c" and c: "tcp_conn c" using core_write [OF core req] by auto
  have s1: "core {} {} ?s1" using core by (rule core_remove_write)
  have close: "core {} {} (shutdownTcpConnection ?t False False (emit_all es ?s1))" for es
    using s1 t c by (intro core_shutdownTcp(1) [of "{}" "{}" _ _ c]) auto
  have reset: "core {} {} (reset_tcp_idle_timeout ?t (emit_all es ?s1))" if "\<not> m_closing c" for es
    using s1 t c that by (intro core_restart_timer [where c = c]) (auto simp: tcp_conn_def)
  show ?thesis
    using t close reset s1 by (simp add: on_tcp_write_done_def Let_def)
qed

lemma core_shutdown_done:
  assumes core: "core {} {} s" and t: "t \<in> set (np_shutdowns s)"
  shows "core {} {} (on_shutdown_done t s)"
proof -
  obtain c where c: "np_tcps s t = Some c" "tcp_conn c" "m_shutdown c" using core_shutdown [OF core t] by auto
  let ?s1 = "mem_add (- 1) (s\<lparr>np_shutdowns := remove1 t (np_shutdowns s)\<rparr>)"
  have s1: "core {} {} ?s1" using core by (simp add: core_remove_shutdown)
  have off: "off_tables t ?s1"
    unfolding off_tables_def
    using c core_stream [OF core, of _ t] core_not_server [OF core c(1)] core_connect [OF core, of t] core_connecting [OF core, of t]
    by (auto simp: tcp_open_def)
  from core_close [OF s1 _ off, of c] c show ?thesis by (simp add: on_shutdown_done_def)
qed

lemma core_no_server_closing: "core X T s \<Longrightarrow> np_tcps s t = Some c \<Longrightarrow> m_closing c \<Longrightarrow>
    um_find n (m_tcpServers s) \<noteq> Some t \<and> um_find n (m_node2stream s) \<noteq> Some t"
  using core_server [of X T s n t] core_stream [of X T s n t] by (auto simp: tcp_server_def tcp_open_def)

lemma core_tcp_closed:
  assumes core: "core {} {} s" and t: "np_tcps s t = Some c" and c: "m_closing c" "m_tcpInited c"
    and none: "t \<notin> set (np_connects s)" "t \<notin> fst ` set (np_writes s)" "t \<notin> set (np_shutdowns s)"
  shows "core {} {} (on_tcp_closed t s)"
proof -
  let ?f = "\<lambda>c. c\<lparr>m_tcpInited := False\<rparr>" and ?s1 = "upd_tcp t (\<lambda>c. c\<lparr>m_tcpInited := False\<rparr>) s"
  have un: "unref t s" using none core_no_server_closing [OF core t c(1)] by (simp add: unref_def)
  have s1: "core {} {t} ?s1"
    using core t may_become_unref [OF core un] by (intro core_upd [of "{}" "{}" _ _ c]) auto
  show ?thesis
  proof (cases "m_timerInited c")
    case True
    have "core {} {} ?s1"
      using core_object [OF core t] t c True may_become_unref [OF core un]
      by (intro core_upd [OF core t]) (auto simp: tcp_settled_def)
    then show ?thesis using t True by (simp add: on_tcp_closed_def)
  next
    case False
    have "core {} {} (delete_tcp t ?s1)"
      by (rule core_delete [OF s1, where c = "?f c"]) (use t un in auto)
    then show ?thesis using t False by (simp add: on_tcp_closed_def)
  qed
qed

lemma core_timer_closed:
  assumes core: "core {} {} s" and t: "np_tcps s t = Some c" and c: "m_closing c" "m_timerInited c"
  shows "core {} {} (on_timer_closed t s)"
proof -
  let ?f = "\<lambda>c. c\<lparr>m_timerInited := False\<rparr>"
  show ?thesis
  proof (cases "m_tcpInited c")
    case True
    have "may_become s t c (?f c)"
      unfolding may_become_def
      using core_no_server_closing [OF core t c(1)] core_connect [OF core, of t] core_shutdown [OF core, of t] t True c
      by (auto simp: tcp_conn_def)
    moreover have "tcp_settled (?f c)" using core_object [OF core t] c True by (simp add: tcp_settled_def)
    ultimately have "core {} {} (upd_tcp t ?f s)" using core t by (intro core_upd) auto
    then show ?thesis using t True by (simp add: on_timer_closed_def)
  next
    case False
    have un: "unref t s" using core t False by (rule core_dead_unref)
    have s1: "core {} {t} (upd_tcp t ?f s)"
      using core t may_become_unref [OF core un] by (intro core_upd [of "{}" "{}" _ _ c]) auto
    have "core {} {} (delete_tcp t (upd_tcp t ?f s))"
      by (rule core_delete [OF s1, where c = "?f c"]) (use t un in auto)
    then show ?thesis using t False by (simp add: on_timer_closed_def)
  qed
qed

lemma core_connect_done:
  assumes core: "core {} {} s" and conn: "t \<in> set (np_connects s)"
  shows "core {} {} (on_connect_done t status s)"
proof -
  obtain c where t: "np_tcps s t = Some c" and c: "tcp_conn c" "\<not> m_shutdown c" "valid (m_sockaddr (t_node c))"
    using core_connect [OF core conn] by auto
  let ?n = "t_node c"
  let ?s1 = "mem_add (- 1) (s\<lparr>np_connects := remove1 t (np_connects s), m_connecting := removeAll t (m_connecting s)\<rparr>)"
  have s1: "core {?n} {} ?s1" "np_tcps ?s1 = np_tcps s" using core_remove_connect [OF core t] by simp_all
  have close: "core {} {} (shutdownTcpConnection t True False s')"
    if "core {?n} {} s'" "np_tcps s' t = Some c'" "t_node c' = ?n" "tcp_conn c'" for s' c'
    using that by (intro core_shutdownTcp(1) [of "{?n}" "{}" _ _ c']) auto
  have bad: "status < 0 \<or> m_closing c \<Longrightarrow> ?thesis"
    using close [OF s1(1)] s1(2) t c by (simp add: on_connect_done_def Let_def)
  show ?thesis
  proof (cases "status < 0 \<or> m_closing c")
    case good: False
    let ?ms = "milliseconds (tcp_idle_timeout_in_seconds (np_settings s))"
    have inited: "m_tcpInited c" "m_timerInited c" using c good by (auto simp: tcp_conn_def)
    have eq: "on_connect_done t status s = (let (r, s) = uv_timer_start t ?ms ?s1
        in if r \<noteq> 0 then shutdownTcpConnection t True False s
           else let (r, s) = uv_read_start t s
                in if r \<noteq> 0 then shutdownTcpConnection t True False s else startupTcpConnection t s)"
      using good t by (simp add: on_connect_done_def Let_def)
    show ?thesis
    proof (cases rule: uv_timer_start_cases [of t ?ms ?s1])
      case (fail r k)
      then show ?thesis using close [of "?s1\<lparr>np_tick := k\<rparr>" c] s1 t c by (simp add: eq)
    next
      case (ok k)
      let ?c2 = "c\<lparr>t_timer_active := True\<rparr>"
      define s2 where "s2 = upd_tcp t (\<lambda>c. c\<lparr>t_timer_active := True\<rparr>) (?s1\<lparr>np_tick := k\<rparr>)"
      have s2: "core {?n} {} s2" "np_tcps s2 t = Some ?c2"
        unfolding s2_def using s1 t inited good by (auto intro!: core_timer_active [of _ "{}" _ _ c])
      have eq2: "on_connect_done t status s = (let (r, s) = uv_read_start t s2
                in if r \<noteq> 0 then shutdownTcpConnection t True False s else startupTcpConnection t s)"
        using ok by (simp add: eq s2_def)
      show ?thesis
      proof (cases rule: uv_read_start_cases [of t s2])
        case (fail r k)
        then show ?thesis using close [of "s2\<lparr>np_tick := k\<rparr>" ?c2] s2 c by (simp add: eq2 tcp_conn_def)
      next
        case (ok k)
        let ?c3 = "?c2\<lparr>t_reading := True\<rparr>"
        define s3 where "s3 = upd_tcp t (\<lambda>c. c\<lparr>t_reading := True\<rparr>) (s2\<lparr>np_tick := k\<rparr>)"
        have s3: "core {?n} {} s3" "np_tcps s3 t = Some ?c3"
          unfolding s3_def using s2 inited good by (auto intro!: core_reading [of _ _ _ _ ?c2])
        have fields: "m_waitingSend s3 = m_waitingSend s" "m_node2stream s3 = m_node2stream s"
          "m_tcpServers s3 = m_tcpServers s" "m_connecting s3 = removeAll t (m_connecting s)"
          "np_connects s3 = remove1 t (np_connects s)"
          by (simp_all add: s3_def s2_def)
        have "off_tables t s3"
          unfolding off_tables_def fields
          using core_stream [OF core, of _ t] conn core_not_server [OF core t] c by auto
        moreover have "t \<notin> set (np_connects s3)"
          using core by (simp add: fields core_def connects_ok_def)
        moreover have "um_find ?n (m_waitingSend s3) = None \<or> um_find ?n (m_node2stream s3) = None"
          using core_waiting [OF core, of ?n] by (cases "um_find ?n (m_waitingSend s)") (auto simp: fields)
        ultimately have "core {} {} (startupTcpConnection t s3)"
          using s3 c inited good by (intro core_startup [where c = ?c3]) (auto simp: tcp_open_def)
        then show ?thesis using ok by (simp add: eq2 s3_def)
      qed
    qed
  qed (rule bad)
qed

lemma core_invalid_waiting:
  assumes core: "core {} {} s" and "\<not> valid (m_sockaddr n)"
  shows "um_find n (m_waitingSend s) = None"
proof (rule ccontr)
  assume "um_find n (m_waitingSend s) \<noteq> None"
  then obtain t where "t \<in> set (m_connecting s)" "tcp_is s t (\<lambda>c. t_node c = n \<and> \<not> m_closing c)"
    using core_waiting [OF core, of n] by auto
  with core_connect [OF core core_connecting [OF core], of t] assms(2) show False
    by (auto simp: tcp_is_def)
qed

lemma new_connection_cases:
  assumes "np_tcps s server = Some sv"
  obtains (same) k where "on_new_connection server status peer len s = s\<lparr>np_tick := k\<rparr>"
  | (error) "on_new_connection server status peer len s = emit (Cb_tcpListenError (t_node sv) status) s"
  | (failed) c k where "\<not> m_closing c" "on_new_connection server status peer len s = ctcp_close (np_next s) (new_tcp c k s)"
  | (ok) n k where "um_find n (m_node2stream s) = None"
      "on_new_connection server status peer len s = startupTcpConnection (np_next s)
         (new_tcp ((tcp_fresh True)\<lparr>t_node := n, t_timer_active := True, t_reading := True\<rparr>) k s)"
      "m_protocol n = Protocol_tcp"
proof (cases "status = 0")
  case False
  show ?thesis by (rule error) (simp add: on_new_connection_def assms False)
next
  case status: True
  show ?thesis
  proof (cases rule: ctcp_alloc_cases [of True s])
    case (none k)
    show ?thesis by (rule same [of k]) (simp add: on_new_connection_def assms status none)
  next
    case (failed c k)
    show ?thesis by (rule that(3) [of c k]) (simp_all add: on_new_connection_def assms status failed)
  next
    case alloc: (ok k)
    note defs = on_new_connection_def assms status alloc env_ret_def tick_new_tcp upd_new_tcp Let_def
      uv_timer_start_def uv_read_start_def getStreamByNode_def
    let ?c0 = "tcp_fresh True"
    let ?ms = "milliseconds (tcp_idle_timeout_in_seconds (np_settings s))"
    obtain n ok where node: "node_set_raw node_default Protocol_tcp peer len = (n, ok)" by fastforce
    then have prot: "m_protocol n = Protocol_tcp" by (auto simp: node_set_raw_def split: prod.splits)
    let ?c1 = "?c0\<lparr>t_node := n\<rparr>"
    consider "np_env s k Call_uv_accept \<noteq> 0"
      | "np_env s k Call_uv_accept = 0" "np_env s (Suc k) Call_uv_tcp_getpeername \<noteq> 0"
      | "np_env s k Call_uv_accept = 0" "np_env s (Suc k) Call_uv_tcp_getpeername = 0"
        "\<not> ok \<or> um_find n (m_node2stream s) \<noteq> None"
      | "np_env s k Call_uv_accept = 0" "np_env s (Suc k) Call_uv_tcp_getpeername = 0"
        "ok" "um_find n (m_node2stream s) = None"
      by blast
    then show ?thesis
    proof cases
      case 1
      show ?thesis by (rule that(3) [of ?c0 "Suc k"]) (simp_all add: defs 1)
    next
      case 2
      show ?thesis by (rule that(3) [of ?c0 "Suc (Suc k)"]) (simp_all add: defs 2)
    next
      case 3
      show ?thesis by (rule that(3) [of ?c1 "Suc (Suc k)"]) (use 3 in \<open>auto simp: defs node\<close>)
    next
      case 4
      show ?thesis
      proof (cases "np_env s (Suc (Suc k)) (Call_uv_timer_start ?ms) = 0")
        case False
        show ?thesis by (rule that(3) [of ?c1 "Suc (Suc (Suc k))"]) (simp_all add: defs node 4 False)
      next
        case timer: True
        show ?thesis
        proof (cases "np_env s (Suc (Suc (Suc k))) Call_uv_read_start = 0")
          case False
          show ?thesis
            by (rule that(3) [of "?c1\<lparr>t_timer_active := True\<rparr>" "Suc (Suc (Suc (Suc k)))"])
              (simp_all add: defs node 4 timer False)
        next
          case True
          show ?thesis
            by (rule that(4) [of n "Suc (Suc (Suc (Suc k)))"]) (simp_all add: defs node 4 timer True prot)
        qed
      qed
    qed
  qed
qed

lemma core_new_connection:
  assumes core: "core {} {} s" and t: "np_tcps s server = Some sv"
  shows "core {} {} (on_new_connection server status peer len s)"
  using t
proof (cases rule: new_connection_cases [where status = status and peer = peer and len = len])
  case (failed c k)
  then show ?thesis using core_new_close [OF core] by simp
next
  case (ok n k)
  let ?c = "(tcp_fresh True)\<lparr>t_node := n, t_timer_active := True, t_reading := True\<rparr>"
  let ?s1 = "new_tcp ?c k s"
  have s1: "core {} {} ?s1" using core by (rule core_new_upd) (simp add: tcp_settled_def)
  have un: "unref (np_next s) ?s1" using core by (rule unref_new_tcp)
  have "core {} {} (startupTcpConnection (np_next s) ?s1)"
  proof (rule core_startup [where c = ?c])
    show "core (insert (t_node ?c) {}) {} ?s1" using s1 by (rule core_mono) auto
    show "off_tables (np_next s) ?s1" using s1 un by (rule off_tables_unref)
    show "np_next s \<notin> set (np_connects ?s1)" using un by (simp add: unref_def)
    show "valid (m_sockaddr (t_node ?c)) \<or> um_find (t_node ?c) (m_waitingSend ?s1) = None"
      using core_invalid_waiting [OF core, of n] by (cases "valid (m_sockaddr n)") auto
    show "um_find (t_node ?c) (m_waitingSend ?s1) = None \<or> um_find (t_node ?c) (m_node2stream ?s1) = None"
      using ok by simp
  qed (simp_all add: tcp_open_def)
  then show ?thesis using ok by simp
qed (use core in simp_all)

lemma core_udp_callbacks:
  assumes core: "core {} {} s"
  shows "np_udps s u = Some c \<Longrightarrow> core {} {} (on_udp_recv u nread data addr (udp_alloc_buffer u s))"
    and "req \<in> set (np_udp_sends s) \<Longrightarrow> core {} {} (on_udp_send_done req status s)"
    and "np_udps s u = Some c \<Longrightarrow> u_closing c \<Longrightarrow> u \<notin> fst ` set (np_udp_sends s) \<Longrightarrow> core {} {} (on_udp_closed u s)"
proof -
  show "np_udps s u = Some c \<Longrightarrow> core {} {} (on_udp_recv u nread data addr (udp_alloc_buffer u s))"
    using core by (simp add: on_udp_recv_def udp_alloc_buffer_def split: option.split)
  show "core {} {} (on_udp_send_done req status s)" if req: "req \<in> set (np_udp_sends s)"
    using core_udp_send [OF core req] core_remove_udp_send [OF core, of req]
    by (auto simp: on_udp_send_done_def Let_def)
  show "core {} {} (on_udp_closed u s)"
    if u: "np_udps s u = Some c" "u_closing c" "u \<notin> fst ` set (np_udp_sends s)"
  proof -
    have "u \<notin> set (m_udpServers s)" using core_udp_server [OF core, of u] u by auto
    then show ?thesis using core_delete_udp [OF core _ u(3,1)] u(1) by (simp add: on_udp_closed_def)
  qed
qed

section \<open>\<open>on_wakeup\<close>\<close>

definition connect_law :: "(nat \<Rightarrow> env_call \<Rightarrow> int) \<Rightarrow> bool" where
  "connect_law env \<longleftrightarrow> (\<forall>k a. \<not> valid a \<longrightarrow> env k (Call_uv_tcp_connect a) \<noteq> 0)"

definition np_ok :: "np_pool \<Rightarrow> bool" where
  "np_ok s \<longleftrightarrow> core {} {} s \<and> connect_law (np_env s)"

lemma np_ok_core: "np_ok s \<Longrightarrow> core {} {} s"
  by (simp add: np_ok_def)

lemma find_udp_ok:
  assumes "\<forall>u\<in>set us. np_udps s u \<noteq> None"
  shows "snd (find_udp node us s) = s"
    and "fst (find_udp node us s) = find (\<lambda>u. node_eq (u_node (the (np_udps s u))) node) us"
  using assms by (induction us) auto

lemma core_udp_defined: "core X T s \<Longrightarrow> \<forall>u\<in>set (m_udpServers s). np_udps s u \<noteq> None"
  using core_udp_server [of X T s] by fastforce

lemma core_bind_tcp:
  assumes core: "core {} {} s"
  shows "core {} {} (wakeup_bind_tcp node bBind s)"
proof (cases "um_find node (m_tcpServers s)")
  case (Some t)
  obtain c where c: "np_tcps s t = Some c" "t_node c = node" "tcp_server c" using core_server [OF core Some] by auto
  let ?s1 = "emit (Cb_bindStatus node False) (s\<lparr>m_tcpServers := AList.delete node (m_tcpServers s)\<rparr>)"
  have s1: "core {} {} ?s1" using core by (simp add: core_erase_server)
  have "off_tables t ?s1"
    unfolding off_tables_def
    using core_server [OF core, of _ t] core_stream [OF core, of _ t] core_connect [OF core, of t] core_connecting [OF core, of t] c
    by (auto simp: tcp_conn_def tcp_open_def tcp_server_def)
  then have "core {} {} (ctcp_close t ?s1)" using s1 c by (intro core_close [of "{}" "{}" _ _ c]) auto
  then show ?thesis using Some core by (simp add: wakeup_bind_tcp_def um_erase_def Let_def)
next
  case None
  obtain r s1 where r: "bindAndListenTcp node s = (r, s1)" by fastforce
  note s1 = core_bindAndListenTcp [OF core r]
  have "core {} {} (s1\<lparr>m_tcpServers := (node, t) # m_tcpServers s1\<rparr>)" if "r = Some t" for t
    using core_insert_server [of "{}" "{}" s1 node t] s1 that None by auto
  then show ?thesis using None core r s1
    by (cases r) (simp_all add: wakeup_bind_tcp_def um_insert_new Let_def)
qed

lemma core_bind_udp:
  assumes core: "core {} {} s"
  shows "core {} {} (wakeup_bind_udp node bBind s)"
proof -
  let ?P = "\<lambda>u. node_eq (u_node (the (np_udps s u))) node"
  obtain found s0 where found: "find_udp node (m_udpServers s) s = (found, s0)" by fastforce
  have f: "found = find ?P (m_udpServers s)" "s0 = s"
    using find_udp_ok [OF core_udp_defined [OF core], of node] found by simp_all
  show ?thesis
  proof (cases found)
    case (Some u)
    then have u: "u \<in> set (m_udpServers s)" using f by (auto simp: find_Some_iff)
    obtain c where c: "np_udps s u = Some c" using core_udp_server [OF core u] by auto
    let ?s1 = "s\<lparr>m_udpServers := remove1 u (m_udpServers s)\<rparr>"
    have s1: "core {} {} ?s1"
      by (rule core_udp_only [OF core])
        (use core core_udp_object [OF core] core_udp_send [OF core] in \<open>auto simp: tcp_is_def core_def udp_servers_ok_def\<close>)
    have off: "u \<notin> set (m_udpServers ?s1)" using core by (simp add: core_def udp_servers_ok_def)
    have "core {} {} (cudp_close u ((emit (Cb_bindStatus node False) ?s1)\<lparr>np_tick := k\<rparr>))" for k
      by (rule core_cudp_close [where c = c]) (use s1 off c in auto)
    then show ?thesis using Some found f core by (simp add: wakeup_bind_udp_def env_ret_def Let_def)
  next
    case None
    obtain r s1 where r: "bindAndListenUdp node s = (r, s1)" by fastforce
    note s1 = core_bindAndListenUdp [OF core r]
    have other: "u_node d \<noteq> node" if "v \<in> set (m_udpServers s)" "np_udps s v = Some d" for v d
      using None f that by (auto simp: find_None_iff node_eq_iff)
    have "core {} {} (s1\<lparr>m_udpServers := m_udpServers s1 @ [u]\<rparr>)" if u: "r = Some u" for u
    proof (rule core_udp_only [of "{}" "{}" s1])
      show "udp_servers_ok (s1\<lparr>m_udpServers := m_udpServers s1 @ [u]\<rparr>)"
        using core s1 u other by (auto simp: core_def udp_servers_ok_def)
    qed (use s1 core_udp_object [of "{}" "{}" s1] core_udp_send [of "{}" "{}" s1] in \<open>auto simp: tcp_is_def\<close>)
    then show ?thesis using None found f core r s1
      by (cases r) (simp_all add: wakeup_bind_udp_def Let_def)
  qed
qed

lemma core_send_tcp:
  assumes core: "core {} {} s" and law: "connect_law (np_env s)"
  shows "core {} {} (wakeup_send_tcp req s)"
proof -
  let ?n = "ps_node req" and ?d = "ps_data req"
  show ?thesis
  proof (cases "um_find ?n (m_node2stream s)")
    case (Some t)
    obtain c where c: "np_tcps s t = Some c" "t_node c = ?n" "tcp_open c" using core_stream [OF core Some] by auto
    have none: "um_find ?n (m_waitingSend s) = None"
      using core_waiting [OF core, of ?n] Some by (cases "um_find ?n (m_waitingSend s)") auto
    have "core {} {} (write_or_shutdown t ?n [?d] (mem_add 1 (s\<lparr>np_tick := k\<rparr>)))" for k
      by (rule core_write_or_shutdown [where c = c and T = "{}" and X = "{}"]) (use core c none in auto)
    then show ?thesis using core Some
      by (simp add: wakeup_send_tcp_def getStreamByNode_def env_ret_def Let_def)
  next
    case None
    show ?thesis
    proof (cases "um_find ?n (m_waitingSend s)")
      case (Some bufs)
      then show ?thesis
        using core_pushWaiting_old [OF core, of ?n ?d] None
        by (simp add: wakeup_send_tcp_def getStreamByNode_def Let_def)
    next
      case new: None
      let ?s1 = "pushWaiting ?n ?d s"
      have s1: "core {?n} {} ?s1" using core_pushWaiting [OF core, of ?n ?d] by simp
      obtain r s2 where r: "connectTcp ?n ?s1 = (r, s2)" by fastforce
      have "\<forall>k a. \<not> valid a \<longrightarrow> np_env ?s1 k (Call_uv_tcp_connect a) \<noteq> 0"
        using law by (simp add: connect_law_def)
      note s2 = core_connectTcp [OF s1 this r]
      have "core {} {} (dropWaiting ?n (emit (Cb_connectionStatus ?n False) s2))"
        by (rule core_dropWaiting [of "{?n}"]) (use s2 in auto)
      moreover have "core {} {} (s2\<lparr>m_connecting := List.insert t (m_connecting s2)\<rparr>)" if rt: "r = Some t" for t
      proof -
        obtain c where c: "np_tcps s2 t = Some c" "\<not> m_closing c" "t_node c = ?n" using s2 rt by blast
        show ?thesis
          by (rule core_add_connecting [where c = c and X = "{?n}"]) (use s2 rt c None in auto)
      qed
      ultimately show ?thesis using core None new r
        by (cases r) (simp_all add: wakeup_send_tcp_def getStreamByNode_def Let_def)
    qed
  qed
qed

lemma core_send_udp:
  assumes core: "core {} {} s"
  shows "core {} {} (wakeup_send_udp req s)"
proof (cases "m_udpServers s = [] \<or> np_env s (np_tick s) Call_malloc \<noteq> 0")
  case True
  then show ?thesis using core by (auto simp: wakeup_send_udp_def env_ret_def Let_def)
next
  case False
  define i where "i = m_udpIndex s mod length (m_udpServers s)"
  have "m_udpServers s ! i \<in> set (m_udpServers s)" using False by (simp add: i_def)
  then obtain c where c: "np_udps s (m_udpServers s ! i) = Some c" using core_udp_server [OF core] by blast
  define s1 where "s1 = (mem_add 1 (s\<lparr>np_tick := Suc (np_tick s)\<rparr>))\<lparr>m_udpIndex := Suc i\<rparr>"
  have s1: "core {} {} s1" "np_udps s1 = np_udps s" using core by (simp_all add: s1_def)
  let ?s2 = "s1\<lparr>np_tick := Suc (np_tick s1)\<rparr>"
  have "core {} {} (?s2\<lparr>np_udp_sends := np_udp_sends ?s2 @ [(m_udpServers s ! i, [ps_data req])]\<rparr>)"
    by (rule core_add_udp_send) (use s1 c in auto)
  then show ?thesis
    using False s1 c by (simp add: wakeup_send_udp_def env_ret_def Let_def i_def [symmetric] s1_def)
qed

lemma core_wakeup_close:
  assumes core: "core {} {} s"
  shows "core {} {} (wakeup_close (node, bForceClose) s)"
proof (cases "um_find node (m_node2stream s)")
  case None
  then show ?thesis using core by (simp add: getStreamByNode_def)
next
  case (Some t)
  obtain c where c: "t \<notin> set (np_connects s)" "np_tcps s t = Some c" "t_node c = node" "tcp_open c"
    using core_stream [OF core Some] by auto
  have inited: "m_tcpInited c" "m_timerInited c" "\<not> m_closing c" "tcp_conn c" using c(4) by (auto simp: tcp_open_def tcp_conn_def)
  let ?ms = "milliseconds (tcp_send_timeout_in_seconds (np_settings s))"
  have close: "core {} {} (shutdownTcpConnection t False False s')"
    if "core {} {} s'" "np_tcps s' t = Some c" for s'
    using that inited by (intro core_shutdownTcp(1) [of "{}" "{}" _ _ c]) auto
  show ?thesis
  proof (cases bForceClose)
    case True
    then show ?thesis using close [OF core c(2)] Some by (simp add: getStreamByNode_def)
  next
    case False
    show ?thesis
    proof (cases rule: uv_timer_start_cases [of t ?ms s])
      case (fail r k)
      then show ?thesis using close [of "s\<lparr>np_tick := k\<rparr>"] core c Some False by (simp add: getStreamByNode_def)
    next
      case (ok k)
      let ?s1 = "upd_tcp t (\<lambda>c. c\<lparr>t_timer_active := True\<rparr>) (s\<lparr>np_tick := k\<rparr>)"
      have s1: "core {} {} ?s1"
        using core c inited by (intro core_timer_active [of _ "{}" _ _ c]) auto
      have "core {} {} (shutdownTcpConnection t False True ?s1)"
        by (rule core_shutdownTcp(2) [OF s1, where c = "c\<lparr>t_timer_active := True\<rparr>"])
          (use c inited in \<open>auto simp: tcp_open_def\<close>)
      then show ?thesis using ok Some False by (simp add: getStreamByNode_def)
    qed
  qed
qed

lemma env_of_result:
  "bindAndListenTcp n s = (r, s') \<Longrightarrow> np_env s' = np_env s" "bindAndListenUdp n s = (ru, s') \<Longrightarrow> np_env s' = np_env s"
  "connectTcp n s = (r, s') \<Longrightarrow> np_env s' = np_env s"
  using env_bind_tcp [of n s] env_bind_udp [of n s] env_connect [of n s] by simp_all

lemma env_find_udp: "find_udp node us s = (r, s') \<Longrightarrow> np_env s' = np_env s"
  by (induction us) (auto simp: undefined_behaviour_def split: option.splits if_splits)

lemma env_wakeup_bind [simp, np_frame]: "np_env (wakeup_bind nb s) = np_env s"
proof -
  obtain node bBind where nb: "nb = (node, bBind)" by fastforce
  have tcp: "np_env (wakeup_bind_tcp node bBind s) = np_env s"
    by (auto simp: wakeup_bind_tcp_def um_erase_def Let_def dest: env_of_result split: option.split prod.split)
  have "np_env (wakeup_bind_udp node bBind s) = np_env s"
    by (auto simp: wakeup_bind_udp_def env_ret_def Let_def dest!: env_of_result env_find_udp
        split: option.split prod.split)
  with tcp show ?thesis by (simp add: nb split: protocol_type.split)
qed

lemma env_wakeup_send [simp, np_frame]: "np_env (wakeup_send req s) = np_env s"
proof -
  have tcp: "np_env (wakeup_send_tcp req s) = np_env s"
    by (auto simp: wakeup_send_tcp_def env_ret_def Let_def dest!: env_of_result split: option.split prod.split)
  have "np_env (wakeup_send_udp req s) = np_env s"
    by (simp add: wakeup_send_udp_def env_ret_def undefined_behaviour_def Let_def split: option.split)
  with tcp show ?thesis by (simp add: wakeup_send_def split: protocol_type.split)
qed

lemma env_wakeup_close [simp, np_frame]: "np_env (wakeup_close nb s) = np_env s"
  by (cases nb) (simp add: uv_timer_start_def env_ret_def Let_def split: option.split)

lemma np_ok_fold:
  assumes "np_ok s" and "\<And>x s. np_ok s \<Longrightarrow> np_ok (f x s)"
  shows "np_ok (fold f xs s)"
  using assms(1) by (induction xs arbitrary: s) (simp_all add: assms(2))

lemma np_ok_wakeup_bind:
  assumes "np_ok s"
  shows "np_ok (wakeup_bind nb s)"
proof -
  have "core {} {} (wakeup_bind nb s)"
    using assms core_bind_tcp core_bind_udp by (cases nb) (simp add: np_ok_def split: protocol_type.split)
  then show ?thesis using assms by (simp add: np_ok_def)
qed

lemma np_ok_wakeup_send:
  assumes "np_ok s"
  shows "np_ok (wakeup_send req s)"
proof -
  have "core {} {} (wakeup_send req s)"
    using assms core_send_tcp core_send_udp by (simp add: np_ok_def wakeup_send_def split: protocol_type.split)
  then show ?thesis using assms by (simp add: np_ok_def)
qed

lemma np_ok_wakeup_close: "np_ok s \<Longrightarrow> np_ok (wakeup_close nb s)"
  using core_wakeup_close by (cases nb) (simp add: np_ok_def del: wakeup_close.simps)

section \<open>Leaving\<close>

definition closable :: "oid \<Rightarrow> np_pool \<Rightarrow> bool" where
  "closable t s \<longleftrightarrow> off_tables t s \<and> (\<exists>c. np_tcps s t = Some c \<and> m_tcpInited c)"

lemma closable_emit [simp]: "closable t (emit e s) = closable t s"
  by (simp add: closable_def)

lemma closable_close: "closable t s \<Longrightarrow> closable u s \<Longrightarrow> closable t (ctcp_close u s)"
  by (auto simp: closable_def off_tables_def ctcp_close_def split: option.split)

lemma core_closable: "core X {} s \<Longrightarrow> closable t s \<Longrightarrow> core X {} (ctcp_close t s)"
  unfolding closable_def by (auto intro: core_close)

lemma core_close_tcp_servers:
  "core X {} s \<Longrightarrow> \<forall>p\<in>set l. closable (snd p) s \<Longrightarrow> core X {} (close_tcp_servers l s)"
proof (induction l arbitrary: s)
  case (Cons p l)
  obtain n t where p: "p = (n, t)" by fastforce
  let ?s1 = "ctcp_close t (emit (Cb_bindStatus n False) s)"
  have "core X {} ?s1" using Cons.prems p by (auto intro!: core_closable)
  moreover have "\<forall>p\<in>set l. closable (snd p) ?s1" using Cons.prems p by (auto intro!: closable_close)
  ultimately show ?case using Cons.IH p by simp
qed simp

lemma core_close_connections:
  "core X {} s \<Longrightarrow> \<forall>t\<in>set l. closable t s \<Longrightarrow> core X {} (close_connections l s)"
proof (induction l arbitrary: s)
  case (Cons t l)
  obtain c where c: "np_tcps s t = Some c" using Cons.prems by (auto simp: closable_def)
  let ?s1 = "ctcp_close t (emit (Cb_connectionStatus (t_node c) False) s)"
  have "core X {} ?s1" using Cons.prems by (auto intro!: core_closable)
  moreover have "\<forall>t\<in>set l. closable t ?s1" using Cons.prems by (auto intro!: closable_close)
  ultimately show ?case using Cons.IH c by simp
qed simp

lemma core_close_udp_servers:
  "core X {} s \<Longrightarrow> m_udpServers s = [] \<Longrightarrow> \<forall>u\<in>set l. np_udps s u \<noteq> None \<Longrightarrow> core X {} (close_udp_servers l s)"
proof (induction l arbitrary: s)
  case (Cons u l)
  obtain c where c: "np_udps s u = Some c" using Cons.prems by auto
  let ?s0 = "(emit (Cb_bindStatus (u_node c) False) s)\<lparr>np_tick := Suc (np_tick s)\<rparr>"
  have i: "u_inited c" using core_udp_object [OF Cons.prems(1) c] by simp
  have "core X {} (cudp_close u ?s0)" by (rule core_cudp_close [where c = c]) (use Cons.prems c in auto)
  moreover have "\<forall>v\<in>set l. np_udps (cudp_close u ?s0) v \<noteq> None" "m_udpServers (cudp_close u ?s0) = []"
    using Cons.prems c i by (auto simp: cudp_close_def)
  ultimately show ?case using Cons.IH c by (simp add: env_ret_def Let_def)
qed simp

lemma fields_close_tcp_servers [simp, np_frame]:
  "m_node2stream (close_tcp_servers l s) = m_node2stream s" "m_tcpServers (close_tcp_servers l s) = m_tcpServers s"
  "m_udpServers (close_tcp_servers l s) = m_udpServers s" "m_connecting (close_tcp_servers l s) = m_connecting s"
  "m_waitingSend (close_tcp_servers l s) = m_waitingSend s" "np_env (close_tcp_servers l s) = np_env s"
  "np_connects (close_tcp_servers l s) = np_connects s" "np_async (close_tcp_servers l s) = np_async s"
  by (induction l s rule: close_tcp_servers.induct) simp_all

lemma fields_cudp_close [simp, np_frame]:
  "m_node2stream (cudp_close u (s :: np_pool)) = m_node2stream s" "m_tcpServers (cudp_close u (s :: np_pool)) = m_tcpServers s"
  "m_udpServers (cudp_close u (s :: np_pool)) = m_udpServers s" "m_connecting (cudp_close u (s :: np_pool)) = m_connecting s"
  "m_waitingSend (cudp_close u (s :: np_pool)) = m_waitingSend s" "np_connects (cudp_close u (s :: np_pool)) = np_connects s"
  "np_async (cudp_close u (s :: np_pool)) = np_async s" "np_tcps (cudp_close u (s :: np_pool)) = np_tcps s"
  by (simp_all add: cudp_close_def undefined_behaviour_def split: option.split)

lemma fields_close_udp_servers [simp, np_frame]:
  "m_node2stream (close_udp_servers l s) = m_node2stream s" "m_tcpServers (close_udp_servers l s) = m_tcpServers s"
  "m_udpServers (close_udp_servers l s) = m_udpServers s" "m_connecting (close_udp_servers l s) = m_connecting s"
  "m_waitingSend (close_udp_servers l s) = m_waitingSend s" "np_env (close_udp_servers l s) = np_env s"
  "np_connects (close_udp_servers l s) = np_connects s" "np_async (close_udp_servers l s) = np_async s"
  by (induction l s rule: close_udp_servers.induct)
    (simp_all add: env_ret_def undefined_behaviour_def Let_def split: option.split)

lemma fields_close_connections [simp, np_frame]:
  "m_node2stream (close_connections l s) = m_node2stream s" "m_tcpServers (close_connections l s) = m_tcpServers s"
  "m_udpServers (close_connections l s) = m_udpServers s" "m_connecting (close_connections l s) = m_connecting s"
  "m_waitingSend (close_connections l s) = m_waitingSend s" "np_env (close_connections l s) = np_env s"
  "np_connects (close_connections l s) = np_connects s" "np_async (close_connections l s) = np_async s"
  by (induction l s rule: close_connections.induct)
    (simp_all add: undefined_behaviour_def split: option.split)

lemma drop_all_waiting_core [simp]: "core X T (drop_all_waiting w s) = core X T s"
  by (induction w s rule: drop_all_waiting.induct) simp_all

lemma drop_all_sends_core [simp]: "core X T (drop_all_sends p s) = core X T s"
  by (induction p arbitrary: s) simp_all

lemma drop_all_fields [simp, np_frame]:
  "m_node2stream (drop_all_waiting w s) = m_node2stream s" "m_tcpServers (drop_all_waiting w s) = m_tcpServers s"
  "m_udpServers (drop_all_waiting w s) = m_udpServers s" "m_connecting (drop_all_waiting w s) = m_connecting s"
  "np_env (drop_all_waiting w s) = np_env s" "np_async (drop_all_waiting w s) = np_async s"
  by (induction w s rule: drop_all_waiting.induct) simp_all

lemma drop_all_sends_fields [simp, np_frame]:
  "m_node2stream (drop_all_sends p s) = m_node2stream s" "m_tcpServers (drop_all_sends p s) = m_tcpServers s"
  "m_udpServers (drop_all_sends p s) = m_udpServers s" "m_connecting (drop_all_sends p s) = m_connecting s"
  "m_waitingSend (drop_all_sends p s) = m_waitingSend s"
  "np_env (drop_all_sends p s) = np_env s" "np_async (drop_all_sends p s) = np_async s"
  by (induction p arbitrary: s) simp_all

text \<open>The four clearing steps of \<open>wakeup_exit\<close>.\<close>

definition exit_tcp :: "np_pool \<Rightarrow> np_pool" where
  "exit_tcp s = close_tcp_servers (m_tcpServers s) (s\<lparr>m_tcpServers := []\<rparr>)"

definition exit_udp :: "np_pool \<Rightarrow> np_pool" where
  "exit_udp s = close_udp_servers (m_udpServers s) (s\<lparr>m_udpServers := []\<rparr>)"

definition exit_streams :: "np_pool \<Rightarrow> np_pool" where
  "exit_streams s = close_connections (map snd (m_node2stream s)) (s\<lparr>m_node2stream := []\<rparr>)"

definition exit_connecting :: "np_pool \<Rightarrow> np_pool" where
  "exit_connecting s = close_connections (m_connecting s) (s\<lparr>m_connecting := []\<rparr>)"

definition exit_waiting :: "np_pool \<Rightarrow> np_pool" where
  "exit_waiting s = (drop_all_waiting (m_waitingSend s) s)\<lparr>m_waitingSend := []\<rparr>"

lemma wakeup_exit_steps:
  "wakeup_exit bc sc s = drop_all_sends sc (emit_all (map (\<lambda>(node, bBind). Cb_bindStatus node False) bc)
     (exit_waiting (exit_connecting (exit_streams (exit_udp (exit_tcp (casync_close s)))))))"
  by (simp add: wakeup_exit_def exit_tcp_def exit_udp_def exit_streams_def exit_connecting_def exit_waiting_def Let_def)

lemma core_exit_tcp:
  assumes core: "core {} {} s"
  shows "core {} {} (exit_tcp s)"
  unfolding exit_tcp_def
proof (rule core_close_tcp_servers)
  show "core {} {} (s\<lparr>m_tcpServers := []\<rparr>)" using core by (simp add: core_def servers_ok_def)
  show "\<forall>p\<in>set (m_tcpServers s). closable (snd p) (s\<lparr>m_tcpServers := []\<rparr>)"
  proof
    fix p assume "p \<in> set (m_tcpServers s)"
    then have "um_find (fst p) (m_tcpServers s) = Some (snd p)"
      using core_maps [OF core] by (auto intro: um_in_set_find)
    from core_server [OF core this] obtain c where c: "np_tcps s (snd p) = Some c" "tcp_server c" by auto
    then show "closable (snd p) (s\<lparr>m_tcpServers := []\<rparr>)"
      using core_stream [OF core, of _ "snd p"] core_connect [OF core, of "snd p"] core_connecting [OF core, of "snd p"]
      by (auto simp: closable_def off_tables_def tcp_conn_def tcp_open_def tcp_server_def)
  qed
qed

lemma core_exit_udp:
  assumes core: "core {} {} s"
  shows "core {} {} (exit_udp s)"
  unfolding exit_udp_def
proof (rule core_close_udp_servers)
  show "core {} {} (s\<lparr>m_udpServers := []\<rparr>)" using core by (simp add: core_def udp_servers_ok_def)
qed (use core_udp_defined [OF core] in simp_all)

lemma core_exit_streams:
  assumes core: "core {} {} s"
  shows "core {} {} (exit_streams s)"
  unfolding exit_streams_def
proof (rule core_close_connections)
  show "core {} {} (s\<lparr>m_node2stream := []\<rparr>)" using core by (simp add: core_def streams_ok_def waiting_ok_def)
  show "\<forall>t\<in>set (map snd (m_node2stream s)). closable t (s\<lparr>m_node2stream := []\<rparr>)"
  proof
    fix t assume "t \<in> set (map snd (m_node2stream s))"
    then obtain n where "(n, t) \<in> set (m_node2stream s)" by auto
    then have "um_find n (m_node2stream s) = Some t"
      using core_maps [OF core] by (simp add: um_in_set_find)
    from core_stream [OF core this] obtain c where c: "t \<notin> set (np_connects s)" "np_tcps s t = Some c" "tcp_open c" by auto
    then show "closable t (s\<lparr>m_node2stream := []\<rparr>)"
      using core_not_server [OF core c(2)] core_connecting [OF core, of t]
      by (auto simp: closable_def off_tables_def tcp_open_def)
  qed
qed

lemma core_exit_connecting:
  assumes core: "core {} {} s"
  shows "core UNIV {} (exit_connecting s)"
  unfolding exit_connecting_def
proof (rule core_close_connections)
  show "core UNIV {} (s\<lparr>m_connecting := []\<rparr>)" using core by (simp add: core_def connects_ok_def waiting_ok_def)
  show "\<forall>t\<in>set (m_connecting s). closable t (s\<lparr>m_connecting := []\<rparr>)"
  proof
    fix t assume "t \<in> set (m_connecting s)"
    then have t: "t \<in> set (np_connects s)" using core_connecting [OF core] by blast
    from core_connect [OF core this] obtain c where c: "np_tcps s t = Some c" "tcp_conn c" by auto
    then show "closable t (s\<lparr>m_connecting := []\<rparr>)"
      using core_not_server [OF core c(1)] core_stream [OF core, of _ t] t
      by (auto simp: closable_def off_tables_def tcp_conn_def)
  qed
qed

lemma core_exit_waiting: "core UNIV {} s \<Longrightarrow> core {} {} (exit_waiting s)"
proof -
  assume "core UNIV {} s"
  then have "core UNIV {} (drop_all_waiting (m_waitingSend s) s)" by simp
  then show ?thesis by (simp add: exit_waiting_def core_def waiting_ok_def)
qed

lemma core_wakeup_exit:
  assumes core: "core {} {} s" and async: "np_async s = Some a" "a_inited a"
  shows "core {} {} (wakeup_exit bc sc s)"
proof -
  have "core {} {} (casync_close s)" using core async by (simp add: casync_close_def)
  then show ?thesis
    by (simp add: wakeup_exit_steps core_exit_waiting core_exit_connecting core_exit_streams core_exit_udp core_exit_tcp)
qed

lemma np_ok_wakeup:
  assumes ok: "np_ok s" and async: "np_async s = Some a" "a_inited a"
  shows "np_ok (on_wakeup s)"
proof -
  let ?s1 = "s\<lparr>m_pendingBind := [], m_pendingSend := [], m_pendingClose := []\<rparr>"
  have s1: "np_ok ?s1" using ok by (simp add: np_ok_def)
  have "np_ok (wakeup_exit bc sc ?s1)" for bc sc
  proof -
    have "np_env (wakeup_exit bc sc ?s1) = np_env s"
      using async by (simp add: wakeup_exit_steps exit_waiting_def exit_connecting_def exit_streams_def exit_udp_def
          exit_tcp_def casync_close_def)
    then show ?thesis using core_wakeup_exit [of ?s1 a bc sc] s1 async by (simp add: np_ok_def)
  qed
  moreover have "np_ok (fold wakeup_close cl (fold wakeup_send sn (fold wakeup_bind bn ?s1)))" for cl sn bn
    by (intro np_ok_fold np_ok_wakeup_bind np_ok_wakeup_send np_ok_wakeup_close s1)
  ultimately show ?thesis by (simp add: on_wakeup_def Let_def)
qed

section \<open>The transition system\<close>

text \<open>
  One rule per thing that can happen next. The first four are calls by the user's threads,
  which may come at any time while the pool lives. The others are what libuv does: a callback
  of a handle that is open, of a request it has accepted, or of a handle whose close has been
  requested and whose requests are done. Their arguments are libuv's to choose.
\<close>

definition pool_alive :: "np_pool \<Rightarrow> bool" where
  "pool_alive s \<longleftrightarrow> (case np_async s of None \<Rightarrow> False | Some a \<Rightarrow> a_inited a \<and> \<not> a_closing a)"

inductive np_step :: "np_pool \<Rightarrow> np_pool \<Rightarrow> bool" where
  bind: "pool_alive s \<Longrightarrow> np_step s (pool_bind node bBind s)"
| send: "pool_alive s \<Longrightarrow> np_step s (snd (pool_send node data bAutoConnect s))"
| close: "pool_alive s \<Longrightarrow> np_step s (pool_close node bForceClose s)"
| destroy: "pool_alive s \<Longrightarrow> np_step s (pool_destroy s)"
| wakeup: "pool_alive s \<Longrightarrow> np_step s (on_wakeup s)"
| async_closed: "np_async s = Some a \<Longrightarrow> a_closing a \<Longrightarrow> np_step s (on_async_closed s)"
| timeout: "np_tcps s t = Some c \<Longrightarrow> t_timer_active c \<Longrightarrow>
    np_step s (on_tcp_timeout t (upd_tcp t (\<lambda>c. c\<lparr>t_timer_active := False\<rparr>) s))"
| read: "np_tcps s t = Some c \<Longrightarrow> t_reading c \<Longrightarrow>
    np_step s (on_tcp_read t nread data (tcp_alloc_buffer t s))"
| write_done: "req \<in> set (np_writes s) \<Longrightarrow> np_step s (on_tcp_write_done req status s)"
| new_connection: "np_tcps s t = Some c \<Longrightarrow> tcp_server c \<Longrightarrow>
    np_step s (on_new_connection t status peer len s)"
| connect_done: "t \<in> set (np_connects s) \<Longrightarrow> np_step s (on_connect_done t status s)"
| shutdown_done: "t \<in> set (np_shutdowns s) \<Longrightarrow> np_step s (on_shutdown_done t s)"
| tcp_closed: "np_tcps s t = Some c \<Longrightarrow> m_closing c \<Longrightarrow> m_tcpInited c \<Longrightarrow> t \<notin> set (np_connects s) \<Longrightarrow>
    t \<notin> fst ` set (np_writes s) \<Longrightarrow> t \<notin> set (np_shutdowns s) \<Longrightarrow> np_step s (on_tcp_closed t s)"
| timer_closed: "np_tcps s t = Some c \<Longrightarrow> m_closing c \<Longrightarrow> m_timerInited c \<Longrightarrow> np_step s (on_timer_closed t s)"
| udp_recv: "np_udps s u = Some d \<Longrightarrow> u_inited d \<Longrightarrow> \<not> u_closing d \<Longrightarrow>
    np_step s (on_udp_recv u nread data addr (udp_alloc_buffer u s))"
| udp_send_done: "req \<in> set (np_udp_sends s) \<Longrightarrow> np_step s (on_udp_send_done req status s)"
| udp_closed: "np_udps s u = Some d \<Longrightarrow> u_closing d \<Longrightarrow> u \<notin> fst ` set (np_udp_sends s) \<Longrightarrow>
    np_step s (on_udp_closed u s)"

inductive np_reach :: "network_settings \<Rightarrow> (nat \<Rightarrow> env_call \<Rightarrow> int) \<Rightarrow> np_pool \<Rightarrow> bool"
  for settings env
where
  start: "pool_construct settings env = (True, s) \<Longrightarrow> np_reach settings env s"
| step: "np_reach settings env s \<Longrightarrow> np_step s s' \<Longrightarrow> np_reach settings env s'"

lemma async_send_alive [simp]: "pool_alive s \<Longrightarrow> async_send (s\<lparr>m_pendingBind := b\<rparr>) = s\<lparr>m_pendingBind := b\<rparr>"
  "pool_alive s \<Longrightarrow> async_send (s\<lparr>m_pendingClose := c\<rparr>) = s\<lparr>m_pendingClose := c\<rparr>"
  "pool_alive s \<Longrightarrow> async_send (s\<lparr>m_bWantExit := w\<rparr>) = s\<lparr>m_bWantExit := w\<rparr>"
  "pool_alive s \<Longrightarrow> async_send (mem_add i (s\<lparr>np_tick := k\<rparr>)\<lparr>m_pendingSend := p\<rparr>) = mem_add i (s\<lparr>np_tick := k\<rparr>)\<lparr>m_pendingSend := p\<rparr>"
  by (auto simp: async_send_def pool_alive_def split: option.splits)

lemma np_ok_step:
  assumes "np_step s s'" and "np_ok s"
  shows "np_ok s'"
  using assms
proof cases
  case (wakeup)
  then show ?thesis using assms(2) np_ok_wakeup [of s] by (auto simp: pool_alive_def split: option.splits)
next
  case (send node data bAutoConnect)
  then show ?thesis using assms(2) by (simp add: np_ok_def pool_send_def env_ret_def Let_def split: option.split)
next
  case (timeout t c)
  then show ?thesis using assms(2) core_timeout by (simp add: np_ok_def env_callbacks)
next
  case (read t c nread data)
  then show ?thesis using assms(2) core_read by (simp add: np_ok_def env_callbacks)
next
  case (new_connection t c status peer len)
  then show ?thesis using assms(2) core_new_connection by (simp add: np_ok_def env_new_connection)
next
  case (udp_recv u d nread data addr)
  then show ?thesis using assms(2) core_udp_callbacks(1) by (simp add: np_ok_def env_callbacks)
next
  case (async_closed a)
  then show ?thesis using assms(2) env_callbacks(13) [of s] by (simp add: np_ok_def on_async_closed_def)
qed (use assms(2) in \<open>simp_all add: np_ok_def env_callbacks pool_bind_def pool_close_def pool_destroy_def
  core_write_done core_connect_done core_shutdown_done core_tcp_closed core_timer_closed core_udp_callbacks(2,3)\<close>)

lemma core_start: "core {} {} (pool_fresh settings env)"
  by (simp add: core_defs pool_fresh_def)

lemma pool_construct_ok:
  assumes "pool_construct settings env = (True, s)"
  shows "core {} {} s \<and> np_env s = env"
proof -
  have "np_env (pool_fresh settings env) = env" by (simp add: pool_fresh_def)
  then show ?thesis
    using assms core_start [of settings env]
    by (auto simp: pool_construct_def internal_thread_start_def casync_alloc_def env_ret_def mem_add_normal Let_def split: if_splits)
qed

theorem np_reach_ok: "np_reach settings env s \<Longrightarrow> connect_law env \<Longrightarrow> np_ok s"
proof (induction rule: np_reach.induct)
  case (start s)
  then show ?case using pool_construct_ok [of settings env s] by (simp add: np_ok_def)
next
  case (step s s')
  then show ?case using np_ok_step by blast
qed

end
