(* ===== verification/Pool_Properties.thy ===== *)
theory Pool_Properties
  imports Pool_Steps
begin

text \<open>
  What a user of \<open>CnetworkPool\<close> can rely on, stated over every state the pool can reach,
  and what single operations do. A small concrete run gives the witnesses.
\<close>

section \<open>A concrete run\<close>

text \<open>
  Every call succeeds, but libuv refuses to connect to an address of no family. The user
  sends one message to a node and the connection is made.
\<close>

definition demo_env :: "nat \<Rightarrow> env_call \<Rightarrow> int" where
  "demo_env k e = (case e of Call_uv_tcp_connect a \<Rightarrow> if valid a then 0 else - 22 | _ \<Rightarrow> 0)"

definition demo_node :: network_node where
  "demo_node = Network_node Protocol_tcp (Sa_in 80 1) 0"

definition demo_start :: np_pool where
  "demo_start = snd (pool_construct preferred_network_settings demo_env)"

definition demo_sent :: np_pool where
  "demo_sent = snd (pool_send demo_node (Some [1]) True demo_start)"

definition demo_connecting :: np_pool where
  "demo_connecting = on_wakeup demo_sent"

definition demo_connected :: np_pool where
  "demo_connected = on_connect_done 0 0 demo_connecting"

lemma connect_law_demo: "connect_law demo_env"
  by (simp add: connect_law_def demo_env_def)

lemma demo_reach:
  "np_reach preferred_network_settings demo_env demo_start" "np_reach preferred_network_settings demo_env demo_sent"
  "np_reach preferred_network_settings demo_env demo_connecting" "np_reach preferred_network_settings demo_env demo_connected"
proof -
  have "fst (pool_construct preferred_network_settings demo_env)" by code_simp
  then show 1: "np_reach preferred_network_settings demo_env demo_start"
    by (intro np_reach.start) (simp add: demo_start_def prod_eq_iff)
  have "pool_alive demo_start" by code_simp
  then show 2: "np_reach preferred_network_settings demo_env demo_sent"
    unfolding demo_sent_def by (intro np_reach.step [OF 1] np_step.send)
  have "pool_alive demo_sent" by code_simp
  then show 3: "np_reach preferred_network_settings demo_env demo_connecting"
    unfolding demo_connecting_def by (intro np_reach.step [OF 2] np_step.wakeup)
  have "0 \<in> set (np_connects demo_connecting)" by code_simp
  then show "np_reach preferred_network_settings demo_env demo_connected"
    unfolding demo_connected_def by (intro np_reach.step [OF 3] np_step.connect_done)
qed

section \<open>In every reachable state\<close>



text \<open>
  C16: A node in \<open>m_node2stream\<close> has a live connection: the object exists, carries that very
  node, is neither closing nor shutting down, is not still being connected, and its timer is
  running.
\<close>

theorem registered_stream_open:
  assumes "np_reach settings env s" and "connect_law env" and reg: "um_find n (m_node2stream s) = Some t"
  shows "\<exists>c. np_tcps s t = Some c \<and> t_node c = n \<and> m_tcpInited c \<and> \<not> m_closing c \<and> \<not> m_shutdown c
    \<and> t_timer_active c \<and> t \<notin> set (np_connects s)"
proof -
  have core: "core {} {} s" using np_reach_ok [OF assms(1,2)] by (rule np_ok_core)
  obtain c where c: "t \<notin> set (np_connects s)" "np_tcps s t = Some c" "t_node c = n" "tcp_open c"
    using core_stream [OF core reg] by auto
  then have "t_timer_active c" using core_object [OF core c(2)] by (simp add: tcp_settled_def tcp_open_def)
  then show ?thesis using c by (simp add: tcp_open_def)
qed

theorem registered_stream_open_witness:
  "\<exists>c. np_tcps demo_connected 0 = Some c \<and> t_node c = demo_node \<and> m_tcpInited c \<and> \<not> m_closing c \<and> \<not> m_shutdown c
    \<and> t_timer_active c \<and> 0 \<notin> set (np_connects demo_connected)"
proof -
  have "um_find demo_node (m_node2stream demo_connected) = Some 0" by code_simp
  from registered_stream_open [OF demo_reach(4) connect_law_demo this] show ?thesis .
qed

text \<open>
  C15: Messages never wait for nothing. When messages for a node are kept in
  \<open>m_waitingSend\<close>, there is at least one of them, the node has no connection yet, and a
  connection attempt to exactly that node is under way in libuv and not being given up.
\<close>

theorem waiting_has_attempt:
  assumes "np_reach settings env s" and "connect_law env" and w: "um_find n (m_waitingSend s) = Some bufs"
  shows "bufs \<noteq> [] \<and> um_find n (m_node2stream s) = None
    \<and> (\<exists>t\<in>set (m_connecting s). t \<in> set (np_connects s)
        \<and> (\<exists>c. np_tcps s t = Some c \<and> t_node c = n \<and> \<not> m_closing c \<and> t_timer_active c))"
proof -
  have core: "core {} {} s" using np_reach_ok [OF assms(1,2)] by (rule np_ok_core)
  from core_waiting [OF core w] obtain t c where t: "bufs \<noteq> []" "um_find n (m_node2stream s) = None"
    "t \<in> set (m_connecting s)" "np_tcps s t = Some c" "t_node c = n" "\<not> m_closing c"
    by (auto simp: tcp_is_def)
  have conn: "t \<in> set (np_connects s)" using core_connecting [OF core t(3)] .
  then have "t_timer_active c"
    using core_connect [OF core conn] core_object [OF core t(4)] t by (auto simp: tcp_conn_def tcp_settled_def)
  then show ?thesis using t conn by blast
qed

theorem waiting_has_attempt_witness:
  "\<exists>t\<in>set (m_connecting demo_connecting). \<exists>c. np_tcps demo_connecting t = Some c \<and> t_node c = demo_node"
proof -
  have "um_find demo_node (m_waitingSend demo_connecting) = Some [[1]]" by code_simp
  from waiting_has_attempt [OF demo_reach(3) connect_law_demo this] show ?thesis by blast
qed

text \<open>
  C17: No connection hangs. A connection object (one with a timer; a listening server has none)
  that is not closing has its timer running, so that the timeout callback is always a possible
  next step; and that callback closes the object.
\<close>

theorem connection_times_out:
  assumes "np_reach settings env s" and "connect_law env" and t: "np_tcps s t = Some c"
    and c: "m_timerInited c" "\<not> m_closing c"
  shows "\<exists>s' c'. np_step s s' \<and> s' = on_tcp_timeout t (upd_tcp t (\<lambda>c. c\<lparr>t_timer_active := False\<rparr>) s)
    \<and> np_tcps s' t = Some c' \<and> m_closing c'"
proof -
  have core: "core {} {} s" using np_reach_ok [OF assms(1,2)] by (rule np_ok_core)
  let ?s1 = "upd_tcp t (\<lambda>c. c\<lparr>t_timer_active := False\<rparr>) s"
  have settled: "m_tcpInited c" "t_timer_active c"
    using core_object [OF core t] c by (auto simp: tcp_settled_def)
  have "np_step s (on_tcp_timeout t ?s1)" using t settled by (intro np_step.timeout) auto
  moreover have "\<exists>c'. np_tcps (on_tcp_timeout t ?s1) t = Some c' \<and> m_closing c'"
    using t settled c
    by (simp add: on_tcp_timeout_def shutdownTcpConnection_def ctcp_close_def um_erase_def Let_def)
  ultimately show ?thesis by blast
qed

theorem connection_times_out_witness:
  "\<exists>s' c'. np_step demo_connected s' \<and> np_tcps s' 0 = Some c' \<and> m_closing c'"
proof -
  obtain c where c: "np_tcps demo_connected 0 = Some c" "\<not> m_closing c" "m_timerInited c"
  proof -
    have "map_option (\<lambda>c. (m_closing c, m_timerInited c)) (np_tcps demo_connected 0) = Some (False, True)" by code_simp
    then show ?thesis using that by auto
  qed
  from connection_times_out [OF demo_reach(4) connect_law_demo c(1,3,2)] show ?thesis by blast
qed

lemma env_fold: "(\<And>x s. np_env (f x s) = np_env (s :: np_pool)) \<Longrightarrow> np_env (fold f xs s) = np_env s"
  by (induction xs arbitrary: s) simp_all

lemma env_casync_close [simp, np_frame]: "np_env (casync_close (s :: np_pool)) = np_env s"
  by (simp add: casync_close_def undefined_behaviour_def split: option.split)

lemma env_on_wakeup [simp, np_frame]: "np_env (on_wakeup s) = np_env s"
proof -
  have "np_env (wakeup_exit bc sc s') = np_env s'" for bc sc s'
    by (simp add: wakeup_exit_steps exit_waiting_def exit_connecting_def exit_streams_def exit_udp_def exit_tcp_def)
  then show ?thesis by (simp add: on_wakeup_def Let_def env_fold)
qed

lemma env_step: "np_step s s' \<Longrightarrow> np_env s' = np_env s"
proof (induction rule: np_step.induct)
  case (send s node data bAutoConnect)
  then show ?case by (simp add: pool_send_def env_ret_def Let_def split: option.split)
qed (simp_all add: env_callbacks env_new_connection pool_bind_def pool_close_def pool_destroy_def)

lemma np_reach_env: "np_reach settings env s \<Longrightarrow> np_env s = env"
proof (induction rule: np_reach.induct)
  case (start s)
  then show ?case using pool_construct_ok by blast
qed (simp add: env_step)

section \<open>Order of messages\<close>

lemma wakeup_send_waiting:
  assumes "m_protocol n = Protocol_tcp" and "ps_node req = n"
    and "um_find n (m_node2stream s) = None" and "um_find n (m_waitingSend s) = Some bufs"
  shows "wakeup_send req s = pushWaiting n (ps_data req) s"
  using assms by (simp add: wakeup_send_def wakeup_send_tcp_def getStreamByNode_def Let_def)

text \<open>
  While the connection to a node is being made, further messages to it are queued behind
  those already waiting, in the order they were sent; none is lost, no second connection is
  attempted, and nothing is reported to the user yet.
\<close>

theorem waiting_is_fifo:
  assumes "m_protocol n = Protocol_tcp" and "\<forall>req\<in>set reqs. ps_node req = n"
    and "um_find n (m_node2stream s) = None" and "um_find n (m_waitingSend s) = Some bufs"
  shows "um_find n (m_waitingSend (fold wakeup_send reqs s)) = Some (bufs @ map ps_data reqs)
    \<and> (\<forall>k. k \<noteq> n \<longrightarrow> um_find k (m_waitingSend (fold wakeup_send reqs s)) = um_find k (m_waitingSend s))
    \<and> np_log (fold wakeup_send reqs s) = np_log s \<and> np_next (fold wakeup_send reqs s) = np_next s
    \<and> np_connects (fold wakeup_send reqs s) = np_connects s"
  using assms(2-)
proof (induction reqs arbitrary: s bufs)
  case (Cons req reqs)
  have eq: "wakeup_send req s = pushWaiting n (ps_data req) s"
    using Cons.prems assms(1) by (intro wakeup_send_waiting) auto
  show ?case using Cons.prems Cons.IH [of "pushWaiting n (ps_data req) s" "bufs @ [ps_data req]"]
    by (simp add: eq) (simp add: pushWaiting_def)
qed simp

theorem waiting_is_fifo_witness:
  "um_find demo_node (m_waitingSend (fold wakeup_send
     [\<lparr>ps_node = demo_node, ps_data = [2], ps_bAutoConnect = False\<rparr>,
      \<lparr>ps_node = demo_node, ps_data = [3], ps_bAutoConnect = False\<rparr>] demo_connecting)) = Some [[1], [2], [3]]"
proof -
  have 1: "m_protocol demo_node = Protocol_tcp" by code_simp
  have 2: "um_find demo_node (m_node2stream demo_connecting) = None" by code_simp
  have 3: "um_find demo_node (m_waitingSend demo_connecting) = Some [[1]]" by code_simp
  show ?thesis
    using waiting_is_fifo [OF 1 _ 2 3, of
        "[\<lparr>ps_node = demo_node, ps_data = [2], ps_bAutoConnect = False\<rparr>,
          \<lparr>ps_node = demo_node, ps_data = [3], ps_bAutoConnect = False\<rparr>]"] by simp
qed

text \<open>
  C23: When a connection comes up and no call fails, the node is registered, the user is told,
  and everything that was waiting for the node goes into one write request in its order, with
  the send timeout armed; nothing waits any more.
\<close>

theorem startup_flushes_waiting:
  assumes "np_tcps s t = Some c" and "valid (m_sockaddr (t_node c))"
    and "um_find (t_node c) (m_node2stream s) = None" and "um_find (t_node c) (m_waitingSend s) = Some bufs"
    and "\<forall>k. np_env s k Call_malloc = 0" and "\<forall>k. np_env s k Call_uv_write = 0"
    and "\<forall>k ms. np_env s k (Call_uv_timer_start ms) = 0"
  shows "np_writes (startupTcpConnection t s) = np_writes s @ [(t, bufs)]
    \<and> um_find (t_node c) (m_node2stream (startupTcpConnection t s)) = Some t
    \<and> um_find (t_node c) (m_waitingSend (startupTcpConnection t s)) = None
    \<and> np_log (startupTcpConnection t s) = np_log s @ [Cb_connectionStatus (t_node c) True]
    \<and> np_tcps (startupTcpConnection t s) t = Some (c\<lparr>t_timer_active := True\<rparr>)"
  using assms
  by (simp add: startupTcpConnection_def um_insert_new getWriteFromWaitingByNode_def env_ret_def um_erase_def
      write_or_shutdown_def uv_timer_start_def uv_write_def emit_def mem_add_def Let_def)

theorem startup_flushes_waiting_witness:
  "np_writes (startupTcpConnection 0 demo_connecting) = [(0, [[1]])]"
proof -
  obtain c where c: "np_tcps demo_connecting 0 = Some c" "t_node c = demo_node"
  proof -
    have "map_option t_node (np_tcps demo_connecting 0) = Some demo_node" by code_simp
    then show ?thesis using that by auto
  qed
  have v: "valid (m_sockaddr (t_node c))" unfolding c(2) by code_simp
  have n: "um_find (t_node c) (m_node2stream demo_connecting) = None" unfolding c(2) by code_simp
  have w: "um_find (t_node c) (m_waitingSend demo_connecting) = Some [[1]]" unfolding c(2) by code_simp
  have env: "np_env demo_connecting = demo_env" using demo_reach(3) by (rule np_reach_env)
  have "np_writes demo_connecting = []" by code_simp
  then show ?thesis
    using startup_flushes_waiting [OF c(1) v n w] by (simp add: env demo_env_def)
qed

section \<open>Sending datagrams\<close>

lemma wakeup_send_udp_step:
  assumes "m_protocol (ps_node req) = Protocol_udp" and "m_udpServers s \<noteq> []"
    and "\<forall>u\<in>set (m_udpServers s). np_udps s u \<noteq> None" and "\<forall>k. np_env s k Call_malloc = 0"
    and "\<forall>k a. np_env s k (Call_uv_udp_send a) = 0"
  defines "i \<equiv> m_udpIndex s mod length (m_udpServers s)"
  shows "\<exists>k. wakeup_send req s = (mem_add 1 (s\<lparr>m_udpIndex := Suc i,
    np_udp_sends := np_udp_sends s @ [(m_udpServers s ! i, [ps_data req])], np_tick := k\<rparr>))"
proof -
  have "m_udpServers s ! i \<in> set (m_udpServers s)" using assms(2) by (simp add: i_def)
  then obtain c where "np_udps s (m_udpServers s ! i) = Some c" using assms(3) by blast
  then show ?thesis
    using assms by (intro exI [of _ "Suc (Suc (np_tick s))"])
      (simp add: wakeup_send_def wakeup_send_udp_def env_ret_def mem_add_def Let_def)
qed

text \<open>
  C26: Datagrams are spread over the bound UDP sockets in turn: with \<open>k\<close> sockets, the i-th of a
  batch of messages goes out through socket number \<open>(m_udpIndex + i) mod k\<close>, in the order of
  the batch, when no call fails.
\<close>

theorem udp_round_robin:
  assumes "\<forall>req\<in>set reqs. m_protocol (ps_node req) = Protocol_udp" and "m_udpServers s \<noteq> []"
    and "\<forall>u\<in>set (m_udpServers s). np_udps s u \<noteq> None" and "\<forall>k. np_env s k Call_malloc = 0"
    and "\<forall>k a. np_env s k (Call_uv_udp_send a) = 0"
  shows "np_udp_sends (fold wakeup_send reqs s) = np_udp_sends s @
    map (\<lambda>i. (m_udpServers s ! ((m_udpIndex s + i) mod length (m_udpServers s)), [ps_data (reqs ! i)]))
      [0..<length reqs]"
  using assms
proof (induction reqs arbitrary: s)
  case (Cons req reqs)
  let ?l = "length (m_udpServers s)" and ?i = "m_udpIndex s mod length (m_udpServers s)"
  obtain k where k: "wakeup_send req s = mem_add 1 (s\<lparr>m_udpIndex := Suc ?i,
      np_udp_sends := np_udp_sends s @ [(m_udpServers s ! ?i, [ps_data req])], np_tick := k\<rparr>)" (is "_ = ?s1")
    using wakeup_send_udp_step [of req s] Cons.prems by auto
  have idx: "Suc (?i + i) mod ?l = Suc (m_udpIndex s + i) mod ?l" for i
    using mod_add_left_eq [of "m_udpIndex s" ?l "Suc i"] by simp
  have "np_udp_sends (fold wakeup_send reqs ?s1) = np_udp_sends ?s1 @
    map (\<lambda>i. (m_udpServers s ! ((Suc ?i + i) mod ?l), [ps_data (reqs ! i)])) [0..<length reqs]"
    using Cons.IH [of ?s1] Cons.prems by simp
  moreover have "[0..<length (req # reqs)] = 0 # map Suc [0..<length reqs]"
    by (simp add: upt_conv_Cons map_Suc_upt del: upt_Suc)
  ultimately show ?case by (simp add: k idx o_def del: upt_Suc)
qed simp

definition demo_udp :: np_pool where
  "demo_udp = demo_start\<lparr>m_udpServers := [3, 5], m_udpIndex := 7,
     np_udps := [3 \<mapsto> \<lparr>u_inited = True, u_closing = False, u_node = node_default\<rparr>,
                 5 \<mapsto> \<lparr>u_inited = True, u_closing = False, u_node = node_default\<rparr>]\<rparr>"

theorem udp_round_robin_witness:
  "map fst (np_udp_sends (fold wakeup_send (replicate 3
     \<lparr>ps_node = Network_node Protocol_udp (Sa_in 1 2) 0, ps_data = [9], ps_bAutoConnect = False\<rparr>) demo_udp)) = [5, 3, 5]"
proof -
  let ?r = "\<lparr>ps_node = Network_node Protocol_udp (Sa_in 1 2) 0, ps_data = [9], ps_bAutoConnect = False\<rparr>"
  have "np_udp_sends (fold wakeup_send (replicate 3 ?r) demo_udp) = np_udp_sends demo_udp @
    map (\<lambda>i. (m_udpServers demo_udp ! ((m_udpIndex demo_udp + i) mod length (m_udpServers demo_udp)),
      [ps_data (replicate 3 ?r ! i)])) [0..<length (replicate 3 ?r)]"
    by (rule udp_round_robin) (simp_all add: demo_udp_def np_reach_env [OF demo_reach(1)] demo_env_def)
  moreover have "np_udp_sends demo_udp = []" by code_simp
  moreover have "7 mod Suc (Suc 0) = (1 :: nat)" "8 mod Suc (Suc 0) = (0 :: nat)" "9 mod Suc (Suc 0) = (1 :: nat)"
    by code_simp+
  ultimately show ?thesis by (simp add: demo_udp_def upt_rec)
qed

section \<open>Leaving\<close>

lemma log_emit [simp]: "np_log (emit e (s :: np_pool)) = np_log s @ [e]"
  by (simp add: emit_def)

lemma log_emit_all [simp]: "np_log (emit_all es s) = np_log s @ es"
  by (induction es arbitrary: s) simp_all

lemma log_drop_and_free [simp]: "np_log (drop_and_free n bs s) = np_log s @ map (Cb_drop n) bs"
  by (induction bs arbitrary: s) simp_all

definition node_at :: "np_pool \<Rightarrow> oid \<Rightarrow> network_node" where
  "node_at s t = t_node (the (np_tcps s t))"

definition inited_at :: "np_pool \<Rightarrow> oid \<Rightarrow> bool" where
  "inited_at s t \<longleftrightarrow> (\<exists>c. np_tcps s t = Some c \<and> m_tcpInited c)"

definition closing_at :: "np_pool \<Rightarrow> oid \<Rightarrow> bool" where
  "closing_at s t \<longleftrightarrow> (\<exists>c. np_tcps s t = Some c \<and> m_tcpInited c \<and> m_closing c)"

lemma at_same:
  "np_tcps s' = np_tcps s \<Longrightarrow> node_at s' = node_at s \<and> inited_at s' = inited_at s \<and> closing_at s' = closing_at s"
  by (auto simp: node_at_def inited_at_def closing_at_def)

lemma at_emit [simp]:
  "node_at (emit e s) = node_at s" "inited_at (emit e s) = inited_at s" "closing_at (emit e s) = closing_at s"
  using at_same [of "emit e s" s] by simp_all

lemma at_close [simp]:
  assumes "inited_at s u"
  shows "node_at (ctcp_close u s) = node_at s" "inited_at (ctcp_close u s) = inited_at s"
    "closing_at (ctcp_close u s) t \<longleftrightarrow> closing_at s t \<or> t = u"
  using assms by (auto simp: node_at_def inited_at_def closing_at_def ctcp_close_def fun_eq_iff split: if_splits)

lemma close_tcp_servers_spec:
  assumes "\<forall>p\<in>set l. inited_at s (snd p)"
  shows "np_log (close_tcp_servers l s) = np_log s @ map (\<lambda>(n, t). Cb_bindStatus n False) l
    \<and> node_at (close_tcp_servers l s) = node_at s \<and> inited_at (close_tcp_servers l s) = inited_at s
    \<and> np_udps (close_tcp_servers l s) = np_udps s
    \<and> (\<forall>t. closing_at (close_tcp_servers l s) t \<longleftrightarrow> closing_at s t \<or> t \<in> snd ` set l)"
  using assms
proof (induction l arbitrary: s)
  case (Cons p l)
  obtain n t where p: "p = (n, t)" by fastforce
  have "\<forall>p\<in>set l. inited_at (ctcp_close t (emit (Cb_bindStatus n False) s)) (snd p)" using Cons.prems p by simp
  from Cons.IH [OF this] show ?case using Cons.prems by (auto simp: p)
qed simp

lemma close_connections_spec:
  assumes "\<forall>t\<in>set l. inited_at s t"
  shows "np_log (close_connections l s) = np_log s @ map (\<lambda>t. Cb_connectionStatus (node_at s t) False) l
    \<and> node_at (close_connections l s) = node_at s \<and> inited_at (close_connections l s) = inited_at s
    \<and> (\<forall>t. closing_at (close_connections l s) t \<longleftrightarrow> closing_at s t \<or> t \<in> set l)"
  using assms
proof (induction l arbitrary: s)
  case (Cons t l)
  then obtain c where c: "np_tcps s t = Some c" by (auto simp: inited_at_def)
  have "\<forall>u\<in>set l. inited_at (ctcp_close t (emit (Cb_connectionStatus (t_node c) False) s)) u" using Cons.prems by simp
  from Cons.IH [OF this] show ?case using Cons.prems c by (auto simp: node_at_def [of s t])
qed simp

lemma close_udp_servers_spec:
  assumes "\<forall>u\<in>set l. \<exists>c. np_udps s u = Some c \<and> u_inited c"
  shows "np_log (close_udp_servers l s) = np_log s @ map (\<lambda>u. Cb_bindStatus (u_node (the (np_udps s u))) False) l
    \<and> np_tcps (close_udp_servers l s) = np_tcps s"
  using assms
proof (induction l arbitrary: s)
  case (Cons u l)
  then obtain c where c: "np_udps s u = Some c" "u_inited c" by auto
  let ?s1 = "cudp_close u ((emit (Cb_bindStatus (u_node c) False) s)\<lparr>np_tick := Suc (np_tick s)\<rparr>)"
  have s1: "np_log ?s1 = np_log s @ [Cb_bindStatus (u_node c) False]" "np_tcps ?s1 = np_tcps s"
    "np_udps ?s1 = (np_udps s)(u \<mapsto> c\<lparr>u_closing := True\<rparr>)"
    using c by (auto simp: cudp_close_def upd_udp_def fun_eq_iff)
  have "\<forall>v\<in>set l. \<exists>c. np_udps ?s1 v = Some c \<and> u_inited c" using Cons.prems c by (auto simp: s1)
  note IH = Cons.IH [OF this]
  have "map (\<lambda>v. Cb_bindStatus (u_node (the (np_udps ?s1 v))) False) l
      = map (\<lambda>v. Cb_bindStatus (u_node (the (np_udps s v))) False) l" using c by (simp add: s1)
  then show ?case using c IH s1(1,2) by (simp add: env_ret_def)
qed simp

lemma drop_all_waiting_spec:
  "np_log (drop_all_waiting w s) = np_log s @ concat (map (\<lambda>(n, bufs). map (Cb_drop n) bufs) w)"
  "np_tcps (drop_all_waiting w s) = np_tcps s"
  by (induction w s rule: drop_all_waiting.induct) simp_all

lemma drop_all_sends_spec:
  "np_log (drop_all_sends p s) = np_log s @ map (\<lambda>r. Cb_drop (ps_node r) (ps_data r)) p"
  "np_tcps (drop_all_sends p s) = np_tcps s"
  by (induction p arbitrary: s) simp_all

text \<open>What one call of \<open>wakeup_exit\<close> tells the user, in order.\<close>

definition exit_report :: "(network_node \<times> bool) list \<Rightarrow> pending_send list \<Rightarrow> np_pool \<Rightarrow> event list" where
  "exit_report bindCopy sendCopy s =
     map (\<lambda>(n, t). Cb_bindStatus n False) (m_tcpServers s)
     @ map (\<lambda>u. Cb_bindStatus (u_node (the (np_udps s u))) False) (m_udpServers s)
     @ map (\<lambda>(n, t). Cb_connectionStatus n False) (m_node2stream s)
     @ map (\<lambda>t. Cb_connectionStatus (node_at s t) False) (m_connecting s)
     @ concat (map (\<lambda>(n, bufs). map (Cb_drop n) bufs) (m_waitingSend s))
     @ map (\<lambda>(n, b). Cb_bindStatus n False) bindCopy
     @ map (\<lambda>r. Cb_drop (ps_node r) (ps_data r)) sendCopy"

lemma exit_tcp_spec:
  assumes core: "core {} {} s"
  shows "np_log (exit_tcp s) = np_log s @ map (\<lambda>(n, t). Cb_bindStatus n False) (m_tcpServers s)
    \<and> node_at (exit_tcp s) = node_at s \<and> np_udps (exit_tcp s) = np_udps s
    \<and> (\<forall>t. closing_at (exit_tcp s) t \<longleftrightarrow> closing_at s t \<or> t \<in> snd ` set (m_tcpServers s))"
proof -
  let ?u = "s\<lparr>m_tcpServers := []\<rparr>"
  have u: "node_at ?u = node_at s \<and> inited_at ?u = inited_at s \<and> closing_at ?u = closing_at s" by (rule at_same) simp
  have "inited_at ?u t" if "(n, t) \<in> set (m_tcpServers s)" for n t
    using core_server [OF core, of n t] core_maps [OF core] um_in_set_find [OF _ that] u
    by (auto simp: inited_at_def tcp_server_def)
  then have "\<forall>p\<in>set (m_tcpServers s). inited_at ?u (snd p)" by auto
  from close_tcp_servers_spec [OF this] u show ?thesis by (simp add: exit_tcp_def)
qed

lemma exit_udp_spec:
  assumes core: "core {} {} s"
  shows "np_log (exit_udp s) = np_log s @ map (\<lambda>u. Cb_bindStatus (u_node (the (np_udps s u))) False) (m_udpServers s)
    \<and> np_tcps (exit_udp s) = np_tcps s"
proof -
  have "\<forall>u\<in>set (m_udpServers s). \<exists>c. np_udps (s\<lparr>m_udpServers := []\<rparr>) u = Some c \<and> u_inited c"
    using core_udp_server [OF core] by auto
  from close_udp_servers_spec [OF this] show ?thesis by (simp add: exit_udp_def)
qed

lemma exit_streams_spec:
  assumes core: "core {} {} s"
  shows "np_log (exit_streams s) = np_log s @ map (\<lambda>(n, t). Cb_connectionStatus n False) (m_node2stream s)
    \<and> node_at (exit_streams s) = node_at s
    \<and> (\<forall>t. closing_at (exit_streams s) t \<longleftrightarrow> closing_at s t \<or> t \<in> snd ` set (m_node2stream s))"
proof -
  let ?u = "s\<lparr>m_node2stream := []\<rparr>"
  have u: "node_at ?u = node_at s \<and> inited_at ?u = inited_at s \<and> closing_at ?u = closing_at s" by (rule at_same) simp
  have streams: "n = node_at s t \<and> inited_at s t" if "(n, t) \<in> set (m_node2stream s)" for n t
    using core_stream [OF core, of n t] core_maps [OF core] um_in_set_find [OF _ that]
    by (auto simp: inited_at_def node_at_def tcp_open_def)
  then have "\<forall>t\<in>set (map snd (m_node2stream s)). inited_at ?u t" using u by auto
  note spec = close_connections_spec [OF this]
  have "map (\<lambda>t. Cb_connectionStatus (node_at s t) False) (map snd (m_node2stream s))
      = map (\<lambda>(n, t). Cb_connectionStatus n False) (m_node2stream s)"
    using streams by auto
  with spec u show ?thesis by (simp add: exit_streams_def)
qed

lemma exit_connecting_spec:
  assumes core: "core {} {} s"
  shows "np_log (exit_connecting s) = np_log s @ map (\<lambda>t. Cb_connectionStatus (node_at s t) False) (m_connecting s)
    \<and> (\<forall>t. closing_at (exit_connecting s) t \<longleftrightarrow> closing_at s t \<or> t \<in> set (m_connecting s))"
proof -
  let ?u = "s\<lparr>m_connecting := []\<rparr>"
  have u: "node_at ?u = node_at s \<and> inited_at ?u = inited_at s \<and> closing_at ?u = closing_at s" by (rule at_same) simp
  have "\<forall>t\<in>set (m_connecting s). inited_at ?u t"
    using core_connect [OF core core_connecting [OF core]] u by (fastforce simp: inited_at_def tcp_conn_def)
  from close_connections_spec [OF this] u show ?thesis by (simp add: exit_connecting_def)
qed

lemma exit_fields [simp]:
  "m_udpServers (exit_tcp s) = m_udpServers s" "m_node2stream (exit_tcp s) = m_node2stream s"
  "m_connecting (exit_tcp s) = m_connecting s" "m_waitingSend (exit_tcp s) = m_waitingSend s"
  "m_node2stream (exit_udp s) = m_node2stream s" "m_connecting (exit_udp s) = m_connecting s"
  "m_waitingSend (exit_udp s) = m_waitingSend s" "m_connecting (exit_streams s) = m_connecting s"
  "m_waitingSend (exit_streams s) = m_waitingSend s" "m_waitingSend (exit_connecting s) = m_waitingSend s"
  by (simp_all add: exit_tcp_def exit_udp_def exit_streams_def exit_connecting_def)

lemma exit_cleared [simp]:
  "m_tcpServers (exit_tcp s) = []" "m_tcpServers (exit_udp s) = m_tcpServers s" "m_tcpServers (exit_streams s) = m_tcpServers s"
  "m_tcpServers (exit_connecting s) = m_tcpServers s" "m_udpServers (exit_udp s) = []"
  "m_udpServers (exit_streams s) = m_udpServers s" "m_udpServers (exit_connecting s) = m_udpServers s"
  "m_node2stream (exit_streams s) = []" "m_node2stream (exit_connecting s) = m_node2stream s" "m_connecting (exit_connecting s) = []"
  by (simp_all add: exit_tcp_def exit_udp_def exit_streams_def exit_connecting_def)

lemma exit_waiting_spec [simp]:
  "np_log (exit_waiting s) = np_log s @ concat (map (\<lambda>(n, bufs). map (Cb_drop n) bufs) (m_waitingSend s))"
  "np_tcps (exit_waiting s) = np_tcps s" "m_waitingSend (exit_waiting s) = []" "m_tcpServers (exit_waiting s) = m_tcpServers s"
  "m_udpServers (exit_waiting s) = m_udpServers s" "m_node2stream (exit_waiting s) = m_node2stream s"
  "m_connecting (exit_waiting s) = m_connecting s"
  by (simp_all add: exit_waiting_def drop_all_waiting_spec)

text \<open>What one call of \<open>wakeup_exit\<close> does to the objects.\<close>

definition in_tables :: "np_pool \<Rightarrow> oid \<Rightarrow> bool" where
  "in_tables s t \<longleftrightarrow> t \<in> snd ` set (m_tcpServers s) \<or> t \<in> snd ` set (m_node2stream s) \<or> t \<in> set (m_connecting s)"

lemma wakeup_exit_spec:
  fixes bindCopy sendCopy
  assumes core: "core {} {} s" and alive: "pool_alive s"
  defines "s' \<equiv> wakeup_exit bindCopy sendCopy s"
  shows "np_log s' = np_log s @ exit_report bindCopy sendCopy s" and "closing_at s t \<or> in_tables s t \<Longrightarrow> closing_at s' t"
    and "m_tcpServers s' = [] \<and> m_udpServers s' = [] \<and> m_node2stream s' = [] \<and> m_connecting s' = [] \<and> m_waitingSend s' = []"
proof -
  obtain a where a: "np_async s = Some a" "a_inited a" "\<not> a_closing a"
    using alive by (auto simp: pool_alive_def split: option.splits)
  define s0 where "s0 = casync_close s"
  have s0: "s0 = s\<lparr>np_async := Some (a\<lparr>a_closing := True\<rparr>)\<rparr>" using a by (simp add: casync_close_def s0_def)
  have at: "node_at s0 = node_at s \<and> inited_at s0 = inited_at s \<and> closing_at s0 = closing_at s" by (rule at_same) (simp add: s0)
  define s1 where "s1 = exit_tcp s0"
  define s2 where "s2 = exit_udp s1"
  define s3 where "s3 = exit_streams s2"
  define s4 where "s4 = exit_connecting s3"
  have c0: "core {} {} s0" using core by (simp add: s0)
  then have c1: "core {} {} s1" by (simp add: s1_def core_exit_tcp)
  then have c2: "core {} {} s2" by (simp add: s2_def core_exit_udp)
  then have c3: "core {} {} s3" by (simp add: s3_def core_exit_streams)
  note specs = exit_tcp_spec [OF c0, folded s1_def] exit_udp_spec [OF c1, folded s2_def]
    exit_streams_spec [OF c2, folded s3_def] exit_connecting_spec [OF c3, folded s4_def]
  have at2: "node_at s2 = node_at s1 \<and> inited_at s2 = inited_at s1 \<and> closing_at s2 = closing_at s1"
    using specs(2) by (intro at_same) simp
  have tables: "m_udpServers s1 = m_udpServers s" "m_node2stream s2 = m_node2stream s" "m_connecting s3 = m_connecting s"
    "m_waitingSend s4 = m_waitingSend s" "m_tcpServers s0 = m_tcpServers s" "np_udps s0 = np_udps s" "np_log s0 = np_log s"
    by (simp_all add: s4_def s3_def s2_def s1_def s0)
  have s': "s' = drop_all_sends sendCopy (emit_all (map (\<lambda>(n, b). Cb_bindStatus n False) bindCopy) (exit_waiting s4))"
    by (simp add: s'_def wakeup_exit_steps s4_def s3_def s2_def s1_def s0_def)
  show "np_log s' = np_log s @ exit_report bindCopy sendCopy s"
    using specs at at2 by (simp add: s' drop_all_sends_spec exit_report_def tables)
  have "closing_at s' = closing_at s4" using at_same [of s' s4] by (simp add: s' drop_all_sends_spec)
  then show "closing_at s t \<or> in_tables s t \<Longrightarrow> closing_at s' t"
    using specs at at2 by (auto simp: in_tables_def tables)
  show "m_tcpServers s' = [] \<and> m_udpServers s' = [] \<and> m_node2stream s' = [] \<and> m_connecting s' = [] \<and> m_waitingSend s' = []"
    by (simp add: s') (simp add: s4_def s3_def s2_def s1_def)
qed


definition demo_leaving :: np_pool where
  "demo_leaving = pool_destroy demo_connected"


section \<open>Two traps\<close>

text \<open>
  A user callback that runs while the pool leaves must not call the pool. By then
  \<open>on_wakeup\<close> has closed the async object and nulled \<open>m_wakeup\<close>, and \<open>bind\<close>,
  \<open>close\<close> and a \<open>send\<close> of a real message all dereference it.
\<close>

theorem reentry_during_exit_is_undefined:
  assumes alive: "pool_alive s"
  shows "np_ub (pool_bind node b (casync_close s))
    \<and> (m_protocol node = Protocol_tcp \<longrightarrow> np_ub (pool_close node b (casync_close s)))
    \<and> (m_protocol node = Protocol_tcp \<longrightarrow> d \<noteq> [] \<longrightarrow> np_env s (np_tick s) Call_malloc = 0
        \<longrightarrow> np_ub (snd (pool_send node (Some d) b (casync_close s))))"
  using alive
  by (auto simp: pool_alive_def pool_bind_def pool_close_def pool_send_def async_send_def casync_close_def
      undefined_behaviour_def env_ret_def mem_add_def split: option.splits)

theorem reentry_during_exit_is_undefined_witness: "np_ub (pool_bind demo_node True (casync_close demo_leaving))"
proof -
  have "pool_alive demo_leaving" by code_simp
  from reentry_during_exit_is_undefined [OF this, of demo_node True "[]"] show ?thesis by blast
qed

text \<open>
  A run in which a connection that was closed gracefully outlives its registration: after
  \<open>close\<close> the node is connected anew, and then the peer resets the old connection.
\<close>

definition demo_reconnected :: np_pool where
  "demo_reconnected =
     on_connect_done 1 0 (on_wakeup (snd (pool_send demo_node (Some [2]) True
       (on_wakeup (pool_close demo_node False demo_connected)))))"

definition demo_orphaned :: np_pool where
  "demo_orphaned = on_tcp_read 0 (- 104) [] (tcp_alloc_buffer 0 demo_reconnected)"

lemma demo_orphaned_reach:
  "np_reach preferred_network_settings demo_env demo_reconnected"
  "np_reach preferred_network_settings demo_env demo_orphaned"
proof -
  have "pool_alive demo_connected" by code_simp
  note 1 = np_reach.step [OF demo_reach(4) np_step.close [OF this, of demo_node False]]
  have "pool_alive (pool_close demo_node False demo_connected)" by code_simp
  note 2 = np_reach.step [OF 1 np_step.wakeup [OF this]]
  have "pool_alive (on_wakeup (pool_close demo_node False demo_connected))" by code_simp
  note 3 = np_reach.step [OF 2 np_step.send [OF this, of demo_node "Some [2]" True]]
  have "pool_alive (snd (pool_send demo_node (Some [2]) True (on_wakeup (pool_close demo_node False demo_connected))))"
    by code_simp
  note 4 = np_reach.step [OF 3 np_step.wakeup [OF this]]
  have "1 \<in> set (np_connects (on_wakeup (snd (pool_send demo_node (Some [2]) True
      (on_wakeup (pool_close demo_node False demo_connected))))))"
    by code_simp
  from np_reach.step [OF 4 np_step.connect_done [OF this]]
  show 5: "np_reach preferred_network_settings demo_env demo_reconnected" unfolding demo_reconnected_def .
  have "map_option t_reading (np_tcps demo_reconnected 0) = Some True" by code_simp
  then obtain c where "np_tcps demo_reconnected 0 = Some c" "t_reading c" by auto
  from np_reach.step [OF 5 np_step.read [OF this]]
  show "np_reach preferred_network_settings demo_env demo_orphaned" unfolding demo_orphaned_def .
qed

text \<open>
  \<open>shutdownTcpConnection\<close> erases the node's entry without looking whether it belongs to
  the connection being shut down. So there is a reachable state in which a node is registered
  with a new connection, and an error on an old connection to the same node then removes the
  entry: the user is told that the node is disconnected although the new connection is open
  and still being read, and no table of the pool knows it any more.
\<close>

theorem stale_shutdown_orphans_connection:
  "np_reach preferred_network_settings demo_env demo_reconnected
   \<and> um_find demo_node (m_node2stream demo_reconnected) = Some 1
   \<and> np_step demo_reconnected demo_orphaned
   \<and> um_find demo_node (m_node2stream demo_orphaned) = None
   \<and> last (np_log demo_orphaned) = Cb_connectionStatus demo_node False
   \<and> \<not> in_tables demo_orphaned 1
   \<and> map_option (\<lambda>c. (t_node c, m_closing c, m_shutdown c, t_reading c)) (np_tcps demo_orphaned 1)
       = Some (demo_node, False, False, True)"
proof (intro conjI)
  show "np_reach preferred_network_settings demo_env demo_reconnected" by (rule demo_orphaned_reach)
  have "map_option t_reading (np_tcps demo_reconnected 0) = Some True" by code_simp
  then obtain c where "np_tcps demo_reconnected 0 = Some c" "t_reading c" by auto
  from np_step.read [OF this] show "np_step demo_reconnected demo_orphaned" unfolding demo_orphaned_def .
qed code_simp+

end
