(* ===== verification/Pool_Memory.thy ===== *)
theory Pool_Memory
  imports Pool_Properties
begin

text \<open>
  The memory of \<open>CnetworkPool\<close>: \<open>owed s\<close> counts what the pool still has a use for in state
  \<open>s\<close>, one block each, and every function and callback keeps \<open>np_mem\<close>, the blocks obtained and
  not given back, equal to it. Within a function, \<open>mem_ok k s\<close> allows for the \<open>k\<close> blocks it holds
  itself: a write taken from the waiting messages and not yet given to libuv, a message of the
  local copy of the queue, a request whose callback is running.
\<close>

section \<open>What the pool owes the heap\<close>

text \<open>
  A write request is one block, and so is each of its buffers; a waiting message is one block.
\<close>

definition request_blocks :: "(oid \<times> uv_buf list) list \<Rightarrow> int" where
  "request_blocks reqs = (\<Sum>(t, bufs)\<leftarrow>reqs. 1 + int (length bufs))"

definition waiting_blocks :: "(network_node, uv_buf list) umap \<Rightarrow> int" where
  "waiting_blocks w = (\<Sum>(n, bufs)\<leftarrow>w. int (length bufs))"

definition owed :: "np_pool \<Rightarrow> int" where
  "owed s = 1 + int (card (dom (np_tcps s))) + int (card (dom (np_udps s))) + (if np_async s = None then 0 else 1)
     + request_blocks (np_writes s) + int (length (np_connects s)) + int (length (np_shutdowns s))
     + request_blocks (np_udp_sends s) + int (length (m_pendingSend s)) + waiting_blocks (m_waitingSend s)"

definition ids_ok :: "np_pool \<Rightarrow> bool" where
  "ids_ok s \<longleftrightarrow> (\<forall>t\<in>dom (np_tcps s). t < np_next s) \<and> (\<forall>u\<in>dom (np_udps s). u < np_next s)"

text \<open>\<open>k\<close> counts the blocks the running function itself holds.\<close>

definition mem_ok :: "int \<Rightarrow> np_pool \<Rightarrow> bool" where
  "mem_ok k s \<longleftrightarrow> np_ub s \<or> ids_ok s \<and> um_ok (m_waitingSend s) \<and> np_mem s = owed s + k"

lemma request_blocks_simps [simp]:
  "request_blocks [] = 0" "request_blocks (r # rs) = 1 + int (length (snd r)) + request_blocks rs"
  "request_blocks (rs @ rs') = request_blocks rs + request_blocks rs'"
  by (simp_all add: request_blocks_def split: prod.split)

lemma request_blocks_remove: "r \<in> set rs \<Longrightarrow> request_blocks (remove1 r rs) = request_blocks rs - 1 - int (length (snd r))"
  by (induction rs) auto

lemma int_length_remove1: "x \<in> set xs \<Longrightarrow> int (length (remove1 x xs)) = int (length xs) - 1"
  by (induction xs) auto

lemma waiting_blocks_simps [simp]:
  "waiting_blocks [] = 0" "waiting_blocks ((n, bufs) # w) = int (length bufs) + waiting_blocks w"
  by (simp_all add: waiting_blocks_def)

lemma waiting_blocks_delete:
  "um_ok w \<Longrightarrow> um_find n w = Some bufs \<Longrightarrow> waiting_blocks (AList.delete n w) = waiting_blocks w - int (length bufs)"
  by (induction w) (auto split: if_splits)

lemma waiting_blocks_update:
  "um_ok w \<Longrightarrow> um_find n w = Some bufs \<Longrightarrow>
   waiting_blocks (AList.update n bufs' w) = waiting_blocks w - int (length bufs) + int (length bufs')"
  by (induction w) (auto split: if_splits)

lemma card_dom_fresh [simp]: "ids_ok s \<Longrightarrow> card (insert (np_next s) (dom (np_tcps s))) = Suc (card (dom (np_tcps s)))"
  "ids_ok s \<Longrightarrow> card (insert (np_next s) (dom (np_udps s))) = Suc (card (dom (np_udps s)))"
proof -
  assume ids: "ids_ok s"
  have "dom (np_tcps s) \<subseteq> {..<np_next s}" "dom (np_udps s) \<subseteq> {..<np_next s}" using ids by (auto simp: ids_ok_def)
  then have fin: "finite (dom (np_tcps s))" "finite (dom (np_udps s))" using finite_subset by blast+
  have "np_next s \<notin> dom (np_tcps s)" "np_next s \<notin> dom (np_udps s)" using ids by (auto simp: ids_ok_def)
  then show "card (insert (np_next s) (dom (np_tcps s))) = Suc (card (dom (np_tcps s)))"
    "card (insert (np_next s) (dom (np_udps s))) = Suc (card (dom (np_udps s)))"
    using fin by simp_all
qed

lemma card_dom_remove:
  assumes ids: "ids_ok s"
  shows "np_tcps s t = Some c \<Longrightarrow> int (card (dom ((np_tcps s)(t := None)))) = int (card (dom (np_tcps s))) - 1"
    and "np_udps s u = Some d \<Longrightarrow> int (card (dom ((np_udps s)(u := None)))) = int (card (dom (np_udps s))) - 1"
proof -
  have "dom (np_tcps s) \<subseteq> {..<np_next s}" "dom (np_udps s) \<subseteq> {..<np_next s}" using ids by (auto simp: ids_ok_def)
  then have fin: "finite (dom (np_tcps s))" "finite (dom (np_udps s))" using finite_subset by blast+
  show "np_tcps s t = Some c \<Longrightarrow> int (card (dom ((np_tcps s)(t := None)))) = int (card (dom (np_tcps s))) - 1"
    using card.remove [OF fin(1) domI, of t c] by simp
  show "np_udps s u = Some d \<Longrightarrow> int (card (dom ((np_udps s)(u := None)))) = int (card (dom (np_udps s))) - 1"
    using card.remove [OF fin(2) domI, of u d] by simp
qed

section \<open>Updates\<close>

lemma mem_add_mem [simp]: "np_mem (mem_add j (s :: np_pool)) = np_mem s + j"
  by (simp add: mem_add_def)

lemma mem_ok_ub: "np_ub s \<Longrightarrow> mem_ok k s"
  by (simp add: mem_ok_def)

lemma mem_ok_emit [simp]: "mem_ok k (emit e s) = mem_ok k s"
  by (simp add: mem_ok_def owed_def ids_ok_def)

lemma mem_ok_emit_all [simp]: "mem_ok k (emit_all es s) = mem_ok k s"
  by (simp add: mem_ok_def owed_def ids_ok_def)

lemma mem_ok_mem_add [simp]: "mem_ok k (mem_add j s) = mem_ok (k - j) s"
  by (auto simp: mem_ok_def owed_def ids_ok_def)

lemma mem_drop_and_free [simp]: "np_mem (drop_and_free n bs (s :: np_pool)) = np_mem s - int (length bs)"
  by (induction bs arbitrary: s) simp_all

lemma mem_ok_drop_and_free [simp]: "mem_ok k (drop_and_free n bs s) = mem_ok (k + int (length bs)) s"
  by (induction bs arbitrary: s) (simp_all add: algebra_simps)

lemma mem_ok_fields [simp]:
  "mem_ok k (s\<lparr>np_tick := tick\<rparr>) = mem_ok k s"
  "mem_ok k (s\<lparr>m_udpIndex := i\<rparr>) = mem_ok k s"
  "mem_ok k (s\<lparr>m_tcpServers := ts\<rparr>) = mem_ok k s"
  "mem_ok k (s\<lparr>m_udpServers := us\<rparr>) = mem_ok k s"
  "mem_ok k (s\<lparr>m_node2stream := ns\<rparr>) = mem_ok k s"
  "mem_ok k (s\<lparr>m_connecting := cs\<rparr>) = mem_ok k s"
  "mem_ok k (s\<lparr>m_bWantExit := w\<rparr>) = mem_ok k s"
  "mem_ok k (s\<lparr>m_pendingBind := pb\<rparr>) = mem_ok k s"
  "mem_ok k (s\<lparr>m_pendingClose := pc\<rparr>) = mem_ok k s"
  by (simp_all add: mem_ok_def owed_def ids_ok_def)

lemma mem_ok_undefined [simp]: "mem_ok k (undefined_behaviour s)"
  by (simp add: mem_ok_def undefined_behaviour_def)

lemma mem_ok_requests:
  "mem_ok k (s\<lparr>np_writes := np_writes s @ [(t, bufs)]\<rparr>) = mem_ok (k + 1 + int (length bufs)) s"
  "mem_ok k (s\<lparr>np_udp_sends := np_udp_sends s @ [(u, bufs)]\<rparr>) = mem_ok (k + 1 + int (length bufs)) s"
  "mem_ok k (s\<lparr>np_connects := t # np_connects s\<rparr>) = mem_ok (k + 1) s"
  "mem_ok k (s\<lparr>np_shutdowns := t # np_shutdowns s\<rparr>) = mem_ok (k + 1) s"
  "mem_ok k (s\<lparr>m_pendingSend := m_pendingSend s @ [p]\<rparr>) = mem_ok (k + 1) s"
  "mem_ok k (s\<lparr>m_pendingSend := []\<rparr>) = mem_ok (k - int (length (m_pendingSend s))) s"
  by (auto simp: mem_ok_def owed_def ids_ok_def)

lemma mem_ok_requests_done:
  "req \<in> set (np_writes s) \<Longrightarrow> mem_ok k (s\<lparr>np_writes := remove1 req (np_writes s)\<rparr>) = mem_ok (k - 1 - int (length (snd req))) s"
  "req \<in> set (np_udp_sends s) \<Longrightarrow> mem_ok k (s\<lparr>np_udp_sends := remove1 req (np_udp_sends s)\<rparr>) = mem_ok (k - 1 - int (length (snd req))) s"
  "t \<in> set (np_connects s) \<Longrightarrow> mem_ok k (s\<lparr>np_connects := remove1 t (np_connects s)\<rparr>) = mem_ok (k - 1) s"
  "t \<in> set (np_shutdowns s) \<Longrightarrow> mem_ok k (s\<lparr>np_shutdowns := remove1 t (np_shutdowns s)\<rparr>) = mem_ok (k - 1) s"
  by (auto simp: mem_ok_def owed_def ids_ok_def request_blocks_remove int_length_remove1)
section \<open>Objects\<close>

lemma mem_ok_upd_tcp [intro!]: "mem_ok k s \<Longrightarrow> mem_ok k (upd_tcp t f s)"
  by (cases "np_tcps s t") (auto simp: upd_tcp_def mem_ok_def owed_def ids_ok_def undefined_behaviour_def insert_absorb domI)

lemma mem_ok_delete_tcp: "mem_ok k s \<Longrightarrow> np_tcps s t = Some c \<Longrightarrow> mem_ok k (delete_tcp t s)"
  using card_dom_remove(1) [of s t c]
  by (auto simp: delete_tcp_def mem_ok_def owed_def ids_ok_def)

lemma mem_ok_ctcp_close [intro!]: "mem_ok k s \<Longrightarrow> mem_ok k (ctcp_close t s)"
  by (auto simp: ctcp_close_def intro: mem_ok_delete_tcp split: option.split)

lemma mem_ok_new_tcp [intro!]: "mem_ok k s \<Longrightarrow> mem_ok k (new_tcp c j s)"
proof -
  assume ok: "mem_ok k s"
  show ?thesis
  proof (cases "np_ub s")
    case False
    then have ids: "ids_ok s" using ok by (simp add: mem_ok_def)
    then have "ids_ok (new_tcp c j s)" by (auto simp: ids_ok_def less_Suc_eq)
    then show ?thesis using ok ids False by (simp add: mem_ok_def owed_def)
  qed (simp add: mem_ok_def)
qed

lemma mem_ok_upd_udp [intro!]: "mem_ok k s \<Longrightarrow> mem_ok k (upd_udp u f s)"
  by (cases "np_udps s u") (auto simp: upd_udp_def mem_ok_def owed_def ids_ok_def undefined_behaviour_def insert_absorb domI)

lemma mem_ok_delete_udp: "mem_ok k s \<Longrightarrow> np_udps s u = Some c \<Longrightarrow> mem_ok k (delete_udp u s)"
  using card_dom_remove(2) [of s u c]
  by (auto simp: delete_udp_def mem_ok_def owed_def ids_ok_def)

lemma mem_ok_cudp_close [intro!]: "mem_ok k s \<Longrightarrow> mem_ok k (cudp_close u s)"
  by (auto simp: cudp_close_def intro: mem_ok_delete_udp split: option.split)

lemma mem_ok_new_udp [intro!]: "mem_ok k s \<Longrightarrow> mem_ok k (new_udp c j s)"
proof -
  assume ok: "mem_ok k s"
  show ?thesis
  proof (cases "np_ub s")
    case False
    then have ids: "ids_ok s" using ok by (simp add: mem_ok_def)
    then have "ids_ok (new_udp c j s)" by (auto simp: ids_ok_def less_Suc_eq)
    then show ?thesis using ok ids False by (simp add: mem_ok_def owed_def)
  qed (simp add: mem_ok_def)
qed

lemma mem_ok_async_closed: "mem_ok k s \<Longrightarrow> np_async s = Some a \<Longrightarrow> mem_ok k (on_async_closed s)"
  by (auto simp: on_async_closed_def mem_ok_def owed_def ids_ok_def)

lemma mem_ok_casync_close: "mem_ok k s \<Longrightarrow> mem_ok k (casync_close s)"
  by (auto simp: casync_close_def mem_ok_def owed_def ids_ok_def undefined_behaviour_def split: option.split)

section \<open>Functions of the pool\<close>

lemma mem_ok_dropWaiting [intro!]: "mem_ok k s \<Longrightarrow> mem_ok k (dropWaiting n s)"
proof (cases "um_find n (m_waitingSend s)")
  case (Some bufs)
  assume "mem_ok k s"
  then show ?thesis
    using Some waiting_blocks_delete [of "m_waitingSend s" n bufs]
    by (auto simp: dropWaiting_def mem_ok_def owed_def ids_ok_def um_erase_def)
qed (simp add: dropWaiting_def)

lemma mem_ok_pushWaiting: "mem_ok (k + 1) s \<Longrightarrow> mem_ok k (pushWaiting n b s)"
proof (cases "um_find n (m_waitingSend s)")
  case None
  assume "mem_ok (k + 1) s"
  then show ?thesis using None by (auto simp: pushWaiting_def mem_ok_def owed_def ids_ok_def um_insert_new)
next
  case (Some bufs)
  assume "mem_ok (k + 1) s"
  then show ?thesis using Some waiting_blocks_update [of "m_waitingSend s" n bufs "bufs @ [b]"]
    by (auto simp: pushWaiting_def mem_ok_def owed_def ids_ok_def)
qed

lemma mem_ok_getWrite:
  assumes "mem_ok k s" and "getWriteFromWaitingByNode n s = (r, s')"
  shows "mem_ok (k + (case r of None \<Rightarrow> 0 | Some bufs \<Rightarrow> 1 + int (length bufs))) s'"
proof (cases rule: getWrite_cases [of n s])
  case (ready j bufs)
  then show ?thesis using assms waiting_blocks_delete [of "m_waitingSend s" n bufs]
    by (auto simp: mem_ok_def owed_def ids_ok_def mem_add_def)
qed (use assms in auto)

lemma mem_ok_shutdown_and_close [intro!]:
  assumes "mem_ok k s"
  shows "mem_ok k (ctcp_shutdown_and_close t s)"
proof -
  have "mem_ok k ((mem_add 1 (s\<lparr>np_tick := i\<rparr>))\<lparr>np_tick := j, np_shutdowns := t # np_shutdowns s\<rparr>)" for i j
    using assms by (auto simp: mem_ok_def owed_def ids_ok_def)
  then show ?thesis
    using assms by (auto simp: ctcp_shutdown_and_close_def env_ret_def Let_def split: option.split)
qed

lemma mem_ok_shutdownTcp [intro!]: "mem_ok k s \<Longrightarrow> mem_ok k (shutdownTcpConnection t b c s)"
  by (auto simp: shutdownTcpConnection_def um_erase_def Let_def split: option.split)

lemma mem_ok_timer_start [intro!]: "mem_ok k s \<Longrightarrow> mem_ok k (snd (uv_timer_start t ms s))"
  by (auto simp: uv_timer_start_def env_ret_def Let_def)

lemma mem_ok_read_start [intro!]: "mem_ok k s \<Longrightarrow> mem_ok k (snd (uv_read_start t s))"
  by (auto simp: uv_read_start_def env_ret_def Let_def)

lemma mem_ok_write_or_shutdown:
  assumes "mem_ok (k + 1 + int (length bufs)) s"
  shows "mem_ok k (write_or_shutdown t n bufs s)"
proof -
  let ?ms = "milliseconds (tcp_send_timeout_in_seconds (np_settings s))"
  have close: "mem_ok k (shutdownTcpConnection t False False (dropWriteAndFree n bufs s'))"
    if "mem_ok (k + 1 + int (length bufs)) s'" for s'
    using that by (intro mem_ok_shutdownTcp) (simp add: dropWriteAndFree_def algebra_simps)
  show ?thesis
  proof (cases rule: uv_timer_start_cases [of t ?ms s])
    case (fail r j)
    then show ?thesis using close [of "s\<lparr>np_tick := j\<rparr>"] assms by (simp add: write_or_shutdown_def)
  next
    case (ok j)
    define s1 where "s1 = upd_tcp t (\<lambda>c. c\<lparr>t_timer_active := True\<rparr>) (s\<lparr>np_tick := j\<rparr>)"
    have s1: "mem_ok (k + 1 + int (length bufs)) s1" using assms by (auto simp: s1_def)
    have eq: "write_or_shutdown t n bufs s = (let (r, s) = uv_write t bufs s1
        in if r \<noteq> 0 then shutdownTcpConnection t False False (dropWriteAndFree n bufs s) else s)"
      using ok by (simp add: write_or_shutdown_def s1_def)
    show ?thesis
    proof (cases rule: uv_write_cases [of t bufs s1])
      case (fail r i)
      then show ?thesis using close [of "s1\<lparr>np_tick := i\<rparr>"] s1 by (simp add: eq)
    next
      case (ok i)
      have "mem_ok k (s1\<lparr>np_writes := np_writes s1 @ [(t, bufs)], np_tick := i\<rparr>)"
        using s1 by (auto simp: mem_ok_def owed_def ids_ok_def)
      then show ?thesis using ok by (simp add: eq)
    qed
  qed
qed

lemma mem_ok_startup [intro!]:
  assumes "mem_ok k s"
  shows "mem_ok k (startupTcpConnection t s)"
proof -
  have "mem_ok k (case getWriteFromWaitingByNode n s' of (None, s) \<Rightarrow> s | (Some b, s) \<Rightarrow> write_or_shutdown t n b s)"
    if "mem_ok k s'" for n s'
  proof (cases "getWriteFromWaitingByNode n s'")
    case (Pair r s2)
    then show ?thesis using mem_ok_getWrite [OF that Pair]
      by (cases r) (simp_all add: mem_ok_write_or_shutdown algebra_simps)
  qed
  then show ?thesis
    using assms by (auto simp: startupTcpConnection_def um_insert_def Let_def split: option.split)
qed

lemma mem_ok_reset_idle [intro!]: "mem_ok k s \<Longrightarrow> mem_ok k (reset_tcp_idle_timeout t s)"
  by (auto simp: reset_tcp_idle_timeout_def env_ret_def uv_timer_start_def Let_def)
section \<open>Callbacks\<close>

lemma mem_ok_alloc_buffer [intro!]:
  "mem_ok k s \<Longrightarrow> mem_ok k (tcp_alloc_buffer t s)" "mem_ok k s \<Longrightarrow> mem_ok k (udp_alloc_buffer u s)"
  by (auto simp: tcp_alloc_buffer_def udp_alloc_buffer_def split: option.split)

lemma mem_ok_read [intro!]: "mem_ok k s \<Longrightarrow> mem_ok k (on_tcp_read t nread data s)"
  by (auto simp: on_tcp_read_def Let_def split: option.split)

lemma mem_ok_timeout [intro!]: "mem_ok k s \<Longrightarrow> mem_ok k (on_tcp_timeout t s)"
  by (auto simp: on_tcp_timeout_def)

lemma mem_ok_write_done:
  assumes "mem_ok k s" and "req \<in> set (np_writes s)"
  shows "mem_ok k (on_tcp_write_done req status s)"
  using assms by (auto simp: on_tcp_write_done_def mem_ok_requests_done Let_def split: option.split)

lemma mem_ok_connect_done:
  assumes "mem_ok k s" and "t \<in> set (np_connects s)"
  shows "mem_ok k (on_connect_done t status s)"
proof -
  let ?s1 = "mem_add (- 1) (s\<lparr>np_connects := remove1 t (np_connects s), m_connecting := removeAll t (m_connecting s)\<rparr>)"
  have s1: "mem_ok k ?s1" using assms by (simp add: mem_ok_requests_done)
  show ?thesis
  proof (cases rule: uv_timer_start_cases [of t "milliseconds (tcp_idle_timeout_in_seconds (np_settings s))" ?s1])
    case (fail r j)
    then show ?thesis using s1 by (auto simp: on_connect_done_def Let_def split: option.split)
  next
    case (ok j)
    let ?s2 = "upd_tcp t (\<lambda>c. c\<lparr>t_timer_active := True\<rparr>) (?s1\<lparr>np_tick := j\<rparr>)"
    have s2: "mem_ok k ?s2" using s1 by (intro mem_ok_upd_tcp) simp
    show ?thesis
    proof (cases rule: uv_read_start_cases [of t ?s2])
      case (fail r j')
      have "mem_ok k (?s2\<lparr>np_tick := j'\<rparr>)" using s2 by simp
      from mem_ok_shutdownTcp [OF this] show ?thesis
        using ok fail s1 by (simp add: on_connect_done_def Let_def mem_ok_shutdownTcp split: option.split)
    next
      case reading: (ok j')
      have "mem_ok k (upd_tcp t (\<lambda>c. c\<lparr>t_reading := True\<rparr>) (?s2\<lparr>np_tick := j'\<rparr>))"
        by (rule mem_ok_upd_tcp) (use s2 in simp)
      from mem_ok_startup [OF this] show ?thesis
        using ok reading s1 by (simp add: on_connect_done_def Let_def mem_ok_shutdownTcp split: option.split)
    qed
  qed
qed

lemma mem_ok_new_connection:
  assumes "mem_ok k s" and "np_tcps s server = Some sv"
  shows "mem_ok k (on_new_connection server status peer len s)"
  using assms(2)
proof (cases rule: new_connection_cases [where status = status and peer = peer and len = len])
qed (use assms in auto)

lemma mem_ok_shutdown_done: "mem_ok k s \<Longrightarrow> t \<in> set (np_shutdowns s) \<Longrightarrow> mem_ok k (on_shutdown_done t s)"
  by (auto simp: on_shutdown_done_def mem_ok_requests_done)

lemma mem_ok_closed [intro!]:
  assumes "mem_ok k s"
  shows "mem_ok k (on_tcp_closed t s)" "mem_ok k (on_timer_closed t s)" "mem_ok k (on_udp_closed u s)"
proof -
  have "mem_ok k (delete_tcp t (upd_tcp t f s))" if "np_tcps s t = Some c" for f c
    using that assms by (intro mem_ok_delete_tcp [where c = "f c"] mem_ok_upd_tcp) simp_all
  then show "mem_ok k (on_tcp_closed t s)" "mem_ok k (on_timer_closed t s)"
    using assms by (auto simp: on_tcp_closed_def on_timer_closed_def Let_def split: option.split)
  show "mem_ok k (on_udp_closed u s)"
    using assms by (auto simp: on_udp_closed_def intro: mem_ok_delete_udp split: option.split)
qed

lemma mem_ok_udp_recv [intro!]: "mem_ok k s \<Longrightarrow> mem_ok k (on_udp_recv u nread data addr s)"
  by (auto simp: on_udp_recv_def split: option.split)

lemma mem_ok_udp_send_done: "mem_ok k s \<Longrightarrow> req \<in> set (np_udp_sends s) \<Longrightarrow> mem_ok k (on_udp_send_done req status s)"
  by (auto simp: on_udp_send_done_def mem_ok_requests_done Let_def split: option.split)

section \<open>The wakeup\<close>

lemma mem_ok_bindTcp [intro!]: "mem_ok k s \<Longrightarrow> mem_ok k (snd (bindAndListenTcp n s))"
  by (cases rule: bindAndListenTcp_cases [of n s]) auto

lemma mem_ok_bindUdp [intro!]: "mem_ok k s \<Longrightarrow> mem_ok k (snd (bindAndListenUdp n s))"
  by (cases rule: bindAndListenUdp_cases [of n s]) (auto intro: mem_ok_delete_udp)

lemma mem_ok_connectTcp [intro!]:
  assumes "mem_ok k s"
  shows "mem_ok k (snd (connectTcp n s))"
proof (cases rule: connectTcp_cases [of n s])
  case (ok j i)
  let ?s1 = "new_tcp ((tcp_fresh True)\<lparr>t_node := n, t_timer_active := True\<rparr>) i s"
  have "mem_ok k ?s1" using assms ..
  then have "mem_ok k ((mem_add 1 ?s1)\<lparr>np_connects := np_next s # np_connects (mem_add 1 ?s1)\<rparr>)"
    by (simp add: mem_ok_requests del: mem_add_fields)
  then show ?thesis using ok by simp
qed (use assms in auto)

lemma find_udp_cases: "snd (find_udp n us s) = s \<or> snd (find_udp n us s) = undefined_behaviour s"
  by (induction us) (simp_all split: option.split)

lemma mem_ok_find_udp [intro!]: "mem_ok k s \<Longrightarrow> mem_ok k (snd (find_udp n us s))"
  using find_udp_cases [of n us s] by (elim disjE) simp_all

lemma mem_ok_wakeup_bind [intro!]: "mem_ok k s \<Longrightarrow> mem_ok k (wakeup_bind p s)"
proof -
  assume ok: "mem_ok k s"
  obtain n b where p: "p = (n, b)" by fastforce
  have "mem_ok k (wakeup_bind_tcp n b s)"
    using ok mem_ok_bindTcp [OF ok, of n]
    by (auto simp: wakeup_bind_tcp_def um_erase_def Let_def split: option.split prod.split)
  moreover have "mem_ok k (wakeup_bind_udp n b s)"
  proof (cases "find_udp n (m_udpServers s) s")
    case (Pair r s1)
    then have s1: "mem_ok k s1" using mem_ok_find_udp [OF ok, of n "m_udpServers s"] by simp
    then show ?thesis using Pair mem_ok_bindUdp [OF s1, of n]
      by (auto simp: wakeup_bind_udp_def env_ret_def Let_def split: option.split prod.split)
  qed
  ultimately show ?thesis by (simp add: p split: protocol_type.split)
qed

lemma mem_ok_wakeup_send_tcp:
  assumes "mem_ok (k + 1) s"
  shows "mem_ok k (wakeup_send_tcp req s)"
proof (cases "um_find (ps_node req) (m_node2stream s)")
  case None
  let ?s1 = "pushWaiting (ps_node req) (ps_data req) s"
  have s1: "mem_ok k ?s1" using assms by (rule mem_ok_pushWaiting)
  have "mem_ok k (case connectTcp (ps_node req) ?s1 of
      (None, s) \<Rightarrow> dropWaiting (ps_node req) (emit (Cb_connectionStatus (ps_node req) False) s)
    | (Some t, s) \<Rightarrow> s\<lparr>m_connecting := List.insert t (m_connecting s)\<rparr>)"
    using mem_ok_connectTcp [OF s1, of "ps_node req"] by (auto split: prod.split option.split)
  then show ?thesis using None s1 assms by (simp add: wakeup_send_tcp_def getStreamByNode_def Let_def)
next
  case (Some t)
  then show ?thesis using assms
    by (auto simp: wakeup_send_tcp_def getStreamByNode_def env_ret_def Let_def add.commute [of 1]
        intro!: mem_ok_write_or_shutdown)
qed

lemma mem_ok_wakeup_send_udp:
  assumes "mem_ok (k + 1) s"
  shows "mem_ok k (wakeup_send_udp req s)"
proof -
  have "mem_ok k (mem_add 1 (s\<lparr>np_tick := i\<rparr>)
      \<lparr>m_udpIndex := j, np_tick := l, np_udp_sends := np_udp_sends s @ [(u, [ps_data req])]\<rparr>)" for i j l u
    using assms by (auto simp: mem_ok_def owed_def ids_ok_def)
  then show ?thesis
    using assms by (auto simp: wakeup_send_udp_def env_ret_def Let_def add.commute [of 1] split: option.split)
qed

lemma mem_ok_wakeup_send: "mem_ok (k + 1) s \<Longrightarrow> mem_ok k (wakeup_send req s)"
  by (simp add: wakeup_send_def mem_ok_wakeup_send_tcp mem_ok_wakeup_send_udp split: protocol_type.split)

lemma mem_ok_wakeup_sends: "mem_ok (k + int (length reqs)) s \<Longrightarrow> mem_ok k (fold wakeup_send reqs s)"
  by (induction reqs arbitrary: s) (simp_all add: mem_ok_wakeup_send algebra_simps)

lemma mem_ok_wakeup_close [intro!]: "mem_ok k s \<Longrightarrow> mem_ok k (wakeup_close p s)"
proof -
  assume ok: "mem_ok k s"
  obtain n b where p: "p = (n, b)" by fastforce
  show ?thesis
    using ok by (auto simp: p getStreamByNode_def uv_timer_start_def env_ret_def Let_def split: option.split)
qed

lemma mem_ok_fold: "(\<And>x s. mem_ok k s \<Longrightarrow> mem_ok k (f x s)) \<Longrightarrow> mem_ok k s \<Longrightarrow> mem_ok k (fold f xs s)"
  by (induction xs arbitrary: s) simp_all
section \<open>Leaving\<close>

lemma mem_ok_close_lists [intro!]:
  "mem_ok k s \<Longrightarrow> mem_ok k (close_tcp_servers l s)" "mem_ok k s \<Longrightarrow> mem_ok k (close_udp_servers us s)"
  "mem_ok k s \<Longrightarrow> mem_ok k (close_connections us s)"
proof -
  show "mem_ok k s \<Longrightarrow> mem_ok k (close_tcp_servers l s)"
    by (induction l s rule: close_tcp_servers.induct) (simp_all add: mem_ok_ctcp_close)
  show "mem_ok k s \<Longrightarrow> mem_ok k (close_udp_servers us s)"
    by (induction us s rule: close_udp_servers.induct) (simp_all add: mem_ok_cudp_close env_ret_def Let_def split: option.split)
  show "mem_ok k s \<Longrightarrow> mem_ok k (close_connections us s)"
    by (induction us s rule: close_connections.induct) (simp_all add: mem_ok_ctcp_close split: option.split)
qed

lemma drop_all_waiting_blocks [simp]:
  "np_mem (drop_all_waiting w s) = np_mem s - waiting_blocks w" "np_ub (drop_all_waiting w s) = np_ub s"
  "owed (drop_all_waiting w s) = owed s" "m_waitingSend (drop_all_waiting w s) = m_waitingSend s" "ids_ok (drop_all_waiting w s) = ids_ok s"
  by (induction w s rule: drop_all_waiting.induct) (simp_all add: owed_def ids_ok_def)

lemma owed_no_waiting: "owed (s\<lparr>m_waitingSend := []\<rparr>) = owed s - waiting_blocks (m_waitingSend s)"
  "ids_ok (s\<lparr>m_waitingSend := []\<rparr>) = ids_ok s"
  by (simp_all add: owed_def ids_ok_def)

lemma mem_ok_exit_waiting: "mem_ok k s \<Longrightarrow> mem_ok k (exit_waiting s)"
  by (auto simp: exit_waiting_def mem_ok_def owed_no_waiting)

lemma mem_ok_drop_all_sends: "mem_ok (k + int (length reqs)) s \<Longrightarrow> mem_ok k (drop_all_sends reqs s)"
  by (induction reqs arbitrary: s) (simp_all add: algebra_simps)

lemma mem_ok_wakeup_exit: "mem_ok (k + int (length sc)) s \<Longrightarrow> mem_ok k (wakeup_exit bc sc s)"
  by (auto simp: wakeup_exit_steps exit_tcp_def exit_udp_def exit_streams_def exit_connecting_def
      intro!: mem_ok_drop_all_sends mem_ok_exit_waiting mem_ok_casync_close)

lemma mem_ok_on_wakeup:
  assumes "mem_ok k s"
  shows "mem_ok k (on_wakeup s)"
proof -
  let ?s1 = "s\<lparr>m_pendingBind := [], m_pendingSend := [], m_pendingClose := []\<rparr>"
  have s1: "mem_ok (k + int (length (m_pendingSend s))) ?s1"
    using assms by (auto simp: mem_ok_def owed_def ids_ok_def)
  have "mem_ok k (wakeup_exit (m_pendingBind s) (m_pendingSend s) ?s1)"
    using s1 by (rule mem_ok_wakeup_exit)
  moreover have "mem_ok k (fold wakeup_close cl (fold wakeup_send (m_pendingSend s) (fold wakeup_bind bn ?s1)))" for cl bn
    using s1 by (intro mem_ok_fold [of _ wakeup_close] mem_ok_wakeup_close mem_ok_wakeup_sends mem_ok_fold [of _ wakeup_bind] mem_ok_wakeup_bind)
  ultimately show ?thesis by (simp add: on_wakeup_def Let_def)
qed

section \<open>Every step\<close>

lemma mem_ok_step:
  assumes "np_step s s'" and "mem_ok 0 s"
  shows "mem_ok 0 s'"
  using assms
proof cases
  case (send node data bAutoConnect)
  then have "mem_ok 0 ((mem_add 1 (s\<lparr>np_tick := i\<rparr>))\<lparr>m_pendingSend := m_pendingSend s @ [p]\<rparr>)" for i p
    using assms(2) by (auto simp: mem_ok_def owed_def ids_ok_def)
  then show ?thesis using assms(2) send by (auto simp: pool_send_def env_ret_def Let_def split: option.split)
next
  case (async_closed a)
  then show ?thesis using assms(2) mem_ok_async_closed by simp
next
  case (timeout t c)
  then show ?thesis using assms(2) by auto
next
  case (read t c nread data)
  then show ?thesis using assms(2) by auto
next
  case (new_connection t c status peer len)
  then show ?thesis using assms(2) mem_ok_new_connection by simp
next
  case (udp_recv u d nread data addr)
  then show ?thesis using assms(2) by auto
qed (use assms(2) in \<open>simp_all add: pool_bind_def pool_close_def pool_destroy_def mem_ok_on_wakeup mem_ok_write_done
  mem_ok_connect_done mem_ok_shutdown_done mem_ok_closed mem_ok_udp_send_done\<close>)

lemma mem_ok_start:
  assumes "pool_construct settings env = (True, s)"
  shows "mem_ok 0 s"
  using assms
  by (auto simp: pool_construct_def internal_thread_start_def casync_alloc_def env_ret_def pool_fresh_def mem_add_def
      mem_ok_def owed_def ids_ok_def Let_def split: if_splits)

lemma np_reach_mem_ok: "np_reach settings env s \<Longrightarrow> mem_ok 0 s"
  by (induction rule: np_reach.induct) (auto intro: mem_ok_start mem_ok_step)

lemma np_reach_mem: "np_reach settings env s \<Longrightarrow> connect_law env \<Longrightarrow> ids_ok s \<and> np_mem s = owed s"
  using np_reach_mem_ok [of settings env s] core_no_ub [OF np_ok_core [OF np_reach_ok [of settings env s]]]
  by (simp add: mem_ok_def)

text \<open>
  C7: No leak and no double free: in every state the pool can reach, the number of blocks it has
  obtained and not given back is the number of things it still has a use for. These are the thread
  object, the connection, datagram and wakeup objects, the requests that libuv has not called back,
  one block per buffer of a write or datagram, and one per message that is pending or waiting.
  The error paths, which free what they had allocated, are among the steps.
\<close>

theorem memory_accounted:
  assumes "np_reach settings env s" and "connect_law env"
  shows "np_mem s = 1 + int (card (dom (np_tcps s))) + int (card (dom (np_udps s))) + (if np_async s = None then 0 else 1)
    + (\<Sum>(t, bufs)\<leftarrow>np_writes s. 1 + int (length bufs)) + int (length (np_connects s)) + int (length (np_shutdowns s))
    + (\<Sum>(u, bufs)\<leftarrow>np_udp_sends s. 1 + int (length bufs)) + int (length (m_pendingSend s))
    + (\<Sum>(n, bufs)\<leftarrow>m_waitingSend s. int (length bufs))"
  using np_reach_mem [OF assms] by (simp add: owed_def request_blocks_def waiting_blocks_def)

theorem memory_accounted_witness: "np_mem demo_connected = 5"
proof -
  have "np_writes demo_connected = [(0, [[1]])]" "np_connects demo_connected = []" "np_shutdowns demo_connected = []"
    "np_udp_sends demo_connected = []" "m_pendingSend demo_connected = []" "m_waitingSend demo_connected = []"
    "np_async demo_connected \<noteq> None"
    by code_simp+
  moreover have "np_next demo_connected = 1" "np_tcps demo_connected 0 \<noteq> None" "np_udps demo_connected 0 = None"
    by code_simp+
  then have "t = 0" if "t \<in> dom (np_tcps demo_connected) \<union> dom (np_udps demo_connected)" for t
    using np_reach_mem [OF demo_reach(4) connect_law_demo] that by (auto simp: ids_ok_def)
  with \<open>np_tcps demo_connected 0 \<noteq> None\<close> \<open>np_udps demo_connected 0 = None\<close>
  have "dom (np_tcps demo_connected) = {0}" "dom (np_udps demo_connected) = {}" by fastforce+
  ultimately show ?thesis using memory_accounted [OF demo_reach(4) connect_law_demo] by simp
qed

end
