(* ===== verification/Pool_Exit.thy ===== *)
theory Pool_Exit
  imports Pool_Memory
begin

text \<open>
  The end of \<open>CnetworkPool\<close>: what its destructor waits for. \<open>listeners_ok\<close> says that every
  listening object is in the pool's tables, so that the exit closes it; \<open>quiet s0 s\<close> that nothing
  between \<open>s0\<close> and \<open>s\<close> has opened one or touched the tables; \<open>loop_rank\<close> counts what libuv's
  loop is still waiting for, and every callback but a read of data lowers it after the exit.
\<close>

section \<open>Listening objects\<close>

definition listener :: "ctcp \<Rightarrow> bool" where
  "listener c \<longleftrightarrow> \<not> m_closing c \<and> \<not> m_timerInited c"

text \<open>Each listening object is in the pool's tables.\<close>

definition listeners_ok :: "np_pool \<Rightarrow> bool" where
  "listeners_ok s \<longleftrightarrow> (\<forall>t c. np_tcps s t = Some c \<longrightarrow> listener c \<longrightarrow> t \<in> snd ` set (m_tcpServers s))
     \<and> (\<forall>u d. np_udps s u = Some d \<longrightarrow> \<not> u_closing d \<longrightarrow> u \<in> set (m_udpServers s))"

text \<open>Once the pool has left, nothing is in its tables or pending.\<close>

definition exit_ok :: "np_pool \<Rightarrow> bool" where
  "exit_ok s \<longleftrightarrow> pool_alive s \<or> m_tcpServers s = [] \<and> m_udpServers s = [] \<and> m_pendingSend s = []
     \<and> m_connecting s = [] \<and> (\<forall>a. np_async s = Some a \<longrightarrow> a_closing a)"

definition no_new :: "np_pool \<Rightarrow> np_pool \<Rightarrow> bool" where
  "no_new s0 s \<longleftrightarrow> (\<forall>t c. np_tcps s t = Some c \<longrightarrow> listener c \<longrightarrow> (\<exists>c0. np_tcps s0 t = Some c0 \<and> listener c0))
     \<and> (\<forall>u d. np_udps s u = Some d \<longrightarrow> \<not> u_closing d \<longrightarrow> (\<exists>d0. np_udps s0 u = Some d0 \<and> \<not> u_closing d0))"

definition tables :: "np_pool \<Rightarrow> casync option \<times> (network_node, oid) umap \<times> oid list \<times> pending_send list" where
  "tables s = (np_async s, m_tcpServers s, m_udpServers s, m_pendingSend s)"

text \<open>
  What the functions below \<open>on_wakeup\<close> do not do: make a listening object or touch the tables;
  with \<open>b\<close>, they do not begin to connect either.
\<close>

definition quiet :: "bool \<Rightarrow> np_pool \<Rightarrow> np_pool \<Rightarrow> bool" where
  "quiet b s0 s \<longleftrightarrow> no_new s0 s \<and> tables s = tables s0 \<and> (b \<longrightarrow> set (m_connecting s) \<subseteq> set (m_connecting s0))"

lemma quiet_refl [simp]: "quiet b s s"
  by (auto simp: quiet_def no_new_def)

lemma quiet_listeners: "quiet b s0 s \<Longrightarrow> listeners_ok s0 \<Longrightarrow> listeners_ok s"
  unfolding quiet_def no_new_def listeners_ok_def tables_def by simp metis

lemma quiet_alive: "quiet b s0 s \<Longrightarrow> pool_alive s = pool_alive s0"
  by (simp add: quiet_def tables_def pool_alive_def)

lemma quiet_exit: "quiet True s0 s \<Longrightarrow> exit_ok s0 \<Longrightarrow> exit_ok s"
  using quiet_alive [of True s0 s] by (auto simp: exit_ok_def quiet_def tables_def)

text \<open>State changes that leave objects and tables alone.\<close>

lemma quiet_simps [simp]:
  "quiet b s0 s \<Longrightarrow> quiet b s0 (emit e s)" "quiet b s0 s \<Longrightarrow> quiet b s0 (emit_all es s)"
  "quiet b s0 s \<Longrightarrow> quiet b s0 (mem_add i s)" "quiet b s0 s \<Longrightarrow> quiet b s0 (drop_and_free n bs s)"
  "quiet b s0 s \<Longrightarrow> quiet b s0 (dropWaiting n s)" "quiet b s0 s \<Longrightarrow> quiet b s0 (pushWaiting n d s)"
  "quiet b s0 s \<Longrightarrow> quiet b s0 (undefined_behaviour s)"
  "quiet b s0 s \<Longrightarrow> quiet b s0 (s\<lparr>np_tick := k\<rparr>)" "quiet b s0 s \<Longrightarrow> quiet b s0 (s\<lparr>m_udpIndex := i'\<rparr>)"
  "quiet b s0 s \<Longrightarrow> quiet b s0 (s\<lparr>m_node2stream := ns\<rparr>)" "quiet b s0 s \<Longrightarrow> quiet b s0 (s\<lparr>m_waitingSend := w\<rparr>)"
  "quiet b s0 s \<Longrightarrow> quiet b s0 (s\<lparr>np_writes := ws\<rparr>)" "quiet b s0 s \<Longrightarrow> quiet b s0 (s\<lparr>np_shutdowns := sh\<rparr>)"
  "quiet b s0 s \<Longrightarrow> quiet b s0 (s\<lparr>np_udp_sends := us\<rparr>)" "quiet b s0 s \<Longrightarrow> quiet b s0 (s\<lparr>np_connects := cs\<rparr>)"
  "quiet b s0 s \<Longrightarrow> quiet b s0 (s\<lparr>m_connecting := removeAll t (m_connecting s)\<rparr>)"
  by (auto simp: quiet_def no_new_def tables_def undefined_behaviour_def)

lemma quiet_upd_tcp: "quiet b s0 s \<Longrightarrow> (\<And>c. listener (f c) \<Longrightarrow> listener c) \<Longrightarrow> quiet b s0 (upd_tcp t f s)"
proof (cases "np_tcps s t")
  case (Some c)
  assume q: "quiet b s0 s" and f: "\<And>c. listener (f c) \<Longrightarrow> listener c"
  have "no_new s0 (upd_tcp t f s)" using q Some f [of c] by (auto simp: quiet_def no_new_def)
  then show ?thesis using q by (simp add: quiet_def tables_def)
qed (simp add: upd_tcp_def)

lemma quiet_delete [simp]: "quiet b s0 s \<Longrightarrow> quiet b s0 (delete_tcp t s)" "quiet b s0 s \<Longrightarrow> quiet b s0 (delete_udp u s)"
  by (auto simp: quiet_def no_new_def tables_def delete_tcp_def)

lemma quiet_ctcp_close [simp]: "quiet b s0 s \<Longrightarrow> quiet b s0 (ctcp_close t s)"
  by (auto simp: ctcp_close_def listener_def intro!: quiet_upd_tcp split: option.split)

lemma quiet_new_tcp: "quiet b s0 s \<Longrightarrow> m_timerInited c \<Longrightarrow> quiet b s0 (new_tcp c k s)"
  by (auto simp: quiet_def no_new_def tables_def listener_def)

lemma quiet_new_closed: "quiet b s0 s \<Longrightarrow> \<not> m_closing c \<Longrightarrow> quiet b s0 (ctcp_close (np_next s) (new_tcp c k s))"
proof (cases "m_tcpInited c \<or> m_timerInited c")
  case True
  assume q: "quiet b s0 s" and c: "\<not> m_closing c"
  have "ctcp_close (np_next s) (new_tcp c k s)
      = new_tcp (c\<lparr>m_closing := True, t_timer_active := False, t_reading := False\<rparr>) k s"
    using True c by (simp add: ctcp_close_def upd_new_tcp)
  then show ?thesis using q by (auto simp: quiet_def no_new_def tables_def listener_def)
next
  case False
  assume q: "quiet b s0 s"
  have "ctcp_close (np_next s) (new_tcp c k s) = delete_tcp (np_next s) (new_tcp c k s)"
    using False by (simp add: ctcp_close_def)
  then show ?thesis using q by (auto simp: quiet_def no_new_def tables_def delete_tcp_def)
qed

lemma quiet_shutdown_and_close [simp]: "quiet b s0 s \<Longrightarrow> quiet b s0 (ctcp_shutdown_and_close t s)"
proof -
  assume q: "quiet b s0 s"
  then have "quiet b s0 ((mem_add 1 (s\<lparr>np_tick := i\<rparr>))\<lparr>np_tick := j, np_shutdowns := t # np_shutdowns s\<rparr>)" for i j
    by (auto simp: quiet_def no_new_def tables_def)
  then show ?thesis using q
    by (auto simp: ctcp_shutdown_and_close_def env_ret_def Let_def listener_def intro!: quiet_upd_tcp split: option.split)
qed

lemma quiet_shutdownTcp [simp]: "quiet b s0 s \<Longrightarrow> quiet b s0 (shutdownTcpConnection t x y s)"
  by (auto simp: shutdownTcpConnection_def um_erase_def Let_def split: option.split)

lemma quiet_timer_on [simp]: "quiet b s0 s \<Longrightarrow> quiet b s0 (upd_tcp t (\<lambda>c. c\<lparr>t_timer_active := v\<rparr>) s)"
  "quiet b s0 s \<Longrightarrow> quiet b s0 (upd_tcp t (\<lambda>c. c\<lparr>t_reading := v\<rparr>) s)"
  by (rule quiet_upd_tcp, simp, simp add: listener_def)+

lemma quiet_write_or_shutdown [simp]:
  assumes "quiet b s0 s"
  shows "quiet b s0 (write_or_shutdown t n bufs s)"
proof -
  have "quiet b s0 ((upd_tcp t f s1)\<lparr>np_writes := ws, np_tick := i\<rparr>)" if "quiet b s0 (upd_tcp t f s1)" for f s1 ws i
    using that by (auto simp: quiet_def no_new_def tables_def)
  then show ?thesis using assms
    by (auto simp: write_or_shutdown_def uv_timer_start_def uv_write_def env_ret_def dropWriteAndFree_def Let_def)
qed

lemma quiet_getWrite:
  assumes "quiet b s0 s"
  shows "quiet b s0 (snd (getWriteFromWaitingByNode n s))"
proof (cases rule: getWrite_cases [of n s])
qed (use assms in simp_all)

lemma quiet_startup [simp]:
  assumes "quiet b s0 s"
  shows "quiet b s0 (startupTcpConnection t s)"
proof -
  have "quiet b s0 (case getWriteFromWaitingByNode n s' of (None, s) \<Rightarrow> s | (Some b, s) \<Rightarrow> write_or_shutdown t n b s)"
    if "quiet b s0 s'" for n s'
    using quiet_getWrite [OF that, of n] by (auto split: prod.split option.split)
  then show ?thesis
    using assms by (auto simp: startupTcpConnection_def um_insert_def Let_def split: option.split)
qed

lemma quiet_reset_idle [simp]: "quiet b s0 s \<Longrightarrow> quiet b s0 (reset_tcp_idle_timeout t s)"
  by (auto simp: reset_tcp_idle_timeout_def env_ret_def uv_timer_start_def Let_def)

section \<open>Callbacks\<close>

lemma quiet_callbacks:
  assumes "quiet b s0 s"
  shows "quiet b s0 (tcp_alloc_buffer t s)" "quiet b s0 (on_tcp_timeout t s)" "quiet b s0 (on_tcp_read t nread data s)"
    "quiet b s0 (on_tcp_write_done req status s)" "quiet b s0 (on_shutdown_done t s)"
    "quiet b s0 (udp_alloc_buffer u s)" "quiet b s0 (on_udp_recv u nread data addr s)"
    "quiet b s0 (on_udp_send_done ureq status s)" "quiet b s0 (on_tcp_closed t s)" "quiet b s0 (on_udp_closed u s)"
  using assms
  by (auto simp: tcp_alloc_buffer_def on_tcp_timeout_def on_tcp_read_def on_tcp_write_done_def on_shutdown_done_def
      udp_alloc_buffer_def on_udp_recv_def on_udp_send_done_def on_tcp_closed_def on_udp_closed_def listener_def Let_def
      intro!: quiet_upd_tcp quiet_delete(1) split: option.split)

lemma quiet_timer_closed:
  assumes "quiet b s0 s" and "np_tcps s t = Some c" and "m_closing c"
  shows "quiet b s0 (on_timer_closed t s)"
proof -
  have "quiet b s0 (upd_tcp t (\<lambda>c. c\<lparr>m_timerInited := False\<rparr>) s)"
    using assms by (auto simp: quiet_def no_new_def tables_def listener_def)
  then show ?thesis using assms by (simp add: on_timer_closed_def Let_def)
qed

lemma quiet_connect_done:
  assumes "quiet b s0 s"
  shows "quiet b s0 (on_connect_done t status s)"
proof -
  have "quiet b s0 (mem_add (- 1) (s\<lparr>np_connects := remove1 t (np_connects s), m_connecting := removeAll t (m_connecting s)\<rparr>))"
    using assms by (auto simp: quiet_def no_new_def tables_def)
  then show ?thesis
    by (auto simp: on_connect_done_def env_ret_def uv_timer_start_def uv_read_start_def Let_def split: option.split)
qed

lemma quiet_new_connection:
  assumes "quiet b s0 s" and "np_tcps s server = Some sv"
  shows "quiet b s0 (on_new_connection server status peer len s)"
  using assms(2)
proof (cases rule: new_connection_cases [where status = status and peer = peer and len = len])
qed (use assms in \<open>auto simp: quiet_new_closed quiet_new_tcp\<close>)

section \<open>The wakeup\<close>

lemma quiet_connectTcp: "quiet b s0 s \<Longrightarrow> quiet b s0 (snd (connectTcp n s))"
proof (cases rule: connectTcp_cases [of n s])
qed (auto simp: quiet_new_closed quiet_new_tcp)

lemma listeners_ok_connecting [simp]: "listeners_ok (s\<lparr>m_connecting := c\<rparr>) = listeners_ok s"
  by (simp add: listeners_ok_def)

lemma listeners_ok_sends: "listeners_ok s \<Longrightarrow> listeners_ok (wakeup_send req s)"
proof -
  assume ok: "listeners_ok s"
  have tcp: "listeners_ok (wakeup_send_tcp req s)"
  proof (cases "um_find (ps_node req) (m_node2stream s)")
    case None
    have "quiet False s (snd (connectTcp n (pushWaiting n d s)))" for n d by (simp add: quiet_connectTcp)
    then have "listeners_ok (case connectTcp n (pushWaiting n d s) of
      (None, s) \<Rightarrow> dropWaiting n (emit (Cb_connectionStatus n False) s)
    | (Some t, s) \<Rightarrow> s\<lparr>m_connecting := List.insert t (m_connecting s)\<rparr>)" for n d
      using quiet_listeners [OF _ ok] by (simp split: prod.split option.split) (metis quiet_simps(1,5) snd_conv)
    moreover have "quiet False s (pushWaiting n d s)" "quiet False s (drop_and_free n l s)" for n d l by simp_all
    ultimately show ?thesis
      using None quiet_listeners [OF _ ok] by (simp add: wakeup_send_tcp_def getStreamByNode_def Let_def)
  next
    case (Some t)
    have "quiet False s (drop_and_free n l (s\<lparr>np_tick := k\<rparr>))"
      "quiet False s (write_or_shutdown t n l (mem_add 1 (s\<lparr>np_tick := k\<rparr>)))" for k l n by simp_all
    then show ?thesis using Some quiet_listeners [OF _ ok]
      by (simp add: wakeup_send_tcp_def getStreamByNode_def env_ret_def Let_def)
  qed
  have "np_tcps (wakeup_send_udp req s) = np_tcps s" "np_udps (wakeup_send_udp req s) = np_udps s"
    "m_tcpServers (wakeup_send_udp req s) = m_tcpServers s" "m_udpServers (wakeup_send_udp req s) = m_udpServers s"
    by (simp_all add: wakeup_send_udp_def env_ret_def undefined_behaviour_def Let_def split: option.split)
  then have "listeners_ok (wakeup_send_udp req s)" using ok by (simp add: listeners_ok_def)
  with tcp show ?thesis by (simp add: wakeup_send_def split: protocol_type.split)
qed

lemma quiet_wakeup_close: "quiet b s0 s \<Longrightarrow> quiet b s0 (wakeup_close p s)"
proof -
  assume q: "quiet b s0 s"
  obtain n f where p: "p = (n, f)" by fastforce
  show ?thesis
    using q by (auto simp: p getStreamByNode_def uv_timer_start_def env_ret_def Let_def split: option.split)
qed

lemma listeners_ok_closes: "listeners_ok s \<Longrightarrow> listeners_ok (wakeup_close p s)"
  using quiet_listeners [OF quiet_wakeup_close [OF quiet_refl]] .

lemma close_not_listener: "np_tcps (ctcp_close t (s :: np_pool)) t = Some c \<Longrightarrow> \<not> listener c"
  by (auto simp: ctcp_close_def listener_def undefined_behaviour_def delete_tcp_def split: option.splits if_splits)

lemma cudp_close_closing: "np_udps (cudp_close u (s :: np_pool)) u = Some d \<Longrightarrow> u_closing d"
  by (auto simp: cudp_close_def undefined_behaviour_def split: option.splits if_splits)

lemma ctcp_close_other: "u \<noteq> t \<Longrightarrow> np_tcps (ctcp_close t (s :: np_pool)) u = np_tcps s u"
  by (auto simp: ctcp_close_def delete_tcp_def undefined_behaviour_def split: option.split)

lemma cudp_close_other: "v \<noteq> u \<Longrightarrow> np_udps (cudp_close u (s :: np_pool)) v = np_udps s v"
  by (auto simp: cudp_close_def undefined_behaviour_def split: option.split)

lemma no_new_cudp_close: "no_new s0 s \<Longrightarrow> no_new s0 (cudp_close u (s :: np_pool))"
  unfolding no_new_def using cudp_close_closing [of u s] cudp_close_other [of _ u s] by (auto) metis

lemma listeners_ok_bind_tcp:
  assumes ok: "listeners_ok s" and um: "um_ok (m_tcpServers s)"
  shows "listeners_ok (wakeup_bind_tcp n b s)"
proof (cases "um_find n (m_tcpServers s)")
  case (Some t)
  let ?s1 = "s\<lparr>m_tcpServers := AList.delete n (m_tcpServers s)\<rparr>"
  have keep: "u \<in> snd ` set (AList.delete n (m_tcpServers s))" if "u \<in> snd ` set (m_tcpServers s)" "u \<noteq> t" for u
  proof -
    from that obtain m where m: "(m, u) \<in> set (m_tcpServers s)" by auto
    then have "um_find m (m_tcpServers s) = Some u" using um by (simp add: um_in_set_find)
    then have "um_find m (AList.delete n (m_tcpServers s)) = Some u" using Some that by auto
    then show ?thesis using um_find_in_set by (metis image_eqI snd_conv)
  qed
  have "listeners_ok (ctcp_close t (emit e ?s1))" for e
    using ok keep close_not_listener [of t "emit e ?s1"] ctcp_close_other [of _ t "emit e ?s1"]
    unfolding listeners_ok_def by simp metis
  moreover have "listeners_ok (emit e s)" for e using ok quiet_listeners [of False s] by simp
  ultimately show ?thesis using Some by (simp add: wakeup_bind_tcp_def um_erase_def)
next
  case None
  have e: "listeners_ok (emit e s') = listeners_ok s'" for e s' by (simp add: listeners_ok_def)
  show ?thesis
  proof (cases rule: bindAndListenTcp_cases [of n s])
    case (ok k)
    let ?s1 = "new_tcp ((tcp_fresh False)\<lparr>t_node := n\<rparr>) k s"
    have "listeners_ok (?s1\<lparr>m_tcpServers := (n, np_next s) # m_tcpServers s\<rparr>)"
      using assms(1) by (auto simp: listeners_ok_def)
    then show ?thesis using None ok assms(1) by (simp add: wakeup_bind_tcp_def e um_insert_new Let_def)
  next
    case (none k)
    have "listeners_ok (s\<lparr>np_tick := k\<rparr>)" by (rule quiet_listeners [of False s, OF _ ok]) simp
    then show ?thesis using None none ok by (simp add: wakeup_bind_tcp_def e)
  next
    case (failed c k)
    have "listeners_ok (ctcp_close (np_next s) (new_tcp c k s))"
      by (rule quiet_listeners [of False s, OF _ ok]) (simp add: quiet_new_closed failed)
    then show ?thesis using None failed ok by (simp add: wakeup_bind_tcp_def e)
  qed
qed

lemma new_udp_closed:
  shows "no_new s (cudp_close (np_next s) (new_udp c k s))" "no_new s (delete_udp (np_next s) (new_udp c k s))"
proof -
  show "no_new s (cudp_close (np_next s) (new_udp c k s))"
    unfolding no_new_def
    using cudp_close_closing [of "np_next s" "new_udp c k s"] cudp_close_other [of _ "np_next s" "new_udp c k s"]
    by (auto) (metis fun_upd_apply new_udp_next(1))
qed (auto simp: no_new_def)

lemma listeners_ok_bind_udp:
  assumes ok: "listeners_ok s"
  shows "listeners_ok (wakeup_bind_udp n b s)"
proof (cases "find_udp n (m_udpServers s) s")
  case (Pair r s1)
  have s1: "s1 = s \<or> s1 = undefined_behaviour s" using find_udp_cases [of n "m_udpServers s" s] Pair by simp
  have e: "listeners_ok (emit e s') = listeners_ok s'" for e s' by (simp add: listeners_ok_def)
  have s1_ok: "listeners_ok s1" using s1 ok quiet_listeners [of False s] by auto
  have by_no_new: "listeners_ok s'"
    if "no_new s1 s'" "m_tcpServers s' = m_tcpServers s1" "m_udpServers s' = m_udpServers s1" for s'
    using that s1_ok unfolding listeners_ok_def no_new_def by metis
  show ?thesis
  proof (cases r)
    case (Some u)
    let ?s2 = "(emit (Cb_bindStatus n False) (s1\<lparr>m_udpServers := remove1 u (m_udpServers s1)\<rparr>))\<lparr>np_tick := Suc (np_tick s1)\<rparr>"
    have "listeners_ok (cudp_close u ?s2)"
      using s1_ok cudp_close_closing [of u ?s2] cudp_close_other [of _ u ?s2]
      unfolding listeners_ok_def by simp (metis in_set_remove1)
    then show ?thesis using Some Pair s1_ok by (simp add: wakeup_bind_udp_def e env_ret_def Let_def)
  next
    case None
    show ?thesis
    proof (cases rule: bindAndListenUdp_cases [of n s1])
      case (none k)
      have "listeners_ok (s1\<lparr>np_tick := k\<rparr>)" by (rule quiet_listeners [of False s1, OF _ s1_ok]) simp
      then show ?thesis using Pair None none s1_ok by (simp add: wakeup_bind_udp_def e)
    next
      case (failed c k)
      have "listeners_ok (delete_udp (np_next s1) (new_udp c k s1))" by (rule by_no_new) (simp_all add: new_udp_closed)
      then show ?thesis using Pair None failed s1_ok by (simp add: wakeup_bind_udp_def e)
    next
      case (closed c k)
      have "listeners_ok (cudp_close (np_next s1) (new_udp c k s1))" by (rule by_no_new) (simp_all add: new_udp_closed)
      then show ?thesis using Pair None closed s1_ok by (simp add: wakeup_bind_udp_def e)
    next
      case (ok k)
      let ?d = "\<lparr>u_inited = True, u_closing = False, u_node = n\<rparr>"
      have "listeners_ok ((new_udp ?d k s1)\<lparr>m_udpServers := m_udpServers s1 @ [np_next s1]\<rparr>)"
        using s1_ok by (auto simp: listeners_ok_def)
      then show ?thesis using Pair None ok s1_ok by (simp add: wakeup_bind_udp_def e)
    qed
  qed
qed

lemma listeners_ok_bind:
  assumes "np_ok s" and "listeners_ok s"
  shows "listeners_ok (wakeup_bind p s)"
proof -
  obtain n b where p: "p = (n, b)" by fastforce
  have "um_ok (m_tcpServers s)" using np_ok_core [OF assms(1)] core_maps by blast
  then show ?thesis using assms by (simp add: p listeners_ok_bind_tcp listeners_ok_bind_udp split: protocol_type.split)
qed

section \<open>Leaving\<close>

lemma no_new_trans: "no_new s0 s1 \<Longrightarrow> no_new s1 s2 \<Longrightarrow> no_new s0 s2"
  unfolding no_new_def by meson

lemma no_new_close [simp]: "no_new s (ctcp_close t s)" "no_new s (cudp_close u s)"
proof -
  have q: "quiet False s (ctcp_close t s)" by simp
  then show "no_new s (ctcp_close t s)" by (simp add: quiet_def)
  have "no_new s s" by (simp add: no_new_def)
  then show "no_new s (cudp_close u s)" by (rule no_new_cudp_close)
qed

lemma no_new_same: "np_tcps s' = np_tcps s \<Longrightarrow> np_udps s' = np_udps s \<Longrightarrow> no_new s s'"
  by (simp add: no_new_def)

lemma no_new_lists:
  "no_new s (close_tcp_servers l s)" "no_new s (close_connections ts s)" "no_new s (close_udp_servers us s)"
proof -
  have e: "no_new (emit e s) s' = no_new s s'" for e s s' by (simp add: no_new_def)
  have u: "no_new (undefined_behaviour s) s' = no_new s s'" for s s' by (simp add: no_new_def undefined_behaviour_def)
  have k: "no_new ((emit e s)\<lparr>np_tick := k\<rparr>) s' = no_new s s'" for e k s s' by (simp add: no_new_def)
  show "no_new s (close_tcp_servers l s)"
  proof (induction l s rule: close_tcp_servers.induct)
    case (2 n t l s)
    have "no_new s (ctcp_close t (emit (Cb_bindStatus n False) s))" using no_new_close(1) [of "emit _ s"] unfolding e .
    from no_new_trans [OF this 2] show ?case by simp
  qed (simp add: no_new_def)
  show "no_new s (close_connections ts s)"
  proof (induction ts s rule: close_connections.induct)
    case (2 t l s)
    show ?case
    proof (cases "np_tcps s t")
      case (Some c)
      have "no_new s (ctcp_close t (emit (Cb_connectionStatus (t_node c) False) s))" using no_new_close(1) [of "emit _ s"] unfolding e .
      from no_new_trans [OF this 2(2)] Some show ?thesis by simp
    qed (use 2 u in simp)
  qed (simp add: no_new_def)
  show "no_new s (close_udp_servers us s)"
  proof (induction us s rule: close_udp_servers.induct)
    case (2 v l s)
    show ?case
    proof (cases "np_udps s v")
      case (Some c)
      let ?s1 = "(emit (Cb_bindStatus (u_node c) False) s)\<lparr>np_tick := Suc (np_tick s)\<rparr>"
      have "no_new s (cudp_close v ?s1)" using no_new_close(2) [of ?s1 v] unfolding k .
      moreover have "no_new (cudp_close v ?s1) (close_udp_servers l (cudp_close v ?s1))"
        using 2(2) Some by (simp add: env_ret_def)
      ultimately show ?thesis using Some no_new_trans by (simp add: env_ret_def)
    qed (use 2 u in simp)
  qed (simp add: no_new_def)
qed

lemma close_udp_servers_closing:
  "u \<in> set us \<Longrightarrow> np_udps (close_udp_servers us s) u = Some d \<Longrightarrow> u_closing d"
proof (induction us s rule: close_udp_servers.induct)
  case (2 v l s)
  show ?case
  proof (cases "np_udps s v")
    case None
    then have d: "np_udps (close_udp_servers l (undefined_behaviour s)) u = Some d" using 2(4) by simp
    moreover have "u = v \<Longrightarrow> u_closing d"
      using no_new_lists(3) [of "undefined_behaviour s" l] d None
      unfolding no_new_def undefined_behaviour_def by fastforce
    ultimately show ?thesis using 2(1) [OF None] 2(3) by auto
  next
    case (Some c)
    let ?s1 = "(emit (Cb_bindStatus (u_node c) False) s)\<lparr>np_tick := Suc (np_tick s)\<rparr>"
    have d: "np_udps (close_udp_servers l (cudp_close v ?s1)) u = Some d" using 2(4) Some by (simp add: env_ret_def)
    show ?thesis
    proof (cases "u = v")
      case True
      show ?thesis
        using no_new_lists(3) [of "cudp_close v ?s1" l] d cudp_close_closing [of v ?s1] True
        unfolding no_new_def by blast
    next
      case False
      then show ?thesis using 2(2) [OF Some] 2(3) d by (simp add: env_ret_def)
    qed
  qed
qed simp

lemma no_new_wakeup_exit:
  assumes "\<And>s. no_new s (exit_tcp s)" and "\<And>s. no_new s (exit_udp s)"
  shows "no_new (exit_udp (exit_tcp (casync_close s))) (wakeup_exit bc sc s)"
proof -
  have streams: "no_new s (exit_streams s)" for s
    using no_new_lists(2) [of "s\<lparr>m_node2stream := []\<rparr>"] by (simp add: exit_streams_def no_new_def)
  have connecting: "no_new s (exit_connecting s)" for s
    using no_new_lists(2) [of "s\<lparr>m_connecting := []\<rparr>"] by (simp add: exit_connecting_def no_new_def)
  have udps: "np_udps (drop_all_waiting w s) = np_udps s" "np_udps (drop_all_sends sc s) = np_udps s" for w s
  proof -
    show "np_udps (drop_all_waiting w s) = np_udps s" by (induction w s rule: drop_all_waiting.induct) simp_all
    show "np_udps (drop_all_sends sc s) = np_udps s" by (induction sc arbitrary: s) simp_all
  qed
  have rest: "no_new s (drop_all_sends sc (emit_all es (exit_waiting s)))" for es s
    by (rule no_new_same) (simp_all add: exit_waiting_def drop_all_sends_spec drop_all_waiting_spec udps)
  show ?thesis
    unfolding wakeup_exit_steps by (rule no_new_trans [OF streams no_new_trans [OF connecting rest]])
qed

lemma no_new_exit_servers: "no_new s (exit_tcp s)" "no_new s (exit_udp s)"
  using no_new_lists(1) [of "s\<lparr>m_tcpServers := []\<rparr>"] no_new_lists(3) [of "s\<lparr>m_udpServers := []\<rparr>"]
  by (simp_all add: exit_tcp_def exit_udp_def no_new_def)

lemma listeners_ok_exit:
  assumes ok: "listeners_ok s" and core: "core {} {} s" and alive: "pool_alive s"
  shows "listeners_ok (wakeup_exit bc sc s)"
proof -
  let ?s1 = "exit_tcp (casync_close s)" and ?s' = "wakeup_exit bc sc s"
  have a: "np_tcps (casync_close s) = np_tcps s" "np_udps (casync_close s) = np_udps s"
    "m_tcpServers (casync_close s) = m_tcpServers s" "m_udpServers (casync_close s) = m_udpServers s"
    using alive by (auto simp: casync_close_def pool_alive_def split: option.splits)
  have "no_new s ?s1" using no_new_exit_servers(1) [of "casync_close s"] a by (simp add: no_new_def)
  have late: "no_new (exit_udp ?s1) ?s'" using no_new_exit_servers by (rule no_new_wakeup_exit)
  have all: "no_new s ?s'"
    using no_new_trans [OF \<open>no_new s ?s1\<close> no_new_trans [OF no_new_exit_servers(2) late]] .
  have "\<not> listener c" if here: "np_tcps ?s' t = Some c" for t c
  proof
    assume "listener c"
    then obtain c0 where "np_tcps s t = Some c0" "listener c0" using all here unfolding no_new_def by blast
    then have "in_tables s t" using ok by (auto simp: listeners_ok_def in_tables_def)
    then have "closing_at ?s' t" using wakeup_exit_spec(2) [OF core alive] by blast
    then show False using \<open>listener c\<close> here by (auto simp: closing_at_def listener_def)
  qed
  moreover have "u_closing d" if d: "np_udps ?s' u = Some d" for u d
  proof (rule ccontr)
    assume open_u: "\<not> u_closing d"
    then obtain d0 where "np_udps (exit_udp ?s1) u = Some d0" "\<not> u_closing d0"
      using late d unfolding no_new_def by blast
    moreover from open_u obtain d1 where "np_udps s u = Some d1" "\<not> u_closing d1"
      using all d unfolding no_new_def by blast
    then have "u \<in> set (m_udpServers s)" using ok by (auto simp: listeners_ok_def)
    then have "u \<in> set (m_udpServers ?s1)" using a by simp
    ultimately show False using close_udp_servers_closing unfolding exit_udp_def by blast
  qed
  ultimately show ?thesis by (auto simp: listeners_ok_def)
qed

lemma exit_ok_exit:
  assumes core: "core {} {} s" and alive: "pool_alive s" and pending: "m_pendingSend s = []"
  shows "exit_ok (wakeup_exit bc sc s)"
proof -
  have "m_pendingSend (close_tcp_servers l s) = m_pendingSend s" "m_pendingSend (close_connections ts s) = m_pendingSend s"
    "m_pendingSend (drop_all_waiting w s) = m_pendingSend s" for l ts w s
  proof -
    show "m_pendingSend (close_tcp_servers l s) = m_pendingSend s"
      by (induction l s rule: close_tcp_servers.induct) simp_all
    show "m_pendingSend (close_connections ts s) = m_pendingSend s"
      by (induction ts s rule: close_connections.induct) (simp_all add: undefined_behaviour_def split: option.split)
    show "m_pendingSend (drop_all_waiting w s) = m_pendingSend s"
      by (induction w s rule: drop_all_waiting.induct) simp_all
  qed
  moreover have "m_pendingSend (close_udp_servers us s) = m_pendingSend s" for us s
  proof (induction us s rule: close_udp_servers.induct)
    case (2 v l s)
    have "m_pendingSend (cudp_close v (s :: np_pool)) = m_pendingSend s" for s
      by (simp add: cudp_close_def undefined_behaviour_def split: option.split)
    then show ?case using 2 by (cases "np_udps s v") (simp_all add: env_ret_def undefined_behaviour_def)
  qed simp
  moreover have "m_pendingSend (drop_all_sends sc s) = m_pendingSend s" for sc s
    by (induction sc arbitrary: s) simp_all
  ultimately have "m_pendingSend (wakeup_exit bc sc s) = []"
    using alive pending by (auto simp: wakeup_exit_steps exit_waiting_def exit_connecting_def exit_streams_def exit_udp_def
        exit_tcp_def casync_close_def pool_alive_def split: option.splits)
  moreover have "\<exists>a. np_async (wakeup_exit bc sc s) = Some a \<and> a_closing a"
    using alive by (auto simp: wakeup_exit_steps exit_waiting_def exit_connecting_def exit_streams_def exit_udp_def
        exit_tcp_def casync_close_def pool_alive_def split: option.splits)
  ultimately show ?thesis
    using wakeup_exit_spec(3) [OF core alive, of bc sc] by (auto simp: exit_ok_def)
qed

section \<open>Every step\<close>

lemma np_ok_listeners_fold:
  assumes "\<And>x s. np_ok s \<Longrightarrow> listeners_ok s \<Longrightarrow> np_ok (f x s) \<and> listeners_ok (f x s)" and "np_ok s" and "listeners_ok s"
  shows "np_ok (fold f xs s) \<and> listeners_ok (fold f xs s)"
  using assms(2,3) by (induction xs arbitrary: s) (simp_all add: assms(1))

lemma async_bind [simp, np_frame]: "np_async (wakeup_bind p s) = np_async s"
proof -
  obtain n b where p: "p = (n, b)" by fastforce
  have "np_async (wakeup_bind_tcp n b s) = np_async s"
    by (cases rule: bindAndListenTcp_cases [of n s]) (auto simp: wakeup_bind_tcp_def Let_def split: option.split)
  moreover have "np_async (wakeup_bind_udp n b s) = np_async s"
  proof (cases "find_udp n (m_udpServers s) s")
    case (Pair r s1)
    then have "np_async s1 = np_async s" using find_udp_cases [of n "m_udpServers s" s] by (auto simp: undefined_behaviour_def)
    then show ?thesis using Pair
      by (cases rule: bindAndListenUdp_cases [of n s1]) (auto simp: wakeup_bind_udp_def env_ret_def Let_def split: option.split)
  qed
  ultimately show ?thesis by (simp add: p split: protocol_type.split)
qed

lemma async_send [simp, np_frame]: "np_async (wakeup_send req s) = np_async s"
proof -
  have "quiet False s (write_or_shutdown t n l (mem_add i (s\<lparr>np_tick := k\<rparr>)))" for t n l i k by simp
  moreover have "np_async (snd (connectTcp n s)) = np_async s" for n s
    using quiet_connectTcp [of False s s n] by (simp add: quiet_def tables_def)
  ultimately show ?thesis
    by (auto simp: wakeup_send_def wakeup_send_tcp_def wakeup_send_udp_def env_ret_def undefined_behaviour_def quiet_def
        tables_def Let_def split: option.split protocol_type.split prod.split) (metis pushWaiting_fields(10) snd_conv)+
qed

lemma async_close [simp, np_frame]: "np_async (wakeup_close p s) = np_async s"
  using quiet_wakeup_close [of False s s p] by (simp add: quiet_def tables_def)

lemma async_fold: "(\<And>x s. np_async (f x s) = np_async (s :: np_pool)) \<Longrightarrow> np_async (fold f xs s) = np_async s"
  by (induction xs arbitrary: s) simp_all

lemma wakeup_left:
  assumes ok: "np_ok s" "listeners_ok s" and alive: "pool_alive s"
  shows "listeners_ok (on_wakeup s) \<and> exit_ok (on_wakeup s)"
proof -
  let ?s1 = "s\<lparr>m_pendingBind := [], m_pendingSend := [], m_pendingClose := []\<rparr>"
  have s1: "np_ok ?s1" "listeners_ok ?s1" "pool_alive ?s1"
    using assms by (simp_all add: np_ok_def listeners_ok_def pool_alive_def)
  show ?thesis
  proof (cases "m_bWantExit s")
    case True
    then show ?thesis
      using listeners_ok_exit [OF s1(2) np_ok_core [OF s1(1)] s1(3)] exit_ok_exit [OF np_ok_core [OF s1(1)] s1(3)]
      by (simp add: on_wakeup_def)
  next
    case False
    let ?s2 = "fold wakeup_bind (m_pendingBind s) ?s1"
    let ?s3 = "fold wakeup_send (m_pendingSend s) ?s2"
    have s2: "np_ok ?s2 \<and> listeners_ok ?s2"
      using s1 by (intro np_ok_listeners_fold) (simp_all add: np_ok_wakeup_bind listeners_ok_bind)
    then have s3: "np_ok ?s3 \<and> listeners_ok ?s3"
      by (intro np_ok_listeners_fold) (simp_all add: np_ok_wakeup_send listeners_ok_sends)
    then have "listeners_ok (fold wakeup_close (m_pendingClose s) ?s3)"
      using np_ok_listeners_fold [of wakeup_close ?s3] by (simp add: np_ok_wakeup_close listeners_ok_closes)
    moreover have "np_async (fold wakeup_close (m_pendingClose s) ?s3) = np_async s"
      by (simp add: async_fold)
    ultimately show ?thesis using False alive by (simp add: on_wakeup_def exit_ok_def pool_alive_def)
  qed
qed

lemma left_step:
  assumes "np_step s s'" and ok: "np_ok s" "listeners_ok s" "exit_ok s"
  shows "listeners_ok s' \<and> exit_ok s'"
proof -
  have by_quiet: "quiet True s s' \<Longrightarrow> ?thesis" using quiet_listeners quiet_exit ok by blast
  from assms(1) show ?thesis
  proof cases
    case wakeup
    then show ?thesis using wakeup_left ok by simp
  next
    case (bind node b)
    then show ?thesis using ok by (auto simp: pool_bind_def listeners_ok_def exit_ok_def pool_alive_def)
  next
    case (send node data b)
    have "np_tcps s' = np_tcps s \<and> np_udps s' = np_udps s \<and> m_tcpServers s' = m_tcpServers s
        \<and> m_udpServers s' = m_udpServers s \<and> np_async s' = np_async s"
      using send by (simp add: pool_send_def env_ret_def Let_def split: option.split)
    then show ?thesis using send(2) ok by (simp add: listeners_ok_def exit_ok_def pool_alive_def)
  next
    case (close node b)
    then show ?thesis using ok by (auto simp: pool_close_def listeners_ok_def exit_ok_def pool_alive_def)
  next
    case destroy
    then show ?thesis using ok by (auto simp: pool_destroy_def listeners_ok_def exit_ok_def pool_alive_def)
  next
    case (async_closed a)
    then show ?thesis using ok
      by (auto simp: on_async_closed_def listeners_ok_def exit_ok_def pool_alive_def mem_add_def)
  next
    case (timeout t c)
    show ?thesis unfolding timeout(1) by (rule by_quiet [unfolded timeout(1)]) (simp add: quiet_callbacks)
  next
    case (read t c nread data)
    show ?thesis unfolding read(1) by (rule by_quiet [unfolded read(1)]) (simp add: quiet_callbacks)
  next
    case (new_connection t c status peer len)
    then show ?thesis using by_quiet quiet_new_connection [OF quiet_refl] by simp
  next
    case (timer_closed t c)
    then show ?thesis using by_quiet quiet_timer_closed [OF quiet_refl] by simp
  next
    case (udp_recv u d nread data addr)
    show ?thesis unfolding udp_recv(1) by (rule by_quiet [unfolded udp_recv(1)]) (simp add: quiet_callbacks)
  qed (use by_quiet in \<open>simp_all add: quiet_callbacks quiet_connect_done\<close>)
qed

lemma np_reach_left:
  assumes "np_reach settings env s" and "connect_law env"
  shows "listeners_ok s \<and> exit_ok s"
  using assms(1)
proof (induction rule: np_reach.induct)
  case (start s)
  then have "np_tcps s = Map.empty" "np_udps s = Map.empty" "pool_alive s"
    by (auto simp: pool_construct_def internal_thread_start_def casync_alloc_def env_ret_def pool_fresh_def mem_add_def
        pool_alive_def Let_def split: if_splits)
  then show ?case by (simp add: listeners_ok_def exit_ok_def)
next
  case (step s s')
  then show ?case using np_reach_ok [OF step(1) assms(2)] left_step by blast
qed

section \<open>What keeps the loop running\<close>

text \<open>
  \<open>uv_run\<close> returns when no handle is open and no request is under way. Each object counts once
  for existing, once for each of its handles and once until it is being closed.
\<close>

definition tcp_rank :: "ctcp \<Rightarrow> nat" where
  "tcp_rank c = 1 + of_bool (\<not> m_closing c) + of_bool (m_tcpInited c) + of_bool (m_timerInited c)"

definition udp_rank :: "cudp \<Rightarrow> nat" where
  "udp_rank d = 1 + of_bool (\<not> u_closing d)"

definition loop_rank :: "np_pool \<Rightarrow> nat" where
  "loop_rank s = (\<Sum>t\<in>dom (np_tcps s). tcp_rank (the (np_tcps s t))) + (\<Sum>u\<in>dom (np_udps s). udp_rank (the (np_udps s u)))
     + of_bool (np_async s \<noteq> None) + length (np_writes s) + length (np_connects s) + length (np_shutdowns s) + length (np_udp_sends s)"

definition rank_le :: "nat \<Rightarrow> np_pool \<Rightarrow> bool" where
  "rank_le r s \<longleftrightarrow> finite (dom (np_tcps s)) \<and> finite (dom (np_udps s)) \<and> loop_rank s \<le> r"

definition loop_idle :: "np_pool \<Rightarrow> bool" where
  "loop_idle s \<longleftrightarrow> np_tcps s = Map.empty \<and> np_udps s = Map.empty \<and> np_async s = None \<and> np_writes s = []
     \<and> np_connects s = [] \<and> np_shutdowns s = [] \<and> np_udp_sends s = []"

lemma loop_rank_0: "finite (dom (np_tcps s)) \<Longrightarrow> finite (dom (np_udps s)) \<Longrightarrow> loop_rank s = 0 \<longleftrightarrow> loop_idle s"
  by (auto simp: loop_rank_def loop_idle_def tcp_rank_def udp_rank_def)

lemma rank_update:
  assumes "finite (dom m)" and "m t = Some c"
  shows "(\<Sum>t\<in>dom m. f (the (m t))) = f c + (\<Sum>u\<in>dom m - {t}. f (the (m u)))"
    and "(\<Sum>u\<in>dom (m(t \<mapsto> c')). f (the ((m(t \<mapsto> c')) u))) = f c' + (\<Sum>u\<in>dom m - {t}. (f (the (m u)) :: nat))"
    and "(\<Sum>u\<in>dom (m(t := None)). f (the ((m(t := None)) u))) = (\<Sum>u\<in>dom m - {t}. f (the (m u)))"
proof -
  have t: "t \<in> dom m" using assms(2) by blast
  show "(\<Sum>t\<in>dom m. f (the (m t))) = f c + (\<Sum>u\<in>dom m - {t}. f (the (m u)))"
    using sum.remove [OF assms(1) t, of "\<lambda>u. f (the (m u))"] assms(2) by simp
  have d: "dom (m(t \<mapsto> c')) = insert t (dom m - {t})" using t by auto
  have "(\<Sum>u\<in>insert t (dom m - {t}). f (the ((m(t \<mapsto> c')) u)))
      = f c' + (\<Sum>u\<in>dom m - {t}. f (the ((m(t \<mapsto> c')) u)))"
    using assms(1) by (subst sum.insert) simp_all
  then show "(\<Sum>u\<in>dom (m(t \<mapsto> c')). f (the ((m(t \<mapsto> c')) u))) = f c' + (\<Sum>u\<in>dom m - {t}. (f (the (m u)) :: nat))"
    unfolding d by simp
  have "dom (m(t := None)) = dom m - {t}" by auto
  then show "(\<Sum>u\<in>dom (m(t := None)). f (the ((m(t := None)) u))) = (\<Sum>u\<in>dom m - {t}. f (the (m u)))"
    by simp
qed

lemma rank_le_simps [simp]:
  "rank_le r (emit e s) = rank_le r s" "rank_le r (emit_all es s) = rank_le r s" "rank_le r (mem_add i s) = rank_le r s"
  "rank_le r (drop_and_free n bs s) = rank_le r s" "rank_le r (dropWaiting n s) = rank_le r s"
  "rank_le r (undefined_behaviour s) = rank_le r s" "rank_le r (s\<lparr>np_tick := k\<rparr>) = rank_le r s"
  "rank_le r (s\<lparr>m_node2stream := ns\<rparr>) = rank_le r s" "rank_le r (s\<lparr>m_connecting := cs\<rparr>) = rank_le r s"
  by (simp_all add: rank_le_def loop_rank_def undefined_behaviour_def)

text \<open>An update lowers the rank by what the object loses.\<close>

lemma rank_le_upd_tcp:
  assumes "rank_le (r + k) s" and "np_tcps s t = Some c" and "tcp_rank (f c) + k \<le> tcp_rank c"
  shows "rank_le r (upd_tcp t f s)"
  using assms rank_update(1) [of "np_tcps s" t c tcp_rank] rank_update(2) [of "np_tcps s" t c tcp_rank "f c"] by (simp add: rank_le_def loop_rank_def)

lemma rank_le_upd_same: "rank_le r s \<Longrightarrow> (\<And>c. tcp_rank (f c) = tcp_rank c) \<Longrightarrow> rank_le r (upd_tcp t f s)"
  using rank_le_upd_tcp [of r 0 s t _ f] by (cases "np_tcps s t") (simp_all add: upd_tcp_def)

lemma rank_le_delete_tcp:
  assumes "rank_le (r + tcp_rank c) s" and "np_tcps s t = Some c"
  shows "rank_le r (delete_tcp t s)"
  using assms rank_update(1,3) [of "np_tcps s" t c tcp_rank] by (auto simp: rank_le_def loop_rank_def delete_tcp_def)

lemma rank_le_weaken: "rank_le k s \<Longrightarrow> k \<le> r \<Longrightarrow> rank_le r s"
  by (simp add: rank_le_def)

lemma rank_le_close: "rank_le r s \<Longrightarrow> rank_le r (ctcp_close t s)"
proof (cases "np_tcps s t")
  case (Some c)
  assume r: "rank_le r s"
  have "rank_le r (delete_tcp t s)"
    by (rule rank_le_delete_tcp [OF rank_le_weaken [OF r] Some]) simp
  then show ?thesis using r Some rank_le_upd_tcp [of r 0 s t c "\<lambda>c. c\<lparr>m_closing := True, t_timer_active := False, t_reading := False\<rparr>"]
    by (auto simp: ctcp_close_def tcp_rank_def)
qed (simp add: ctcp_close_def)

lemma rank_le_close_strict:
  assumes "rank_le (Suc r) s" and t: "np_tcps s t = Some c" and "\<not> m_closing c"
  shows "rank_le r (ctcp_close t s)"
proof (cases "m_tcpInited c \<or> m_timerInited c")
  case True
  have "rank_le r (upd_tcp t (\<lambda>c. c\<lparr>m_closing := True, t_timer_active := False, t_reading := False\<rparr>) s)"
    using assms by (intro rank_le_upd_tcp [of r 1]) (simp_all add: tcp_rank_def)
  then show ?thesis using True t assms(3) by (simp add: ctcp_close_def)
next
  case False
  have "rank_le r (delete_tcp t s)"
    by (rule rank_le_delete_tcp [OF rank_le_weaken [OF assms(1)] t]) (simp add: tcp_rank_def)
  then show ?thesis using False t by (simp add: ctcp_close_def)
qed

lemma rank_le_shutdownTcp: "rank_le r s \<Longrightarrow> rank_le r (shutdownTcpConnection t b False s)"
  by (auto simp: shutdownTcpConnection_def um_erase_def Let_def intro!: rank_le_close split: option.split)

lemma rank_le_shutdownTcp_strict:
  "rank_le (Suc r) s \<Longrightarrow> np_tcps s t = Some c \<Longrightarrow> \<not> m_closing c \<Longrightarrow> rank_le r (shutdownTcpConnection t b False s)"
  by (auto simp: shutdownTcpConnection_def um_erase_def Let_def intro!: rank_le_close_strict [where c = c])

lemma rank_le_reset_idle: "rank_le r s \<Longrightarrow> rank_le r (reset_tcp_idle_timeout t s)"
  by (auto simp: reset_tcp_idle_timeout_def env_ret_def uv_timer_start_def Let_def tcp_rank_def
      intro!: rank_le_shutdownTcp rank_le_upd_same)

lemma rank_le_startup:
  assumes "rank_le r s" and "m_waitingSend s = []"
  shows "rank_le r (startupTcpConnection t s)"
  using assms
  by (auto simp: startupTcpConnection_def getWriteFromWaitingByNode_def um_insert_def Let_def intro!: rank_le_close split: option.split)

lemma Suc_length_remove1: "x \<in> set xs \<Longrightarrow> Suc (length (remove1 x xs)) = length xs"
  by (induction xs) auto

lemma rank_le_remove:
  "rank_le (Suc r) s \<Longrightarrow> req \<in> set (np_writes s) \<Longrightarrow> rank_le r (s\<lparr>np_writes := remove1 req (np_writes s)\<rparr>)"
  "rank_le (Suc r) s \<Longrightarrow> req \<in> set (np_udp_sends s) \<Longrightarrow> rank_le r (s\<lparr>np_udp_sends := remove1 req (np_udp_sends s)\<rparr>)"
  "rank_le (Suc r) s \<Longrightarrow> t \<in> set (np_shutdowns s) \<Longrightarrow> rank_le r (s\<lparr>np_shutdowns := remove1 t (np_shutdowns s)\<rparr>)"
  "rank_le (Suc r) s \<Longrightarrow> t \<in> set (np_connects s) \<Longrightarrow>
     rank_le r (s\<lparr>np_connects := remove1 t (np_connects s), m_connecting := cs\<rparr>)"
  using Suc_length_remove1 [of req "np_writes s"] Suc_length_remove1 [of req "np_udp_sends s"]
    Suc_length_remove1 [of t "np_shutdowns s"] Suc_length_remove1 [of t "np_connects s"]
  by (simp_all add: rank_le_def loop_rank_def)

section \<open>Callbacks lower the rank\<close>

lemma rank_timeout:
  assumes "rank_le (Suc r) s" and "np_tcps s t = Some c" and "\<not> m_closing c"
  shows "rank_le r (on_tcp_timeout t (upd_tcp t (\<lambda>c. c\<lparr>t_timer_active := False\<rparr>) s))"
  unfolding on_tcp_timeout_def
  using assms by (intro rank_le_shutdownTcp_strict [where c = "c\<lparr>t_timer_active := False\<rparr>"] rank_le_upd_same) (simp_all add: tcp_rank_def)

lemma rank_read:
  assumes "rank_le (Suc r) s" and "np_tcps s t = Some c" and "\<not> m_closing c" and "nread < 0"
  shows "rank_le r (on_tcp_read t nread data (tcp_alloc_buffer t s))"
  using assms by (simp add: on_tcp_read_def tcp_alloc_buffer_def Let_def)
    (intro rank_le_shutdownTcp_strict [where c = c], simp_all)

lemma rank_write_done:
  assumes "rank_le (Suc r) s" and "req \<in> set (np_writes s)"
  shows "rank_le r (on_tcp_write_done req status s)"
  using rank_le_remove(1) [OF assms]
  by (auto simp: on_tcp_write_done_def Let_def intro!: rank_le_shutdownTcp rank_le_reset_idle split: option.split)

lemma rank_connect_done:
  assumes "rank_le (Suc r) s" and "t \<in> set (np_connects s)" and "m_waitingSend s = []"
  shows "rank_le r (on_connect_done t status s)"
proof -
  let ?s1 = "mem_add (- 1) (s\<lparr>np_connects := remove1 t (np_connects s), m_connecting := removeAll t (m_connecting s)\<rparr>)"
  have s1: "rank_le r ?s1" "m_waitingSend ?s1 = []" using assms rank_le_remove(4) by simp_all
  then show ?thesis
    by (auto simp: on_connect_done_def env_ret_def uv_timer_start_def uv_read_start_def Let_def tcp_rank_def
        intro!: rank_le_shutdownTcp rank_le_startup rank_le_upd_same split: option.split)
qed

lemma rank_shutdown_done: "rank_le (Suc r) s \<Longrightarrow> t \<in> set (np_shutdowns s) \<Longrightarrow> rank_le r (on_shutdown_done t s)"
  by (simp add: on_shutdown_done_def rank_le_close rank_le_remove)

lemma rank_closed:
  assumes "rank_le (Suc r) s" and t: "np_tcps s t = Some c"
  shows "m_tcpInited c \<Longrightarrow> rank_le r (on_tcp_closed t s)" and "m_timerInited c \<Longrightarrow> rank_le r (on_timer_closed t s)"
proof -
  have delete: "rank_le r (delete_tcp t (upd_tcp t f s))" if "rank_le r (upd_tcp t f s)" for f
    by (rule rank_le_delete_tcp [where c = "f c", OF rank_le_weaken [OF that]]) (use t in auto)
  show "rank_le r (on_tcp_closed t s)" if "m_tcpInited c"
  proof -
    have "rank_le r (upd_tcp t (\<lambda>c. c\<lparr>m_tcpInited := False\<rparr>) s)"
      using assms that by (intro rank_le_upd_tcp [of r 1]) (simp_all add: tcp_rank_def)
    then show ?thesis using t delete by (simp add: on_tcp_closed_def Let_def)
  qed
  show "rank_le r (on_timer_closed t s)" if "m_timerInited c"
  proof -
    have "rank_le r (upd_tcp t (\<lambda>c. c\<lparr>m_timerInited := False\<rparr>) s)"
      using assms that by (intro rank_le_upd_tcp [of r 1]) (simp_all add: tcp_rank_def)
    then show ?thesis using t delete by (simp add: on_timer_closed_def Let_def)
  qed
qed

lemma rank_udp_closed: "rank_le (Suc r) s \<Longrightarrow> np_udps s u = Some d \<Longrightarrow> rank_le r (on_udp_closed u s)"
  using rank_update(1,3) [of "np_udps s" u d udp_rank]
  by (simp add: on_udp_closed_def delete_udp_def rank_le_def loop_rank_def) (auto simp: udp_rank_def)

lemma rank_udp_send_done: "rank_le (Suc r) s \<Longrightarrow> req \<in> set (np_udp_sends s) \<Longrightarrow> rank_le r (on_udp_send_done req status s)"
  using rank_le_remove(2) [of r s req] by (auto simp: on_udp_send_done_def Let_def split: option.split)

lemma rank_async_closed: "rank_le (Suc r) s \<Longrightarrow> np_async s = Some a \<Longrightarrow> rank_le r (on_async_closed s)"
  by (simp add: on_async_closed_def rank_le_def loop_rank_def)

section \<open>After the exit\<close>

lemma left_facts:
  assumes "np_reach settings env s" and "connect_law env" and "\<not> pool_alive s"
  shows "core {} {} s" and "m_waitingSend s = []" and "m_pendingSend s = []"
    and "np_tcps s t = Some c \<Longrightarrow> \<not> listener c" and "np_udps s u = Some d \<Longrightarrow> u_closing d"
    and "np_async s = Some a \<Longrightarrow> a_closing a" and "rank_le (loop_rank s) s"
proof -
  show core: "core {} {} s" using np_ok_core [OF np_reach_ok [OF assms(1,2)]] .
  have left: "listeners_ok s" "exit_ok s" using np_reach_left [OF assms(1,2)] by simp_all
  then have tables: "m_tcpServers s = []" "m_udpServers s = []" "m_connecting s = []"
    using assms(3) by (simp_all add: exit_ok_def)
  show "m_pendingSend s = []" "np_async s = Some a \<Longrightarrow> a_closing a"
    using left(2) assms(3) by (simp_all add: exit_ok_def)
  show "np_tcps s t = Some c \<Longrightarrow> \<not> listener c" "np_udps s u = Some d \<Longrightarrow> u_closing d"
    using left(1) by (auto simp: listeners_ok_def tables)
  have "um_find n (m_waitingSend s) = None" for n
    using core_waiting [OF core, of n] tables(3) by (cases "um_find n (m_waitingSend s)") auto
  then have "map_of (m_waitingSend s) = Map.empty" by (simp add: um_find_def fun_eq_iff)
  then show "m_waitingSend s = []" by simp
  have "ids_ok s" using np_reach_mem [OF assms(1,2)] by simp
  then have "dom (np_tcps s) \<subseteq> {..<np_next s}" "dom (np_udps s) \<subseteq> {..<np_next s}" by (auto simp: ids_ok_def)
  then show "rank_le (loop_rank s) s" using finite_subset by (fastforce simp: rank_le_def)
qed

text \<open>A read that brings data, or says that there is none at the moment.\<close>

definition data_read :: "np_pool \<Rightarrow> np_pool \<Rightarrow> bool" where
  "data_read s s' \<longleftrightarrow> (\<exists>t c nread data. np_tcps s t = Some c \<and> t_reading c \<and> 0 \<le> nread
     \<and> s' = on_tcp_read t nread data (tcp_alloc_buffer t s))"

lemma left_step_rank:
  assumes "np_reach settings env s" and "connect_law env" and left: "\<not> pool_alive s" and step: "np_step s s'"
  shows "rank_le (loop_rank s - 1) s' \<or> data_read s s'"
proof -
  note facts = left_facts [OF assms(1-3)]
  have r: "rank_le (Suc (loop_rank s - 1)) s" using facts(7) by (rule rank_le_weaken) simp
  from step show ?thesis
  proof cases
    case (timeout t c)
    then have "\<not> m_closing c" using core_object [OF facts(1), of t c] by (simp add: tcp_settled_def)
    then show ?thesis using timeout rank_timeout [OF r] by blast
  next
    case (read t c nread data)
    then have "\<not> m_closing c" using core_object [OF facts(1), of t c] by (simp add: tcp_settled_def)
    then show ?thesis using read rank_read [OF r, of t c nread data]
      unfolding data_read_def by (cases "nread < 0") (simp, metis not_less)
  next
    case (new_connection t c status peer len)
    then show ?thesis using facts(4) [of t c] by (simp add: listener_def tcp_server_def)
  next
    case (udp_recv u d nread data addr)
    then show ?thesis using facts(5) by blast
  qed (use left r facts(2) in \<open>auto simp: rank_write_done rank_connect_done rank_shutdown_done rank_closed rank_udp_closed
      rank_udp_send_done rank_async_closed\<close>)
qed

lemma left_progress:
  assumes "np_reach settings env s" and "connect_law env" and left: "\<not> pool_alive s" and busy: "\<not> loop_idle s"
  shows "\<exists>s'. np_step s s' \<and> loop_rank s' < loop_rank s"
proof -
  note facts = left_facts [OF assms(1-3)]
  have fin: "finite (dom (np_tcps s))" "finite (dom (np_udps s))" using facts(7) by (simp_all add: rank_le_def)
  then have pos: "loop_rank s \<noteq> 0" using busy loop_rank_0 by blast
  then have r: "rank_le (Suc (loop_rank s - 1)) s" using facts(7) by simp
  have lower: "\<exists>s'. np_step s s' \<and> loop_rank s' < loop_rank s" if "np_step s s'" "rank_le (loop_rank s - 1) s'" for s'
  proof -
    from that(2) have "loop_rank s' \<le> loop_rank s - 1" by (simp add: rank_le_def)
    then show ?thesis using that(1) pos by (intro exI [of _ s']) simp
  qed
  consider (w) req where "req \<in> set (np_writes s)" | (c) t where "t \<in> set (np_connects s)"
    | (sh) t where "t \<in> set (np_shutdowns s)" | (us) req where "req \<in> set (np_udp_sends s)"
    | (t) t c where "np_writes s = []" "np_connects s = []" "np_shutdowns s = []" "np_tcps s t = Some c"
    | (u) u d where "np_udp_sends s = []" "np_udps s u = Some d" | (a) a where "np_async s = Some a"
    using busy unfolding loop_idle_def by (metis last_in_set not_Some_eq ext)
  then show ?thesis
  proof cases
    case (w req)
    then show ?thesis using lower [OF np_step.write_done rank_write_done [OF r]] by blast
  next
    case (c t)
    then show ?thesis using lower [OF np_step.connect_done rank_connect_done [OF r]] facts(2) by blast
  next
    case (sh t)
    then show ?thesis using lower [OF np_step.shutdown_done rank_shutdown_done [OF r]] by blast
  next
    case (us req)
    then show ?thesis using lower [OF np_step.udp_send_done rank_udp_send_done [OF r]] by blast
  next
    case (t t c)
    have settled: "tcp_settled c" using core_object [OF facts(1) t(4)] by simp
    show ?thesis
    proof (cases "m_closing c")
      case True
      then have "m_tcpInited c \<or> m_timerInited c" using settled by (simp add: tcp_settled_def)
      then show ?thesis
        using lower [OF np_step.tcp_closed rank_closed(1) [OF r]] lower [OF np_step.timer_closed rank_closed(2) [OF r]] t True
        by auto
    next
      case False
      then have "t_timer_active c" using facts(4) [OF t(4)] settled by (simp add: listener_def tcp_settled_def)
      then show ?thesis using lower [OF np_step.timeout rank_timeout [OF r]] t(4) False by blast
    qed
  next
    case (u u d)
    then show ?thesis using lower [OF np_step.udp_closed rank_udp_closed [OF r]] facts(5) by auto
  next
    case (a a)
    then show ?thesis using lower [OF np_step.async_closed rank_async_closed [OF r]] facts(6) by auto
  qed
qed

lemma left_stays: 
  assumes "np_reach settings env s" and "connect_law env" and "\<not> pool_alive s" and "np_step s s'"
  shows "\<not> pool_alive s'"
proof -
  note facts = left_facts [OF assms(1-3)]
  have q: "\<not> pool_alive s'" if "quiet True s s'" using quiet_alive [OF that] assms(3) by simp
  from assms(4) show ?thesis
  proof cases
    case (timeout t c)
    show ?thesis unfolding timeout(1) by (rule q [unfolded timeout(1)]) (simp add: quiet_callbacks)
  next
    case (read t c nread data)
    show ?thesis unfolding read(1) by (rule q [unfolded read(1)]) (simp add: quiet_callbacks)
  next
    case (new_connection t c status peer len)
    then show ?thesis using facts(4) [of t c] by (simp add: listener_def tcp_server_def)
  next
    case (timer_closed t c)
    then show ?thesis using q quiet_timer_closed [OF quiet_refl] by simp
  next
    case (udp_recv u d nread data addr)
    then show ?thesis using facts(5) by blast
  next
    case (async_closed a)
    then show ?thesis by (simp add: on_async_closed_def pool_alive_def)
  qed (use assms(3) q in \<open>simp_all add: quiet_callbacks quiet_connect_done\<close>)
qed

lemma left_ends:
  assumes "np_reach settings env s" and "connect_law env" and "\<not> pool_alive s"
  shows "\<exists>s'. np_step\<^sup>*\<^sup>* s s' \<and> loop_idle s' \<and> np_mem s' = 1"
  using assms
proof (induction "loop_rank s" arbitrary: s rule: less_induct)
  case less
  show ?case
  proof (cases "loop_idle s")
    case True
    then have "np_mem s = 1"
      using np_reach_mem [OF less.prems(1,2)] left_facts(2,3) [OF less.prems] by (simp add: owed_def loop_idle_def)
    then show ?thesis using True by blast
  next
    case False
    obtain s' where s': "np_step s s'" "loop_rank s' < loop_rank s" using left_progress [OF less.prems False] by blast
    have "np_reach settings env s'" using less.prems(1) s'(1) by (rule np_reach.step)
    moreover have "\<not> pool_alive s'" using left_stays [OF less.prems s'(1)] .
    ultimately obtain s'' where "np_step\<^sup>*\<^sup>* s' s''" "loop_idle s''" "np_mem s'' = 1"
      using less.hyps [OF s'(2)] less.prems(2) by blast
    then show ?thesis using s'(1) by (meson converse_rtranclp_into_rtranclp)
  qed
qed

text \<open>
  C8: The destructor comes to its end. Once the internal thread has left (its wakeup object is
  closing or gone), every step of libuv brings its loop nearer to the state in which \<open>uv_run\<close>
  returns, except a read on a connection that is still open; nothing can be started any more. And
  from every such state the loop can come to its end by libuv's own callbacks: then no object and
  no request is left, and of all the blocks the pool ever obtained only the thread object, which
  the destructor deletes, is not given back.
\<close>

theorem exit_loop_ends:
  assumes "np_reach settings env s" and "connect_law env" and "\<not> pool_alive s"
  shows "(\<forall>s'. np_step s s' \<longrightarrow> \<not> pool_alive s' \<and> (loop_rank s' < loop_rank s \<or> data_read s s'))
    \<and> (\<exists>s'. np_step\<^sup>*\<^sup>* s s' \<and> loop_idle s' \<and> np_mem s' = 1)"
proof (intro conjI allI impI)
  fix s' assume step: "np_step s s'"
  show "\<not> pool_alive s'" using left_stays [OF assms step] .
  have "\<not> loop_idle s"
    using step assms(3) by cases (auto simp: loop_idle_def)
  then have "loop_rank s \<noteq> 0"
    using left_facts(7) [OF assms] loop_rank_0 [of s] by (auto simp: rank_le_def)
  then show "loop_rank s' < loop_rank s \<or> data_read s s'"
    using left_step_rank [OF assms step] by (auto simp: rank_le_def)
qed (rule left_ends [OF assms])

theorem exit_loop_ends_witness:
  "\<exists>s'. np_step\<^sup>*\<^sup>* (on_wakeup demo_leaving) s' \<and> loop_idle s' \<and> np_mem s' = 1"
proof -
  have alive: "pool_alive demo_connected" by code_simp
  have 1: "np_reach preferred_network_settings demo_env demo_leaving"
    unfolding demo_leaving_def by (rule np_reach.step [OF demo_reach(4) np_step.destroy [OF alive]])
  have "pool_alive demo_leaving" by code_simp
  from np_reach.step [OF 1 np_step.wakeup [OF this]]
  have 2: "np_reach preferred_network_settings demo_env (on_wakeup demo_leaving)" .
  have "\<not> pool_alive (on_wakeup demo_leaving)" by code_simp
  from exit_loop_ends [OF 2 connect_law_demo this] show ?thesis by blast
qed

section \<open>A destructor that does not return\<close>

definition orphan_read :: "np_pool \<Rightarrow> np_pool" where
  "orphan_read s = on_tcp_read 1 1 [0] (tcp_alloc_buffer 1 s)"

lemma orphan_read_keeps:
  assumes "np_env s = demo_env" and t: "np_tcps s 1 = Some c" "t_reading c" "\<not> m_closing c" "\<not> m_shutdown c"
  shows "np_env (orphan_read s) = demo_env \<and> (\<exists>c'. np_tcps (orphan_read s) 1 = Some c' \<and> t_reading c' \<and> \<not> m_closing c' \<and> \<not> m_shutdown c')"
  using assms
  by (simp add: orphan_read_def on_tcp_read_def tcp_alloc_buffer_def reset_tcp_idle_timeout_def uv_timer_start_def
      env_ret_def demo_env_def Let_def)

definition demo_orphan_left :: np_pool where
  "demo_orphan_left = on_wakeup (pool_destroy demo_orphaned)"

lemma demo_orphan_left_facts:
  "np_reach preferred_network_settings demo_env demo_orphan_left" "\<not> pool_alive demo_orphan_left"
  "\<exists>c. np_tcps demo_orphan_left 1 = Some c \<and> t_reading c \<and> \<not> m_closing c \<and> \<not> m_shutdown c"
proof -
  have "pool_alive demo_orphaned" by code_simp
  note 1 = np_reach.step [OF demo_orphaned_reach(2) np_step.destroy [OF this]]
  have "pool_alive (pool_destroy demo_orphaned)" by code_simp
  from np_reach.step [OF 1 np_step.wakeup [OF this]]
  show "np_reach preferred_network_settings demo_env demo_orphan_left" unfolding demo_orphan_left_def .
  show "\<not> pool_alive demo_orphan_left" by code_simp
  have "map_option (\<lambda>c. (t_reading c, m_closing c, m_shutdown c)) (np_tcps demo_orphan_left 1) = Some (True, False, False)"
    by code_simp
  then show "\<exists>c. np_tcps demo_orphan_left 1 = Some c \<and> t_reading c \<and> \<not> m_closing c \<and> \<not> m_shutdown c" by auto
qed


end
