(* ===== verification/Pool_Status.thy ===== *)
theory Pool_Status
  imports Pool_Properties
begin

text \<open>
  What \<open>CnetworkPool\<close> tells its user about connections. \<open>last_status n log\<close> is the last word on
  a node; \<open>status_ok\<close> says that it agrees with \<open>m_node2stream\<close> and that no node comes up twice in
  a row. Every function keeps it; only the exit breaks it for a moment, because it empties the
  table before it tells the user, and there the whole report is looked at.
\<close>

section \<open>What the user has been told\<close>

text \<open>The last word on a node, if there has been any.\<close>

fun last_status :: "network_node \<Rightarrow> event list \<Rightarrow> bool option" where
  "last_status n [] = None"
| "last_status n (e # es) =
     (case last_status n es of
        Some b \<Rightarrow> Some b
      | None \<Rightarrow> (case e of Cb_connectionStatus m b \<Rightarrow> if m = n then Some b else None | _ \<Rightarrow> None))"

definition ups_ok :: "event list \<Rightarrow> bool" where
  "ups_ok log \<longleftrightarrow> (\<forall>p n q. log = p @ Cb_connectionStatus n True # q \<longrightarrow> last_status n p \<noteq> Some True)"

definition status_ok :: "np_pool \<Rightarrow> bool" where
  "status_ok s \<longleftrightarrow> ups_ok (np_log s)
     \<and> (\<forall>n. last_status n (np_log s) = Some True \<longleftrightarrow> um_find n (m_node2stream s) \<noteq> None)"

lemma last_status_append:
  "last_status n (a @ b) = (case last_status n b of Some x \<Rightarrow> Some x | None \<Rightarrow> last_status n a)"
  by (induction a) (auto split: option.splits)

definition status_event :: "event \<Rightarrow> bool" where
  "status_event e \<longleftrightarrow> (\<exists>n b. e = Cb_connectionStatus n b)"

definition up_event :: "event \<Rightarrow> bool" where
  "up_event e \<longleftrightarrow> (\<exists>n. e = Cb_connectionStatus n True)"

lemma event_kinds [simp]:
  "\<not> status_event (Cb_drop n d)" "\<not> status_event (Cb_message n d)" "\<not> status_event (Cb_allocate n)"
  "\<not> status_event (Cb_deallocate n)" "\<not> status_event (Cb_bindStatus n b)" "\<not> status_event (Cb_tcpListenError n i)"
  "\<not> status_event (Cb_udpSendError n i)" "\<not> status_event (Cb_udpRecvError n i)" "\<not> status_event (Write_completed n d)"
  "\<not> up_event (Cb_connectionStatus n False)"
  by (simp_all add: status_event_def up_event_def)

lemma status_not_up: "\<not> status_event e \<Longrightarrow> \<not> up_event e"
  by (auto simp: status_event_def up_event_def)

lemma last_status_none: "\<forall>e\<in>set es. \<not> status_event e \<Longrightarrow> last_status n es = None"
  by (induction es) (auto simp: status_event_def split: event.split)

lemma last_status_down: "\<forall>e\<in>set es. \<not> up_event e \<Longrightarrow> last_status n es \<noteq> Some True"
  by (induction es) (auto simp: up_event_def split: event.split option.split)

lemma ups_ok_snoc: "ups_ok (log @ [e]) \<longleftrightarrow> ups_ok log \<and> (\<forall>n. e = Cb_connectionStatus n True \<longrightarrow> last_status n log \<noteq> Some True)"
proof
  assume "ups_ok (log @ [e])"
  then show "ups_ok log \<and> (\<forall>n. e = Cb_connectionStatus n True \<longrightarrow> last_status n log \<noteq> Some True)"
    unfolding ups_ok_def by (metis append.assoc append_Cons)
next
  assume ok: "ups_ok log \<and> (\<forall>n. e = Cb_connectionStatus n True \<longrightarrow> last_status n log \<noteq> Some True)"
  show "ups_ok (log @ [e])"
    unfolding ups_ok_def
  proof (intro allI impI)
    fix p n q assume eq: "log @ [e] = p @ Cb_connectionStatus n True # q"
    show "last_status n p \<noteq> Some True"
    proof (cases q rule: rev_cases)
      case Nil
      then show ?thesis using ok eq by simp
    next
      case (snoc q' e')
      then have "log = p @ Cb_connectionStatus n True # q'" using eq by simp
      then show ?thesis using ok unfolding ups_ok_def by blast
    qed
  qed
qed

lemma ups_ok_append: "ups_ok log \<Longrightarrow> \<forall>e\<in>set es. \<not> up_event e \<Longrightarrow> ups_ok (log @ es)"
proof (induction es rule: rev_induct)
  case (snoc e es)
  then show ?case unfolding append_assoc [symmetric] ups_ok_snoc by (auto simp: up_event_def)
qed simp

lemma ups_ok_Nil [simp]: "ups_ok []"
  by (simp add: ups_ok_def)

section \<open>Updates\<close>

lemma status_ok_emit [simp]: "\<not> status_event e \<Longrightarrow> status_ok (emit e s) = status_ok s"
proof -
  assume e: "\<not> status_event e"
  have "last_status n (np_log s @ [e]) = last_status n (np_log s)" for n
    using last_status_none [of "[e]"] e by (simp only: last_status_append) simp
  moreover have "ups_ok (np_log s @ [e]) = ups_ok (np_log s)" using e by (auto simp: ups_ok_snoc status_event_def)
  ultimately show ?thesis by (simp add: status_ok_def)
qed

lemma status_ok_emit_down:
  "status_ok s \<Longrightarrow> um_find n (m_node2stream s) = None \<Longrightarrow> status_ok (emit (Cb_connectionStatus n False) s)"
  by (auto simp: status_ok_def ups_ok_snoc last_status_append)

lemma status_ok_up:
  assumes "status_ok s" and "um_find n (m_node2stream s) = None"
  shows "status_ok (emit (Cb_connectionStatus n True) (s\<lparr>m_node2stream := (n, t) # m_node2stream s\<rparr>))"
  using assms by (auto simp: status_ok_def ups_ok_snoc last_status_append)

lemma status_ok_emit_all [simp]: "\<forall>e\<in>set es. \<not> status_event e \<Longrightarrow> status_ok (emit_all es s) = status_ok s"
  by (induction es arbitrary: s) simp_all

lemma status_ok_mem_add [simp]: "status_ok (mem_add i s) = status_ok s"
  by (simp add: status_ok_def)

lemma status_ok_drop_and_free [simp]: "status_ok (drop_and_free n bs s) = status_ok s"
  by (induction bs arbitrary: s) simp_all

lemma status_ok_same: "np_log s' = np_log s \<Longrightarrow> m_node2stream s' = m_node2stream s \<Longrightarrow> status_ok s' = status_ok s"
  by (simp add: status_ok_def)

lemma status_ok_objects [simp]:
  "status_ok (upd_tcp t f s) = status_ok s" "status_ok (delete_tcp t s) = status_ok s" "status_ok (ctcp_close t s) = status_ok s"
  "status_ok (new_tcp c k s) = status_ok s" "status_ok (upd_udp u g s) = status_ok s" "status_ok (delete_udp u s) = status_ok s"
  "status_ok (new_udp d k s) = status_ok s" "status_ok (undefined_behaviour s) = status_ok s"
  "status_ok (cudp_close u s) = status_ok s" "status_ok (pushWaiting n b s) = status_ok s"
  by (simp_all add: status_ok_def undefined_behaviour_def cudp_close_def split: option.split)

lemma status_ok_fields [simp]:
  "status_ok (s\<lparr>np_tick := tick\<rparr>) = status_ok s" "status_ok (s\<lparr>m_udpIndex := i\<rparr>) = status_ok s"
  "status_ok (s\<lparr>m_tcpServers := ts\<rparr>) = status_ok s" "status_ok (s\<lparr>m_udpServers := us\<rparr>) = status_ok s"
  "status_ok (s\<lparr>m_connecting := cs\<rparr>) = status_ok s" "status_ok (s\<lparr>m_bWantExit := w\<rparr>) = status_ok s"
  "status_ok (s\<lparr>m_pendingBind := pb\<rparr>) = status_ok s" "status_ok (s\<lparr>m_pendingSend := pq\<rparr>) = status_ok s"
  "status_ok (s\<lparr>m_pendingClose := pc\<rparr>) = status_ok s" "status_ok (s\<lparr>m_waitingSend := ws\<rparr>) = status_ok s"
  "status_ok (s\<lparr>np_writes := wr\<rparr>) = status_ok s" "status_ok (s\<lparr>np_connects := co\<rparr>) = status_ok s"
  "status_ok (s\<lparr>np_shutdowns := sh\<rparr>) = status_ok s" "status_ok (s\<lparr>np_udp_sends := ud\<rparr>) = status_ok s"
  "status_ok (s\<lparr>np_async := a\<rparr>) = status_ok s"
  by (simp_all add: status_ok_def)

lemma status_ok_dropWaiting [simp]: "status_ok (dropWaiting n s) = status_ok s"
  by (simp add: dropWaiting_def Let_def split: option.split)

section \<open>Functions\<close>

lemma status_ok_shutdown_and_close [simp]: "status_ok (ctcp_shutdown_and_close t s) = status_ok s"
  by (rule status_ok_same)
    (simp_all add: ctcp_shutdown_and_close_def env_ret_def undefined_behaviour_def Let_def split: option.split)

lemma status_ok_erase:
  assumes "status_ok s"
  shows "status_ok (emit (Cb_connectionStatus n False) (s\<lparr>m_node2stream := AList.delete n (m_node2stream s)\<rparr>))"
  using assms by (auto simp: status_ok_def ups_ok_snoc last_status_append split: if_splits)

lemma status_ok_shutdownTcp [intro!]: "status_ok s \<Longrightarrow> status_ok (shutdownTcpConnection t b c s)"
  using status_ok_erase [of s]
  by (auto simp: shutdownTcpConnection_def um_erase_def status_ok_emit_down Let_def split: option.split)

lemma status_ok_write_or_shutdown [intro!]: "status_ok s \<Longrightarrow> status_ok (write_or_shutdown t n bufs s)"
proof -
  assume ok: "status_ok s"
  have "status_ok ((upd_tcp t f s')\<lparr>np_writes := ws, np_tick := i\<rparr>) = status_ok s'" for f s' ws i
    by (simp add: status_ok_def)
  then show ?thesis using ok
    by (auto simp: write_or_shutdown_def uv_timer_start_def uv_write_def env_ret_def dropWriteAndFree_def Let_def)
qed

lemma status_ok_getWrite [simp]: "status_ok (snd (getWriteFromWaitingByNode n s)) = status_ok s"
  by (cases rule: getWrite_cases [of n s]) simp_all

lemma status_ok_startup [intro!]:
  assumes "status_ok s"
  shows "status_ok (startupTcpConnection t s)"
proof -
  have "status_ok (case getWriteFromWaitingByNode n s' of (None, s) \<Rightarrow> s | (Some b, s) \<Rightarrow> write_or_shutdown t n b s)"
    if "status_ok s'" for n s'
    using that status_ok_getWrite [of n s'] by (auto simp del: status_ok_getWrite split: prod.split option.split)
  then show ?thesis
    using assms status_ok_up [of s] by (auto simp: startupTcpConnection_def um_insert_def Let_def split: option.split)
qed

lemma status_ok_reset_idle [intro!]: "status_ok s \<Longrightarrow> status_ok (reset_tcp_idle_timeout t s)"
  by (auto simp: reset_tcp_idle_timeout_def env_ret_def uv_timer_start_def Let_def)

lemma status_ok_callbacks:
  assumes "status_ok s"
  shows "status_ok (tcp_alloc_buffer t s)" "status_ok (on_tcp_timeout t s)" "status_ok (on_tcp_read t nread data s)"
    "status_ok (on_tcp_write_done req status s)" "status_ok (on_shutdown_done t s)" "status_ok (on_connect_done t status s)"
    "status_ok (udp_alloc_buffer u s)" "status_ok (on_udp_recv u nread data addr s)"
    "status_ok (on_udp_send_done ureq status s)" "status_ok (on_tcp_closed t s)" "status_ok (on_timer_closed t s)"
    "status_ok (on_udp_closed u s)" "status_ok (on_async_closed s)"
  using assms
  by (auto simp: tcp_alloc_buffer_def on_tcp_timeout_def on_tcp_read_def on_tcp_write_done_def on_shutdown_done_def
      on_connect_done_def uv_timer_start_def uv_read_start_def env_ret_def on_async_closed_def on_timer_closed_def
      udp_alloc_buffer_def on_udp_recv_def on_udp_send_done_def on_tcp_closed_def on_udp_closed_def Let_def
      split: option.split)

lemma status_ok_new_connection:
  assumes "status_ok s" and "np_tcps s server = Some sv"
  shows "status_ok (on_new_connection server status peer len s)"
  using assms(2)
proof (cases rule: new_connection_cases [where status = status and peer = peer and len = len])
qed (use assms in auto)

section \<open>The wakeup\<close>

lemma status_ok_results [simp]:
  "status_ok (snd (bindAndListenTcp n s)) = status_ok s" "status_ok (snd (connectTcp n s)) = status_ok s"
  "status_ok (snd (bindAndListenUdp n s)) = status_ok s" "status_ok (snd (find_udp n us s)) = status_ok s"
proof -
  show "status_ok (snd (bindAndListenTcp n s)) = status_ok s" by (cases rule: bindAndListenTcp_cases [of n s]) simp_all
  show "status_ok (snd (connectTcp n s)) = status_ok s" by (cases rule: connectTcp_cases [of n s]) simp_all
  show "status_ok (snd (bindAndListenUdp n s)) = status_ok s" by (cases rule: bindAndListenUdp_cases [of n s]) simp_all
  show "status_ok (snd (find_udp n us s)) = status_ok s" by (induction us) (simp_all split: option.split)
qed

lemma status_ok_bind [simp]: "status_ok (wakeup_bind p s) = status_ok s"
proof -
  obtain n b where p: "p = (n, b)" by fastforce
  have "status_ok (wakeup_bind_tcp n b s) = status_ok s"
    using status_ok_results(1) [of n s]
    by (auto simp: wakeup_bind_tcp_def Let_def simp del: status_ok_results split: option.split prod.split)
  moreover have "status_ok (wakeup_bind_udp n b s) = status_ok s"
  proof (cases "find_udp n (m_udpServers s) s")
    case (Pair r s1)
    then have "status_ok s1 = status_ok s" using status_ok_results(4) [of n "m_udpServers s" s] by simp
    then show ?thesis using Pair status_ok_results(3) [of n s1]
      by (auto simp: wakeup_bind_udp_def env_ret_def Let_def simp del: status_ok_results split: option.split prod.split)
  qed
  ultimately show ?thesis by (simp add: p split: protocol_type.split)
qed

lemma status_ok_send:
  assumes ok: "status_ok s"
  shows "status_ok (wakeup_send req s)"
proof -
  have "status_ok (wakeup_send_tcp req s)"
  proof (cases "um_find (ps_node req) (m_node2stream s)")
    case None
    have "status_ok (dropWaiting n (emit (Cb_connectionStatus n False) s'))"
      if "connectTcp n (pushWaiting n d s) = (r, s')" "um_find n (m_node2stream s) = None" for n d r s'
    proof -
      have "status_ok s'" using status_ok_results(2) [of n "pushWaiting n d s"] that ok by simp
      moreover have "m_node2stream s' = m_node2stream s"
        using that(1) by (cases rule: connectTcp_cases [of n "pushWaiting n d s"]) auto
      ultimately show ?thesis using that(2) by (simp add: status_ok_emit_down)
    qed
    moreover have "status_ok s'" if "connectTcp n (pushWaiting n d s) = (r, s')" for n d r s'
      using status_ok_results(2) [of n "pushWaiting n d s"] that ok by simp
    ultimately show ?thesis using None ok
      by (auto simp: wakeup_send_tcp_def getStreamByNode_def Let_def split: prod.split option.split)
  next
    case (Some t)
    then show ?thesis using ok by (auto simp: wakeup_send_tcp_def getStreamByNode_def env_ret_def Let_def)
  qed
  moreover have "status_ok (wakeup_send_udp req s)"
    using ok by (auto simp: wakeup_send_udp_def env_ret_def Let_def status_ok_def ups_ok_snoc last_status_append
        undefined_behaviour_def split: option.split)
  ultimately show ?thesis by (simp add: wakeup_send_def split: protocol_type.split)
qed

lemma status_ok_close: "status_ok s \<Longrightarrow> status_ok (wakeup_close p s)"
proof -
  assume ok: "status_ok s"
  obtain n f where p: "p = (n, f)" by fastforce
  show ?thesis
    using ok by (auto simp: p getStreamByNode_def uv_timer_start_def env_ret_def Let_def split: option.split)
qed

lemma status_ok_fold: "(\<And>x s. status_ok s \<Longrightarrow> status_ok (f x s)) \<Longrightarrow> status_ok s \<Longrightarrow> status_ok (fold f xs s)"
  by (induction xs arbitrary: s) simp_all

text \<open>The report of the exit names every registered node and says no other \<open>True\<close>.\<close>

lemma exit_report_down: "\<forall>e\<in>set (exit_report bc sc s). \<not> up_event e"
  by (auto simp: exit_report_def status_not_up)

lemma last_status_some: "Cb_connectionStatus n b \<in> set es \<Longrightarrow> \<exists>b'. last_status n es = Some b'"
  by (induction es) (auto split: option.split)

lemma exit_report_registered:
  assumes "um_find n (m_node2stream s) \<noteq> None"
  shows "last_status n (exit_report bc sc s) = Some False"
proof -
  from assms have "Cb_connectionStatus n False \<in> set (exit_report bc sc s)"
    by (auto simp: exit_report_def dest!: um_find_in_set intro!: rev_image_eqI)
  from last_status_some [OF this] obtain b where "last_status n (exit_report bc sc s) = Some b" by blast
  then show ?thesis using last_status_down [OF exit_report_down [of bc sc s], of n] by (cases b) simp_all
qed

lemma status_ok_exit:
  assumes ok: "status_ok s" and core: "core {} {} s" and alive: "pool_alive s"
  shows "status_ok (wakeup_exit bc sc s)"
proof -
  note spec = wakeup_exit_spec(1,3) [OF core alive, of bc sc]
  have "last_status n (np_log s @ exit_report bc sc s) \<noteq> Some True" for n
  proof (cases "um_find n (m_node2stream s)")
    case None
    then have "last_status n (np_log s) \<noteq> Some True" using ok by (simp add: status_ok_def)
    then show ?thesis using last_status_down [OF exit_report_down [of bc sc s], of n]
      by (cases "last_status n (exit_report bc sc s)") (auto simp: last_status_append)
  qed (simp add: last_status_append exit_report_registered)
  moreover have "ups_ok (np_log s @ exit_report bc sc s)"
    using ok exit_report_down by (intro ups_ok_append) (auto simp: status_ok_def)
  ultimately show ?thesis using spec by (simp add: status_ok_def)
qed

lemma status_ok_wakeup:
  assumes ok: "status_ok s" "np_ok s" and alive: "pool_alive s"
  shows "status_ok (on_wakeup s)"
proof -
  let ?s1 = "s\<lparr>m_pendingBind := [], m_pendingSend := [], m_pendingClose := []\<rparr>"
  have s1: "status_ok ?s1" "np_ok ?s1" "pool_alive ?s1" using assms by (simp_all add: np_ok_def pool_alive_def status_ok_def)
  have "status_ok (wakeup_exit bc sc ?s1)" for bc sc
    using status_ok_exit [OF s1(1) np_ok_core [OF s1(2)] s1(3)] .
  moreover have "status_ok (fold wakeup_close cl (fold wakeup_send sn (fold wakeup_bind bn ?s1)))" for cl sn bn
    using s1(1) by (intro status_ok_fold) (simp_all add: status_ok_close status_ok_send)
  ultimately show ?thesis by (simp add: on_wakeup_def Let_def)
qed

section \<open>Every step\<close>

lemma status_ok_step:
  assumes "np_step s s'" and ok: "status_ok s" "np_ok s"
  shows "status_ok s'"
  using assms(1)
proof cases
  case wakeup
  then show ?thesis using status_ok_wakeup ok by simp
next
  case (send node data b)
  then show ?thesis using ok
    by (simp add: pool_send_def env_ret_def status_ok_def Let_def split: option.split)
next
  case (timeout t c)
  then show ?thesis using ok by (simp add: status_ok_callbacks)
next
  case (new_connection t c status peer len)
  then show ?thesis using ok status_ok_new_connection by simp
qed (use ok in \<open>simp_all add: status_ok_callbacks pool_bind_def pool_close_def pool_destroy_def\<close>)

lemma np_reach_status:
  assumes "np_reach settings env s" and "connect_law env"
  shows "status_ok s"
  using assms(1)
proof (induction rule: np_reach.induct)
  case (start s)
  then have "np_log s = []" "m_node2stream s = []"
    by (auto simp: pool_construct_def internal_thread_start_def casync_alloc_def env_ret_def pool_fresh_def mem_add_def
        Let_def split: if_splits)
  then show ?case by (simp add: status_ok_def)
next
  case (step s s')
  then show ?case using np_reach_ok [OF step(1) assms(2)] status_ok_step by blast
qed

text \<open>
  C6: The pool tells the truth about connections. In every reachable state, the nodes of which the
  user was last told that they are connected are exactly those in \<open>m_node2stream\<close>, the ones that
  \<open>send\<close> has a connection for; and a node is never reported connected twice without having been
  reported disconnected in between, the exit included. (It may be reported disconnected without
  having been connected: that is how a failed attempt is reported.)
\<close>

theorem status_tells_truth:
  assumes "np_reach settings env s" and "connect_law env"
  shows "(last_status n (np_log s) = Some True \<longleftrightarrow> getStreamByNode n s \<noteq> None)
    \<and> (\<forall>p q. np_log s = p @ Cb_connectionStatus n True # q \<longrightarrow> last_status n p \<noteq> Some True)"
  using np_reach_status [OF assms] by (simp add: status_ok_def ups_ok_def getStreamByNode_def)

theorem status_tells_truth_witness:
  "last_status demo_node (np_log demo_connected) = Some True \<and> getStreamByNode demo_node demo_connected = Some 0"
proof -
  have "getStreamByNode demo_node demo_connected = Some 0" by code_simp
  then show ?thesis using status_tells_truth [OF demo_reach(4) connect_law_demo, of demo_node] by simp
qed

end
