(* ===== verification/Pool_Messages.thy ===== *)
theory Pool_Messages
  imports Pool_Exit "HOL-Library.Multiset"
begin

text \<open>
  The way of a message through \<open>CnetworkPool\<close>: from \<open>m_pendingSend\<close> to \<open>m_waitingSend\<close> or to a
  write on the connection of its node, and from there to the kernel or to the user's
  \<open>drop\<close>. \<open>msgs s\<close> collects the messages the pool has taken over, wherever they are, and
  \<open>msg_ok M s\<close> says that they are \<open>M\<close>, where every write belongs to a live connection. Every
  function keeps them; \<open>np_run\<close> is a run with the history of what has been sent.
\<close>

section \<open>Where a message can be\<close>

definition waiting_msgs :: "(network_node, uv_buf list) umap \<Rightarrow> (network_node \<times> bytes) multiset" where
  "waiting_msgs w = mset (concat (map (\<lambda>(n, bufs). map (Pair n) bufs) w))"

definition write_msgs :: "(oid \<Rightarrow> network_node) \<Rightarrow> (oid \<times> uv_buf list) list \<Rightarrow> (network_node \<times> bytes) multiset" where
  "write_msgs at ws = mset (concat (map (\<lambda>(t, bufs). map (Pair (at t)) bufs) ws))"

text \<open>What the log says has happened to a message in the end.\<close>

fun outcome :: "event \<Rightarrow> (network_node \<times> bytes) list" where
  "outcome (Cb_drop n d) = [(n, d)]"
| "outcome (Write_completed n d) = [(n, d)]"
| "outcome _ = []"

definition over_msgs :: "event list \<Rightarrow> (network_node \<times> bytes) multiset" where
  "over_msgs log = mset (concat (map outcome log))"

definition pending_msgs :: "pending_send list \<Rightarrow> (network_node \<times> bytes) multiset" where
  "pending_msgs reqs = mset (map (\<lambda>r. (ps_node r, ps_data r)) reqs)"

definition msgs :: "np_pool \<Rightarrow> (network_node \<times> bytes) multiset" where
  "msgs s = waiting_msgs (m_waitingSend s) + write_msgs (node_at s) (np_writes s) + over_msgs (np_log s)"

text \<open>\<open>M\<close> is what the pool has taken from \<open>m_pendingSend\<close> so far.\<close>

definition msg_ok :: "(network_node \<times> bytes) multiset \<Rightarrow> np_pool \<Rightarrow> bool" where
  "msg_ok M s \<longleftrightarrow> ids_ok s \<and> um_ok (m_waitingSend s)
     \<and> (\<forall>req\<in>set (np_writes s). \<exists>c. np_tcps s (fst req) = Some c \<and> tcp_conn c) \<and> msgs s = M"

lemma waiting_msgs_simps [simp]:
  "waiting_msgs [] = {#}" "waiting_msgs ((n, bufs) # w) = mset (map (Pair n) bufs) + waiting_msgs w"
  by (simp_all add: waiting_msgs_def)

lemma write_msgs_simps [simp]:
  "write_msgs at [] = {#}" "write_msgs at (r # ws) = mset (map (Pair (at (fst r))) (snd r)) + write_msgs at ws"
  "write_msgs at (ws @ ws') = write_msgs at ws + write_msgs at ws'"
  by (simp_all add: write_msgs_def split: prod.split)

lemma over_msgs_simps [simp]:
  "over_msgs [] = {#}" "over_msgs (log @ log') = over_msgs log + over_msgs log'" "over_msgs (e # log) = mset (outcome e) + over_msgs log"
  by (simp_all add: over_msgs_def)

lemma write_msgs_remove:
  "r \<in> set ws \<Longrightarrow> write_msgs at ws = mset (map (Pair (at (fst r))) (snd r)) + write_msgs at (remove1 r ws)"
  by (induction ws) (auto simp: ac_simps)

lemma write_msgs_cong: "(\<And>r. r \<in> set ws \<Longrightarrow> at (fst r) = at' (fst r)) \<Longrightarrow> write_msgs at ws = write_msgs at' ws"
  by (induction ws) auto

lemma waiting_msgs_delete:
  "um_ok w \<Longrightarrow> um_find n w = Some bufs \<Longrightarrow> waiting_msgs w = mset (map (Pair n) bufs) + waiting_msgs (AList.delete n w)"
  by (induction w) (auto simp: ac_simps split: if_splits)

lemma waiting_msgs_update:
  "um_ok w \<Longrightarrow> um_find n w = Some bufs \<Longrightarrow>
   waiting_msgs (AList.update n (bufs @ [b]) w) = add_mset (n, b) (waiting_msgs w)"
  by (induction w) (auto simp: ac_simps split: if_splits)

section \<open>Updates\<close>

lemma node_at_frame:
  "np_tcps s' = np_tcps s \<Longrightarrow> node_at s' = node_at s"
  by (simp add: node_at_def fun_eq_iff)

lemma msgs_same:
  "np_tcps s' = np_tcps s \<Longrightarrow> np_writes s' = np_writes s \<Longrightarrow> m_waitingSend s' = m_waitingSend s \<Longrightarrow> np_log s' = np_log s
   \<Longrightarrow> msgs s' = msgs s"
  using node_at_frame [of s' s] by (simp add: msgs_def)

lemma msg_ok_same:
  assumes "np_tcps s' = np_tcps s" "np_writes s' = np_writes s" "m_waitingSend s' = m_waitingSend s" "np_log s' = np_log s"
    "np_udps s' = np_udps s" "np_next s' = np_next s"
  shows "msg_ok M s' = msg_ok M s"
  using msgs_same [OF assms(1-4)] assms by (simp add: msg_ok_def ids_ok_def)

lemma msg_ok_fields [simp]:
  "msg_ok M (s\<lparr>np_tick := tick\<rparr>) = msg_ok M s" "msg_ok M (s\<lparr>m_udpIndex := i\<rparr>) = msg_ok M s"
  "msg_ok M (s\<lparr>m_tcpServers := ts\<rparr>) = msg_ok M s" "msg_ok M (s\<lparr>m_udpServers := us\<rparr>) = msg_ok M s"
  "msg_ok M (s\<lparr>m_connecting := cs\<rparr>) = msg_ok M s" "msg_ok M (s\<lparr>m_bWantExit := w\<rparr>) = msg_ok M s"
  "msg_ok M (s\<lparr>m_pendingBind := pb\<rparr>) = msg_ok M s" "msg_ok M (s\<lparr>m_pendingSend := pq\<rparr>) = msg_ok M s"
  "msg_ok M (s\<lparr>m_pendingClose := pc\<rparr>) = msg_ok M s" "msg_ok M (s\<lparr>m_node2stream := ns\<rparr>) = msg_ok M s"
  "msg_ok M (s\<lparr>np_connects := co\<rparr>) = msg_ok M s" "msg_ok M (s\<lparr>np_shutdowns := sh\<rparr>) = msg_ok M s"
  "msg_ok M (s\<lparr>np_udp_sends := ud\<rparr>) = msg_ok M s" "msg_ok M (s\<lparr>np_async := a\<rparr>) = msg_ok M s"
  "msg_ok M (mem_add k s) = msg_ok M s"
  by (rule msg_ok_same; simp)+

lemma msg_ok_undefined [simp]: "msg_ok M (undefined_behaviour s) = msg_ok M s"
  by (rule msg_ok_same) (simp_all add: undefined_behaviour_def)

lemma msg_ok_emit: "msg_ok M s \<Longrightarrow> msg_ok (M + mset (outcome e)) (emit e s)"
  using node_at_frame [of "emit e s" s] by (auto simp: msg_ok_def ids_ok_def msgs_def)

lemma msg_ok_emit_other [simp]: "outcome e = [] \<Longrightarrow> msg_ok M (emit e s) = msg_ok M s"
  using node_at_frame [of "emit e s" s] by (simp add: msg_ok_def ids_ok_def msgs_def)

lemma msg_ok_emit_all: "msg_ok M s \<Longrightarrow> msg_ok (M + over_msgs es) (emit_all es s)"
proof (induction es arbitrary: s M)
  case (Cons e es)
  then show ?case using Cons.IH [OF msg_ok_emit [OF Cons.prems, of e]] by (simp add: ac_simps)
qed simp

lemma over_drops: "over_msgs (map (Cb_drop n) bs) = mset (map (Pair n) bs)" "over_msgs (map (Write_completed n) bs) = mset (map (Pair n) bs)"
  by (induction bs) simp_all

lemma msg_ok_drop_and_free: "msg_ok M s \<Longrightarrow> msg_ok (M + mset (map (Pair n) bs)) (drop_and_free n bs s)"
proof (induction bs arbitrary: s M)
  case (Cons b bs)
  then show ?case using Cons.IH [of "add_mset (n, b) M" "mem_add (- 1) (emit (Cb_drop n b) s)"] msg_ok_emit [of M s "Cb_drop n b"]
    by simp
qed simp

section \<open>Objects\<close>

lemma msg_ok_upd_tcp:
  assumes ok: "msg_ok M s" and f: "\<And>c. np_tcps s t = Some c \<Longrightarrow> t_node (f c) = t_node c \<and> (tcp_conn c \<longrightarrow> tcp_conn (f c))"
  shows "msg_ok M (upd_tcp t f s)"
proof (cases "np_tcps s t")
  case (Some c)
  then have "node_at (upd_tcp t f s) = node_at s" using f [OF Some] by (auto simp: node_at_def fun_eq_iff)
  then show ?thesis using ok Some f [OF Some] by (auto simp: msg_ok_def msgs_def ids_ok_def)
qed (use ok in \<open>simp add: upd_tcp_def\<close>)

lemma msg_ok_delete_tcp:
  assumes ok: "msg_ok M s" and none: "t \<notin> fst ` set (np_writes s)"
  shows "msg_ok M (delete_tcp t s)"
proof -
  have "write_msgs (node_at (delete_tcp t s)) (np_writes s) = write_msgs (node_at s) (np_writes s)"
    using none by (intro write_msgs_cong) (auto simp: node_at_def delete_tcp_def)
  then show ?thesis using ok none by (auto simp: msg_ok_def msgs_def ids_ok_def delete_tcp_def image_iff)
qed

lemma msg_ok_ctcp_close: "msg_ok M s \<Longrightarrow> msg_ok M (ctcp_close t s)"
proof (cases "np_tcps s t")
  case (Some c)
  assume ok: "msg_ok M s"
  show ?thesis
  proof (cases "m_tcpInited c \<or> m_timerInited c")
    case True
    have "msg_ok M (upd_tcp t (\<lambda>c. c\<lparr>m_closing := True, t_timer_active := False, t_reading := False\<rparr>) s)"
      using ok by (rule msg_ok_upd_tcp) (simp add: tcp_conn_def)
    then show ?thesis using True ok Some by (simp add: ctcp_close_def)
  next
    case False
    then have "t \<notin> fst ` set (np_writes s)" using ok Some by (auto simp: msg_ok_def tcp_conn_def)
    from msg_ok_delete_tcp [OF ok this] show ?thesis using False Some by (simp add: ctcp_close_def)
  qed
qed (simp add: ctcp_close_def)

lemma msg_ok_new_tcp:
  assumes ok: "msg_ok M s"
  shows "msg_ok M (new_tcp c k s)"
proof -
  have ids: "ids_ok s" and conn: "\<forall>req\<in>set (np_writes s). \<exists>c. np_tcps s (fst req) = Some c \<and> tcp_conn c"
    using ok by (simp_all add: msg_ok_def)
  have old: "fst req \<noteq> np_next s" if "req \<in> set (np_writes s)" for req
    using conn ids that by (fastforce simp: ids_ok_def)
  have "write_msgs (node_at (new_tcp c k s)) (np_writes s) = write_msgs (node_at s) (np_writes s)"
    using old by (intro write_msgs_cong) (auto simp: node_at_def)
  moreover have "ids_ok (new_tcp c k s)" using ids by (auto simp: ids_ok_def less_Suc_eq)
  ultimately show ?thesis using ok old by (auto simp: msg_ok_def msgs_def)
qed

lemma msg_ok_udp:
  "msg_ok M s \<Longrightarrow> msg_ok M (upd_udp u f s)" "msg_ok M s \<Longrightarrow> msg_ok M (delete_udp u s)" "msg_ok M s \<Longrightarrow> msg_ok M (cudp_close u s)"
  "msg_ok M s \<Longrightarrow> msg_ok M (new_udp d k s)"
proof -
  have del: "msg_ok M (delete_udp u s)" if "msg_ok M s" for s
    using that node_at_frame [of "delete_udp u s" s] by (auto simp: msg_ok_def msgs_def ids_ok_def)
  have upd: "msg_ok M (upd_udp u f s)" if here: "msg_ok M s" for f s
  proof (cases "np_udps s u")
    case (Some d)
    then show ?thesis using here node_at_frame [of "upd_udp u f s" s] by (auto simp: msg_ok_def msgs_def ids_ok_def)
  qed (use here in \<open>simp add: upd_udp_def\<close>)
  assume ok: "msg_ok M s"
  show "msg_ok M (upd_udp u f s)" "msg_ok M (delete_udp u s)" using ok upd del by blast+
  show "msg_ok M (cudp_close u s)" using ok upd del by (auto simp: cudp_close_def split: option.split)
  show "msg_ok M (new_udp d k s)" using ok node_at_frame [of "new_udp d k s" s]
    by (auto simp: msg_ok_def msgs_def ids_ok_def less_Suc_eq)
qed

section \<open>Functions\<close>

lemma msg_ok_waiting:
  assumes "msg_ok M s" and "waiting_msgs w + N = waiting_msgs (m_waitingSend s) + L" and "um_ok w" and "M + L = M' + N"
  shows "msg_ok M' (s\<lparr>m_waitingSend := w\<rparr>)"
proof -
  let ?r = "write_msgs (node_at s) (np_writes s) + over_msgs (np_log s)"
  have "waiting_msgs w + ?r + N = M' + N"
  proof -
    have M: "M = waiting_msgs (m_waitingSend s) + ?r" using assms(1) by (simp add: msg_ok_def msgs_def ac_simps)
    have "waiting_msgs w + ?r + N = (waiting_msgs w + N) + ?r" by (simp add: ac_simps)
    also have "\<dots> = M + L" unfolding assms(2) M by (simp add: ac_simps)
    finally show ?thesis unfolding assms(4) .
  qed
  then have "waiting_msgs w + ?r = M'" by simp
  then show ?thesis using assms(1,3) node_at_frame [of "s\<lparr>m_waitingSend := w\<rparr>" s]
    by (simp add: msg_ok_def msgs_def ids_ok_def ac_simps)
qed

lemma msg_ok_um: "msg_ok M s \<Longrightarrow> um_ok (m_waitingSend s)"
  by (simp add: msg_ok_def)

lemma msg_ok_dropWaiting: "msg_ok M s \<Longrightarrow> msg_ok M (dropWaiting n s)"
proof (cases "um_find n (m_waitingSend s)")
  case (Some bufs)
  assume ok: "msg_ok M s"
  let ?B = "mset (map (Pair n) bufs)"
  have w: "waiting_msgs (m_waitingSend s) = ?B + waiting_msgs (AList.delete n (m_waitingSend s))"
    using waiting_msgs_delete [OF msg_ok_um [OF ok] Some] .
  have "msg_ok M ((drop_and_free n bs s)\<lparr>m_waitingSend := AList.delete n (m_waitingSend s)\<rparr>)" if "bs = bufs" for bs
    by (rule msg_ok_waiting [OF msg_ok_drop_and_free [OF ok], where N = ?B and L = "{#}"])
      (use w msg_ok_um [OF ok] that in \<open>auto simp: ac_simps\<close>)
  then show ?thesis using Some by (simp add: dropWaiting_def um_erase_def)
qed (simp add: dropWaiting_def)

lemma msg_ok_pushWaiting:
  assumes ok: "msg_ok M s"
  shows "msg_ok (add_mset (n, b) M) (pushWaiting n b s)"
proof (cases "um_find n (m_waitingSend s)")
  case None
  have "msg_ok (add_mset (n, b) M) (s\<lparr>m_waitingSend := (n, [b]) # m_waitingSend s\<rparr>)"
    by (rule msg_ok_waiting [OF ok, where N = "{#}" and L = "{#(n, b)#}"]) (use None msg_ok_um [OF ok] in auto)
  then show ?thesis using None by (simp add: pushWaiting_def um_insert_new)
next
  case (Some bufs)
  have "msg_ok (add_mset (n, b) M) (s\<lparr>m_waitingSend := AList.update n (bufs @ [b]) (m_waitingSend s)\<rparr>)"
    by (rule msg_ok_waiting [OF ok, where N = "{#}" and L = "{#(n, b)#}"])
      (use waiting_msgs_update [OF msg_ok_um [OF ok] Some] msg_ok_um [OF ok] in auto)
  then show ?thesis using Some by (simp add: pushWaiting_def)
qed

lemma msg_ok_getWrite:
  assumes ok: "msg_ok M s" and run: "getWriteFromWaitingByNode n s = (r, s')"
  obtains N where "M = N + mset (map (Pair n) (case r of None \<Rightarrow> [] | Some bufs \<Rightarrow> bufs))" and "msg_ok N s'"
proof (cases rule: getWrite_cases [of n s])
  case none
  then show ?thesis using that [of M] ok run by simp
next
  case (no_memory k)
  then show ?thesis using that [of M] ok run msg_ok_dropWaiting [of M "s\<lparr>np_tick := k\<rparr>"] by simp
next
  case (ready k bufs)
  let ?B = "mset (map (Pair n) bufs)" and ?w = "AList.delete n (m_waitingSend s)"
  have w: "waiting_msgs (m_waitingSend s) = ?B + waiting_msgs ?w"
    using waiting_msgs_delete [OF msg_ok_um [OF ok] ready(1)] .
  have M: "M = (waiting_msgs ?w + write_msgs (node_at s) (np_writes s) + over_msgs (np_log s)) + ?B"
    using ok w by (simp add: msg_ok_def msgs_def ac_simps)
  have "msg_ok (waiting_msgs ?w + write_msgs (node_at s) (np_writes s) + over_msgs (np_log s)) (s\<lparr>m_waitingSend := ?w\<rparr>)"
    by (rule msg_ok_waiting [OF ok, where N = ?B and L = "{#}"]) (use w M msg_ok_um [OF ok] in \<open>auto simp: ac_simps\<close>)
  then have "msg_ok (waiting_msgs ?w + write_msgs (node_at s) (np_writes s) + over_msgs (np_log s))
      (mem_add 1 (s\<lparr>m_waitingSend := ?w, np_tick := k\<rparr>))" by simp
  then show ?thesis using that [OF _ ] M ready(2) run by auto
qed

lemma msg_ok_shutdown_and_close: "msg_ok M s \<Longrightarrow> msg_ok M (ctcp_shutdown_and_close t s)"
proof -
  assume ok: "msg_ok M s"
  have "msg_ok M ((mem_add 1 (s\<lparr>np_tick := i\<rparr>))\<lparr>np_tick := j, np_shutdowns := t # np_shutdowns s\<rparr>)" for i j
    using ok msg_ok_same [of "(mem_add 1 (s\<lparr>np_tick := i\<rparr>))\<lparr>np_tick := j, np_shutdowns := t # np_shutdowns s\<rparr>" s] by simp
  then show ?thesis using ok
    by (auto simp: ctcp_shutdown_and_close_def env_ret_def tcp_conn_def Let_def
        intro!: msg_ok_ctcp_close msg_ok_upd_tcp split: option.split)
qed

lemma msg_ok_shutdownTcp: "msg_ok M s \<Longrightarrow> msg_ok M (shutdownTcpConnection t b c s)"
  by (auto simp: shutdownTcpConnection_def um_erase_def Let_def
      intro!: msg_ok_shutdown_and_close msg_ok_ctcp_close msg_ok_dropWaiting split: option.split)

lemma msg_ok_timer_on: "msg_ok M s \<Longrightarrow> msg_ok M (upd_tcp t (\<lambda>c. c\<lparr>t_timer_active := v\<rparr>) s)"
  "msg_ok M s \<Longrightarrow> msg_ok M (upd_tcp t (\<lambda>c. c\<lparr>t_reading := v\<rparr>) s)"
  by (rule msg_ok_upd_tcp, assumption, simp add: tcp_conn_def)+

text \<open>A write carries messages for the node of its connection.\<close>

lemma msg_ok_add_write:
  assumes "msg_ok M s" and "np_tcps s t = Some c" and "tcp_conn c" and "t_node c = n"
  shows "msg_ok (M + mset (map (Pair n) bufs)) (s\<lparr>np_writes := np_writes s @ [(t, bufs)]\<rparr>)"
proof -
  let ?s' = "s\<lparr>np_writes := np_writes s @ [(t, bufs)]\<rparr>"
  have "node_at ?s' = node_at s" by (rule node_at_frame) simp
  moreover have "node_at s t = n" using assms by (simp add: node_at_def)
  ultimately have "msgs ?s' = msgs s + mset (map (Pair n) bufs)" by (simp add: msgs_def ac_simps)
  moreover have "ids_ok ?s'" using assms(1) by (simp add: msg_ok_def ids_ok_def)
  ultimately show ?thesis using assms by (auto simp: msg_ok_def)
qed

lemma msg_ok_write_or_shutdown:
  assumes ok: "msg_ok M s" and t: "np_tcps s t = Some c" "tcp_conn c" "t_node c = n"
  shows "msg_ok (M + mset (map (Pair n) bufs)) (write_or_shutdown t n bufs s)"
proof -
  let ?ms = "milliseconds (tcp_send_timeout_in_seconds (np_settings s))"
  have close: "msg_ok (M + mset (map (Pair n) bufs)) (shutdownTcpConnection t False False (dropWriteAndFree n bufs s'))"
    if "msg_ok M s'" for s'
    using msg_ok_drop_and_free [OF that, of n bufs] by (intro msg_ok_shutdownTcp) (simp add: dropWriteAndFree_def)
  show ?thesis
  proof (cases rule: uv_timer_start_cases [of t ?ms s])
    case (fail r j)
    then show ?thesis using close [of "s\<lparr>np_tick := j\<rparr>"] ok by (simp add: write_or_shutdown_def)
  next
    case (ok j)
    define s1 where "s1 = upd_tcp t (\<lambda>c. c\<lparr>t_timer_active := True\<rparr>) (s\<lparr>np_tick := j\<rparr>)"
    have s1: "msg_ok M s1" "np_tcps s1 t = Some (c\<lparr>t_timer_active := True\<rparr>)"
      using msg_ok_timer_on(1) [of M "s\<lparr>np_tick := j\<rparr>"] assms(1) t by (simp_all add: s1_def)
    have eq: "write_or_shutdown t n bufs s = (let (r, s) = uv_write t bufs s1
        in if r \<noteq> 0 then shutdownTcpConnection t False False (dropWriteAndFree n bufs s) else s)"
      using ok by (simp add: write_or_shutdown_def s1_def)
    show ?thesis
    proof (cases rule: uv_write_cases [of t bufs s1])
      case (fail r i)
      then show ?thesis using close [of "s1\<lparr>np_tick := i\<rparr>"] s1 by (simp add: eq)
    next
      case (ok i)
      have "msg_ok (M + mset (map (Pair n) bufs)) (s1\<lparr>np_writes := np_writes s1 @ [(t, bufs)]\<rparr>)"
        by (rule msg_ok_add_write [OF s1]) (use t in \<open>simp_all add: tcp_conn_def\<close>)
      then have "msg_ok (M + mset (map (Pair n) bufs)) (s1\<lparr>np_writes := np_writes s1 @ [(t, bufs)], np_tick := i\<rparr>)"
        by simp
      then show ?thesis using ok by (simp add: eq)
    qed
  qed
qed

lemma getWrite_tcps: "getWriteFromWaitingByNode n s = (r, s') \<Longrightarrow> np_tcps s' = np_tcps s"
  by (cases rule: getWrite_cases [of n s]) auto

lemma msg_ok_startup:
  assumes ok: "msg_ok M s" and t: "np_tcps s t = Some c" "tcp_conn c"
  shows "msg_ok M (startupTcpConnection t s)"
proof -
  have "msg_ok M (case getWriteFromWaitingByNode (t_node c) s' of (None, s) \<Rightarrow> s | (Some b, s) \<Rightarrow> write_or_shutdown t (t_node c) b s)"
    if "msg_ok M s'" and tcps: "np_tcps s' t = Some c" for s'
  proof (cases "getWriteFromWaitingByNode (t_node c) s'")
    case (Pair r s2)
    from msg_ok_getWrite [OF that(1) Pair]
    obtain N where N: "M = N + mset (map (Pair (t_node c)) (case r of None \<Rightarrow> [] | Some bufs \<Rightarrow> bufs))" "msg_ok N s2" .
    have "np_tcps s2 t = Some c" using getWrite_tcps [OF Pair] tcps by simp
    from msg_ok_write_or_shutdown [OF N(2) this t(2) refl] N show ?thesis using Pair by (cases r) simp_all
  qed
  then show ?thesis
    using ok t by (auto simp: startupTcpConnection_def um_insert_def Let_def intro!: msg_ok_ctcp_close split: option.split)
qed

lemma msg_ok_reset_idle: "msg_ok M s \<Longrightarrow> msg_ok M (reset_tcp_idle_timeout t s)"
  by (auto simp: reset_tcp_idle_timeout_def env_ret_def uv_timer_start_def Let_def
      intro!: msg_ok_shutdownTcp msg_ok_timer_on)

section \<open>Callbacks\<close>

lemma outcome_others [simp]:
  "outcome (Cb_connectionStatus n b) = []" "outcome (Cb_bindStatus n b) = []"
  by simp_all

lemma msg_ok_callbacks:
  assumes "msg_ok M s"
  shows "msg_ok M (tcp_alloc_buffer t s)" "msg_ok M (on_tcp_timeout t s)" "msg_ok M (on_tcp_read t nread data s)"
    "msg_ok M (on_shutdown_done t s)" "msg_ok M (udp_alloc_buffer u s)" "msg_ok M (on_udp_recv u nread data addr s)"
    "msg_ok M (on_udp_send_done ureq status s)" "msg_ok M (on_udp_closed u s)" "msg_ok M (on_async_closed s)"
  using assms
  by (auto simp: tcp_alloc_buffer_def on_tcp_timeout_def on_tcp_read_def on_shutdown_done_def on_async_closed_def
      udp_alloc_buffer_def on_udp_recv_def on_udp_send_done_def on_udp_closed_def Let_def
      intro!: msg_ok_shutdownTcp msg_ok_ctcp_close msg_ok_reset_idle msg_ok_udp split: option.split)

lemma msg_ok_write_done:
  assumes ok: "msg_ok M s" and req: "req \<in> set (np_writes s)"
  shows "msg_ok M (on_tcp_write_done req status s)"
proof -
  let ?t = "fst req" and ?s1 = "s\<lparr>np_writes := remove1 req (np_writes s)\<rparr>"
  obtain c where t: "np_tcps s ?t = Some c" using ok req by (auto simp: msg_ok_def)
  let ?B = "mset (map (Pair (t_node c)) (snd req))"
  let ?N = "waiting_msgs (m_waitingSend s) + write_msgs (node_at s) (remove1 req (np_writes s)) + over_msgs (np_log s)"
  have "node_at s ?t = t_node c" using t by (simp add: node_at_def)
  then have M: "M = ?N + ?B" using ok write_msgs_remove [OF req, of "node_at s"] by (simp add: msg_ok_def msgs_def ac_simps)
  have "node_at ?s1 = node_at s" by (rule node_at_frame) simp
  then have s1: "msg_ok ?N ?s1" using ok by (auto simp: msg_ok_def msgs_def ids_ok_def dest: notin_set_remove1)
  have "msg_ok M (emit_all (map (Cb_drop (t_node c)) (snd req)) ?s1)" "msg_ok M (emit_all (map (Write_completed (t_node c)) (snd req)) ?s1)"
    using msg_ok_emit_all [OF s1, of "map (Cb_drop (t_node c)) (snd req)"]
      msg_ok_emit_all [OF s1, of "map (Write_completed (t_node c)) (snd req)"] M by (simp_all add: over_drops)
  then show ?thesis using t by (simp add: on_tcp_write_done_def Let_def msg_ok_shutdownTcp msg_ok_reset_idle)
qed

lemma msg_ok_tcp_closed:
  assumes ok: "msg_ok M s" and none: "t \<notin> fst ` set (np_writes s)"
  shows "msg_ok M (on_tcp_closed t s)"
proof -
  let ?f = "\<lambda>c. c\<lparr>m_tcpInited := False\<rparr>"
  have upd: "msg_ok M (upd_tcp t ?f s)"
  proof (cases "np_tcps s t")
    case (Some c)
    then have "node_at (upd_tcp t ?f s) = node_at s" by (auto simp: node_at_def fun_eq_iff)
    then show ?thesis using ok Some none by (auto simp: msg_ok_def msgs_def ids_ok_def image_iff)
  qed (use ok in \<open>simp add: upd_tcp_def\<close>)
  from msg_ok_delete_tcp [OF this] none show ?thesis
    using ok upd by (simp add: on_tcp_closed_def Let_def split: option.split)
qed

lemma msg_ok_timer_closed:
  assumes ok: "msg_ok M s" and t: "np_tcps s t = Some c" "m_closing c"
  shows "msg_ok M (on_timer_closed t s)"
proof -
  let ?f = "\<lambda>c. c\<lparr>m_timerInited := False\<rparr>"
  have upd: "msg_ok M (upd_tcp t ?f s)"
    using ok by (rule msg_ok_upd_tcp) (use t in \<open>simp add: tcp_conn_def\<close>)
  have "\<not> m_tcpInited c \<Longrightarrow> t \<notin> fst ` set (np_writes s)" using ok t by (auto simp: msg_ok_def tcp_conn_def)
  with msg_ok_delete_tcp [OF upd] upd t show ?thesis by (simp add: on_timer_closed_def Let_def)
qed

lemma msg_ok_connect_done:
  assumes ok: "msg_ok M s" and core: "core {} {} s" and conn: "t \<in> set (np_connects s)"
  shows "msg_ok M (on_connect_done t status s)"
proof -
  obtain c where t: "np_tcps s t = Some c" "tcp_conn c" using core_connect [OF core conn] by auto
  let ?s1 = "mem_add (- 1) (s\<lparr>np_connects := remove1 t (np_connects s), m_connecting := removeAll t (m_connecting s)\<rparr>)"
  have s1: "msg_ok M ?s1" "np_tcps ?s1 = np_tcps s" using ok by simp_all
  have start: "msg_ok M (startupTcpConnection t (upd_tcp t (\<lambda>c. c\<lparr>t_reading := True\<rparr>)
      ((upd_tcp t (\<lambda>c. c\<lparr>t_timer_active := True\<rparr>) (?s1\<lparr>np_tick := i\<rparr>))\<lparr>np_tick := j\<rparr>)))" for i j
  proof (rule msg_ok_startup)
    let ?s2 = "upd_tcp t (\<lambda>c. c\<lparr>t_timer_active := True\<rparr>) (?s1\<lparr>np_tick := i\<rparr>)"
    have "msg_ok M ?s2" using s1 by (intro msg_ok_timer_on) simp
    then show "msg_ok M (upd_tcp t (\<lambda>c. c\<lparr>t_reading := True\<rparr>) (?s2\<lparr>np_tick := j\<rparr>))" by (intro msg_ok_timer_on) simp
    show "np_tcps (upd_tcp t (\<lambda>c. c\<lparr>t_reading := True\<rparr>) (?s2\<lparr>np_tick := j\<rparr>)) t
      = Some (c\<lparr>t_timer_active := True, t_reading := True\<rparr>)" using t by simp
    show "tcp_conn (c\<lparr>t_timer_active := True, t_reading := True\<rparr>)" using t by (simp add: tcp_conn_def)
  qed
  show ?thesis
    using t s1 start
    by (auto simp: on_connect_done_def env_ret_def uv_timer_start_def uv_read_start_def Let_def
        intro!: msg_ok_shutdownTcp msg_ok_timer_on)
qed

lemma msg_ok_new_connection:
  assumes ok: "msg_ok M s" and sv: "np_tcps s server = Some sv"
  shows "msg_ok M (on_new_connection server status peer len s)"
  using sv
proof (cases rule: new_connection_cases [where status = status and peer = peer and len = len])
  case (ok n k)
  let ?c = "(tcp_fresh True)\<lparr>t_node := n, t_timer_active := True, t_reading := True\<rparr>"
  have "msg_ok M (startupTcpConnection (np_next s) (new_tcp ?c k s))"
    using msg_ok_new_tcp [OF assms(1)] by (rule msg_ok_startup [where c = ?c]) (simp_all add: tcp_conn_def)
  then show ?thesis using ok by simp
qed (use assms in \<open>auto intro!: msg_ok_ctcp_close msg_ok_new_tcp\<close>)

section \<open>The wakeup\<close>

lemma msg_ok_results:
  assumes "msg_ok M s"
  shows "msg_ok M (snd (bindAndListenTcp n s))" "msg_ok M (snd (connectTcp n s))" "msg_ok M (snd (bindAndListenUdp n s))"
    "msg_ok M (snd (find_udp n us s))"
proof -
  show "msg_ok M (snd (bindAndListenTcp n s))"
    by (cases rule: bindAndListenTcp_cases [of n s]) (auto simp: assms msg_ok_ctcp_close msg_ok_new_tcp)
  show "msg_ok M (snd (connectTcp n s))"
    by (cases rule: connectTcp_cases [of n s]) (auto simp: assms msg_ok_ctcp_close msg_ok_new_tcp)
  show "msg_ok M (snd (bindAndListenUdp n s))"
    by (cases rule: bindAndListenUdp_cases [of n s]) (auto simp: assms intro!: msg_ok_udp)
  show "msg_ok M (snd (find_udp n us s))" using find_udp_cases [of n us s] assms by auto
qed

lemma msg_ok_bind: "msg_ok M s \<Longrightarrow> msg_ok M (wakeup_bind p s)"
proof -
  assume ok: "msg_ok M s"
  obtain n b where p: "p = (n, b)" by fastforce
  have "msg_ok M (wakeup_bind_tcp n b s)"
    using ok msg_ok_results(1) [OF ok, of n]
    by (auto simp: wakeup_bind_tcp_def Let_def intro!: msg_ok_ctcp_close split: option.split prod.split)
  moreover have "msg_ok M (wakeup_bind_udp n b s)"
  proof (cases "find_udp n (m_udpServers s) s")
    case (Pair r s1)
    then have s1: "msg_ok M s1" using msg_ok_results(4) [OF ok, of n "m_udpServers s"] by simp
    then show ?thesis using Pair msg_ok_results(3) [OF s1, of n]
      by (auto simp: wakeup_bind_udp_def env_ret_def Let_def intro!: msg_ok_udp split: option.split prod.split)
  qed
  ultimately show ?thesis by (simp add: p split: protocol_type.split)
qed

definition is_tcp :: "network_node \<times> bytes \<Rightarrow> bool" where
  "is_tcp p \<longleftrightarrow> m_protocol (fst p) = Protocol_tcp"

lemma msg_ok_send:
  assumes ok: "msg_ok M s" and core: "core {} {} s"
  shows "msg_ok (M + filter_mset is_tcp (pending_msgs [req])) (wakeup_send req s)"
proof -
  let ?n = "ps_node req" and ?d = "ps_data req"
  have "msg_ok (add_mset (?n, ?d) M) (wakeup_send_tcp req s)"
  proof (cases "um_find ?n (m_node2stream s)")
    case None
    have push: "msg_ok (add_mset (?n, ?d) M) (pushWaiting ?n ?d s)" using ok by (rule msg_ok_pushWaiting)
    then have "msg_ok (add_mset (?n, ?d) M) (case connectTcp ?n (pushWaiting ?n ?d s) of
      (None, s) \<Rightarrow> dropWaiting ?n (emit (Cb_connectionStatus ?n False) s)
    | (Some t, s) \<Rightarrow> s\<lparr>m_connecting := List.insert t (m_connecting s)\<rparr>)"
      using msg_ok_results(2) [OF push, of ?n] by (auto intro!: msg_ok_dropWaiting split: prod.split option.split)
    moreover have "msg_ok (add_mset (?n, ?d) M) (drop_and_free ?n [?d] s)"
      using msg_ok_drop_and_free [OF ok, of ?n "[?d]"] by simp
    ultimately show ?thesis using None push
      by (simp del: drop_and_free.simps add: wakeup_send_tcp_def getStreamByNode_def Let_def)
  next
    case (Some t)
    obtain c where c: "np_tcps s t = Some c" "t_node c = ?n" "tcp_open c" using core_stream [OF core Some] by auto
    have "msg_ok (add_mset (?n, ?d) M) (write_or_shutdown t ?n [?d] (mem_add 1 (s\<lparr>np_tick := i\<rparr>)))" for i
      using msg_ok_write_or_shutdown [of M "mem_add 1 (s\<lparr>np_tick := i\<rparr>)" t c ?n "[?d]"] ok c
      by (simp add: tcp_open_def tcp_conn_def)
    moreover have "msg_ok (add_mset (?n, ?d) M) (drop_and_free ?n [?d] (s\<lparr>np_tick := i\<rparr>))" for i
      using msg_ok_drop_and_free [of M "s\<lparr>np_tick := i\<rparr>" ?n "[?d]"] ok by simp
    ultimately show ?thesis using Some
      by (simp del: drop_and_free.simps add: wakeup_send_tcp_def getStreamByNode_def env_ret_def Let_def)
  qed
  moreover have "msg_ok M (wakeup_send_udp req s)"
  proof -
    have "msg_ok M (mem_add 1 (s\<lparr>np_tick := i\<rparr>)\<lparr>m_udpIndex := j, np_tick := l, np_udp_sends := us\<rparr>)" for i j l us
      using ok msg_ok_same [of "mem_add 1 (s\<lparr>np_tick := i\<rparr>)\<lparr>m_udpIndex := j, np_tick := l, np_udp_sends := us\<rparr>" s] by simp
    then show ?thesis using ok by (auto simp: wakeup_send_udp_def env_ret_def Let_def split: option.split)
  qed
  ultimately show ?thesis
    by (cases "m_protocol ?n") (simp_all add: wakeup_send_def pending_msgs_def is_tcp_def)
qed

lemma msg_ok_close: "msg_ok M s \<Longrightarrow> msg_ok M (wakeup_close p s)"
proof -
  assume ok: "msg_ok M s"
  obtain n f where p: "p = (n, f)" by fastforce
  show ?thesis
    using ok by (auto simp: p getStreamByNode_def uv_timer_start_def env_ret_def Let_def
        intro!: msg_ok_shutdownTcp msg_ok_timer_on split: option.split)
qed

section \<open>Leaving\<close>

lemma msg_ok_close_lists:
  assumes "msg_ok M s"
  shows "msg_ok M (close_tcp_servers l s)" "msg_ok M (close_udp_servers us s)" "msg_ok M (close_connections us s)"
proof -
  show "msg_ok M (close_tcp_servers l s)" using assms
    by (induction l s rule: close_tcp_servers.induct) (simp_all add: msg_ok_ctcp_close)
  show "msg_ok M (close_udp_servers us s)" using assms
    by (induction us s rule: close_udp_servers.induct) (simp_all add: msg_ok_udp env_ret_def Let_def split: option.split)
  show "msg_ok M (close_connections us s)" using assms
    by (induction us s rule: close_connections.induct) (simp_all add: msg_ok_ctcp_close split: option.split)
qed

lemma msg_ok_drop_all_waiting: "msg_ok M s \<Longrightarrow> msg_ok (M + waiting_msgs w) (drop_all_waiting w s)"
proof (induction w s arbitrary: M rule: drop_all_waiting.induct)
  case (2 n bufs w s)
  then show ?case using 2(1) [OF msg_ok_drop_and_free [OF 2(2), of n bufs]] by (simp add: ac_simps)
qed simp

lemma msg_ok_exit_waiting: "msg_ok M s \<Longrightarrow> msg_ok M (exit_waiting s)"
  unfolding exit_waiting_def
  by (rule msg_ok_waiting [OF msg_ok_drop_all_waiting, where N = "waiting_msgs (m_waitingSend s)" and L = "{#}"]) simp_all

lemma msg_ok_drop_all_sends: "msg_ok M s \<Longrightarrow> msg_ok (M + pending_msgs reqs) (drop_all_sends reqs s)"
proof (induction reqs arbitrary: M s)
  case (Cons r reqs)
  then show ?case using Cons.IH [OF msg_ok_drop_and_free [OF Cons.prems, of "ps_node r" "[ps_data r]"]]
    by (simp add: pending_msgs_def)
qed (simp add: pending_msgs_def)

lemma msg_ok_exit: "msg_ok M s \<Longrightarrow> msg_ok (M + pending_msgs sc) (wakeup_exit bc sc s)"
proof -
  assume ok: "msg_ok M s"
  have "msg_ok M (casync_close s)" using ok by (auto simp: casync_close_def split: option.split)
  moreover have "over_msgs (map (\<lambda>(node, bBind). Cb_bindStatus node False) bc) = {#}" by (induction bc) auto
  then have binds: "msg_ok M (emit_all (map (\<lambda>(node, bBind). Cb_bindStatus node False) bc) s)" if "msg_ok M s" for s
    using msg_ok_emit_all [OF that, of "map (\<lambda>(node, bBind). Cb_bindStatus node False) bc"] by simp
  ultimately show ?thesis
    by (auto simp: wakeup_exit_steps exit_tcp_def exit_udp_def exit_streams_def exit_connecting_def
        intro!: msg_ok_drop_all_sends binds msg_ok_exit_waiting msg_ok_close_lists)
qed

section \<open>Every step\<close>

lemma msg_ok_sends:
  assumes "msg_ok M s" and "np_ok s"
  shows "msg_ok (M + filter_mset is_tcp (pending_msgs reqs)) (fold wakeup_send reqs s)"
  using assms
proof (induction reqs arbitrary: M s)
  case (Cons r reqs)
  have "msg_ok (M + filter_mset is_tcp (pending_msgs [r])) (wakeup_send r s)"
    using Cons.prems np_ok_core by (blast intro: msg_ok_send)
  note IH = Cons.IH [OF this np_ok_wakeup_send [OF Cons.prems(2)]]
  have "pending_msgs (r # reqs) = pending_msgs [r] + pending_msgs reqs" by (simp add: pending_msgs_def)
  with IH show ?case by (simp add: add.assoc)
qed (simp add: pending_msgs_def)

lemma np_ok_msg_fold:
  assumes "\<And>x s. np_ok s \<Longrightarrow> msg_ok M s \<Longrightarrow> np_ok (f x s) \<and> msg_ok M (f x s)" and "np_ok s" and "msg_ok M s"
  shows "np_ok (fold f xs s) \<and> msg_ok M (fold f xs s)"
  using assms(2,3) by (induction xs arbitrary: s) (simp_all add: assms(1))

text \<open>What the pool has taken over agrees, as to TCP, with what has been sent and is no longer pending.\<close>

definition conserved :: "(network_node \<times> bytes) multiset \<Rightarrow> np_pool \<Rightarrow> bool" where
  "conserved H s \<longleftrightarrow> (\<exists>M. msg_ok M s \<and> filter_mset is_tcp H = filter_mset is_tcp (pending_msgs (m_pendingSend s) + M))"

lemma conserved_same:
  "conserved H s \<Longrightarrow> m_pendingSend s' = m_pendingSend s \<Longrightarrow> (\<And>M. msg_ok M s \<Longrightarrow> msg_ok M s') \<Longrightarrow> conserved H s'"
  by (auto simp: conserved_def)

lemma pending_wakeup:
  assumes "np_ok s" and "pool_alive s"
  shows "m_pendingSend (on_wakeup s) = []"
proof (cases "m_bWantExit s")
  case True
  let ?s1 = "s\<lparr>m_pendingBind := [], m_pendingSend := [], m_pendingClose := []\<rparr>"
  have s1: "core {} {} ?s1" "pool_alive ?s1" using np_ok_core [OF assms(1)] assms(2) by (simp_all add: pool_alive_def)
  have "\<not> pool_alive (on_wakeup s)"
    using True assms(2) by (auto simp: on_wakeup_def wakeup_exit_steps exit_waiting_def exit_connecting_def exit_streams_def
        exit_udp_def exit_tcp_def casync_close_def pool_alive_def split: option.splits)
  moreover have "exit_ok (on_wakeup s)" using True exit_ok_exit [OF s1] by (simp add: on_wakeup_def)
  ultimately show ?thesis by (simp add: exit_ok_def)
next
  case False
  have bind: "m_pendingSend (wakeup_bind p s) = m_pendingSend s" for p s
  proof -
    obtain n b where p: "p = (n, b)" by fastforce
    have close: "m_pendingSend (cudp_close v (s :: np_pool)) = m_pendingSend s" for v s
      by (simp add: cudp_close_def undefined_behaviour_def split: option.split)
    have "m_pendingSend (wakeup_bind_tcp n b s) = m_pendingSend s"
      by (cases rule: bindAndListenTcp_cases [of n s]) (auto simp: wakeup_bind_tcp_def Let_def split: option.split)
    moreover have "m_pendingSend (wakeup_bind_udp n b s) = m_pendingSend s"
    proof (cases "find_udp n (m_udpServers s) s")
      case (Pair r s1)
      then have "m_pendingSend s1 = m_pendingSend s" using find_udp_cases [of n "m_udpServers s" s] by (auto simp: undefined_behaviour_def)
      then show ?thesis using Pair
        by (cases rule: bindAndListenUdp_cases [of n s1]) (auto simp: wakeup_bind_udp_def env_ret_def close Let_def split: option.split)
    qed
    ultimately show ?thesis by (simp add: p split: protocol_type.split)
  qed
  have send: "m_pendingSend (wakeup_send req s) = m_pendingSend s" for req s
  proof -
    have "m_pendingSend (snd (connectTcp n s)) = m_pendingSend s" for n s
      using quiet_connectTcp [of False s s n] by (simp add: quiet_def tables_def)
    then have connect: "m_pendingSend (case connectTcp n s of (None, s) \<Rightarrow> dropWaiting n (emit (Cb_connectionStatus n False) s)
        | (Some t, s) \<Rightarrow> s\<lparr>m_connecting := List.insert t (m_connecting s)\<rparr>) = m_pendingSend s" for n s
      by (cases "connectTcp n s") (auto split: option.split, metis snd_conv, metis snd_conv)
    have written: "m_pendingSend (write_or_shutdown t n l s) = m_pendingSend s" for t n l s
      using quiet_write_or_shutdown [OF quiet_refl [of False s]] by (simp add: quiet_def tables_def)
    have "m_pendingSend (wakeup_send_tcp req s) = m_pendingSend s"
      by (cases "um_find (ps_node req) (m_node2stream s)")
        (simp_all add: wakeup_send_tcp_def getStreamByNode_def env_ret_def connect written Let_def)
    moreover have "m_pendingSend (wakeup_send_udp req s) = m_pendingSend s"
      by (simp add: wakeup_send_udp_def env_ret_def undefined_behaviour_def Let_def split: option.split)
    ultimately show ?thesis by (simp add: wakeup_send_def split: protocol_type.split)
  qed
  have close: "m_pendingSend (wakeup_close p s) = m_pendingSend s" for p s
    using quiet_wakeup_close [of False s s p] by (simp add: quiet_def tables_def)
  have fold: "(\<And>x s. m_pendingSend (f x s) = m_pendingSend (s :: np_pool)) \<Longrightarrow> m_pendingSend (fold f xs s) = m_pendingSend s" for f :: "'x \<Rightarrow> np_pool \<Rightarrow> np_pool" and xs s
    by (induction xs arbitrary: s) simp_all
  show ?thesis using False by (simp add: on_wakeup_def fold bind send close)
qed

lemma conserved_wakeup:
  assumes cons: "conserved H s" and ok: "np_ok s" and alive: "pool_alive s"
  shows "conserved H (on_wakeup s)"
proof -
  let ?s1 = "s\<lparr>m_pendingBind := [], m_pendingSend := [], m_pendingClose := []\<rparr>"
  obtain M where M: "msg_ok M s" "filter_mset is_tcp H = filter_mset is_tcp (pending_msgs (m_pendingSend s) + M)"
    using cons by (auto simp: conserved_def)
  have s1: "np_ok ?s1" "msg_ok M ?s1" using ok M(1) by (simp_all add: np_ok_def)
  have none: "m_pendingSend (on_wakeup s) = []" using ok alive by (rule pending_wakeup)
  have "\<exists>M'. msg_ok M' (on_wakeup s) \<and> filter_mset is_tcp M' = filter_mset is_tcp (pending_msgs (m_pendingSend s) + M)"
  proof (cases "m_bWantExit s")
    case True
    then have "msg_ok (M + pending_msgs (m_pendingSend s)) (on_wakeup s)"
      using msg_ok_exit [OF s1(2)] by (simp add: on_wakeup_def)
    then show ?thesis by (metis add.commute)
  next
    case False
    let ?s2 = "fold wakeup_bind (m_pendingBind s) ?s1"
    let ?M = "M + filter_mset is_tcp (pending_msgs (m_pendingSend s))"
    have s2: "np_ok ?s2 \<and> msg_ok M ?s2"
      using s1 by (intro np_ok_msg_fold) (simp_all add: np_ok_wakeup_bind msg_ok_bind)
    have s3: "np_ok (fold wakeup_send (m_pendingSend s) ?s2)" "msg_ok ?M (fold wakeup_send (m_pendingSend s) ?s2)"
      using s2 msg_ok_sends by (simp_all add: np_ok_fold np_ok_wakeup_send)
    have "msg_ok ?M (fold wakeup_close (m_pendingClose s) (fold wakeup_send (m_pendingSend s) ?s2))"
      using np_ok_msg_fold [OF _ s3, of wakeup_close] by (simp add: np_ok_wakeup_close msg_ok_close)
    then show ?thesis using False by (intro exI [of _ ?M]) (simp add: on_wakeup_def filter_filter_mset add.commute)
  qed
  then show ?thesis using M(2) none by (auto simp: conserved_def pending_msgs_def)
qed

lemma conserved_step:
  assumes step: "np_step s s'" and cons: "conserved (pending_msgs h) s" and ok: "np_ok s"
  shows "conserved (pending_msgs (h @ drop (length (m_pendingSend s)) (m_pendingSend s'))) s'"
proof -
  have core: "core {} {} s" using ok by (rule np_ok_core)
  have by_quiet: ?thesis if "quiet False s s'" "\<And>M. msg_ok M s \<Longrightarrow> msg_ok M s'"
  proof -
    have "m_pendingSend s' = m_pendingSend s" using that(1) by (simp add: quiet_def tables_def)
    then show ?thesis using conserved_same [OF cons _ that(2)] by simp
  qed
  from step show ?thesis
  proof cases
    case wakeup
    then show ?thesis using conserved_wakeup [OF cons ok] pending_wakeup [OF ok] by simp
  next
    case (send node data b)
    from send have "\<exists>reqs. m_pendingSend s' = m_pendingSend s @ reqs \<and> np_tcps s' = np_tcps s \<and> np_udps s' = np_udps s
        \<and> np_writes s' = np_writes s \<and> m_waitingSend s' = m_waitingSend s \<and> np_log s' = np_log s \<and> np_next s' = np_next s"
      by (auto simp: pool_send_def env_ret_def Let_def split: option.split)
    then obtain reqs where s': "m_pendingSend s' = m_pendingSend s @ reqs" "\<And>M. msg_ok M s' = msg_ok M s"
      using msg_ok_same [of s' s] by auto
    then show ?thesis using cons by (auto simp: conserved_def pending_msgs_def)
  next
    case (timeout t c)
    have "msg_ok M (upd_tcp t (\<lambda>c. c\<lparr>t_timer_active := False\<rparr>) s)" if "msg_ok M s" for M using that by (rule msg_ok_timer_on)
    then show ?thesis using timeout by (intro by_quiet) (simp_all add: quiet_callbacks msg_ok_callbacks)
  next
    case (new_connection t c status peer len)
    then show ?thesis using by_quiet quiet_new_connection [OF quiet_refl] msg_ok_new_connection by blast
  next
    case (timer_closed t c)
    then show ?thesis using by_quiet quiet_timer_closed [OF quiet_refl] msg_ok_timer_closed by blast
  next
    case (connect_done t status)
    then show ?thesis using by_quiet quiet_connect_done [OF quiet_refl] msg_ok_connect_done [OF _ core] by blast
  next
    case (tcp_closed t c)
    then show ?thesis using by_quiet quiet_callbacks(9) [OF quiet_refl] msg_ok_tcp_closed by blast
  next
    case (write_done req status)
    then show ?thesis using by_quiet quiet_callbacks(4) [OF quiet_refl] msg_ok_write_done by blast
  next
    case (async_closed a)
    have "m_pendingSend s' = m_pendingSend s" using async_closed by (simp add: on_async_closed_def)
    then show ?thesis using conserved_same [OF cons] async_closed by (simp add: msg_ok_callbacks)
  next
    case (bind node b)
    have "m_pendingSend s' = m_pendingSend s" "msg_ok M s' = msg_ok M s" for M
      using bind by (simp_all add: pool_bind_def)
    then show ?thesis using conserved_same [OF cons] by simp
  next
    case (close node b)
    have "m_pendingSend s' = m_pendingSend s" "msg_ok M s' = msg_ok M s" for M
      using close by (simp_all add: pool_close_def)
    then show ?thesis using conserved_same [OF cons] by simp
  next
    case destroy
    have "m_pendingSend s' = m_pendingSend s" "msg_ok M s' = msg_ok M s" for M
      using destroy by (simp_all add: pool_destroy_def)
    then show ?thesis using conserved_same [OF cons] by simp
  qed (intro by_quiet; simp add: quiet_callbacks msg_ok_callbacks)+
qed

text \<open>
  A run with the history of what has been sent: a step adds what it appends to \<open>m_pendingSend\<close>.
\<close>

inductive np_run :: "network_settings \<Rightarrow> (nat \<Rightarrow> env_call \<Rightarrow> int) \<Rightarrow> pending_send list \<Rightarrow> np_pool \<Rightarrow> bool"
  for settings env
where
  run_start: "pool_construct settings env = (True, s) \<Longrightarrow> np_run settings env [] s"
| run_step: "np_run settings env h s \<Longrightarrow> np_step s s' \<Longrightarrow>
    np_run settings env (h @ drop (length (m_pendingSend s)) (m_pendingSend s')) s'"

lemma np_run_reach: "np_run settings env h s \<Longrightarrow> np_reach settings env s"
  by (induction rule: np_run.induct) (blast intro: np_reach.intros)+

lemma np_reach_run: "np_reach settings env s \<Longrightarrow> \<exists>h. np_run settings env h s"
  by (induction rule: np_reach.induct) (blast intro: np_run.intros)+

lemma np_run_conserved:
  assumes "np_run settings env h s" and "connect_law env"
  shows "conserved (pending_msgs h) s"
  using assms(1)
proof (induction rule: np_run.induct)
  case (run_start s)
  then have "msg_ok {#} s" "m_pendingSend s = []"
    by (auto simp: pool_construct_def internal_thread_start_def casync_alloc_def env_ret_def pool_fresh_def mem_add_def
        msg_ok_def ids_ok_def msgs_def Let_def split: if_splits)
  then show ?case by (auto simp: conserved_def pending_msgs_def)
next
  case (run_step h s s')
  then show ?case using conserved_step np_reach_ok [OF np_run_reach assms(2)] by blast
qed

text \<open>
  C5: No message is lost, duplicated or sent to the wrong node. At any moment, the messages that
  have been sent to TCP nodes are, each as often as it was sent and with its node, those that are
  still pending, those that wait for a connection, those in writes under way on connections to
  their node, those whose write has been completed, and those the user was told are dropped. Once
  the loop of the internal thread has ended, every message has been either written or dropped.
\<close>

theorem messages_conserved:
  assumes "np_run settings env h s" and "connect_law env"
  shows "filter_mset is_tcp (pending_msgs h) = filter_mset is_tcp (pending_msgs (m_pendingSend s)
      + waiting_msgs (m_waitingSend s) + write_msgs (node_at s) (np_writes s) + over_msgs (np_log s))
    \<and> (loop_idle s \<longrightarrow> filter_mset is_tcp (pending_msgs h) = filter_mset is_tcp (over_msgs (np_log s)))"
proof -
  obtain M where M: "msg_ok M s" "filter_mset is_tcp (pending_msgs h) = filter_mset is_tcp (pending_msgs (m_pendingSend s) + M)"
    using np_run_conserved [OF assms] by (auto simp: conserved_def)
  have eq: "M = waiting_msgs (m_waitingSend s) + write_msgs (node_at s) (np_writes s) + over_msgs (np_log s)"
    using M(1) by (simp add: msg_ok_def msgs_def)
  have "m_waitingSend s = [] \<and> m_pendingSend s = [] \<and> np_writes s = []" if "loop_idle s"
  proof -
    have "\<not> pool_alive s" using that by (simp add: loop_idle_def pool_alive_def)
    from left_facts(2,3) [OF np_run_reach [OF assms(1)] assms(2) this] that show ?thesis by (simp add: loop_idle_def)
  qed
  then show ?thesis using M(2) unfolding eq by (auto simp: pending_msgs_def ac_simps)
qed

definition demo_request :: pending_send where
  "demo_request = \<lparr>ps_node = demo_node, ps_data = [1], ps_bAutoConnect = True\<rparr>"

lemma demo_run: "np_run preferred_network_settings demo_env [demo_request] demo_connected"
proof -
  have "fst (pool_construct preferred_network_settings demo_env)" by code_simp
  then have 1: "np_run preferred_network_settings demo_env [] demo_start"
    by (intro np_run.run_start) (simp add: demo_start_def prod_eq_iff)
  have alive: "pool_alive demo_start" "pool_alive demo_sent" by code_simp+
  have pending: "m_pendingSend demo_start = []" "m_pendingSend demo_sent = [demo_request]" "m_pendingSend demo_connecting = []"
    "m_pendingSend demo_connected = []" by code_simp+
  have "np_step demo_start demo_sent" unfolding demo_sent_def by (rule np_step.send [OF alive(1)])
  from np_run.run_step [OF 1 this] have 2: "np_run preferred_network_settings demo_env [demo_request] demo_sent"
    by (simp add: pending)
  have "np_step demo_sent demo_connecting" unfolding demo_connecting_def by (rule np_step.wakeup [OF alive(2)])
  from np_run.run_step [OF 2 this] have 3: "np_run preferred_network_settings demo_env [demo_request] demo_connecting"
    by (simp add: pending)
  have "0 \<in> set (np_connects demo_connecting)" by code_simp
  then have "np_step demo_connecting demo_connected" unfolding demo_connected_def by (rule np_step.connect_done)
  from np_run.run_step [OF 3 this] show ?thesis by (simp add: pending)
qed

theorem messages_conserved_witness:
  "write_msgs (node_at demo_connected) (np_writes demo_connected) = {#(demo_node, [1])#}"
proof -
  have "m_pendingSend demo_connected = []" "m_waitingSend demo_connected = []"
    "np_log demo_connected = [Cb_connectionStatus demo_node True]" "np_writes demo_connected = [(0, [[1]])]" by code_simp+
  moreover have "is_tcp (demo_node, [1])" by code_simp
  ultimately show ?thesis using messages_conserved [OF demo_run connect_law_demo]
    by (simp add: pending_msgs_def demo_request_def split: if_splits)
qed

end
