(* ===== verification/Pool_Types.thy ===== *)
theory Pool_Types
  imports Pool_Exit
begin

text \<open>
  The tables of \<open>CnetworkPool\<close> are well-typed: what kind of node is a key of which table, and
  what kind of object it refers to. The invariant \<open>core\<close> has the objects; \<open>typed\<close> adds that
  connection objects carry TCP nodes, whatever address libuv reports for a new connection.
\<close>

section \<open>Connections carry TCP nodes\<close>

text \<open>Of the objects that are not being closed.\<close>

definition typed :: "np_pool \<Rightarrow> bool" where
  "typed s \<longleftrightarrow> (\<forall>t c. np_tcps s t = Some c \<longrightarrow> \<not> m_closing c \<longrightarrow> m_protocol (t_node c) = Protocol_tcp)"

lemma typed_same [simp]:
  "typed (emit e s) = typed s" "typed (emit_all es s) = typed s" "typed (mem_add i s) = typed s"
  "typed (drop_and_free n bs s) = typed s" "typed (dropWaiting n s) = typed s" "typed (pushWaiting n b s) = typed s"
  "typed (undefined_behaviour s) = typed s" "typed (upd_udp u g s) = typed s" "typed (delete_udp u s) = typed s"
  "typed (cudp_close u s) = typed s" "typed (new_udp d k s) = typed s"
  by (simp_all add: typed_def undefined_behaviour_def)

lemma typed_fields [simp]:
  "typed (s\<lparr>np_tick := tick\<rparr>) = typed s" "typed (s\<lparr>m_udpIndex := i\<rparr>) = typed s"
  "typed (s\<lparr>m_tcpServers := ts\<rparr>) = typed s" "typed (s\<lparr>m_udpServers := us\<rparr>) = typed s"
  "typed (s\<lparr>m_connecting := cs\<rparr>) = typed s" "typed (s\<lparr>m_bWantExit := w\<rparr>) = typed s"
  "typed (s\<lparr>m_pendingBind := pb\<rparr>) = typed s" "typed (s\<lparr>m_pendingSend := pq\<rparr>) = typed s"
  "typed (s\<lparr>m_pendingClose := pc\<rparr>) = typed s" "typed (s\<lparr>m_waitingSend := ws\<rparr>) = typed s"
  "typed (s\<lparr>m_node2stream := ns\<rparr>) = typed s" "typed (s\<lparr>np_writes := wr\<rparr>) = typed s"
  "typed (s\<lparr>np_connects := co\<rparr>) = typed s" "typed (s\<lparr>np_shutdowns := sh\<rparr>) = typed s"
  "typed (s\<lparr>np_udp_sends := ud\<rparr>) = typed s" "typed (s\<lparr>np_async := a\<rparr>) = typed s"
  by (simp_all add: typed_def)

lemma typed_upd_tcp [intro!]:
  "typed s \<Longrightarrow> (\<And>c. t_node (f c) = t_node c \<and> (m_closing c \<longrightarrow> m_closing (f c))) \<Longrightarrow> typed (upd_tcp t f s)"
  by (cases "np_tcps s t") (auto simp: typed_def upd_tcp_def undefined_behaviour_def)

lemma typed_delete_tcp [intro!]: "typed s \<Longrightarrow> typed (delete_tcp t s)"
  by (auto simp: typed_def delete_tcp_def)

lemma typed_ctcp_close [intro!]: "typed s \<Longrightarrow> typed (ctcp_close t s)"
  by (auto simp: ctcp_close_def split: option.split)

lemma typed_new_tcp: "typed s \<Longrightarrow> m_protocol (t_node c) = Protocol_tcp \<Longrightarrow> typed (new_tcp c k s)"
  by (auto simp: typed_def)

lemma typed_new_closed [intro!]:
  assumes "typed s"
  shows "typed (ctcp_close (np_next s) (new_tcp c k s))"
proof -
  let ?s1 = "new_tcp c k s"
  have "m_closing c'" if "np_tcps (ctcp_close (np_next s) ?s1) (np_next s) = Some c'" for c'
    using that by (auto simp: ctcp_close_def delete_tcp_def split: if_splits)
  then show ?thesis using assms ctcp_close_other [of _ "np_next s" ?s1] unfolding typed_def
    by (metis fun_upd_apply new_tcp_next(1))
qed

section \<open>Functions and callbacks\<close>

lemma typed_shutdown_and_close [intro!]: "typed s \<Longrightarrow> typed (ctcp_shutdown_and_close t s)"
proof -
  assume ok: "typed s"
  have "typed ((mem_add 1 (s\<lparr>np_tick := i\<rparr>))\<lparr>np_tick := j, np_shutdowns := t # np_shutdowns s\<rparr>)" for i j
    using ok by (simp add: typed_def)
  then show ?thesis using ok by (auto simp: ctcp_shutdown_and_close_def env_ret_def Let_def split: option.split)
qed

lemma typed_shutdownTcp [intro!]: "typed s \<Longrightarrow> typed (shutdownTcpConnection t b c s)"
  by (auto simp: shutdownTcpConnection_def um_erase_def Let_def split: option.split)

lemma typed_write_or_shutdown [intro!]:
  assumes "typed s"
  shows "typed (write_or_shutdown t n bufs s)"
proof -
  have "typed ((upd_tcp t f s1)\<lparr>np_writes := ws, np_tick := i\<rparr>) = typed (upd_tcp t f s1)" for f s1 ws i
    by (simp add: typed_def)
  then show ?thesis using assms
    by (auto simp: write_or_shutdown_def uv_timer_start_def uv_write_def env_ret_def dropWriteAndFree_def Let_def)
qed

lemma typed_startup [intro!]:
  assumes "typed s"
  shows "typed (startupTcpConnection t s)"
proof -
  have "typed (case getWriteFromWaitingByNode n s' of (None, s) \<Rightarrow> s | (Some b, s) \<Rightarrow> write_or_shutdown t n b s)"
    if "typed s'" for n s'
    using that by (cases rule: getWrite_cases [of n s']) auto
  then show ?thesis
    using assms by (auto simp: startupTcpConnection_def um_insert_def Let_def split: option.split)
qed

lemma typed_reset_idle [intro!]: "typed s \<Longrightarrow> typed (reset_tcp_idle_timeout t s)"
  by (auto simp: reset_tcp_idle_timeout_def env_ret_def uv_timer_start_def Let_def)

lemma typed_callbacks:
  assumes "typed s"
  shows "typed (tcp_alloc_buffer t s)" "typed (on_tcp_timeout t s)" "typed (on_tcp_read t nread data s)"
    "typed (on_tcp_write_done req status s)" "typed (on_shutdown_done t s)" "typed (on_connect_done t status s)"
    "typed (udp_alloc_buffer u s)" "typed (on_udp_recv u nread data addr s)" "typed (on_async_closed s)"
    "typed (on_udp_send_done ureq status s)" "typed (on_tcp_closed t s)" "typed (on_timer_closed t s)" "typed (on_udp_closed u s)"
  using assms
  by (auto simp: tcp_alloc_buffer_def on_tcp_timeout_def on_tcp_read_def on_tcp_write_done_def on_shutdown_done_def
      on_connect_done_def uv_timer_start_def uv_read_start_def env_ret_def on_timer_closed_def on_async_closed_def
      udp_alloc_buffer_def on_udp_recv_def on_udp_send_done_def on_tcp_closed_def on_udp_closed_def Let_def
      split: option.split)

lemma typed_new_connection:
  assumes "typed s" and "np_tcps s server = Some sv"
  shows "typed (on_new_connection server status peer len s)"
  using assms(2)
proof (cases rule: new_connection_cases [where status = status and peer = peer and len = len])
  case (ok n k)
  then show ?thesis using assms(1) by (auto intro!: typed_startup typed_new_tcp)
qed (use assms in auto)

section \<open>The wakeup\<close>

lemma typed_results:
  assumes "typed s"
  shows "typed (snd (bindAndListenTcp n s))" "typed (snd (connectTcp n s))" "typed (snd (bindAndListenUdp n s))"
    "typed (snd (find_udp n us s))"
proof -
  show "typed (snd (bindAndListenTcp n s))"
    by (cases rule: bindAndListenTcp_cases [of n s]) (auto simp: assms typed_new_tcp)
  show "typed (snd (connectTcp n s))"
    by (cases rule: connectTcp_cases [of n s]) (auto simp: assms typed_new_tcp)
  show "typed (snd (bindAndListenUdp n s))"
    by (cases rule: bindAndListenUdp_cases [of n s]) (auto simp: assms)
  show "typed (snd (find_udp n us s))" using find_udp_cases [of n us s] assms by auto
qed

lemma typed_bind [intro!]:
  assumes ok: "typed s"
  shows "typed (wakeup_bind p s)"
proof -
  obtain n b where p: "p = (n, b)" by fastforce
  have "typed (wakeup_bind_tcp n b s)"
    using ok typed_results(1) [OF ok, of n] by (auto simp: wakeup_bind_tcp_def Let_def split: option.split prod.split)
  moreover have "typed (wakeup_bind_udp n b s)"
  proof (cases "find_udp n (m_udpServers s) s")
    case (Pair r s1)
    then have s1: "typed s1" using typed_results(4) [OF ok, of n "m_udpServers s"] by simp
    then show ?thesis using Pair typed_results(3) [OF s1, of n]
      by (auto simp: wakeup_bind_udp_def env_ret_def Let_def split: option.split prod.split)
  qed
  ultimately show ?thesis by (simp add: p split: protocol_type.split)
qed

lemma typed_send [intro!]:
  assumes ok: "typed s"
  shows "typed (wakeup_send req s)"
proof -
  have "typed (case connectTcp n (pushWaiting n d s) of (None, s) \<Rightarrow> dropWaiting n (emit (Cb_connectionStatus n False) s)
      | (Some t, s) \<Rightarrow> s\<lparr>m_connecting := List.insert t (m_connecting s)\<rparr>)" for n d
    using typed_results(2) [of "pushWaiting n d s" n] ok by (auto split: prod.split option.split)
  then have "typed (wakeup_send_tcp req s)"
    using ok by (cases "um_find (ps_node req) (m_node2stream s)")
      (auto simp: wakeup_send_tcp_def getStreamByNode_def env_ret_def Let_def)
  moreover have "typed (wakeup_send_udp req s)"
    using ok by (simp add: wakeup_send_udp_def typed_def env_ret_def undefined_behaviour_def Let_def split: option.split)
  ultimately show ?thesis by (simp add: wakeup_send_def split: protocol_type.split)
qed

lemma typed_close [intro!]:
  assumes ok: "typed s"
  shows "typed (wakeup_close p s)"
proof -
  obtain n f where p: "p = (n, f)" by fastforce
  show ?thesis
    using ok by (auto simp: p getStreamByNode_def uv_timer_start_def env_ret_def Let_def split: option.split)
qed

lemma typed_fold: "(\<And>x s. typed s \<Longrightarrow> typed (f x s)) \<Longrightarrow> typed s \<Longrightarrow> typed (fold f xs s)"
  by (induction xs arbitrary: s) simp_all

lemma typed_close_lists:
  assumes "typed s"
  shows "typed (close_tcp_servers l s)" "typed (close_udp_servers us s)" "typed (close_connections us s)"
    "typed (drop_all_waiting w s)" "typed (drop_all_sends reqs s)"
proof -
  show "typed (close_tcp_servers l s)" using assms
    by (induction l s rule: close_tcp_servers.induct) (simp_all add: typed_ctcp_close)
  show "typed (close_udp_servers us s)" using assms
    by (induction us s rule: close_udp_servers.induct) (simp_all add: env_ret_def Let_def split: option.split)
  show "typed (close_connections us s)" using assms
    by (induction us s rule: close_connections.induct) (simp_all add: typed_ctcp_close split: option.split)
  show "typed (drop_all_waiting w s)" using assms by (induction w s rule: drop_all_waiting.induct) simp_all
  show "typed (drop_all_sends reqs s)" using assms by (induction reqs arbitrary: s) simp_all
qed

lemma typed_wakeup:
  assumes ok: "typed s"
  shows "typed (on_wakeup s)"
proof -
  have "typed (casync_close s')" if "typed s'" for s'
    using that by (auto simp: casync_close_def split: option.split)
  then have "typed (wakeup_exit bc sc s')" if "typed s'" for bc sc s'
    using that by (auto simp: wakeup_exit_steps exit_waiting_def exit_connecting_def exit_streams_def exit_udp_def exit_tcp_def
        intro!: typed_close_lists)
  then show ?thesis using ok
    by (auto simp: on_wakeup_def Let_def intro!: typed_fold [of wakeup_close] typed_fold [of wakeup_send] typed_fold [of wakeup_bind])
qed

section \<open>Every step\<close>

lemma typed_step:
  assumes "np_step s s'" and ok: "typed s"
  shows "typed s'"
  using assms(1)
proof cases
  case (send node data b)
  then show ?thesis using ok by (simp add: pool_send_def env_ret_def typed_def Let_def split: option.split)
next
  case (timeout t c)
  then show ?thesis using ok by (auto intro!: typed_callbacks)
next
  case (new_connection t c status peer len)
  then show ?thesis using ok typed_new_connection by simp
qed (use ok in \<open>simp_all add: typed_callbacks typed_wakeup pool_bind_def pool_close_def pool_destroy_def\<close>)

lemma np_reach_typed: "np_reach settings env s \<Longrightarrow> typed s"
proof (induction rule: np_reach.induct)
  case (start s)
  then have "np_tcps s = Map.empty"
    by (auto simp: pool_construct_def internal_thread_start_def casync_alloc_def env_ret_def pool_fresh_def mem_add_def
        Let_def split: if_splits)
  then show ?case by (simp add: typed_def)
qed (rule typed_step)

text \<open>
  C19: The tables are well-typed. In every reachable state no table holds a key twice; a node in
  \<open>m_tcpServers\<close> is a TCP node and refers to a live listening object of that node, one in
  \<open>m_node2stream\<close> to a live connection object of that node, with a timer; messages wait for TCP
  nodes only; \<open>m_udpServers\<close> refers to live datagram objects bound to UDP nodes; every request
  under way refers to a live object of its kind.
\<close>

theorem pool_well_typed:
  assumes "np_reach settings env s" and "connect_law env"
  shows "um_ok (m_tcpServers s) \<and> um_ok (m_node2stream s) \<and> um_ok (m_waitingSend s)
    \<and> (um_find n (m_tcpServers s) = Some t \<longrightarrow> m_protocol n = Protocol_tcp
        \<and> (\<exists>c. np_tcps s t = Some c \<and> t_node c = n \<and> \<not> m_timerInited c))
    \<and> (um_find n (m_node2stream s) = Some t \<longrightarrow> m_protocol n = Protocol_tcp
        \<and> (\<exists>c. np_tcps s t = Some c \<and> t_node c = n \<and> m_timerInited c))
    \<and> (um_find n (m_waitingSend s) = Some bufs \<longrightarrow> m_protocol n = Protocol_tcp)
    \<and> (\<forall>u\<in>set (m_udpServers s). \<exists>d. np_udps s u = Some d \<and> m_protocol (u_node d) = Protocol_udp)
    \<and> set (map fst (np_writes s)) \<union> set (np_connects s) \<union> set (np_shutdowns s) \<subseteq> dom (np_tcps s)
    \<and> set (map fst (np_udp_sends s)) \<subseteq> dom (np_udps s)"
proof (intro conjI impI)
  have core: "core {} {} s" using np_reach_ok [OF assms] by (rule np_ok_core)
  have ty: "typed s" using assms(1) by (rule np_reach_typed)
  show "um_ok (m_tcpServers s)" "um_ok (m_node2stream s)" "um_ok (m_waitingSend s)" using core_maps [OF core] by simp_all
  show "m_protocol n = Protocol_tcp" "\<exists>c. np_tcps s t = Some c \<and> t_node c = n \<and> \<not> m_timerInited c"
    if "um_find n (m_tcpServers s) = Some t"
    using core_server [OF core that] ty by (auto simp: typed_def tcp_server_def)
  show "m_protocol n = Protocol_tcp" "\<exists>c. np_tcps s t = Some c \<and> t_node c = n \<and> m_timerInited c"
    if "um_find n (m_node2stream s) = Some t"
    using core_stream [OF core that] ty by (auto simp: typed_def tcp_open_def)
  show "m_protocol n = Protocol_tcp" if "um_find n (m_waitingSend s) = Some bufs"
    using core_waiting [OF core that] ty by (auto simp: typed_def tcp_is_def)
  show "\<forall>u\<in>set (m_udpServers s). \<exists>d. np_udps s u = Some d \<and> m_protocol (u_node d) = Protocol_udp"
    using core_udp_server [OF core] by blast
  show "set (map fst (np_writes s)) \<union> set (np_connects s) \<union> set (np_shutdowns s) \<subseteq> dom (np_tcps s)"
    using core_write [OF core] core_connect [OF core] core_shutdown [OF core] by fastforce
  show "set (map fst (np_udp_sends s)) \<subseteq> dom (np_udps s)" using core_udp_send [OF core] by fastforce
qed

theorem pool_well_typed_witness:
  "m_protocol demo_node = Protocol_tcp \<and> (\<exists>c. np_tcps demo_connected 0 = Some c \<and> t_node c = demo_node \<and> m_timerInited c)"
proof -
  have "um_find demo_node (m_node2stream demo_connected) = Some 0" by code_simp
  then show ?thesis using pool_well_typed [OF demo_reach(4) connect_law_demo, of demo_node 0] by blast
qed

end
