(* ===== verification/Pool_Callbacks.thy ===== *)
theory Pool_Callbacks
  imports Pool_Types
begin

text \<open>
  The contract that \<open>src/network_callback.h\<close> states for \<open>CnetworkPoolCallback\<close>: a message is
  delivered into memory the user has just lent for it, and every piece of memory lent is given
  back. \<open>adds\<close> says that an operation logs no callback of a read, one lemma per operation of the
  pool; \<open>step_log\<close> says what a step can add to the log; \<open>read_next\<close> is the contract as an
  automaton over the callbacks.
\<close>

section \<open>What is added to the log\<close>

fun reading :: "event \<Rightarrow> bool" where
  "reading (Cb_allocate n) = True"
| "reading (Cb_deallocate n) = True"
| "reading (Cb_message n d) = True"
| "reading _ = False"

definition adds :: "np_pool \<Rightarrow> np_pool \<Rightarrow> bool" where
  "adds s0 s \<longleftrightarrow> (\<exists>es. np_log s = np_log s0 @ es \<and> (\<forall>e\<in>set es. \<not> reading e))"

lemma adds_refl [simp]: "adds s s"
  by (auto simp: adds_def)

lemma adds_log: "adds s0 s \<Longrightarrow> np_log s' = np_log s \<Longrightarrow> adds s0 s'"
  by (simp add: adds_def)

lemma adds_emit [intro!]: "adds s0 s \<Longrightarrow> \<not> reading e \<Longrightarrow> adds s0 (emit e s)"
  by (auto simp: adds_def)

lemma adds_emit_all [intro!]: "adds s0 s \<Longrightarrow> \<forall>e\<in>set es. \<not> reading e \<Longrightarrow> adds s0 (emit_all es s)"
  by (auto simp: adds_def)

lemma adds_drop_and_free [intro!]: "adds s0 s \<Longrightarrow> adds s0 (drop_and_free n bs s)"
  by (auto simp: adds_def)

lemma adds_same [simp]:
  "adds s0 (mem_add i s) = adds s0 s" "adds s0 (pushWaiting n b s) = adds s0 s" "adds s0 (undefined_behaviour s) = adds s0 s"
  "adds s0 (upd_tcp t f s) = adds s0 s" "adds s0 (delete_tcp t s) = adds s0 s" "adds s0 (ctcp_close t s) = adds s0 s"
  "adds s0 (new_tcp c k s) = adds s0 s" "adds s0 (upd_udp u g s) = adds s0 s" "adds s0 (delete_udp u s) = adds s0 s"
  "adds s0 (new_udp d k s) = adds s0 s" "adds s0 (cudp_close u s) = adds s0 s" "adds s0 (casync_close s) = adds s0 s"
  by (simp_all add: adds_def undefined_behaviour_def cudp_close_def casync_close_def split: option.split)

lemma adds_fields [simp]:
  "adds s0 (s\<lparr>np_tick := tick\<rparr>) = adds s0 s" "adds s0 (s\<lparr>m_udpIndex := i\<rparr>) = adds s0 s"
  "adds s0 (s\<lparr>m_tcpServers := ts\<rparr>) = adds s0 s" "adds s0 (s\<lparr>m_udpServers := us\<rparr>) = adds s0 s"
  "adds s0 (s\<lparr>m_connecting := cs\<rparr>) = adds s0 s" "adds s0 (s\<lparr>m_bWantExit := w\<rparr>) = adds s0 s"
  "adds s0 (s\<lparr>m_pendingBind := pb\<rparr>) = adds s0 s" "adds s0 (s\<lparr>m_pendingSend := pq\<rparr>) = adds s0 s"
  "adds s0 (s\<lparr>m_pendingClose := pc\<rparr>) = adds s0 s" "adds s0 (s\<lparr>m_waitingSend := ws\<rparr>) = adds s0 s"
  "adds s0 (s\<lparr>m_node2stream := ns\<rparr>) = adds s0 s" "adds s0 (s\<lparr>np_writes := wr\<rparr>) = adds s0 s"
  "adds s0 (s\<lparr>np_connects := co\<rparr>) = adds s0 s" "adds s0 (s\<lparr>np_shutdowns := sh\<rparr>) = adds s0 s"
  "adds s0 (s\<lparr>np_udp_sends := ud\<rparr>) = adds s0 s" "adds s0 (s\<lparr>np_async := a\<rparr>) = adds s0 s"
  by (simp_all add: adds_def)

lemma adds_dropWaiting [intro!]: "adds s0 s \<Longrightarrow> adds s0 (dropWaiting n s)"
  by (auto simp: dropWaiting_def Let_def split: option.split)

lemma adds_shutdown_and_close [simp]: "adds s0 (ctcp_shutdown_and_close t s) = adds s0 s"
  by (auto simp: adds_def ctcp_shutdown_and_close_def env_ret_def undefined_behaviour_def Let_def split: option.split)

lemma adds_shutdownTcp [intro!]: "adds s0 s \<Longrightarrow> adds s0 (shutdownTcpConnection t b c s)"
  by (auto simp: shutdownTcpConnection_def um_erase_def Let_def split: option.split)

lemma adds_write_or_shutdown [intro!]:
  assumes "adds s0 s"
  shows "adds s0 (write_or_shutdown t n bufs s)"
proof -
  have "adds s0 ((upd_tcp t f s1)\<lparr>np_writes := ws, np_tick := i\<rparr>) = adds s0 s1" for f s1 ws i
    by (simp add: adds_def)
  then show ?thesis using assms
    by (auto simp: write_or_shutdown_def uv_timer_start_def uv_write_def env_ret_def dropWriteAndFree_def Let_def)
qed

lemma adds_startup [intro!]:
  assumes "adds s0 s"
  shows "adds s0 (startupTcpConnection t s)"
proof -
  have flush: "adds s0 (case getWriteFromWaitingByNode n s' of (None, s) \<Rightarrow> s | (Some b, s) \<Rightarrow> write_or_shutdown t n b s)"
    if "adds s0 s'" for n s'
    using that by (cases rule: getWrite_cases [of n s']) auto
  then show ?thesis
    using assms by (auto simp: startupTcpConnection_def um_insert_def Let_def intro!: flush split: option.split)
qed

lemma adds_reset_idle [intro!]: "adds s0 s \<Longrightarrow> adds s0 (reset_tcp_idle_timeout t s)"
  by (auto simp: reset_tcp_idle_timeout_def env_ret_def uv_timer_start_def Let_def)

section \<open>Callbacks that do not read\<close>

lemma adds_callbacks:
  assumes "adds s0 s"
  shows "adds s0 (on_tcp_timeout t s)" "adds s0 (on_tcp_write_done req status s)" "adds s0 (on_shutdown_done t s)"
    "adds s0 (on_connect_done t status s)" "adds s0 (on_udp_send_done ureq status s)" "adds s0 (on_tcp_closed t s)"
    "adds s0 (on_timer_closed t s)" "adds s0 (on_udp_closed u s)" "adds s0 (on_async_closed s)"
  using assms
  by (auto simp: on_tcp_timeout_def on_tcp_write_done_def on_shutdown_done_def
      on_connect_done_def uv_timer_start_def uv_read_start_def env_ret_def on_timer_closed_def on_async_closed_def
      on_udp_send_done_def on_tcp_closed_def on_udp_closed_def Let_def split: option.split)

lemma adds_new_connection:
  assumes "adds s0 s" and "np_tcps s server = Some sv"
  shows "adds s0 (on_new_connection server status peer len s)"
  using assms(2)
proof (cases rule: new_connection_cases [where status = status and peer = peer and len = len])
qed (use assms in auto)

lemma adds_results:
  assumes "adds s0 s"
  shows "adds s0 (snd (bindAndListenTcp n s))" "adds s0 (snd (connectTcp n s))" "adds s0 (snd (bindAndListenUdp n s))"
    "adds s0 (snd (find_udp n us s))"
proof -
  show "adds s0 (snd (bindAndListenTcp n s))"
    by (cases rule: bindAndListenTcp_cases [of n s]) (auto simp: assms)
  show "adds s0 (snd (connectTcp n s))"
    by (cases rule: connectTcp_cases [of n s]) (auto simp: assms)
  show "adds s0 (snd (bindAndListenUdp n s))"
    by (cases rule: bindAndListenUdp_cases [of n s]) (auto simp: assms)
  show "adds s0 (snd (find_udp n us s))" using find_udp_cases [of n us s] assms by auto
qed

lemma adds_bind [intro!]:
  assumes ok: "adds s0 s"
  shows "adds s0 (wakeup_bind p s)"
proof -
  obtain n b where p: "p = (n, b)" by fastforce
  have "adds s0 (wakeup_bind_tcp n b s)"
    using ok adds_results(1) [OF ok, of n] by (auto simp: wakeup_bind_tcp_def Let_def split: option.split prod.split)
  moreover have "adds s0 (wakeup_bind_udp n b s)"
  proof (cases "find_udp n (m_udpServers s) s")
    case (Pair r s1)
    then have s1: "adds s0 s1" using adds_results(4) [OF ok, of n "m_udpServers s"] by simp
    then show ?thesis using Pair adds_results(3) [OF s1, of n]
      by (auto simp: wakeup_bind_udp_def env_ret_def Let_def split: option.split prod.split)
  qed
  ultimately show ?thesis by (simp add: p split: protocol_type.split)
qed

lemma adds_send [intro!]:
  assumes ok: "adds s0 s"
  shows "adds s0 (wakeup_send req s)"
proof -
  have "adds s0 (case connectTcp n (pushWaiting n d s) of (None, s) \<Rightarrow> dropWaiting n (emit (Cb_connectionStatus n False) s)
      | (Some t, s) \<Rightarrow> s\<lparr>m_connecting := List.insert t (m_connecting s)\<rparr>)" for n d
    using adds_results(2) [of s0 "pushWaiting n d s" n] ok by (auto split: prod.split option.split)
  then have "adds s0 (wakeup_send_tcp req s)"
    using ok by (cases "um_find (ps_node req) (m_node2stream s)")
      (auto simp: wakeup_send_tcp_def getStreamByNode_def env_ret_def Let_def)
  moreover have "adds s0 (mem_add 1 (s\<lparr>np_tick := i\<rparr>)\<lparr>m_udpIndex := j, np_tick := l, np_udp_sends := us\<rparr>)" for i j l us
    using ok by (simp add: adds_def)
  then have "adds s0 (wakeup_send_udp req s)"
    using ok by (auto simp: wakeup_send_udp_def env_ret_def Let_def split: option.split)
  ultimately show ?thesis by (simp add: wakeup_send_def split: protocol_type.split)
qed

lemma adds_close [intro!]:
  assumes ok: "adds s0 s"
  shows "adds s0 (wakeup_close p s)"
proof -
  obtain n f where p: "p = (n, f)" by fastforce
  show ?thesis
    using ok by (auto simp: p getStreamByNode_def uv_timer_start_def env_ret_def Let_def split: option.split)
qed

lemma adds_fold: "(\<And>x s. adds s0 s \<Longrightarrow> adds s0 (f x s)) \<Longrightarrow> adds s0 s \<Longrightarrow> adds s0 (fold f xs s)"
  by (induction xs arbitrary: s) simp_all

lemma adds_close_lists:
  assumes "adds s0 s"
  shows "adds s0 (close_tcp_servers l s)" "adds s0 (close_udp_servers us s)" "adds s0 (close_connections us s)"
    "adds s0 (drop_all_waiting w s)" "adds s0 (drop_all_sends reqs s)"
proof -
  show "adds s0 (close_tcp_servers l s)" using assms
    by (induction l s rule: close_tcp_servers.induct) (simp_all add: adds_emit)
  show "adds s0 (close_udp_servers us s)" using assms
    by (induction us s rule: close_udp_servers.induct) (simp_all add: adds_emit env_ret_def Let_def split: option.split)
  show "adds s0 (close_connections us s)" using assms
    by (induction us s rule: close_connections.induct) (simp_all add: adds_emit split: option.split)
  show "adds s0 (drop_all_waiting w s)" using assms
    by (induction w s rule: drop_all_waiting.induct) (simp_all add: adds_drop_and_free)
  show "adds s0 (drop_all_sends reqs s)" using assms by (induction reqs arbitrary: s) (simp_all add: adds_emit)
qed

lemma adds_wakeup:
  assumes ok: "adds s0 s"
  shows "adds s0 (on_wakeup s)"
proof -
  have "adds s0 (wakeup_exit bc sc s')" if "adds s0 s'" for bc sc s'
    using that by (auto simp: wakeup_exit_steps exit_waiting_def exit_connecting_def exit_streams_def exit_udp_def exit_tcp_def
        intro!: adds_close_lists)
  then show ?thesis using ok
    by (auto simp: on_wakeup_def Let_def intro!: adds_fold [of _ wakeup_close] adds_fold [of _ wakeup_send] adds_fold [of _ wakeup_bind])
qed

section \<open>Reading\<close>

lemma adds_if: "adds s0 s1 \<Longrightarrow> adds s0 s2 \<Longrightarrow> adds s0 (if b then s1 else s2)"
  by simp

lemma read_log:
  assumes "np_tcps s t = Some c"
  shows "\<exists>es. (\<forall>e\<in>set es. \<not> reading e) \<and> np_log (on_tcp_read t nread data (tcp_alloc_buffer t s)) = np_log s
    @ (if nread > 0 then [Cb_allocate (t_node c), Cb_message (t_node c) data, Cb_deallocate (t_node c)]
       else [Cb_allocate (t_node c), Cb_deallocate (t_node c)]) @ es"
proof (cases "nread > 0")
  case True
  let ?s1 = "emit (Cb_deallocate (t_node c)) (emit (Cb_message (t_node c) data) (tcp_alloc_buffer t s))"
  have "adds ?s1 (if \<not> m_closing c \<and> \<not> m_shutdown c then reset_tcp_idle_timeout t ?s1 else ?s1)"
    by (rule adds_if) (rule adds_reset_idle adds_refl)+
  then show ?thesis using True assms by (auto simp: adds_def on_tcp_read_def tcp_alloc_buffer_def Let_def)
next
  case False
  let ?s1 = "emit (Cb_deallocate (t_node c)) (tcp_alloc_buffer t s)"
  have "adds ?s1 (if nread < 0 then shutdownTcpConnection t False False ?s1 else ?s1)"
    by (rule adds_if) (rule adds_shutdownTcp adds_refl)+
  then show ?thesis using False assms by (auto simp: adds_def on_tcp_read_def tcp_alloc_buffer_def Let_def)
qed

lemma udp_read_log:
  assumes "np_udps s u = Some d"
  shows "\<exists>m es. (\<forall>e\<in>set es. \<not> reading e) \<and> (np_log (on_udp_recv u nread data addr (udp_alloc_buffer u s))
      = np_log s @ [Cb_allocate (u_node d), Cb_message m data, Cb_deallocate (u_node d)] @ es \<and> m_protocol m = Protocol_udp
    \<or> np_log (on_udp_recv u nread data addr (udp_alloc_buffer u s)) = np_log s @ [Cb_allocate (u_node d), Cb_deallocate (u_node d)] @ es)"
proof -
  have "m_protocol (node_of_raw Protocol_udp raw 128) = Protocol_udp" for raw
    by (simp add: node_of_raw_def Let_def)
  then show ?thesis using assms
    by (cases "nread < 0"; cases addr) (auto simp: on_udp_recv_def udp_alloc_buffer_def intro: exI [of _ "[]"])
qed

text \<open>Every step adds one read at most, at the front.\<close>

lemma step_log:
  assumes step: "np_step s s'" and ok: "np_ok s" "typed s" "listeners_ok s"
  obtains (other) "adds s s'"
  | (data) n m d es where "np_log s' = np_log s @ Cb_allocate n # Cb_message m d # Cb_deallocate n # es"
      "\<forall>e\<in>set es. \<not> reading e" "m_protocol m = m_protocol n" "m_protocol n = Protocol_tcp \<Longrightarrow> m = n"
      "np_async s' = np_async s"
  | (empty) n es where "np_log s' = np_log s @ Cb_allocate n # Cb_deallocate n # es" "\<forall>e\<in>set es. \<not> reading e"
proof -
  have core: "core {} {} s" using ok(1) by (rule np_ok_core)
  from step show thesis
  proof cases
    case (read t c nread d)
    obtain es where es: "\<forall>e\<in>set es. \<not> reading e" "np_log s' = np_log s
      @ (if nread > 0 then [Cb_allocate (t_node c), Cb_message (t_node c) d, Cb_deallocate (t_node c)]
         else [Cb_allocate (t_node c), Cb_deallocate (t_node c)]) @ es"
      using read_log [OF read(2)] unfolding read(1) by blast
    have "quiet True s s'" unfolding read(1) by (simp add: quiet_callbacks)
    then have async: "np_async s' = np_async s" by (simp add: quiet_def tables_def)
    show thesis
    proof (cases "nread > 0")
      case True
      then show thesis using data [of "t_node c" "t_node c" d es] es async by simp
    next
      case False
      with es(2) have "np_log s' = np_log s @ Cb_allocate (t_node c) # Cb_deallocate (t_node c) # es" by simp
      then show thesis using es(1) by (rule empty)
    qed
  next
    case (udp_recv u c nread d addr)
    have "u \<in> set (m_udpServers s)" using ok(3) udp_recv by (simp add: listeners_ok_def)
    then have udp: "m_protocol (u_node c) = Protocol_udp" using core_udp_server [OF core] udp_recv by fastforce
    from udp_read_log [OF udp_recv(2), of nread d addr] consider
        m es where "\<forall>e\<in>set es. \<not> reading e" "m_protocol m = Protocol_udp"
          "np_log s' = np_log s @ Cb_allocate (u_node c) # Cb_message m d # Cb_deallocate (u_node c) # es"
      | es where "\<forall>e\<in>set es. \<not> reading e" "np_log s' = np_log s @ Cb_allocate (u_node c) # Cb_deallocate (u_node c) # es"
      unfolding udp_recv(1) [symmetric] by auto
    then show thesis
    proof cases
      case 1
      have "quiet True s s'" unfolding udp_recv(1) by (simp add: quiet_callbacks)
      then have "np_async s' = np_async s" by (simp add: quiet_def tables_def)
      with 1 show thesis using data [of "u_node c" _ d] udp by simp
    next
      case 2
      show thesis by (rule empty) (rule 2)+
    qed
  next
    case (send node da b)
    then have "np_log s' = np_log s" by (simp add: pool_send_def env_ret_def Let_def split: option.split)
    then show thesis using other adds_log [OF adds_refl] by blast
  next
    case (timeout t c)
    have "adds s s'" unfolding timeout(1) by (rule adds_callbacks) simp
    then show thesis by (rule other)
  next
    case (new_connection t c status peer len)
    then show thesis using other adds_new_connection [OF adds_refl] by blast
  next
    case wakeup
    then show thesis using other adds_wakeup [OF adds_refl] by blast
  qed (rule other; simp add: adds_callbacks pool_bind_def pool_close_def pool_destroy_def)+
qed

section \<open>The contract of \<open>CnetworkPoolCallback\<close>\<close>

text \<open>The state between two callbacks of a read.\<close>

datatype read_state = Outside | Offered network_node | Filled network_node | Broken

definition read_next :: "read_state \<Rightarrow> event \<Rightarrow> read_state" where
  "read_next st e =
     (case st of
        Outside \<Rightarrow> (case e of Cb_allocate n \<Rightarrow> Offered n | _ \<Rightarrow> if reading e then Broken else Outside)
      | Offered n \<Rightarrow>
          (case e of
             Cb_message m d \<Rightarrow> if m = n \<or> m_protocol n = Protocol_udp \<and> m_protocol m = Protocol_udp then Filled n else Broken
           | Cb_deallocate m \<Rightarrow> if m = n then Outside else Broken
           | _ \<Rightarrow> Broken)
      | Filled n \<Rightarrow> (case e of Cb_deallocate m \<Rightarrow> if m = n then Outside else Broken | _ \<Rightarrow> Broken)
      | Broken \<Rightarrow> Broken)"

lemma read_next_other: "\<not> reading e \<Longrightarrow> read_next Outside e = Outside"
  by (cases e) (simp_all add: read_next_def)

lemma read_others: "\<forall>e\<in>set es. \<not> reading e \<Longrightarrow> foldl read_next Outside es = Outside"
  by (induction es) (simp_all add: read_next_other)

lemma bracket_step:
  assumes "np_step s s'" and "np_ok s" "typed s" "listeners_ok s" and out: "foldl read_next Outside (np_log s) = Outside"
  shows "foldl read_next Outside (np_log s') = Outside"
  using assms(1-4)
proof (cases rule: step_log)
  case other
  then show ?thesis using out by (auto simp: adds_def read_others)
next
  case (data n m d es)
  then show ?thesis using out read_others [of es]
    by (cases "m_protocol n") (simp_all add: read_next_def [of Outside "Cb_allocate _"] read_next_def [of "Offered _"] read_next_def [of "Filled _"])
next
  case (empty n es)
  then show ?thesis using out read_others [of es]
    by (simp add: read_next_def [of Outside "Cb_allocate _"] read_next_def [of "Offered _"])
qed

text \<open>
  C18: The pool keeps the contract that \<open>network_callback.h\<close> states: every \<open>message\<close> comes after
  an \<open>allocateMemoryForMessage\<close> of its own, every allocate has its deallocate, with the same node,
  and nothing comes between them but that one message; on TCP the message is of the node the memory
  was asked for, on UDP it comes from a UDP node. Between two callbacks of libuv no memory is lent.
\<close>

theorem callbacks_bracketed:
  assumes "np_reach settings env s" and "connect_law env"
  shows "foldl read_next Outside (np_log s) = Outside"
  using assms(1)
proof (induction rule: np_reach.induct)
  case (start s)
  then have "np_log s = []"
    by (auto simp: pool_construct_def internal_thread_start_def casync_alloc_def env_ret_def pool_fresh_def mem_add_def
        Let_def split: if_splits)
  then show ?case by simp
next
  case (step s s')
  then show ?case using np_reach_ok [OF step(1) assms(2)] np_reach_typed [OF step(1)] np_reach_left [OF step(1) assms(2)] bracket_step
    by blast
qed

theorem callbacks_bracketed_witness:
  "foldl read_next Outside (np_log (on_tcp_read 0 2 [7, 8] (tcp_alloc_buffer 0 demo_connected))) = Outside"
proof -
  have "map_option t_reading (np_tcps demo_connected 0) = Some True" by code_simp
  then obtain c where "np_tcps demo_connected 0 = Some c" "t_reading c" by auto
  from np_reach.step [OF demo_reach(4) np_step.read [OF this]] show ?thesis
    using callbacks_bracketed [OF _ connect_law_demo] by blast
qed

end
