(* ===== verification/Pool_Gone.thy ===== *)
theory Pool_Gone
  imports Pool_Types
begin

text \<open>
  \<open>CnetworkPool\<close> after its exit: nothing is registered and nothing can be registered any more,
  because an attempt to connect that is still outstanding is being closed. \<open>calm\<close> is what all
  functions but those that begin an attempt have in common.
\<close>

section \<open>What most functions leave alone\<close>

text \<open>
  The attempts stay as they are and closing objects stay closing; with \<open>b\<close>, no connection is
  registered either.
\<close>

definition calm :: "bool \<Rightarrow> np_pool \<Rightarrow> np_pool \<Rightarrow> bool" where
  "calm b s0 s \<longleftrightarrow> np_connects s = np_connects s0 \<and> m_connecting s = m_connecting s0 \<and> np_next s0 \<le> np_next s
     \<and> (\<forall>t c. t < np_next s0 \<longrightarrow> np_tcps s t = Some c \<longrightarrow> \<not> m_closing c \<longrightarrow> (\<exists>c0. np_tcps s0 t = Some c0 \<and> \<not> m_closing c0))
     \<and> (b \<longrightarrow> set (m_node2stream s) \<subseteq> set (m_node2stream s0))"

lemma calm_refl [simp]: "calm b s s"
  by (auto simp: calm_def)

lemma calm_weak: "calm b s0 s \<Longrightarrow> calm False s0 s"
  by (simp add: calm_def)

lemma calm_simps [simp]:
  "calm b s0 (emit e s) = calm b s0 s" "calm b s0 (emit_all es s) = calm b s0 s" "calm b s0 (mem_add i s) = calm b s0 s"
  "calm b s0 (drop_and_free n bs s) = calm b s0 s" "calm b s0 (dropWaiting n s) = calm b s0 s"
  "calm b s0 (pushWaiting n d s) = calm b s0 s" "calm b s0 (undefined_behaviour s) = calm b s0 s"
  "calm b s0 (s\<lparr>np_tick := k\<rparr>) = calm b s0 s" "calm b s0 (s\<lparr>m_udpIndex := i'\<rparr>) = calm b s0 s"
  "calm b s0 (s\<lparr>m_waitingSend := w\<rparr>) = calm b s0 s" "calm b s0 (s\<lparr>np_writes := ws\<rparr>) = calm b s0 s"
  "calm b s0 (s\<lparr>np_shutdowns := sh\<rparr>) = calm b s0 s" "calm b s0 (s\<lparr>np_udp_sends := us\<rparr>) = calm b s0 s"
  "calm b s0 (s\<lparr>m_tcpServers := ts\<rparr>) = calm b s0 s" "calm b s0 (s\<lparr>m_udpServers := vs\<rparr>) = calm b s0 s"
  "calm b s0 (s\<lparr>np_async := a\<rparr>) = calm b s0 s" "calm b s0 (s\<lparr>m_pendingBind := pb\<rparr>) = calm b s0 s"
  "calm b s0 (s\<lparr>m_pendingSend := pq\<rparr>) = calm b s0 s" "calm b s0 (s\<lparr>m_pendingClose := pc\<rparr>) = calm b s0 s"
  "calm b s0 (s\<lparr>m_bWantExit := we\<rparr>) = calm b s0 s" "calm b s0 (upd_udp u g s) = calm b s0 s"
  "calm b s0 (delete_udp u s) = calm b s0 s"
  "calm False s0 (s\<lparr>m_node2stream := ns\<rparr>) = calm False s0 s"
  by (simp_all add: calm_def undefined_behaviour_def)

lemma calm_erase [simp]: "calm b s0 s \<Longrightarrow> calm b s0 (s\<lparr>m_node2stream := AList.delete n (m_node2stream s)\<rparr>)"
  by (auto simp: calm_def AList.delete_eq)

lemma calm_upd_tcp: "calm b s0 s \<Longrightarrow> (\<And>c. m_closing c \<Longrightarrow> m_closing (f c)) \<Longrightarrow> calm b s0 (upd_tcp t f s)"
proof (cases "np_tcps s t")
  case (Some c)
  assume q: "calm b s0 s" and f: "\<And>c. m_closing c \<Longrightarrow> m_closing (f c)"
  then show ?thesis using Some f [of c] by (auto simp: calm_def)
qed (simp add: upd_tcp_def)

lemma calm_delete [simp]: "calm b s0 s \<Longrightarrow> calm b s0 (delete_tcp t s)"
  by (auto simp: calm_def delete_tcp_def)

lemma calm_new [simp]: "calm b s0 s \<Longrightarrow> calm b s0 (new_tcp c k s)" "calm b s0 s \<Longrightarrow> calm b s0 (new_udp d k s)"
  by (auto simp: calm_def)

lemma calm_ctcp_close [simp]: "calm b s0 s \<Longrightarrow> calm b s0 (ctcp_close t s)"
  by (auto simp: ctcp_close_def intro!: calm_upd_tcp split: option.split)

lemma calm_cudp_close [simp]: "calm b s0 s \<Longrightarrow> calm b s0 (cudp_close u s)"
  by (auto simp: cudp_close_def split: option.split)

lemma calm_shutdown_and_close [simp]: "calm b s0 s \<Longrightarrow> calm b s0 (ctcp_shutdown_and_close t s)"
proof -
  assume q: "calm b s0 s"
  then have "calm b s0 ((mem_add 1 (s\<lparr>np_tick := i\<rparr>))\<lparr>np_tick := j, np_shutdowns := t # np_shutdowns s\<rparr>)" for i j
    by (auto simp: calm_def)
  then show ?thesis using q
    by (auto simp: ctcp_shutdown_and_close_def env_ret_def Let_def intro!: calm_upd_tcp split: option.split)
qed

lemma calm_shutdownTcp [simp]: "calm b s0 s \<Longrightarrow> calm b s0 (shutdownTcpConnection t x y s)"
  by (auto simp: shutdownTcpConnection_def um_erase_def Let_def split: option.split)

lemma calm_timer_on [simp]: "calm b s0 s \<Longrightarrow> calm b s0 (upd_tcp t (\<lambda>c. c\<lparr>t_timer_active := v\<rparr>) s)"
  "calm b s0 s \<Longrightarrow> calm b s0 (upd_tcp t (\<lambda>c. c\<lparr>t_reading := v\<rparr>) s)"
  by (rule calm_upd_tcp, simp, simp)+

lemma calm_write_or_shutdown [simp]:
  assumes "calm b s0 s"
  shows "calm b s0 (write_or_shutdown t n bufs s)"
proof -
  have "calm b s0 ((upd_tcp t f s1)\<lparr>np_writes := ws, np_tick := i\<rparr>)" if "calm b s0 (upd_tcp t f s1)" for f s1 ws i
    using that by (simp add: calm_def)
  then show ?thesis using assms
    by (auto simp: write_or_shutdown_def uv_timer_start_def uv_write_def env_ret_def dropWriteAndFree_def Let_def)
qed

lemma calm_startup [simp]:
  assumes "calm False s0 s"
  shows "calm False s0 (startupTcpConnection t s)"
proof -
  have "calm False s0 (case getWriteFromWaitingByNode n s' of (None, s) \<Rightarrow> s | (Some b, s) \<Rightarrow> write_or_shutdown t n b s)"
    if "calm False s0 s'" for n s'
    using that by (cases rule: getWrite_cases [of n s']) auto
  then show ?thesis
    using assms by (auto simp: startupTcpConnection_def um_insert_def Let_def split: option.split)
qed

lemma calm_reset_idle [simp]: "calm b s0 s \<Longrightarrow> calm b s0 (reset_tcp_idle_timeout t s)"
  by (auto simp: reset_tcp_idle_timeout_def env_ret_def uv_timer_start_def Let_def)

section \<open>Callbacks\<close>

lemma calm_callbacks:
  assumes "calm b s0 s"
  shows "calm b s0 (tcp_alloc_buffer t s)" "calm b s0 (on_tcp_timeout t s)" "calm b s0 (on_tcp_read t nread data s)"
    "calm b s0 (on_tcp_write_done req status s)" "calm b s0 (on_shutdown_done t s)"
    "calm b s0 (udp_alloc_buffer u s)" "calm b s0 (on_udp_recv u nread data addr s)"
    "calm b s0 (on_udp_send_done ureq status s)" "calm b s0 (on_tcp_closed t s)" "calm b s0 (on_timer_closed t s)"
    "calm b s0 (on_udp_closed u s)" "calm b s0 (on_async_closed s)"
  using assms
  by (auto simp: tcp_alloc_buffer_def on_tcp_timeout_def on_tcp_read_def on_tcp_write_done_def on_shutdown_done_def
      udp_alloc_buffer_def on_udp_recv_def on_udp_send_done_def on_tcp_closed_def on_udp_closed_def on_timer_closed_def
      on_async_closed_def Let_def intro!: calm_upd_tcp calm_delete split: option.split)

lemma calm_new_connection:
  assumes "calm False s0 s" and "np_tcps s server = Some sv"
  shows "calm False s0 (on_new_connection server status peer len s)"
  using assms(2)
proof (cases rule: new_connection_cases [where status = status and peer = peer and len = len])
qed (use assms in auto)

lemma calm_connect_done:
  assumes "np_tcps s t = Some c"
  defines "s1 \<equiv> s\<lparr>np_connects := remove1 t (np_connects s), m_connecting := removeAll t (m_connecting s)\<rparr>"
  shows "calm (m_closing c) s1 (on_connect_done t status s)"
proof -
  have "calm b s1 (mem_add (- 1) s1)" for b by simp
  then show ?thesis
    using assms(1) by (auto simp: s1_def on_connect_done_def env_ret_def uv_timer_start_def uv_read_start_def Let_def)
qed

section \<open>Every attempt is in \<open>m_connecting\<close> or is being closed\<close>

definition attempts_ok :: "np_pool \<Rightarrow> bool" where
  "attempts_ok s \<longleftrightarrow> (\<forall>t\<in>set (np_connects s). t < np_next s
     \<and> (\<forall>c. np_tcps s t = Some c \<longrightarrow> \<not> m_closing c \<longrightarrow> t \<in> set (m_connecting s)))"

lemma calm_attempts: "calm b s0 s \<Longrightarrow> attempts_ok s0 \<Longrightarrow> attempts_ok s"
  unfolding calm_def attempts_ok_def by (metis order_less_le_trans)

lemma calm_results:
  assumes "calm b s0 s"
  shows "calm b s0 (snd (bindAndListenTcp n s))" "calm b s0 (snd (bindAndListenUdp n s))" "calm b s0 (snd (find_udp n us s))"
proof -
  show "calm b s0 (snd (bindAndListenTcp n s))" by (cases rule: bindAndListenTcp_cases [of n s]) (auto simp: assms)
  show "calm b s0 (snd (bindAndListenUdp n s))" by (cases rule: bindAndListenUdp_cases [of n s]) (auto simp: assms)
  show "calm b s0 (snd (find_udp n us s))" using find_udp_cases [of n us s] assms by auto
qed

lemma calm_bind: "calm b s0 s \<Longrightarrow> calm b s0 (wakeup_bind p s)"
proof -
  assume ok: "calm b s0 s"
  obtain n f where p: "p = (n, f)" by fastforce
  have "calm b s0 (wakeup_bind_tcp n f s)"
    using ok calm_results(1) [OF ok, of n] by (auto simp: wakeup_bind_tcp_def Let_def split: option.split prod.split)
  moreover have "calm b s0 (wakeup_bind_udp n f s)"
  proof (cases "find_udp n (m_udpServers s) s")
    case (Pair r s1)
    then have s1: "calm b s0 s1" using calm_results(3) [OF ok, of n "m_udpServers s"] by simp
    then show ?thesis using Pair calm_results(2) [OF s1, of n]
      by (auto simp: wakeup_bind_udp_def env_ret_def Let_def split: option.split prod.split)
  qed
  ultimately show ?thesis by (simp add: p split: protocol_type.split)
qed

lemma calm_close: "calm b s0 s \<Longrightarrow> calm b s0 (wakeup_close p s)"
proof -
  assume q: "calm b s0 s"
  obtain n f where p: "p = (n, f)" by fastforce
  show ?thesis
    using q by (auto simp: p getStreamByNode_def uv_timer_start_def env_ret_def Let_def split: option.split)
qed

lemma attempts_send:
  assumes ok: "attempts_ok s"
  shows "attempts_ok (wakeup_send req s)"
proof -
  note by_calm = calm_attempts [OF _ ok]
  have start: "attempts_ok (case connectTcp n (pushWaiting n d s) of
      (None, s) \<Rightarrow> dropWaiting n (emit (Cb_connectionStatus n False) s)
    | (Some t, s) \<Rightarrow> s\<lparr>m_connecting := List.insert t (m_connecting s)\<rparr>)" for n d
  proof (cases rule: connectTcp_cases [of n "pushWaiting n d s"])
    case (none k)
    have "calm False s (dropWaiting n (emit (Cb_connectionStatus n False) (pushWaiting n d s\<lparr>np_tick := k\<rparr>)))" by simp
    then show ?thesis unfolding none prod.case option.case by (rule by_calm)
  next
    case (failed c k)
    have "calm False s (dropWaiting n (emit (Cb_connectionStatus n False) (ctcp_close (np_next (pushWaiting n d s)) (new_tcp c k (pushWaiting n d s)))))"
      by simp
    then show ?thesis unfolding failed prod.case option.case by (rule by_calm)
  next
    case (ok j k)
    then show ?thesis using assms by (auto simp: attempts_ok_def)
  qed
  have "calm False s (drop_and_free n l (s\<lparr>np_tick := k\<rparr>))" "calm False s (pushWaiting n d s)" "calm False s (drop_and_free n l s)"
    "calm False s (write_or_shutdown t n l (mem_add 1 (s\<lparr>np_tick := k\<rparr>)))" for k l n t d by simp_all
  then have "attempts_ok (wakeup_send_tcp req s)"
    using start by (cases "um_find (ps_node req) (m_node2stream s)")
      (simp_all add: wakeup_send_tcp_def getStreamByNode_def env_ret_def by_calm Let_def)
  moreover have "calm False s (mem_add 1 (s\<lparr>np_tick := i\<rparr>)\<lparr>m_udpIndex := j, np_tick := l, np_udp_sends := us\<rparr>)" for i j l us
    by (simp add: calm_def)
  then have "calm False s (wakeup_send_udp req s)"
    by (auto simp: wakeup_send_udp_def env_ret_def Let_def split: option.split)
  ultimately show ?thesis by (simp add: wakeup_send_def by_calm split: protocol_type.split)
qed

section \<open>The exit\<close>

text \<open>After the exit nothing is registered and every attempt that is left is being closed.\<close>

definition gone_ok :: "np_pool \<Rightarrow> bool" where
  "gone_ok s \<longleftrightarrow> pool_alive s \<or> m_node2stream s = [] \<and> (\<forall>t\<in>set (np_connects s). \<forall>c. np_tcps s t = Some c \<longrightarrow> m_closing c)"

lemma exit_connects:
  fixes s :: np_pool
  shows "np_connects (close_tcp_servers l s) = np_connects s \<and> np_next (close_tcp_servers l s) = np_next s"
    "np_connects (close_connections ts s) = np_connects s \<and> np_next (close_connections ts s) = np_next s"
    "np_connects (drop_all_waiting w s) = np_connects s \<and> np_next (drop_all_waiting w s) = np_next s"
    "np_connects (drop_all_sends sc s) = np_connects s \<and> np_next (drop_all_sends sc s) = np_next s"
    "np_connects (close_udp_servers us s) = np_connects s \<and> np_next (close_udp_servers us s) = np_next s"
proof -
  show "np_connects (close_tcp_servers l s) = np_connects s \<and> np_next (close_tcp_servers l s) = np_next s"
    by (induction l s rule: close_tcp_servers.induct) simp_all
  show "np_connects (close_connections ts s) = np_connects s \<and> np_next (close_connections ts s) = np_next s"
    by (induction ts s rule: close_connections.induct) (simp_all add: undefined_behaviour_def split: option.split)
  show "np_connects (drop_all_waiting w s) = np_connects s \<and> np_next (drop_all_waiting w s) = np_next s"
    by (induction w s rule: drop_all_waiting.induct) simp_all
  show "np_connects (drop_all_sends sc s) = np_connects s \<and> np_next (drop_all_sends sc s) = np_next s"
    by (induction sc arbitrary: s) simp_all
  have "np_connects (cudp_close v s) = np_connects s \<and> np_next (cudp_close v s) = np_next s" for v and s :: np_pool
    by (simp add: cudp_close_def undefined_behaviour_def split: option.split)
  then show "np_connects (close_udp_servers us s) = np_connects s \<and> np_next (close_udp_servers us s) = np_next s"
    by (induction us s rule: close_udp_servers.induct) (simp_all add: env_ret_def undefined_behaviour_def split: option.split)
qed

lemma exit_gone:
  assumes core: "core {} {} s" and alive: "pool_alive s" and ok: "attempts_ok s"
  shows "attempts_ok (wakeup_exit bc sc s) \<and> gone_ok (wakeup_exit bc sc s)"
proof -
  let ?s = "wakeup_exit bc sc s"
  have same: "np_connects ?s = np_connects s" "np_next ?s = np_next s"
    by (simp_all add: wakeup_exit_steps exit_waiting_def exit_connecting_def exit_streams_def exit_udp_def
        exit_tcp_def casync_close_def exit_connects undefined_behaviour_def split: option.splits)
  have "m_closing c" if t: "t \<in> set (np_connects s)" and c: "np_tcps ?s t = Some c" for t c
  proof -
    obtain c0 where c0: "np_tcps s t = Some c0" "tcp_conn c0" using core_connect [OF core t] by blast
    have "closing_at s t \<or> in_tables s t"
      using ok t c0 core_object [OF core c0(1)] by (auto simp: attempts_ok_def closing_at_def in_tables_def tcp_conn_def)
    then have "closing_at ?s t" by (rule wakeup_exit_spec(2) [OF core alive])
    then show ?thesis using c by (simp add: closing_at_def)
  qed
  then show ?thesis using ok wakeup_exit_spec(3) [OF core alive, of bc sc] by (auto simp: attempts_ok_def gone_ok_def same)
qed

lemma attempts_fold: "(\<And>x s. attempts_ok s \<Longrightarrow> attempts_ok (f x s)) \<Longrightarrow> attempts_ok s \<Longrightarrow> attempts_ok (fold f xs s)"
  by (induction xs arbitrary: s) simp_all

lemma wakeup_gone:
  assumes ok: "np_ok s" "attempts_ok s" and alive: "pool_alive s"
  shows "attempts_ok (on_wakeup s) \<and> gone_ok (on_wakeup s)"
proof -
  let ?s1 = "s\<lparr>m_pendingBind := [], m_pendingSend := [], m_pendingClose := []\<rparr>"
  have s1: "np_ok ?s1" "attempts_ok ?s1" "pool_alive ?s1"
    using assms by (simp_all add: np_ok_def attempts_ok_def pool_alive_def)
  show ?thesis
  proof (cases "m_bWantExit s")
    case True
    then show ?thesis using exit_gone [OF np_ok_core [OF s1(1)] s1(3,2)] by (simp add: on_wakeup_def)
  next
    case False
    let ?s2 = "fold wakeup_close (m_pendingClose s) (fold wakeup_send (m_pendingSend s) (fold wakeup_bind (m_pendingBind s) ?s1))"
    have "attempts_ok ?s2"
      using s1(2) calm_attempts [OF calm_bind [OF calm_refl]] calm_attempts [OF calm_close [OF calm_refl]]
      by (intro attempts_fold) (auto simp: attempts_send)
    moreover have "np_async ?s2 = np_async s" by (simp add: async_fold)
    ultimately show ?thesis using False alive by (simp add: on_wakeup_def gone_ok_def pool_alive_def)
  qed
qed

section \<open>Every step\<close>

lemma calm_gone:
  assumes calm: "calm True s0 s" and async: "np_async s = np_async s0" and ok: "attempts_ok s0" "gone_ok s0"
  shows "attempts_ok s \<and> gone_ok s"
proof -
  have alive: "pool_alive s = pool_alive s0" using async by (simp add: pool_alive_def)
  have "m_closing c" if "\<not> pool_alive s0" and t: "t \<in> set (np_connects s)" and c: "np_tcps s t = Some c" for t c
  proof (rule ccontr)
    assume "\<not> m_closing c"
    moreover have t0: "t \<in> set (np_connects s0)" using t calm by (simp add: calm_def)
    moreover have "t < np_next s0" using t0 ok(1) by (simp add: attempts_ok_def)
    ultimately obtain c0 where "np_tcps s0 t = Some c0" "\<not> m_closing c0" using calm c unfolding calm_def by metis
    then show False using ok(2) that(1) t0 by (auto simp: gone_ok_def)
  qed
  moreover have "m_node2stream s = []" if "m_node2stream s0 = []" using calm that by (simp add: calm_def)
  ultimately show ?thesis using calm_attempts [OF calm ok(1)] ok(2) alive by (auto simp: gone_ok_def)
qed

lemma calm_gone_alive:
  "calm b s0 s \<Longrightarrow> pool_alive s \<Longrightarrow> attempts_ok s0 \<Longrightarrow> attempts_ok s \<and> gone_ok s"
  using calm_attempts by (auto simp: gone_ok_def)

lemma gone_connect_done:
  assumes t: "t \<in> set (np_connects s)" and core: "core {} {} s" and ok: "attempts_ok s" "gone_ok s"
  shows "attempts_ok (on_connect_done t status s) \<and> gone_ok (on_connect_done t status s)"
proof -
  obtain c where c: "np_tcps s t = Some c" using core_connect [OF core t] by blast
  let ?s1 = "s\<lparr>np_connects := remove1 t (np_connects s), m_connecting := removeAll t (m_connecting s)\<rparr>"
  have d: "distinct (np_connects s)" using core by (simp add: core_def connects_ok_def)
  have s1: "attempts_ok ?s1" "gone_ok ?s1" using ok d by (auto simp: attempts_ok_def gone_ok_def pool_alive_def)
  note calm = calm_connect_done [OF c, of status]
  have "quiet True s (on_connect_done t status s)" by (simp add: quiet_connect_done)
  then have async: "np_async (on_connect_done t status s) = np_async s" by (simp add: quiet_def tables_def)
  show ?thesis
  proof (cases "m_closing c")
    case True
    with calm have "calm True ?s1 (on_connect_done t status s)" by simp
    from calm_gone [OF this _ s1] async show ?thesis by simp
  next
    case False
    then have "pool_alive s" using ok(2) t c by (auto simp: gone_ok_def)
    then show ?thesis using calm_gone_alive [OF calm _ s1(1)] async by (simp add: pool_alive_def)
  qed
qed

lemma gone_step:
  assumes "np_step s s'" and ok: "np_ok s" "listeners_ok s" "exit_ok s" "attempts_ok s" "gone_ok s"
  shows "attempts_ok s' \<and> gone_ok s'"
proof -
  have core: "core {} {} s" using ok(1) by (rule np_ok_core)
  have by_calm: ?thesis if "calm True s s'" "quiet True s s'"
    using calm_gone [OF that(1) _ ok(4,5)] that(2) by (simp add: quiet_def tables_def)
  from assms(1) show ?thesis
  proof cases
    case wakeup
    then show ?thesis using wakeup_gone ok by simp
  next
    case (bind node b)
    then show ?thesis using ok by (auto simp: pool_bind_def attempts_ok_def gone_ok_def pool_alive_def)
  next
    case (send node data b)
    then have "calm True s s' \<and> np_async s' = np_async s"
      by (simp add: pool_send_def env_ret_def Let_def split: option.split)
    then show ?thesis using calm_gone [OF _ _ ok(4,5)] by blast
  next
    case (close node b)
    then show ?thesis using ok by (auto simp: pool_close_def attempts_ok_def gone_ok_def pool_alive_def)
  next
    case destroy
    then show ?thesis using ok by (auto simp: pool_destroy_def attempts_ok_def gone_ok_def pool_alive_def)
  next
    case (async_closed a)
    then have "\<not> pool_alive s" by (auto simp: pool_alive_def)
    then show ?thesis using async_closed ok
      by (auto simp: on_async_closed_def attempts_ok_def gone_ok_def pool_alive_def mem_add_def)
  next
    case (new_connection t c status peer len)
    have q: "quiet True s s'" using new_connection quiet_new_connection [OF quiet_refl] by simp
    show ?thesis
    proof (cases "pool_alive s")
      case True
      then show ?thesis
        using calm_gone_alive [OF calm_new_connection [OF calm_refl new_connection(2)] _ ok(4)] quiet_alive [OF q] new_connection(1) by simp
    next
      case False
      have "t \<in> snd ` set (m_tcpServers s)" using ok(2) new_connection(2,3)
        by (auto simp: listeners_ok_def listener_def tcp_server_def)
      then show ?thesis using ok(3) False by (simp add: exit_ok_def)
    qed
  next
    case (connect_done t status)
    then show ?thesis using gone_connect_done [OF _ core ok(4,5)] by simp
  next
    case (timeout t c)
    show ?thesis unfolding timeout(1) by (rule by_calm [unfolded timeout(1)]) (simp_all add: calm_callbacks quiet_callbacks)
  next
    case (read t c nread data)
    show ?thesis unfolding read(1) by (rule by_calm [unfolded read(1)]) (simp_all add: calm_callbacks quiet_callbacks)
  next
    case (udp_recv u d nread data addr)
    show ?thesis unfolding udp_recv(1) by (rule by_calm [unfolded udp_recv(1)]) (simp_all add: calm_callbacks quiet_callbacks)
  next
    case (timer_closed t c)
    then show ?thesis using by_calm quiet_timer_closed [OF quiet_refl] by (simp add: calm_callbacks)
  qed (use by_calm in \<open>simp_all add: calm_callbacks quiet_callbacks\<close>)
qed

lemma np_reach_gone:
  assumes "np_reach settings env s" and "connect_law env"
  shows "attempts_ok s \<and> gone_ok s"
  using assms(1)
proof (induction rule: np_reach.induct)
  case (start s)
  then have "np_connects s = []" "pool_alive s"
    by (auto simp: pool_construct_def internal_thread_start_def casync_alloc_def env_ret_def pool_fresh_def mem_add_def
        pool_alive_def Let_def split: if_splits)
  then show ?case by (simp add: attempts_ok_def gone_ok_def)
next
  case (step s s')
  then show ?case using np_reach_ok [OF step(1) assms(2)] np_reach_left [OF step(1) assms(2)] gone_step by blast
qed

end
