(* ===== verification/Work_Queue.thy ===== *)
theory Work_Queue
  imports Np_Prelude "HOL-Library.Multiset"
begin

text \<open>
  \<open>work_queue.h\<close>: the class \<open>CworkQueue\<close>, a queue of tasks that worker threads run and
  then hand to the deleter pushed with them.

  \<^item> Every critical section of \<open>m_lock\<close> is one step, and so is every call of \<open>run\<close>, of a
    deleter and every start of a thread; the threads interleave freely. A worker's place in
    \<open>worker\<close> and \<open>getNext\<close> is a constructor of \<open>worker_place\<close>.
  \<^item> \<open>m_cv.wait\<close> releases the lock and sleeps in one step; it returns when notified, or
    spuriously. Which sleeper \<open>notify_one\<close> wakes is left open.
  \<^item> A task is any value; \<open>run\<close> and the deleter show as events of a log. What a task does
    is in the theory of the server, which also gives the deleter.
  \<^item> \<open>wq_pushed\<close> and \<open>wq_log\<close> are history: the code has no such fields.
\<close>

section \<open>State\<close>

datatype 'a worker_place =
    In_getNext
  | In_wait
  | Got_task 'a
  | Ran_task 'a
  | Finished

datatype 'a wq_event = Ev_start 'a | Ev_run 'a | Ev_delete 'a

datatype wq_phase = Constructing nat | Live | Failing | Destroying | Thrown | Gone

record 'a work_queue =
  wq_phase :: wq_phase
  wq_exit :: bool
  wq_tasks :: "'a list"
  wq_threads :: "'a worker_place list"
  wq_pushed :: "'a list"
  wq_log :: "'a wq_event list"

definition wq_event :: "'a wq_event \<Rightarrow> 'a work_queue \<Rightarrow> 'a work_queue" where
  "wq_event e q = q\<lparr>wq_log := wq_log q @ [e]\<rparr>"

definition set_place :: "nat \<Rightarrow> 'a worker_place \<Rightarrow> 'a work_queue \<Rightarrow> 'a work_queue" where
  "set_place i p q = q\<lparr>wq_threads := (wq_threads q)[i := p]\<rparr>"

section \<open>The workers\<close>

text \<open>One turn of the loop in \<open>getNext\<close>, from locking to waiting, returning or both.\<close>

definition getNext :: "nat \<Rightarrow> 'a work_queue \<Rightarrow> 'a work_queue" where
  "getNext i q =
     (if wq_exit q then set_place i Finished q
      else case wq_tasks q of
             [] \<Rightarrow> set_place i In_wait q
           | task # rest \<Rightarrow> wq_event (Ev_start task) (set_place i (Got_task task) (q\<lparr>wq_tasks := rest\<rparr>)))"

text \<open>One step of \<open>worker\<close>; a sleeping one only wakes up.\<close>

definition worker :: "nat \<Rightarrow> 'a work_queue \<Rightarrow> 'a work_queue" where
  "worker i q =
     (case wq_threads q ! i of
        In_getNext \<Rightarrow> getNext i q
      | In_wait \<Rightarrow> set_place i In_getNext q
      | Got_task task \<Rightarrow> wq_event (Ev_run task) (set_place i (Ran_task task) q)
      | Ran_task task \<Rightarrow> wq_event (Ev_delete task) (set_place i In_getNext q)
      | Finished \<Rightarrow> q)"

section \<open>The owner\<close>

fun wake :: "'a worker_place \<Rightarrow> 'a worker_place" where
  "wake In_wait = In_getNext"
| "wake p = p"

definition notify_all :: "'a work_queue \<Rightarrow> 'a work_queue" where
  "notify_all q = q\<lparr>wq_threads := map wake (wq_threads q)\<rparr>"

text \<open>\<open>notify_one\<close> wakes the sleeper \<open>i\<close>, when there is any.\<close>

definition may_notify :: "nat option \<Rightarrow> 'a work_queue \<Rightarrow> bool" where
  "may_notify w q =
     (case w of
        None \<Rightarrow> In_wait \<notin> set (wq_threads q)
      | Some i \<Rightarrow> i < length (wq_threads q) \<and> wq_threads q ! i = In_wait)"

definition notify_one :: "nat option \<Rightarrow> 'a work_queue \<Rightarrow> 'a work_queue" where
  "notify_one w q = (case w of None \<Rightarrow> q | Some i \<Rightarrow> set_place i In_getNext q)"

definition setExit :: "'a work_queue \<Rightarrow> 'a work_queue" where
  "setExit q = notify_all (q\<lparr>wq_exit := True\<rparr>)"

definition pushTask :: "'a \<Rightarrow> nat option \<Rightarrow> 'a work_queue \<Rightarrow> 'a work_queue" where
  "pushTask task w q = notify_one w (q\<lparr>wq_tasks := wq_tasks q @ [task], wq_pushed := wq_pushed q @ [task]\<rparr>)"

text \<open>The constructor starts its threads one by one, and takes them back when one fails.\<close>

definition wq_begin :: "nat \<Rightarrow> 'a work_queue" where
  "wq_begin nThread = \<lparr>wq_phase = Constructing nThread, wq_exit = False, wq_tasks = [], wq_threads = [],
     wq_pushed = [], wq_log = []\<rparr>"

definition start_thread :: "bool \<Rightarrow> 'a work_queue \<Rightarrow> 'a work_queue" where
  "start_thread ok q =
     (if ok then q\<lparr>wq_threads := wq_threads q @ [In_getNext]\<rparr> else setExit (q\<lparr>wq_phase := Failing\<rparr>))"

text \<open>The destructor: exit, then join, then the deleters of what is left, in order.\<close>

definition wq_destroy :: "'a work_queue \<Rightarrow> 'a work_queue" where
  "wq_destroy q = setExit (q\<lparr>wq_phase := Destroying\<rparr>)"

definition delete_rest :: "'a work_queue \<Rightarrow> 'a work_queue" where
  "delete_rest q = q\<lparr>wq_phase := Gone, wq_log := wq_log q @ map Ev_delete (wq_tasks q)\<rparr>"

definition all_joined :: "'a work_queue \<Rightarrow> bool" where
  "all_joined q = list_all (\<lambda>p. case p of Finished \<Rightarrow> True | _ \<Rightarrow> False) (wq_threads q)"

section \<open>Steps\<close>

text \<open>
  Tasks are pushed once the constructor has returned, also by tasks that still run while the
  destructor waits for them.
\<close>

inductive wq_step :: "'a work_queue \<Rightarrow> 'a work_queue \<Rightarrow> bool" where
  Step_worker: "i < length (wq_threads q) \<Longrightarrow> wq_threads q ! i \<noteq> Finished \<Longrightarrow> wq_phase q \<noteq> Gone \<Longrightarrow> wq_phase q \<noteq> Thrown \<Longrightarrow>
    wq_step q (worker i q)"
| Step_start: "wq_phase q = Constructing n \<Longrightarrow> length (wq_threads q) < n \<Longrightarrow> wq_step q (start_thread ok q)"
| Step_live: "wq_phase q = Constructing n \<Longrightarrow> length (wq_threads q) = n \<Longrightarrow> wq_step q (q\<lparr>wq_phase := Live\<rparr>)"
| Step_push: "wq_phase q = Live \<or> wq_phase q = Destroying \<Longrightarrow> may_notify w q \<Longrightarrow> wq_step q (pushTask task w q)"
| Step_destroy: "wq_phase q = Live \<Longrightarrow> wq_step q (wq_destroy q)"
| Step_joined: "wq_phase q = Destroying \<Longrightarrow> all_joined q \<Longrightarrow> wq_step q (delete_rest q)"
| Step_thrown: "wq_phase q = Failing \<Longrightarrow> all_joined q \<Longrightarrow> wq_step q (q\<lparr>wq_phase := Thrown\<rparr>)"

inductive wq_reach :: "nat \<Rightarrow> 'a work_queue \<Rightarrow> bool" for n where
  Reach_begin: "wq_reach n (wq_begin n)"
| Reach_step: "wq_reach n q \<Longrightarrow> wq_step q q' \<Longrightarrow> wq_reach n q'"

inductive_cases wq_stepE: "wq_step q q'"

section \<open>What the queue holds\<close>

fun held :: "'a worker_place \<Rightarrow> 'a list" where
  "held (Got_task t) = [t]"
| "held (Ran_task t) = [t]"
| "held _ = []"

fun not_run :: "'a worker_place \<Rightarrow> 'a list" where
  "not_run (Got_task t) = [t]"
| "not_run _ = []"

definition held_tasks :: "'a work_queue \<Rightarrow> 'a multiset" where
  "held_tasks q = mset (concat (map held (wq_threads q)))"

definition not_run_tasks :: "'a work_queue \<Rightarrow> 'a multiset" where
  "not_run_tasks q = mset (concat (map not_run (wq_threads q)))"

definition starts :: "'a wq_event list \<Rightarrow> 'a list" where
  "starts es = concat (map (\<lambda>e. case e of Ev_start t \<Rightarrow> [t] | _ \<Rightarrow> []) es)"

definition runs :: "'a wq_event list \<Rightarrow> 'a list" where
  "runs es = concat (map (\<lambda>e. case e of Ev_run t \<Rightarrow> [t] | _ \<Rightarrow> []) es)"

definition deletes :: "'a wq_event list \<Rightarrow> 'a list" where
  "deletes es = concat (map (\<lambda>e. case e of Ev_delete t \<Rightarrow> [t] | _ \<Rightarrow> []) es)"

lemma events_append [simp]:
  "starts (es @ fs) = starts es @ starts fs" "runs (es @ fs) = runs es @ runs fs" "deletes (es @ fs) = deletes es @ deletes fs"
  by (simp_all add: starts_def runs_def deletes_def)

lemma events_one [simp]:
  "starts [] = []" "runs [] = []" "deletes [] = []"
  "starts [Ev_start t] = [t]" "starts [Ev_run t] = []" "starts [Ev_delete t] = []"
  "runs [Ev_start t] = []" "runs [Ev_run t] = [t]" "runs [Ev_delete t] = []"
  "deletes [Ev_start t] = []" "deletes [Ev_run t] = []" "deletes [Ev_delete t] = [t]"
  by (simp_all add: starts_def runs_def deletes_def)

lemma events_delete_all [simp]:
  "starts (map Ev_delete ts) = []" "runs (map Ev_delete ts) = []" "deletes (map Ev_delete ts) = ts"
  by (induction ts) (simp_all add: starts_def runs_def deletes_def)

lemma mset_concat_update:
  "i < length ps \<Longrightarrow> mset (concat (map f (ps[i := p]))) + mset (f (ps ! i)) = mset (concat (map f ps)) + mset (f p)"
proof (induction ps arbitrary: i)
  case (Cons x ps)
  then show ?case by (cases i) (simp_all add: ac_simps)
qed simp

lemma set_place_held:
  "i < length (wq_threads q) \<Longrightarrow> held_tasks (set_place i p q) + mset (held (wq_threads q ! i)) = held_tasks q + mset (held p)"
  "i < length (wq_threads q) \<Longrightarrow> not_run_tasks (set_place i p q) + mset (not_run (wq_threads q ! i)) = not_run_tasks q + mset (not_run p)"
  by (simp_all add: held_tasks_def not_run_tasks_def set_place_def mset_concat_update)

lemma set_place_fields [simp]:
  "wq_phase (set_place i p q) = wq_phase q" "wq_exit (set_place i p q) = wq_exit q" "wq_tasks (set_place i p q) = wq_tasks q"
  "wq_threads (set_place i p q) = (wq_threads q)[i := p]" "wq_pushed (set_place i p q) = wq_pushed q" "wq_log (set_place i p q) = wq_log q"
  by (simp_all add: set_place_def)

lemma wq_event_fields [simp]:
  "wq_phase (wq_event e q) = wq_phase q" "wq_exit (wq_event e q) = wq_exit q" "wq_tasks (wq_event e q) = wq_tasks q"
  "wq_threads (wq_event e q) = wq_threads q" "wq_pushed (wq_event e q) = wq_pushed q" "wq_log (wq_event e q) = wq_log q @ [e]"
  by (simp_all add: wq_event_def)

lemma held_wake: "held (wake p) = held p" "not_run (wake p) = not_run p"
  by (cases p; simp)+

lemma held_frame [simp]:
  "held_tasks (wq_event e q) = held_tasks q" "held_tasks (setExit q) = held_tasks q"
  "held_tasks (q\<lparr>wq_tasks := ts\<rparr>) = held_tasks q" "held_tasks (q\<lparr>wq_phase := p\<rparr>) = held_tasks q"
  "held_tasks (q\<lparr>wq_pushed := ts\<rparr>) = held_tasks q"
  "not_run_tasks (wq_event e q) = not_run_tasks q" "not_run_tasks (setExit q) = not_run_tasks q"
  "not_run_tasks (q\<lparr>wq_tasks := ts\<rparr>) = not_run_tasks q" "not_run_tasks (q\<lparr>wq_phase := p\<rparr>) = not_run_tasks q"
  "not_run_tasks (q\<lparr>wq_pushed := ts\<rparr>) = not_run_tasks q"
  by (simp_all add: held_tasks_def not_run_tasks_def setExit_def notify_all_def held_wake comp_def)

section \<open>The invariant\<close>

definition wq_counts :: "'a work_queue \<Rightarrow> bool" where
  "wq_counts q \<longleftrightarrow> starts (wq_log q) @ wq_tasks q = wq_pushed q
     \<and> mset (starts (wq_log q)) = not_run_tasks q + mset (runs (wq_log q))
     \<and> mset (deletes (wq_log q)) + held_tasks q = mset (starts (wq_log q)) + (if wq_phase q = Gone then mset (wq_tasks q) else {#})"

definition wq_shape :: "nat \<Rightarrow> 'a work_queue \<Rightarrow> bool" where
  "wq_shape n q \<longleftrightarrow>
     (case wq_phase q of
        Constructing m \<Rightarrow> m = n \<and> \<not> wq_exit q \<and> length (wq_threads q) \<le> n \<and> wq_pushed q = []
      | Live \<Rightarrow> \<not> wq_exit q \<and> length (wq_threads q) = n
      | Failing \<Rightarrow> wq_exit q \<and> length (wq_threads q) < n \<and> wq_pushed q = []
      | Destroying \<Rightarrow> wq_exit q \<and> length (wq_threads q) = n
      | Thrown \<Rightarrow> all_joined q \<and> wq_exit q \<and> wq_pushed q = []
      | Gone \<Rightarrow> all_joined q \<and> wq_exit q)
     \<and> (wq_exit q \<longrightarrow> In_wait \<notin> set (wq_threads q))
     \<and> (\<not> wq_exit q \<longrightarrow> Finished \<notin> set (wq_threads q))
     \<and> (\<not> wq_exit q \<longrightarrow> wq_tasks q \<noteq> [] \<longrightarrow> wq_threads q = [] \<or> (\<exists>p\<in>set (wq_threads q). p \<noteq> In_wait))"

lemma worker_cases:
  assumes "i < length (wq_threads q)" and "wq_threads q ! i \<noteq> Finished"
  obtains (exit) "wq_threads q ! i = In_getNext" "wq_exit q" "worker i q = set_place i Finished q"
  | (sleep) "wq_threads q ! i = In_getNext" "\<not> wq_exit q" "wq_tasks q = []" "worker i q = set_place i In_wait q"
  | (start) t ts where "wq_threads q ! i = In_getNext" "\<not> wq_exit q" "wq_tasks q = t # ts"
      "worker i q = wq_event (Ev_start t) (set_place i (Got_task t) (q\<lparr>wq_tasks := ts\<rparr>))"
  | (woken) "wq_threads q ! i = In_wait" "worker i q = set_place i In_getNext q"
  | (run) t where "wq_threads q ! i = Got_task t" "worker i q = wq_event (Ev_run t) (set_place i (Ran_task t) q)"
  | (delete) t where "wq_threads q ! i = Ran_task t" "worker i q = wq_event (Ev_delete t) (set_place i In_getNext q)"
  using assms by (cases "wq_threads q ! i"; cases "wq_tasks q") (auto simp: worker_def getNext_def)

lemma wq_counts_worker:
  assumes "wq_counts q" and i: "i < length (wq_threads q)" and "wq_threads q ! i \<noteq> Finished" and ph: "wq_phase q \<noteq> Gone"
  shows "wq_counts (worker i q)"
proof -
  note p = set_place_held [OF i]
  from i assms(3) show ?thesis
  proof (cases rule: worker_cases)
    case (start t ts)
    have "i < length (wq_threads (q\<lparr>wq_tasks := ts\<rparr>))" using i by simp
    note p = set_place_held [OF this, of "Got_task t"]
    show ?thesis using start assms(1) ph p by (auto simp: wq_counts_def)
  next
    case (run t)
    then show ?thesis using assms(1) ph p [of "Ran_task t"] by (auto simp: wq_counts_def)
  next
    case (delete t)
    have "held_tasks q = add_mset t (held_tasks (set_place i In_getNext q))" using p(1) [of In_getNext] delete by simp
    then show ?thesis using delete assms(1) ph p(2) [of In_getNext] by (auto simp: wq_counts_def)
  qed (use assms(1) ph p [of Finished] p [of In_wait] p [of In_getNext] in \<open>auto simp: wq_counts_def\<close>)
qed

lemma set_list_update: "i < length ps \<Longrightarrow> x \<in> set (ps[i := p]) \<Longrightarrow> x = p \<or> x \<in> set ps"
  by (meson in_mono insert_iff set_update_subset_insert)

lemma all_joined_iff: "all_joined q \<longleftrightarrow> (\<forall>p\<in>set (wq_threads q). p = Finished)"
proof -
  have "(case p of Finished \<Rightarrow> True | _ \<Rightarrow> False) \<longleftrightarrow> p = Finished" for p :: "'a worker_place" by (cases p) simp_all
  then show ?thesis by (simp add: all_joined_def list_all_iff)
qed

lemma all_joined_held: "all_joined q \<Longrightarrow> held_tasks q = {#} \<and> not_run_tasks q = {#}"
  by (auto simp: all_joined_iff held_tasks_def not_run_tasks_def)

lemma wake_not_wait: "In_wait \<notin> wake ` S"
proof -
  have "wake p \<noteq> In_wait" for p :: "'a worker_place" by (cases p) simp_all
  then show ?thesis by (metis imageE)
qed

lemma setExit_fields [simp]:
  "wq_phase (setExit q) = wq_phase q" "wq_exit (setExit q)" "wq_tasks (setExit q) = wq_tasks q" "wq_log (setExit q) = wq_log q"
  "wq_pushed (setExit q) = wq_pushed q" "length (wq_threads (setExit q)) = length (wq_threads q)"
  "In_wait \<notin> set (wq_threads (setExit q))"
  by (simp_all add: setExit_def notify_all_def wake_not_wait)

lemma wq_shape_event [simp]: "wq_shape n (wq_event e q) = wq_shape n q"
  by (cases "wq_phase q") (simp_all add: wq_shape_def all_joined_def)

text \<open>What a worker leaves unchanged of the shape: it never waits once the exit is set.\<close>

lemma wq_shape_worker:
  assumes ok: "wq_shape n q" and i: "i < length (wq_threads q)" and fin: "wq_threads q ! i \<noteq> Finished"
    and ph: "wq_phase q \<noteq> Gone" "wq_phase q \<noteq> Thrown"
  shows "wq_shape n (worker i q)"
proof -
  have base: "wq_exit q \<longrightarrow> In_wait \<notin> set (wq_threads q)" "\<not> wq_exit q \<longrightarrow> Finished \<notin> set (wq_threads q)"
    using ok by (simp_all add: wq_shape_def)
  have busy: "\<exists>x\<in>set ((wq_threads q)[i := p]). x \<noteq> In_wait" if "p \<noteq> In_wait" for p
    using that i by (metis set_update_memI)
  have place: "wq_shape n (set_place i p q')"
    if "wq_phase q' = wq_phase q" "wq_exit q' = wq_exit q" "wq_threads q' = wq_threads q" "wq_pushed q' = wq_pushed q"
      "wq_exit q \<Longrightarrow> p \<noteq> In_wait" "\<not> wq_exit q \<Longrightarrow> p \<noteq> Finished" "p = In_wait \<Longrightarrow> wq_tasks q' = []" for p q'
    using ok that base busy [of p] ph i set_list_update [OF i] unfolding wq_shape_def
    by (cases "wq_phase q"; cases "wq_exit q") (auto dest!: set_list_update [OF i])
  from i fin show ?thesis
  proof (cases rule: worker_cases)
    case (start t ts)
    then have "wq_shape n (set_place i (Got_task t) (q\<lparr>wq_tasks := ts\<rparr>))" by (intro place) simp_all
    then show ?thesis using start by simp
  next
    case exit
    then show ?thesis using place [of q Finished] by simp
  next
    case sleep
    then show ?thesis using place [of q In_wait] by simp
  next
    case woken
    then show ?thesis using place [of q In_getNext] by simp
  next
    case (run t)
    then have "wq_shape n (set_place i (Ran_task t) q)" by (intro place) simp_all
    then show ?thesis using run by simp
  next
    case (delete t)
    then have "wq_shape n (set_place i In_getNext q)" by (intro place) simp_all
    then show ?thesis using delete by simp
  qed
qed

lemma may_notify_push:
  assumes "may_notify w q" and "In_wait \<notin> set (wq_threads q)"
  shows "w = None"
  using assms by (cases w) (auto simp: may_notify_def dest: nth_mem)

lemma pushTask_fields [simp]:
  "wq_phase (pushTask t w q) = wq_phase q" "wq_exit (pushTask t w q) = wq_exit q" "wq_tasks (pushTask t w q) = wq_tasks q @ [t]"
  "wq_pushed (pushTask t w q) = wq_pushed q @ [t]" "wq_log (pushTask t w q) = wq_log q"
  "wq_threads (pushTask t w q) = (case w of None \<Rightarrow> wq_threads q | Some i \<Rightarrow> (wq_threads q)[i := In_getNext])"
  by (simp_all add: pushTask_def notify_one_def split: option.split)

lemma push_held:
  assumes "may_notify w q"
  shows "held_tasks (pushTask t w q) = held_tasks q" "not_run_tasks (pushTask t w q) = not_run_tasks q"
proof -
  let ?q = "q\<lparr>wq_tasks := wq_tasks q @ [t], wq_pushed := wq_pushed q @ [t]\<rparr>"
  have "held_tasks (pushTask t w q) = held_tasks q \<and> not_run_tasks (pushTask t w q) = not_run_tasks q"
  proof (cases w)
    case (Some i)
    then have "i < length (wq_threads ?q)" "wq_threads ?q ! i = In_wait" using assms by (simp_all add: may_notify_def)
    then show ?thesis using set_place_held [of i ?q In_getNext] Some by (simp add: pushTask_def notify_one_def)
  qed (simp add: pushTask_def notify_one_def)
  then show "held_tasks (pushTask t w q) = held_tasks q" "not_run_tasks (pushTask t w q) = not_run_tasks q" by simp_all
qed

lemma wq_shape_push:
  assumes ok: "wq_shape n q" and ph: "wq_phase q = Live \<or> wq_phase q = Destroying" and w: "may_notify w q"
  shows "wq_shape n (pushTask t w q)"
proof (cases w)
  case None
  then have "In_wait \<notin> set (wq_threads q)" using w by (simp add: may_notify_def)
  then have "wq_threads q = [] \<or> (\<exists>p\<in>set (wq_threads q). p \<noteq> In_wait)" by (cases "wq_threads q") auto
  then show ?thesis using ok ph None by (auto simp: wq_shape_def)
next
  case (Some i)
  then have i: "i < length (wq_threads q)" "wq_threads q ! i = In_wait" using w by (simp_all add: may_notify_def)
  then have "In_wait \<in> set (wq_threads q)" by (metis nth_mem)
  then have "wq_phase q = Live" "\<not> wq_exit q" using ok ph by (auto simp: wq_shape_def)
  moreover have "\<exists>x\<in>set ((wq_threads q)[i := In_getNext]). x \<noteq> In_wait" using i(1) by (metis set_update_memI worker_place.distinct(1))
  ultimately show ?thesis using ok Some i(1) by (auto simp: wq_shape_def dest!: set_list_update [OF i(1)])
qed

lemma wq_inv_step:
  assumes step: "wq_step q q'" and counts: "wq_counts q" and shape: "wq_shape n q"
  shows "wq_counts q' \<and> wq_shape n q'"
  using step
proof (cases rule: wq_step.cases)
  case (Step_worker i)
  then show ?thesis using wq_counts_worker [OF counts] wq_shape_worker [OF shape] by simp
next
  case (Step_start m ok)
  show ?thesis
  proof (cases ok)
    case True
    then show ?thesis using Step_start counts shape
      by (auto simp: start_thread_def wq_counts_def wq_shape_def held_tasks_def not_run_tasks_def)
  next
    case False
    then show ?thesis using Step_start counts shape by (auto simp: start_thread_def wq_counts_def wq_shape_def)
  qed
next
  case (Step_live m)
  then show ?thesis using counts shape by (auto simp: wq_counts_def wq_shape_def)
next
  case (Step_push w t)
  then show ?thesis using counts wq_shape_push [OF shape] push_held [OF Step_push(3)] by (auto simp: wq_counts_def)
next
  case Step_destroy
  then show ?thesis using counts shape by (auto simp: wq_destroy_def wq_counts_def wq_shape_def)
next
  case Step_joined
  then have "held_tasks q = {#}" by (simp add: all_joined_held)
  then show ?thesis using Step_joined counts shape
    by (auto simp: delete_rest_def wq_counts_def wq_shape_def held_tasks_def not_run_tasks_def all_joined_iff)
next
  case Step_thrown
  then show ?thesis using counts shape by (auto simp: wq_counts_def wq_shape_def all_joined_def)
qed

lemma wq_reach_inv: "wq_reach n q \<Longrightarrow> wq_counts q \<and> wq_shape n q"
proof (induction rule: wq_reach.induct)
  case Reach_begin
  show ?case by (simp add: wq_begin_def wq_counts_def wq_shape_def held_tasks_def not_run_tasks_def)
next
  case (Reach_step q q')
  then show ?case using wq_inv_step by blast
qed

section \<open>The interface for the owner of the tasks\<close>

text \<open>
  What the owner of a queue relies on while the queue lives: a task that is pushed belongs to the
  queue, behind all others, and nothing else changes hands.
\<close>

locale task_queue =
  fixes live :: "'q \<Rightarrow> bool" and owned :: "'q \<Rightarrow> 't multiset" and pushed :: "'q \<Rightarrow> 't list"
    and push :: "'t \<Rightarrow> nat option \<Rightarrow> 'q \<Rightarrow> 'q" and may_wake :: "nat option \<Rightarrow> 'q \<Rightarrow> bool"
  assumes push_live: "live q \<Longrightarrow> may_wake w q \<Longrightarrow> live (push t w q)"
    and push_owned: "live q \<Longrightarrow> may_wake w q \<Longrightarrow> owned (push t w q) = add_mset t (owned q)"
    and push_pushed: "live q \<Longrightarrow> may_wake w q \<Longrightarrow> pushed (push t w q) = pushed q @ [t]"
begin

lemma push_all:
  "\<forall>q. may_wake (pick q) q \<Longrightarrow> live q \<Longrightarrow>
   live (fold (\<lambda>t q. push t (pick q) q) ts q) \<and> owned (fold (\<lambda>t q. push t (pick q) q) ts q) = mset ts + owned q
   \<and> pushed (fold (\<lambda>t q. push t (pick q) q) ts q) = pushed q @ ts"
proof (induction ts arbitrary: q)
  case (Cons t ts)
  then have q: "live q" "may_wake (pick q) q" by simp_all
  show ?case
    using Cons.IH [OF Cons.prems(1) push_live [OF q]] push_owned [OF q] push_pushed [OF q] by simp
qed simp

end

definition queue_owned :: "'a work_queue \<Rightarrow> 'a multiset" where
  "queue_owned q = (if wq_phase q = Gone then {#} else mset (wq_tasks q) + held_tasks q)"

interpretation wq: task_queue "\<lambda>q. wq_reach n q \<and> wq_phase q = Live" queue_owned wq_pushed pushTask may_notify
proof unfold_locales
  fix q :: "'a work_queue" and w t
  assume q: "wq_reach n q \<and> wq_phase q = Live" and w: "may_notify w q"
  have "wq_step q (pushTask t w q)" by (rule Step_push) (use q w in simp_all)
  then show "wq_reach n (pushTask t w q) \<and> wq_phase (pushTask t w q) = Live" using q Reach_step by auto
  show "queue_owned (pushTask t w q) = add_mset t (queue_owned q)" using q push_held(1) [OF w] by (simp add: queue_owned_def)
  show "wq_pushed (pushTask t w q) = wq_pushed q @ [t]" by simp
qed

section \<open>Progress\<close>

inductive worker_steps :: "'a work_queue \<Rightarrow> 'a work_queue \<Rightarrow> bool" where
  Workers_done: "worker_steps q q"
| Workers_more: "i < length (wq_threads q) \<Longrightarrow> wq_threads q ! i \<noteq> Finished \<Longrightarrow> worker_steps (worker i q) q' \<Longrightarrow> worker_steps q q'"

fun place_rank :: "'a worker_place \<Rightarrow> nat" where
  "place_rank Finished = 0"
| "place_rank In_getNext = 1"
| "place_rank (Ran_task t) = 2"
| "place_rank (Got_task t) = 3"
| "place_rank In_wait = 2"

definition exit_rank :: "'a work_queue \<Rightarrow> nat" where
  "exit_rank q = sum_list (map place_rank (wq_threads q))"

lemma exit_rank_place:
  "i < length (wq_threads q) \<Longrightarrow>
   exit_rank (set_place i p q) + place_rank (wq_threads q ! i) = exit_rank q + place_rank p"
proof -
  have "i < length ps \<Longrightarrow> sum_list (map place_rank (ps[i := p])) + place_rank (ps ! i) = sum_list (map place_rank ps) + place_rank p" for ps
  proof (induction ps arbitrary: i)
    case (Cons x ps)
    then show ?case by (cases i) (auto simp: ac_simps)
  qed simp
  then show "i < length (wq_threads q) \<Longrightarrow> ?thesis" by (simp add: exit_rank_def)
qed

lemma exit_rank_worker:
  assumes "wq_exit q" and i: "i < length (wq_threads q)" and "wq_threads q ! i \<noteq> Finished"
  shows "exit_rank (worker i q) < exit_rank q"
proof -
  have ev: "exit_rank (wq_event e q') = exit_rank q'" for e and q' :: "'a work_queue" by (simp add: exit_rank_def)
  from i assms(3) show ?thesis
  proof (cases rule: worker_cases)
    case (run t)
    then show ?thesis using exit_rank_place [OF i, of "Ran_task t"] by (simp add: ev)
  next
    case (delete t)
    then show ?thesis using exit_rank_place [OF i, of In_getNext] by (simp add: ev)
  qed (use assms(1) exit_rank_place [OF i, of Finished] exit_rank_place [OF i, of In_getNext] in simp_all)
qed

lemma worker_exit [simp]: "wq_exit (worker i q) = wq_exit q" "wq_phase (worker i q) = wq_phase q" "length (wq_threads (worker i q)) = length (wq_threads q)"
  by (cases "wq_threads q ! i"; cases "wq_tasks q"; simp add: worker_def getNext_def)+

text \<open>When the exit is set, the workers finish on their own.\<close>

lemma exit_joins:
  assumes "wq_exit q"
  shows "\<exists>q'. worker_steps q q' \<and> all_joined q' \<and> wq_phase q' = wq_phase q"
  using assms
proof (induction "exit_rank q" arbitrary: q rule: less_induct)
  case less
  show ?case
  proof (cases "all_joined q")
    case True
    then show ?thesis using Workers_done by blast
  next
    case False
    then obtain i where i: "i < length (wq_threads q)" "wq_threads q ! i \<noteq> Finished"
      by (auto simp: all_joined_iff in_set_conv_nth)
    obtain q' where "worker_steps (worker i q) q'" "all_joined q'" "wq_phase q' = wq_phase (worker i q)"
      using less.hyps [OF exit_rank_worker [OF less.prems i]] less.prems by auto
    then show ?thesis using Workers_more [OF i] by auto
  qed
qed

section \<open>Properties\<close>

text \<open>
  C13: Every task that was pushed is accounted for: tasks start in the order they were pushed, each
  is in the queue, with one worker, or deleted, exactly once; only started tasks are run, each
  once; and when the queue is gone, each has been deleted exactly once, also those never run.
\<close>

theorem tasks_exactly_once:
  assumes "wq_reach n q"
  shows "starts (wq_log q) @ wq_tasks q = wq_pushed q
    \<and> mset (runs (wq_log q)) \<subseteq># mset (starts (wq_log q))
    \<and> (wq_phase q \<noteq> Gone \<longrightarrow> mset (wq_pushed q) = mset (wq_tasks q) + held_tasks q + mset (deletes (wq_log q)))
    \<and> (wq_phase q = Gone \<longrightarrow> mset (deletes (wq_log q)) = mset (wq_pushed q) \<and> mset (runs (wq_log q)) = mset (starts (wq_log q)))"
proof -
  have c: "starts (wq_log q) @ wq_tasks q = wq_pushed q" "mset (starts (wq_log q)) = not_run_tasks q + mset (runs (wq_log q))"
    "mset (deletes (wq_log q)) + held_tasks q = mset (starts (wq_log q)) + (if wq_phase q = Gone then mset (wq_tasks q) else {#})"
    and shape: "wq_shape n q"
    using wq_reach_inv [OF assms] by (simp_all add: wq_counts_def)
  have pushed: "mset (wq_pushed q) = mset (starts (wq_log q)) + mset (wq_tasks q)" by (simp flip: c(1))
  show ?thesis
  proof (cases "wq_phase q = Gone")
    case True
    then have "held_tasks q = {#}" "not_run_tasks q = {#}" using shape all_joined_held by (auto simp: wq_shape_def)
    then show ?thesis using True c pushed by simp
  next
    case False
    then show ?thesis using c pushed by (simp add: ac_simps)
  qed
qed

text \<open>
  C25: No wake-up is lost: while there is a task in the queue and the queue lives, some worker is
  not asleep, and steps of the workers alone lead to the first task being started. It takes at
  least one thread: without any the tasks stay where they are.
\<close>

theorem first_task_starts:
  assumes "wq_reach n q" and "wq_phase q = Live" and "0 < n" and "wq_tasks q = t # ts"
  shows "(\<exists>p\<in>set (wq_threads q). p \<noteq> In_wait) \<and> (\<exists>q'. worker_steps q q' \<and> starts (wq_log q') = starts (wq_log q) @ [t] \<and> wq_tasks q' = ts)"
proof -
  have s: "\<not> wq_exit q" "length (wq_threads q) = n" "Finished \<notin> set (wq_threads q)" "wq_threads q = [] \<or> (\<exists>p\<in>set (wq_threads q). p \<noteq> In_wait)"
    using wq_reach_inv [OF assms(1)] assms(2,4) by (simp_all add: wq_shape_def)
  then have awake: "\<exists>p\<in>set (wq_threads q). p \<noteq> In_wait" using assms(3) by auto
  then obtain i where i: "i < length (wq_threads q)" "wq_threads q ! i \<noteq> In_wait" "wq_threads q ! i \<noteq> Finished"
    using s(3) by (metis in_set_conv_nth)
  have idle: "\<exists>q'. worker_steps g q' \<and> starts (wq_log q') = starts (wq_log g) @ [t] \<and> wq_tasks q' = ts"
    if "wq_threads g ! i = In_getNext" "\<not> wq_exit g" "wq_tasks g = t # ts" "i < length (wq_threads g)" for g
    using that Workers_more [OF _ _ Workers_done, of i g]
    by (intro exI [of _ "worker i g"]) (simp add: worker_def getNext_def)
  have ran: "\<exists>q'. worker_steps g q' \<and> starts (wq_log q') = starts (wq_log g) @ [t] \<and> wq_tasks q' = ts"
    if "wq_threads g ! i = Ran_task x" "\<not> wq_exit g" "wq_tasks g = t # ts" "i < length (wq_threads g)" for g x
    using that idle [of "worker i g"] Workers_more [of i g] by (fastforce simp: worker_def)
  have got: "\<exists>q'. worker_steps g q' \<and> starts (wq_log q') = starts (wq_log g) @ [t] \<and> wq_tasks q' = ts"
    if "wq_threads g ! i = Got_task x" "\<not> wq_exit g" "wq_tasks g = t # ts" "i < length (wq_threads g)" for g x
    using that ran [of "worker i g" x] Workers_more [of i g] by (fastforce simp: worker_def)
  show ?thesis
    using awake i s(1) assms(4) idle ran got by (cases "wq_threads q ! i") auto
qed

text \<open>
  C24: The destructor returns: once the exit is set nobody sleeps, every step of a worker brings it
  nearer to its end, and with no help from outside all workers come to be joined.
\<close>

theorem exit_terminates:
  assumes "wq_reach n q" and "wq_exit q"
  shows "In_wait \<notin> set (wq_threads q)
    \<and> (\<forall>i<length (wq_threads q). wq_threads q ! i \<noteq> Finished \<longrightarrow> exit_rank (worker i q) < exit_rank q)
    \<and> (\<exists>q'. worker_steps q q' \<and> all_joined q' \<and> wq_phase q' = wq_phase q) \<and> exit_rank q \<le> 3 * n"
proof -
  have s: "In_wait \<notin> set (wq_threads q)" "length (wq_threads q) \<le> n \<or> all_joined q"
    using wq_reach_inv [OF assms(1)] assms(2) by (auto simp: wq_shape_def split: wq_phase.splits)
  have "place_rank p \<le> 3" for p :: "'a worker_place" by (cases p) simp_all
  then have "sum_list (map place_rank ps) \<le> 3 * length ps" for ps :: "'a worker_place list"
    by (induction ps) (simp_all add: add_mono)
  then have "exit_rank q \<le> 3 * length (wq_threads q)" by (simp add: exit_rank_def)
  moreover have "all_joined q \<Longrightarrow> exit_rank q = 0" by (auto simp: exit_rank_def all_joined_iff)
  ultimately have "exit_rank q \<le> 3 * n" using s(2) by (cases "all_joined q") auto
  then show ?thesis using s(1) exit_rank_worker [OF assms(2)] exit_joins [OF assms(2)] by blast
qed

section \<open>Refinement\<close>

text \<open>
  The contract of a queue of tasks: what is still to do, in order, what is being done, and what
  is over.
\<close>

type_synonym 'a todo = "'a list \<times> 'a multiset \<times> 'a multiset"

inductive todo_step :: "'a todo \<Rightarrow> 'a todo \<Rightarrow> bool" where
  Todo_add: "todo_step (ts, busy, over) (ts @ [t], busy, over)"
| Todo_start: "todo_step (t # ts, busy, over) (ts, add_mset t busy, over)"
| Todo_finish: "todo_step (ts, add_mset t busy, over) (ts, busy, add_mset t over)"
| Todo_drop: "todo_step (ts, {#}, over) ([], {#}, over + mset ts)"

definition todo_of :: "'a work_queue \<Rightarrow> 'a todo" where
  "todo_of q = (if wq_phase q = Gone then [] else wq_tasks q, held_tasks q, mset (deletes (wq_log q)))"

section \<open>Witnesses\<close>

text \<open>One thread; task 7 is pushed and taken, then task 8 is pushed and the queue destroyed.\<close>

definition demo_live :: "nat work_queue" where
  "demo_live = (start_thread True (wq_begin 1))\<lparr>wq_phase := Live\<rparr>"

definition demo_pushed :: "nat work_queue" where
  "demo_pushed = pushTask 7 None demo_live"

definition demo_exit :: "nat work_queue" where
  "demo_exit = wq_destroy (pushTask 8 None (worker 0 demo_pushed))"

lemma demo_queue_reach: "wq_reach 1 demo_pushed" "wq_reach 1 demo_exit"
proof -
  have "wq_reach 1 (start_thread True (wq_begin 1 :: nat work_queue))"
    by (rule Reach_step [OF Reach_begin Step_start [where n = 1]]) (simp_all add: wq_begin_def)
  then have live: "wq_reach 1 demo_live"
    unfolding demo_live_def by (rule Reach_step [OF _ Step_live [where n = 1]]) (simp_all add: wq_begin_def start_thread_def)
  show pushed: "wq_reach 1 demo_pushed"
    unfolding demo_pushed_def
    by (rule Reach_step [OF live Step_push]) (simp_all add: demo_live_def may_notify_def wq_begin_def start_thread_def)
  have taken: "wq_reach 1 (worker 0 demo_pushed)"
    by (rule Reach_step [OF pushed Step_worker]) (simp_all add: demo_pushed_def demo_live_def wq_begin_def start_thread_def)
  have "wq_reach 1 (pushTask 8 None (worker 0 demo_pushed))"
    by (rule Reach_step [OF taken Step_push])
       (simp_all add: demo_pushed_def demo_live_def may_notify_def wq_begin_def start_thread_def worker_def getNext_def)
  then show "wq_reach 1 demo_exit"
    unfolding demo_exit_def
    by (rule Reach_step [OF _ Step_destroy]) (simp add: demo_pushed_def demo_live_def)
qed

lemma demo_queue_fields:
  "wq_phase demo_pushed = Live" "wq_tasks demo_pushed = [7]" "wq_log demo_pushed = []"
  "wq_exit demo_exit" "wq_tasks demo_exit = [8]" "wq_log demo_exit = [Ev_start 7]" "wq_pushed demo_exit = [7, 8]" "wq_phase demo_exit = Destroying"
  by code_simp+

theorem tasks_exactly_once_witness:
  "starts (wq_log demo_exit) @ wq_tasks demo_exit = [7, 8] \<and> held_tasks demo_exit = {#7#}"
  using tasks_exactly_once [OF demo_queue_reach(2)] by (simp add: demo_queue_fields)

theorem first_task_starts_witness:
  "\<exists>q'. worker_steps demo_pushed q' \<and> starts (wq_log q') = [7]"
  using first_task_starts [OF demo_queue_reach(1), of 7 "[]"] by (auto simp: demo_queue_fields)

theorem exit_terminates_witness:
  "In_wait \<notin> set (wq_threads demo_exit) \<and> (\<exists>q'. worker_steps demo_exit q' \<and> all_joined q')"
  using exit_terminates [OF demo_queue_reach(2) demo_queue_fields(4)] by blast


end
