(* ===== verification/Http_Server.thy ===== *)
theory Http_Server
  imports Http_Stream Network_Node Work_Queue
begin

text \<open>
  \<open>http_server.h\<close> and \<open>http_server.cpp\<close>: the class \<open>ChttpServer\<close>, which is called back by
  the network pool and feeds one \<open>ChttpContext\<close> per connection, and \<open>ChttpTask\<close>, which
  answers one message in a worker thread.

  \<^item> A task is known by its address, a number; \<open>hs_objects\<close> holds the live ones. \<open>m_tasks\<close>
    is a multimap: the list of its pairs, in any order.
  \<^item> Calls to the pool are kept in \<open>hs_calls\<close> in order. What the pool does with them is the
    model of the pool.
  \<^item> Whether an allocation succeeds, what a fresh block holds and what the uninitialised fields
    of a new context hold is asked of \<open>hs_mem\<close>, \<open>hs_fresh\<close> and \<open>hs_garbage\<close>, one answer
    per question.
  \<^item> The first thing that goes wrong is kept in \<open>hs_fault\<close>: a dangling pointer, undefined
    behaviour of the parser, a request line that \<open>getInfo\<close> cannot read, or an exception that
    leaves a callback.
\<close>

section \<open>State\<close>

type_synonym tid = nat

record http_task =
  ht_canceled :: bool
  ht_node :: network_node
  ht_context :: http_ctx

datatype pool_call = Call_send network_node bytes | Call_close network_node

datatype server_fault = Fault_dangling | Fault_parser | Fault_request_line | Fault_exception

record http_server =
  hs_contexts :: "(network_node, http_ctx) umap"
  hs_pool :: bool
  hs_tasks :: "(network_node \<times> tid) list"
  hs_objects :: "(tid, http_task) umap"
  hs_next :: tid
  hs_queue :: "tid work_queue"
  hs_calls :: "pool_call list"
  hs_live :: int
  hs_fault :: "server_fault option"
  hs_tick :: nat
  hs_mem :: "nat \<Rightarrow> bool"
  hs_fresh :: "nat \<Rightarrow> nat \<Rightarrow> u8"
  hs_garbage :: "nat \<Rightarrow> http_ctx"

definition srv_fault :: "server_fault \<Rightarrow> http_server \<Rightarrow> http_server" where
  "srv_fault f s = (case hs_fault s of None \<Rightarrow> s\<lparr>hs_fault := Some f\<rparr> | Some _ \<Rightarrow> s)"

definition srv_call :: "pool_call \<Rightarrow> http_server \<Rightarrow> http_server" where
  "srv_call c s = s\<lparr>hs_calls := hs_calls s @ [c]\<rparr>"

definition srv_tick :: "http_server \<Rightarrow> http_server" where
  "srv_tick s = s\<lparr>hs_tick := hs_tick s + 1\<rparr>"

definition upd_object :: "tid \<Rightarrow> (http_task \<Rightarrow> http_task) \<Rightarrow> http_server \<Rightarrow> http_server" where
  "upd_object t f s =
     (case um_find t (hs_objects s) of
        None \<Rightarrow> srv_fault Fault_dangling s
      | Some obj \<Rightarrow> s\<lparr>hs_objects := AList.update t (f obj) (hs_objects s)\<rparr>)"

definition held_block :: "http_ctx \<Rightarrow> int" where
  "held_block h = buf_held (h_buffer h)"

section \<open>The table of tasks\<close>

definition addReferenceTask :: "network_node \<Rightarrow> tid \<Rightarrow> http_server \<Rightarrow> http_server" where
  "addReferenceTask node t s = s\<lparr>hs_tasks := (node, t) # hs_tasks s\<rparr>"

definition deleteReferenceTask :: "network_node \<Rightarrow> tid \<Rightarrow> http_server \<Rightarrow> http_server" where
  "deleteReferenceTask node t s = s\<lparr>hs_tasks := remove1 (node, t) (hs_tasks s)\<rparr>"

definition task_cancel :: "tid \<Rightarrow> http_server \<Rightarrow> http_server" where
  "task_cancel t s = upd_object t (\<lambda>obj. obj\<lparr>ht_canceled := True\<rparr>) s"

definition cancelTask :: "network_node \<Rightarrow> http_server \<Rightarrow> http_server" where
  "cancelTask node s = fold (\<lambda>(n, t) s. if n = node then task_cancel t s else s) (hs_tasks s) s"

section \<open>Tasks\<close>

definition maxBufferSize_default :: nat where
  "maxBufferSize_default = 0x1000000"

text \<open>\<open>_new_no_throw<ChttpTask>\<close>: \<open>None\<close> for a null pointer.\<close>

definition task_new :: "network_node \<Rightarrow> http_server \<Rightarrow> tid option \<times> http_server" where
  "task_new node s =
     (if hs_mem s (hs_tick s)
      then let t = hs_next s;
               obj = \<lparr>ht_canceled = False, ht_node = node,
                      ht_context = http_new maxBufferSize_default (hs_garbage s (hs_tick s))\<rparr>;
               s = srv_tick s\<lparr>hs_next := t + 1, hs_objects := (t, obj) # hs_objects s\<rparr>
           in (Some t, addReferenceTask node t s)
      else (None, srv_tick s))"

text \<open>The deleter: the destructor, which also frees the buffer of the context, and the block.\<close>

definition task_delete :: "tid \<Rightarrow> http_server \<Rightarrow> http_server" where
  "task_delete t s =
     (case um_find t (hs_objects s) of
        None \<Rightarrow> srv_fault Fault_dangling s
      | Some obj \<Rightarrow>
          let s = deleteReferenceTask (ht_node obj) t s
          in s\<lparr>hs_objects := AList.delete t (hs_objects s), hs_live := hs_live s - held_block (ht_context obj)\<rparr>)"

definition task_response :: bytes where
  "task_response =
     ascii ''HTTP/1.1 200 OK'' @ [CR, LF] @ ascii ''Connection:Keep-Alive'' @ [CR, LF]
     @ ascii ''Content-Length: 600'' @ [CR, LF, CR, LF] @ concat (replicate 60 (ascii ''0123456789''))"

definition task_run :: "tid \<Rightarrow> http_server \<Rightarrow> http_server" where
  "task_run t s =
     (case um_find t (hs_objects s) of
        None \<Rightarrow> srv_fault Fault_dangling s
      | Some obj \<Rightarrow>
          if ht_canceled obj then s
          else case getInfo (ht_context obj) of
                 None \<Rightarrow> srv_fault Fault_request_line s
               | Some _ \<Rightarrow>
                   if hs_pool s
                   then let s = srv_call (Call_send (ht_node obj) task_response) s
                        in if isKeepAlive (ht_context obj) then s else srv_call (Call_close (ht_node obj)) s
                   else s)"

section \<open>Callbacks of the pool\<close>

definition setNetworkPool :: "bool \<Rightarrow> http_server \<Rightarrow> http_server" where
  "setNetworkPool pool s = s\<lparr>hs_pool := pool\<rparr>"

text \<open>The place for the next bytes of a node; for an unknown one the pool's variables stay as they are.\<close>

definition allocateMemoryForMessage :: "network_node \<Rightarrow> http_server \<Rightarrow> (nat \<times> nat) option \<times> http_server" where
  "allocateMemoryForMessage node s =
     (case um_find node (hs_contexts s) of
        None \<Rightarrow> (None, s)
      | Some ctx \<Rightarrow>
          let (r, place, ctx, live) = prepareBuffer (hs_mem s (hs_tick s)) (hs_fresh s (hs_tick s)) ctx (hs_live s);
              s = srv_tick s\<lparr>hs_contexts := AList.update node ctx (hs_contexts s), hs_live := live\<rparr>
          in if r = Buf_undefined then (None, srv_fault Fault_parser s)
             else if r = Buf_throw then (None, srv_fault Fault_exception s)
             else (place, s))"

text \<open>
  \<open>reinitForNext\<close> of the connection's context into the one of the new task, and
  \<open>pushTask\<close>; \<open>pick\<close> is the sleeper that the queue's \<open>notify_one\<close> wakes.
\<close>

definition hand_over ::
  "(tid work_queue \<Rightarrow> nat option) \<Rightarrow> tid \<Rightarrow> http_ctx \<Rightarrow> http_server \<Rightarrow> http_ctx \<times> http_server"
where
  "hand_over pick t ctx s =
     (case um_find t (hs_objects s) of
        None \<Rightarrow> (ctx, srv_fault Fault_dangling s)
      | Some obj \<Rightarrow>
          let (ret, r, ctx, former, live) =
                reinitForNext (hs_mem s (hs_tick s)) (hs_fresh s (hs_tick s)) ctx (ht_context obj) (hs_live s);
              s = upd_object t (\<lambda>obj. obj\<lparr>ht_context := former\<rparr>) (srv_tick s\<lparr>hs_live := live\<rparr>)
          in if r = Buf_undefined then (ctx, srv_fault Fault_parser s)
             else if r = Buf_throw then (ctx, srv_fault Fault_exception s)
             else (ctx, s\<lparr>hs_queue := pushTask t (pick (hs_queue s)) (hs_queue s)\<rparr>))"

text \<open>The loop of \<open>message\<close>; \<open>None\<close> when it does not return.\<close>

partial_function (option) message_loop ::
  "(tid work_queue \<Rightarrow> nat option) \<Rightarrow> network_node \<Rightarrow> http_ctx \<Rightarrow> http_server \<Rightarrow> (http_ctx \<times> http_server) option"
where
  "message_loop pick node ctx s =
     (case http_analysis ctx of
        (None, ctx) \<Rightarrow> Some (ctx, srv_fault Fault_parser s)
      | (Some done, ctx) \<Rightarrow>
          if \<not> done then Some (ctx, s)
          else if isGood ctx \<and> hs_pool s
          then (case task_new node s of
                  (None, s) \<Rightarrow> Some (ctx, srv_call (Call_close node) s)
                | (Some t, s) \<Rightarrow>
                    (case hand_over pick t ctx s of
                       (ctx, s) \<Rightarrow> if hs_fault s \<noteq> None then Some (ctx, s) else message_loop pick node ctx s))
          else if hs_pool s then Some (ctx, srv_call (Call_close node) s)
          else Some (ctx, s))"

definition message ::
  "(tid work_queue \<Rightarrow> nat option) \<Rightarrow> network_node \<Rightarrow> nat \<Rightarrow> http_server \<Rightarrow> http_server option"
where
  "message pick node len s =
     (case um_find node (hs_contexts s) of
        None \<Rightarrow> Some s
      | Some ctx \<Rightarrow>
          (case message_loop pick node (recvPush len ctx) s of
             None \<Rightarrow> None
           | Some (ctx, s) \<Rightarrow> Some (s\<lparr>hs_contexts := AList.update node ctx (hs_contexts s)\<rparr>)))"

definition connectionStatus :: "network_node \<Rightarrow> bool \<Rightarrow> http_server \<Rightarrow> http_server" where
  "connectionStatus node bSuccess s =
     (if bSuccess
      then srv_tick s\<lparr>hs_contexts :=
             fst (um_insert node (http_new maxBufferSize_default (hs_garbage s (hs_tick s))) (hs_contexts s))\<rparr>
      else let held = (case um_find node (hs_contexts s) of None \<Rightarrow> 0 | Some ctx \<Rightarrow> held_block ctx)
           in cancelTask node (s\<lparr>hs_contexts := fst (um_erase node (hs_contexts s)), hs_live := hs_live s - held\<rparr>))"

section \<open>Life of a server\<close>

definition server_new ::
  "nat \<Rightarrow> bool \<Rightarrow> (nat \<Rightarrow> bool) \<Rightarrow> (nat \<Rightarrow> nat \<Rightarrow> u8) \<Rightarrow> (nat \<Rightarrow> http_ctx) \<Rightarrow> http_server"
where
  "server_new nThread pool mem fresh garbage =
     \<lparr>hs_contexts = [], hs_pool = pool, hs_tasks = [], hs_objects = [], hs_next = 0, hs_queue = wq_begin nThread,
      hs_calls = [], hs_live = 0, hs_fault = None, hs_tick = 0, hs_mem = mem, hs_fresh = fresh, hs_garbage = garbage\<rparr>"

text \<open>A step of a worker, with the task's own code where the queue calls it.\<close>

definition server_worker :: "nat \<Rightarrow> http_server \<Rightarrow> http_server" where
  "server_worker i s =
     (let s = (case wq_threads (hs_queue s) ! i of
                 Got_task t \<Rightarrow> task_run t s
               | Ran_task t \<Rightarrow> task_delete t s
               | _ \<Rightarrow> s)
      in s\<lparr>hs_queue := worker i (hs_queue s)\<rparr>)"

text \<open>The end of the destructor: the queue goes first, with the tasks left in it.\<close>

definition server_joined :: "http_server \<Rightarrow> http_server" where
  "server_joined s =
     (let s = fold task_delete (wq_tasks (hs_queue s)) s;
          s = s\<lparr>hs_queue := delete_rest (hs_queue s)\<rparr>
      in s\<lparr>hs_live := hs_live s - sum_list (map (\<lambda>(_, ctx). held_block ctx) (hs_contexts s)), hs_contexts := []\<rparr>)"

text \<open>
  What libuv does between the two callbacks of a read: it writes the bytes at the place that
  \<open>allocateMemoryForMessage\<close> gave.
\<close>

definition server_write :: "network_node \<Rightarrow> bytes \<Rightarrow> http_server \<Rightarrow> http_server" where
  "server_write node bs s =
     (case um_find node (hs_contexts s) of
        None \<Rightarrow> s
      | Some ctx \<Rightarrow> s\<lparr>hs_contexts := AList.update node (http_write bs ctx) (hs_contexts s)\<rparr>)"

text \<open>
  The steps of a server: its constructor and destructor, the callbacks, which run in the thread
  of the pool one after the other, and the workers, which run beside them. Callbacks come while
  the server exists. After a fault there is no step.
\<close>

definition with_queue :: "tid work_queue \<Rightarrow> http_server \<Rightarrow> http_server" where
  "with_queue q s = s\<lparr>hs_queue := q\<rparr>"

definition srv_live :: "http_server \<Rightarrow> bool" where
  "srv_live s \<longleftrightarrow> hs_fault s = None \<and> wq_phase (hs_queue s) = Live"

inductive server_step :: "http_server \<Rightarrow> http_server \<Rightarrow> bool" where
  Srv_start: "hs_fault s = None \<Longrightarrow> wq_phase (hs_queue s) = Constructing n \<Longrightarrow> length (wq_threads (hs_queue s)) < n \<Longrightarrow>
    server_step s (with_queue (start_thread ok (hs_queue s)) s)"
| Srv_constructed: "hs_fault s = None \<Longrightarrow> wq_phase (hs_queue s) = Constructing n \<Longrightarrow> length (wq_threads (hs_queue s)) = n \<Longrightarrow>
    server_step s (with_queue (hs_queue s\<lparr>wq_phase := Live\<rparr>) s)"
| Srv_thrown: "hs_fault s = None \<Longrightarrow> wq_phase (hs_queue s) = Failing \<Longrightarrow> all_joined (hs_queue s) \<Longrightarrow>
    server_step s (with_queue (hs_queue s\<lparr>wq_phase := Thrown\<rparr>) s)"
| Srv_pool: "srv_live s \<Longrightarrow> server_step s (setNetworkPool pool s)"
| Srv_status: "srv_live s \<Longrightarrow> server_step s (connectionStatus node bSuccess s)"
| Srv_allocate: "srv_live s \<Longrightarrow> allocateMemoryForMessage node s = (place, s') \<Longrightarrow> server_step s s'"
| Srv_receive: "srv_live s \<Longrightarrow> allocateMemoryForMessage node s = (Some (pos, room), s1) \<Longrightarrow> length bs \<le> room \<Longrightarrow>
    \<forall>q. may_notify (pick q) q \<Longrightarrow> message pick node (length bs) (server_write node bs s1) = Some s' \<Longrightarrow> server_step s s'"
| Srv_worker: "hs_fault s = None \<Longrightarrow> wq_phase (hs_queue s) \<noteq> Gone \<Longrightarrow> wq_phase (hs_queue s) \<noteq> Thrown \<Longrightarrow>
    i < length (wq_threads (hs_queue s)) \<Longrightarrow> wq_threads (hs_queue s) ! i \<noteq> Finished \<Longrightarrow> server_step s (server_worker i s)"
| Srv_destroy: "srv_live s \<Longrightarrow> server_step s (with_queue (wq_destroy (hs_queue s)) s)"
| Srv_joined: "hs_fault s = None \<Longrightarrow> wq_phase (hs_queue s) = Destroying \<Longrightarrow> all_joined (hs_queue s) \<Longrightarrow> server_step s (server_joined s)"

inductive server_reach ::
  "nat \<Rightarrow> (nat \<Rightarrow> bool) \<Rightarrow> (nat \<Rightarrow> nat \<Rightarrow> u8) \<Rightarrow> (nat \<Rightarrow> http_ctx) \<Rightarrow> http_server \<Rightarrow> bool" for nThread mem fresh garbage
where
  Server_new: "server_reach nThread mem fresh garbage (server_new nThread False mem fresh garbage)"
| Server_step: "server_reach nThread mem fresh garbage s \<Longrightarrow> server_step s s' \<Longrightarrow> server_reach nThread mem fresh garbage s'"

end
