(* ===== verification/Server_Invariant.thy ===== *)
theory Server_Invariant
  imports Http_Server Http_Properties
begin

text \<open>
  The invariant of \<open>ChttpServer\<close>: its table of tasks, the live task objects and the tasks in
  the work queue are the same, every context can receive, and the blocks held are exactly those
  of the contexts. Every callback and every step of a worker keeps it.
\<close>

section \<open>The invariant\<close>

definition task_ok :: "http_task \<Rightarrow> bool" where
  "task_ok obj \<longleftrightarrow> http_ok (ht_context obj) \<and> h_state (ht_context obj) = State_done"

definition contexts_block :: "(network_node, http_ctx) umap \<Rightarrow> int" where
  "contexts_block m = sum_list (map (\<lambda>(_, ctx). held_block ctx) m)"

definition objects_block :: "(tid, http_task) umap \<Rightarrow> int" where
  "objects_block m = sum_list (map (\<lambda>(_, obj). held_block (ht_context obj)) m)"

definition objects_pairs :: "(tid, http_task) umap \<Rightarrow> (network_node \<times> tid) multiset" where
  "objects_pairs m = mset (map (\<lambda>(t, obj). (ht_node obj, t)) m)"

text \<open>The tables, and the tasks \<open>ts\<close> that have an owner in the queue.\<close>

definition tables_ok :: "tid multiset \<Rightarrow> http_server \<Rightarrow> bool" where
  "tables_ok ts s \<longleftrightarrow> um_ok (hs_contexts s) \<and> (\<forall>x\<in>set (hs_contexts s). http_ready (snd x))
     \<and> um_ok (hs_objects s) \<and> (\<forall>t\<in>set (map fst (hs_objects s)). t < hs_next s)
     \<and> mset (hs_tasks s) = objects_pairs (hs_objects s)
     \<and> mset (map fst (hs_objects s)) = ts
     \<and> hs_live s = contexts_block (hs_contexts s) + objects_block (hs_objects s)"

definition srv_ok :: "http_server \<Rightarrow> bool" where
  "srv_ok s \<longleftrightarrow> tables_ok (queue_owned (hs_queue s)) s \<and> (\<forall>x\<in>set (hs_objects s). task_ok (snd x))"

lemma srv_fields [simp]:
  "hs_contexts (srv_call c s) = hs_contexts s" "hs_objects (srv_call c s) = hs_objects s" "hs_tasks (srv_call c s) = hs_tasks s"
  "hs_next (srv_call c s) = hs_next s" "hs_queue (srv_call c s) = hs_queue s" "hs_live (srv_call c s) = hs_live s"
  "hs_fault (srv_call c s) = hs_fault s" "hs_pool (srv_call c s) = hs_pool s" "hs_mem (srv_call c s) = hs_mem s"
  "hs_contexts (srv_tick s) = hs_contexts s" "hs_objects (srv_tick s) = hs_objects s" "hs_tasks (srv_tick s) = hs_tasks s"
  "hs_next (srv_tick s) = hs_next s" "hs_queue (srv_tick s) = hs_queue s" "hs_live (srv_tick s) = hs_live s"
  "hs_fault (srv_tick s) = hs_fault s" "hs_pool (srv_tick s) = hs_pool s" "hs_calls (srv_tick s) = hs_calls s" "hs_mem (srv_tick s) = hs_mem s"
  "hs_contexts (srv_fault f s) = hs_contexts s" "hs_objects (srv_fault f s) = hs_objects s" "hs_tasks (srv_fault f s) = hs_tasks s"
  "hs_next (srv_fault f s) = hs_next s" "hs_queue (srv_fault f s) = hs_queue s" "hs_live (srv_fault f s) = hs_live s"
  "hs_pool (srv_fault f s) = hs_pool s" "hs_calls (srv_fault f s) = hs_calls s" "hs_mem (srv_fault f s) = hs_mem s"
  by (simp_all add: srv_call_def srv_tick_def srv_fault_def split: option.split)

lemma srv_fault_fault: "hs_fault s = None \<Longrightarrow> hs_fault (srv_fault f s) = Some f"
  by (simp add: srv_fault_def)

lemma tables_ok_frame:
  "hs_contexts s' = hs_contexts s \<Longrightarrow> hs_objects s' = hs_objects s \<Longrightarrow> hs_tasks s' = hs_tasks s \<Longrightarrow> hs_next s' = hs_next s \<Longrightarrow>
   hs_live s' = hs_live s \<Longrightarrow> tables_ok ts s' = tables_ok ts s"
  by (simp add: tables_ok_def)

lemma srv_ok_frame:
  "hs_contexts s' = hs_contexts s \<Longrightarrow> hs_objects s' = hs_objects s \<Longrightarrow> hs_tasks s' = hs_tasks s \<Longrightarrow> hs_next s' = hs_next s \<Longrightarrow>
   hs_live s' = hs_live s \<Longrightarrow> queue_owned (hs_queue s') = queue_owned (hs_queue s) \<Longrightarrow> srv_ok s' = srv_ok s"
  using tables_ok_frame [of s' s] by (simp add: srv_ok_def)

lemma tables_find: "tables_ok ts s \<Longrightarrow> t \<in># ts \<Longrightarrow> \<exists>obj. um_find t (hs_objects s) = Some obj"
  by (auto simp: tables_ok_def um_find_def dest!: weak_map_of_SomeI)

text \<open>Changing the value of a present key of a map without duplicates.\<close>

lemma map_fst_update: "um_find k m \<noteq> None \<Longrightarrow> map fst (AList.update k v m) = map fst m"
  by (induction m) auto

lemma um_ok_update_old: "um_ok m \<Longrightarrow> um_find k m \<noteq> None \<Longrightarrow> um_ok (AList.update k v m)"
  by (simp add: um_ok_def map_fst_update)

lemma mset_update:
  "um_ok m \<Longrightarrow> um_find k m = Some w \<Longrightarrow> add_mset (k, w) (mset (AList.update k v m)) = add_mset (k, v) (mset m)"
proof (induction m)
  case (Cons x m)
  obtain k' u where x: "x = (k', u)" by fastforce
  then show ?case using Cons by (cases "k' = k") (auto simp: add_mset_commute)
qed simp

lemma mset_delete:
  "um_ok m \<Longrightarrow> um_find k m = Some w \<Longrightarrow> add_mset (k, w) (mset (AList.delete k m)) = mset m"
proof (induction m)
  case (Cons x m)
  obtain k' u where x: "x = (k', u)" by fastforce
  then show ?case using Cons by (cases "k' = k") (auto simp: add_mset_commute)
qed simp

lemma set_update_iff: "um_ok m \<Longrightarrow> um_find k m = Some w \<Longrightarrow> x \<in> set (AList.update k v m) \<longleftrightarrow> x = (k, v) \<or> x \<in> set m \<and> fst x \<noteq> k"
proof (induction m)
  case (Cons y m)
  obtain k' u where y: "y = (k', u)" by fastforce
  then show ?case using Cons by (cases "k' = k"; cases x) (auto dest: um_in_set_find)
qed simp

lemma sum_update:
  fixes f :: "'a \<times> 'b \<Rightarrow> int"
  assumes "um_ok m" and "um_find k m = Some w"
  shows "sum_list (map f (AList.update k v m)) = sum_list (map f m) - f (k, w) + f (k, v)"
proof -
  have "f (k, w) + sum_list (map f (AList.update k v m)) = f (k, v) + sum_list (map f m)"
    using arg_cong [OF mset_update [OF assms, of v], of "\<lambda>M. sum_mset (image_mset f M)"] by (simp flip: sum_mset_sum_list)
  then show ?thesis by simp
qed

lemma sum_delete:
  fixes f :: "'a \<times> 'b \<Rightarrow> int"
  assumes "um_ok m" and "um_find k m = Some w"
  shows "sum_list (map f (AList.delete k m)) = sum_list (map f m) - f (k, w)"
proof -
  have "f (k, w) + sum_list (map f (AList.delete k m)) = sum_list (map f m)"
    using arg_cong [OF mset_delete [OF assms], of "\<lambda>M. sum_mset (image_mset f M)"] by (simp flip: sum_mset_sum_list)
  then show ?thesis by simp
qed

section \<open>Tasks\<close>

lemma upd_object_ok:
  assumes ok: "tables_ok ts s" and t: "um_find t (hs_objects s) = Some obj" and node: "ht_node (f obj) = ht_node obj"
  shows "tables_ok ts ((upd_object t f s)\<lparr>hs_live := hs_live s - held_block (ht_context obj) + held_block (ht_context (f obj))\<rparr>)"
proof -
  have u: "um_ok (hs_objects s)" using ok by (simp add: tables_ok_def)
  have "objects_pairs (AList.update t (f obj) (hs_objects s)) = objects_pairs (hs_objects s)"
    using mset_update [OF u t, of "f obj"] node
    by (metis (no_types, lifting) add_mset_add_mset_same_iff case_prod_conv image_mset_add_mset mset_map objects_pairs_def)
  moreover have "objects_block (AList.update t (f obj) (hs_objects s))
      = objects_block (hs_objects s) - held_block (ht_context obj) + held_block (ht_context (f obj))"
    using sum_update [OF u t] by (simp add: objects_block_def)
  ultimately show ?thesis
    using ok t by (simp add: upd_object_def tables_ok_def um_ok_update_old map_fst_update del: set_map)
qed

lemma upd_object_same:
  assumes "tables_ok ts s" and "um_find t (hs_objects s) = Some obj" and "ht_node (f obj) = ht_node obj" and "ht_context (f obj) = ht_context obj"
  shows "tables_ok ts (upd_object t f s)"
proof -
  have "(upd_object t f s)\<lparr>hs_live := hs_live s\<rparr> = upd_object t f s" using assms(2) by (simp add: upd_object_def)
  then show ?thesis using upd_object_ok [of ts s t obj f] assms by simp
qed

lemma task_delete_ok:
  assumes ok: "tables_ok (add_mset t ts) s"
  shows "tables_ok ts (task_delete t s) \<and> hs_fault (task_delete t s) = hs_fault s \<and> hs_queue (task_delete t s) = hs_queue s
    \<and> hs_pool (task_delete t s) = hs_pool s \<and> set (hs_objects (task_delete t s)) \<subseteq> set (hs_objects s)"
proof -
  obtain obj where t: "um_find t (hs_objects s) = Some obj" using tables_find [OF ok] by auto
  have u: "um_ok (hs_objects s)" using ok by (simp add: tables_ok_def)
  have m: "mset (hs_objects s) = add_mset (t, obj) (mset (AList.delete t (hs_objects s)))" using mset_delete [OF u t] by simp
  have "objects_pairs (hs_objects s) = add_mset (ht_node obj, t) (objects_pairs (AList.delete t (hs_objects s)))"
    unfolding objects_pairs_def mset_map m by simp
  then have pairs: "mset (remove1 (ht_node obj, t) (hs_tasks s)) = objects_pairs (AList.delete t (hs_objects s))"
    using ok by (simp add: tables_ok_def)
  have keys: "mset (map fst (AList.delete t (hs_objects s))) = ts"
    using ok unfolding tables_ok_def mset_map m by simp
  have sub: "set (AList.delete t (hs_objects s)) \<subseteq> set (hs_objects s)" by (auto simp: AList.delete_eq)
  show ?thesis
    using ok t pairs keys sub um_ok_delete [OF u, of t] sum_delete [OF u t, of "\<lambda>(_, obj). held_block (ht_context obj)"]
    by (auto simp: task_delete_def deleteReferenceTask_def tables_ok_def objects_block_def AList.delete_eq)
qed

lemma tables_ok_simps [simp]:
  "tables_ok ts (srv_fault f s) = tables_ok ts s" "tables_ok ts (srv_call c s) = tables_ok ts s" "tables_ok ts (srv_tick s) = tables_ok ts s"
  by (simp_all add: tables_ok_def)

lemma task_new_cases:
  assumes ok: "tables_ok ts s" and new: "task_new node s = (r, s')"
  obtains (none) "r = None" "s' = srv_tick s" "\<not> hs_mem s (hs_tick s)"
  | (some) t obj where "r = Some t" "t = hs_next s" "hs_mem s (hs_tick s)" "tables_ok (add_mset t ts) s'" "hs_fault s' = hs_fault s"
      "hs_queue s' = hs_queue s" "hs_pool s' = hs_pool s" "hs_contexts s' = hs_contexts s" "hs_calls s' = hs_calls s" "hs_mem s' = hs_mem s"
      "hs_objects s' = (t, obj) # hs_objects s" "h_buffer (ht_context obj) = buf_empty" "ht_node obj = node" "\<not> ht_canceled obj" "t \<notin># ts"
      "hs_live s' = hs_live s"
proof (cases "hs_mem s (hs_tick s)")
  case False
  then show ?thesis using new none by (simp add: task_new_def)
next
  case True
  let ?obj = "\<lparr>ht_canceled = False, ht_node = node, ht_context = http_new maxBufferSize_default (hs_garbage s (hs_tick s))\<rparr>"
  let ?t = "hs_next s"
  have s': "s' = addReferenceTask node ?t (srv_tick s\<lparr>hs_next := ?t + 1, hs_objects := (?t, ?obj) # hs_objects s\<rparr>)" and r: "r = Some ?t"
    using new True by (simp_all add: task_new_def Let_def)
  have fresh: "?t \<notin> set (map fst (hs_objects s))" using ok by (auto simp: tables_ok_def)
  then have "um_find ?t (hs_objects s) = None" by (simp add: um_find_None_keys um_keys_def)
  then have "tables_ok (add_mset ?t ts) s'"
    using ok by (auto simp: s' tables_ok_def addReferenceTask_def objects_pairs_def objects_block_def http_new_def held_block_def)
  moreover have "?t \<notin># ts" using ok fresh by (auto simp: tables_ok_def)
  ultimately show ?thesis using some [OF r refl True] by (simp add: s' addReferenceTask_def http_new_def)
qed

lemma task_cancel_ok:
  assumes ok: "tables_ok ts s" and t: "t \<in># ts"
  shows "tables_ok ts (task_cancel t s) \<and> hs_fault (task_cancel t s) = hs_fault s \<and> hs_queue (task_cancel t s) = hs_queue s
    \<and> hs_pool (task_cancel t s) = hs_pool s \<and> hs_tasks (task_cancel t s) = hs_tasks s
    \<and> (\<forall>k obj. um_find k (hs_objects (task_cancel t s)) = Some obj \<longrightarrow>
        (\<exists>old. um_find k (hs_objects s) = Some old \<and> obj = old\<lparr>ht_canceled := k = t \<or> ht_canceled old\<rparr>))"
proof -
  obtain obj where find: "um_find t (hs_objects s) = Some obj" using tables_find [OF assms] by auto
  let ?f = "\<lambda>obj. obj\<lparr>ht_canceled := True\<rparr>"
  have u: "um_ok (hs_objects s)" using ok by (simp add: tables_ok_def)
  have up: "um_find k (AList.update t v (hs_objects s)) = (if k = t then Some v else um_find k (hs_objects s))" for k v
    by (simp add: um_find_def update_conv')
  have "tables_ok ts (upd_object t ?f s)" by (rule upd_object_same [OF ok find]) simp_all
  then show ?thesis using find up by (auto simp: task_cancel_def upd_object_def)
qed

lemma task_run_fields:
  assumes ok: "tables_ok ts s" and t: "t \<in># ts"
  shows "tables_ok ts (task_run t s) \<and> hs_queue (task_run t s) = hs_queue s \<and> hs_pool (task_run t s) = hs_pool s
    \<and> hs_objects (task_run t s) = hs_objects s \<and> hs_contexts (task_run t s) = hs_contexts s
    \<and> (hs_fault s = None \<longrightarrow> hs_fault (task_run t s) = None \<or> hs_fault (task_run t s) = Some Fault_request_line)"
proof -
  obtain obj where find: "um_find t (hs_objects s) = Some obj" using tables_find [OF assms] by auto
  show ?thesis
    using find ok by (cases "getInfo (ht_context obj)") (auto simp: task_run_def Let_def srv_fault_fault)
qed

section \<open>Contexts\<close>

lemma contexts_find: "tables_ok ts s \<Longrightarrow> um_find node (hs_contexts s) = Some ctx \<Longrightarrow> http_ready ctx"
  using um_find_in_set [of node "hs_contexts s" ctx] by (auto simp: tables_ok_def)

lemma context_update_ok:
  assumes ok: "tables_ok ts s" and old: "um_find node (hs_contexts s) = Some old" and ready: "http_ready ctx"
  shows "tables_ok ts (s\<lparr>hs_contexts := AList.update node ctx (hs_contexts s), hs_live := hs_live s - held_block old + held_block ctx\<rparr>)"
proof -
  have u: "um_ok (hs_contexts s)" using ok by (simp add: tables_ok_def)
  have "\<forall>x\<in>set (AList.update node ctx (hs_contexts s)). http_ready (snd x)"
    using ok ready set_update_iff [OF u old] by (auto simp: tables_ok_def)
  then show ?thesis
    using ok sum_update [OF u old, of "\<lambda>(_, ctx). held_block ctx" ctx] old
    by (auto simp: tables_ok_def contexts_block_def um_ok_update_old)
qed

lemma held_ready: "http_ok ctx \<Longrightarrow> held_block ctx = 1"
  using http_ok_base [of ctx] by (simp add: held_block_def buf_held_def base_ok_def)

lemma allocate_ok:
  assumes ok: "tables_ok ts s" and fault: "hs_fault s = None" and res: "allocateMemoryForMessage node s = (place, s')"
  shows "tables_ok ts s' \<and> hs_objects s' = hs_objects s \<and> hs_queue s' = hs_queue s \<and> hs_pool s' = hs_pool s \<and> hs_mem s' = hs_mem s
    \<and> (hs_fault s' = None \<or> hs_fault s' = Some Fault_exception \<and> place = None)
    \<and> (\<forall>pos room. place = Some (pos, room) \<longrightarrow> (\<exists>ctx. um_find node (hs_contexts s') = Some ctx \<and> http_ok ctx \<and> room_ok ctx
         \<and> pos = h_nowIndex ctx \<and> pos + room = b_length (h_buffer ctx)))"
proof (cases "um_find node (hs_contexts s)")
  case None
  then show ?thesis using res ok fault by (simp add: allocateMemoryForMessage_def)
next
  case (Some ctx)
  obtain r pl g live where prep: "prepareBuffer (hs_mem s (hs_tick s)) (hs_fresh s (hs_tick s)) ctx (hs_live s) = (r, pl, g, live)"
    by (metis prod_cases4)
  note p = prepareBuffer_ready [OF contexts_find [OF ok Some] prep]
  let ?s = "srv_tick s\<lparr>hs_contexts := AList.update node g (hs_contexts s), hs_live := live\<rparr>"
  have live: "live = hs_live s - held_block ctx + held_block g" using p by (simp add: held_block_def)
  have "tables_ok ts (s\<lparr>hs_contexts := AList.update node g (hs_contexts s), hs_live := live\<rparr>)"
    unfolding live by (rule context_update_ok [OF ok Some]) (use p in simp)
  moreover have "tables_ok ts ?s = tables_ok ts (s\<lparr>hs_contexts := AList.update node g (hs_contexts s), hs_live := live\<rparr>)"
    by (rule tables_ok_frame) simp_all
  moreover have "um_find node (AList.update node g (hs_contexts s)) = Some g" by (simp add: um_find_def update_conv')
  moreover have "hs_fault ?s = None" using fault by simp
  moreover have "pl = Some (pos, room) \<Longrightarrow> r = Buf_ok \<Longrightarrow> pos = h_nowIndex g \<and> pos + room = b_length (h_buffer g)" for pos room
  proof -
    assume a: "pl = Some (pos, room)" "r = Buf_ok"
    have eq: "pl = (if h_nowIndex g < b_length (h_buffer g) then Some (h_nowIndex g, b_length (h_buffer g) - h_nowIndex g) else None)"
      using p a(2) by blast
    show ?thesis
    proof (cases "h_nowIndex g < b_length (h_buffer g)")
      case True
      then have "pl = Some (h_nowIndex g, b_length (h_buffer g) - h_nowIndex g)" using eq by (simp only: if_True)
      then show ?thesis using a(1) True by simp
    next
      case False
      then have "pl = None" using eq by (simp only: if_False)
      then show ?thesis using a(1) by simp
    qed
  qed
  moreover have "(r = Buf_ok \<and> place = pl \<and> s' = ?s) \<or> (r = Buf_throw \<and> place = None \<and> s' = srv_fault Fault_exception ?s)"
  proof -
    have "allocateMemoryForMessage node s = (if r = Buf_undefined then (None, srv_fault Fault_parser ?s)
        else if r = Buf_throw then (None, srv_fault Fault_exception ?s) else (pl, ?s))"
      by (simp only: allocateMemoryForMessage_def Some prep option.case prod.case Let_def)
    moreover have "r \<noteq> Buf_undefined" using p by blast
    ultimately show ?thesis using res by (cases r) simp_all
  qed
  moreover have "r = Buf_ok \<Longrightarrow> http_ok g \<and> room_ok g" using p by blast
  ultimately show ?thesis by (elim disjE) (simp_all add: srv_fault_fault)
qed

end
