(* ===== verification/Server_Message.thy ===== *)
theory Server_Message
  imports Server_Invariant
begin

text \<open>
  \<open>ChttpServer::message\<close>: handing a message over to a task, the loop over the messages of the
  buffer, and the other callbacks, each with what it keeps and what it does.
\<close>

section \<open>Handing a message to a task\<close>

definition pick_ok :: "(tid work_queue \<Rightarrow> nat option) \<Rightarrow> bool" where
  "pick_ok pick \<longleftrightarrow> (\<forall>q. may_notify (pick q) q)"

lemma reinit_throw:
  assumes "http_ok h" and "h_state h = State_done" and "h_buffer former = buf_empty"
  shows "\<exists>former'. reinitForNext False fresh h former live = (False, Buf_throw, h, former', live) \<and> h_buffer former' = buf_empty"
  using assms by (simp add: reinitForNext_def buf_set_def buf_empty_def free_block_def Let_def http_ok_def closed_ok_def)

lemma find_update [simp]: "um_find k (AList.update t v m) = (if k = t then Some v else um_find k m)"
  by (simp add: um_find_def update_conv')

lemma hand_over_ok:
  assumes tab: "tables_ok (add_mset t ts) s" and t: "um_find t (hs_objects s) = Some obj" "h_buffer (ht_context obj) = buf_empty"
    and ctx: "http_ok ctx" "room_ok ctx" "h_state ctx = State_done" and fault: "hs_fault s = None"
    and res: "hand_over pick t ctx s = (ctx', s')"
  shows "hs_contexts s' = hs_contexts s \<and> hs_pool s' = hs_pool s \<and> hs_mem s' = hs_mem s \<and> hs_calls s' = hs_calls s \<and>
    (hs_fault s' = Some Fault_exception \<and> ctx' = ctx \<and> hs_queue s' = hs_queue s \<and> \<not> hs_mem s (hs_tick s)
     \<or> (\<exists>f. hs_fault s' = None \<and> tables_ok (add_mset t ts) s' \<and> hs_queue s' = pushTask t (pick (hs_queue s)) (hs_queue s)
         \<and> hs_objects s' = AList.update t (obj\<lparr>ht_context := f\<rparr>) (hs_objects s)
         \<and> http_ok f \<and> h_state f = State_done \<and> getInfo f = getInfo ctx \<and> getParameter f = getParameter ctx
         \<and> isKeepAlive f = isKeepAlive ctx
         \<and> http_ok ctx' \<and> room_ok ctx' \<and> h_nowIndex ctx' < h_nowIndex ctx
         \<and> apsnd http_view (http_analysis ctx')
             = http_analysis (http_see (drop (h_analysisIndex ctx) (take (h_nowIndex ctx) (h_data ctx))) http_begin)))"
proof (cases "hs_mem s (hs_tick s)")
  case False
  let ?fr = "hs_fresh s (hs_tick s)"
  obtain f where f: "reinitForNext False ?fr ctx (ht_context obj) (hs_live s) = (False, Buf_throw, ctx, f, hs_live s)"
    using reinit_throw [OF ctx(1,3) t(2), of ?fr "hs_live s"] by blast
  have "hand_over pick t ctx s = (ctx, srv_fault Fault_exception (upd_object t (\<lambda>obj. obj\<lparr>ht_context := f\<rparr>) (srv_tick s\<lparr>hs_live := hs_live s\<rparr>)))"
    using False by (simp add: hand_over_def t(1) f)
  then show ?thesis using res t(1) fault False by (auto simp: upd_object_def srv_fault_fault)
next
  case True
  let ?fr = "hs_fresh s (hs_tick s)"
  obtain ret e h' f live' where re: "reinitForNext True ?fr ctx (ht_context obj) (hs_live s) = (ret, e, h', f, live')" by (metis prod_cases5)
  have former: "buf_ok (h_buffer (ht_context obj))" using t(2) by simp
  note r = reinit_ok [OF ctx former re]
  let ?upd = "\<lambda>obj. obj\<lparr>ht_context := f\<rparr>"
  let ?s = "upd_object t ?upd (srv_tick s\<lparr>hs_live := live'\<rparr>)"
  have "hand_over pick t ctx s = (h', ?s\<lparr>hs_queue := pushTask t (pick (hs_queue ?s)) (hs_queue ?s)\<rparr>)"
    using True r by (simp add: hand_over_def t(1) re Let_def)
  then have out: "ctx' = h'" "s' = ?s\<lparr>hs_queue := pushTask t (pick (hs_queue s)) (hs_queue s)\<rparr>"
    using res t(1) by (simp_all add: upd_object_def)
  have live: "live' = hs_live s - held_block (ht_context obj) + held_block f" using r by (simp add: held_block_def)
  have "tables_ok (add_mset t ts) ((upd_object t ?upd s)\<lparr>hs_live := hs_live s - held_block (ht_context obj) + held_block (ht_context (?upd obj))\<rparr>)"
    by (rule upd_object_ok [OF tab t(1)]) simp
  moreover have "tables_ok (add_mset t ts) s' = tables_ok (add_mset t ts) ((upd_object t ?upd s)\<lparr>hs_live := live'\<rparr>)"
    unfolding out(2) by (rule tables_ok_frame) (simp_all add: upd_object_def t(1))
  ultimately have tab': "tables_ok (add_mset t ts) s'" using live by simp
  have idx: "0 < h_analysisIndex ctx" "h_analysisIndex ctx \<le> h_nowIndex ctx"
    using ctx(1,3) http_ok_base [OF ctx(1)] by (simp_all add: http_ok_def closed_ok_def base_ok_def)
  have "hs_objects s' = AList.update t (obj\<lparr>ht_context := f\<rparr>) (hs_objects s)" "hs_fault s' = None" "hs_contexts s' = hs_contexts s"
    "hs_pool s' = hs_pool s" "hs_mem s' = hs_mem s" "hs_calls s' = hs_calls s"
    using out(2) t(1) fault by (simp_all add: upd_object_def srv_tick_def)
  moreover have "http_ok f" "h_state f = State_done" "getInfo f = getInfo ctx" "getParameter f = getParameter ctx" "isKeepAlive f = isKeepAlive ctx"
    using r by (simp_all add: isGood_def)
  moreover have "http_ok h'" "room_ok h'" "h_nowIndex h' < h_nowIndex ctx" using r idx by simp_all
  moreover have "apsnd http_view (http_analysis h') = http_analysis (http_see (drop (h_analysisIndex ctx) (take (h_nowIndex ctx) (h_data ctx))) http_begin)"
    using r by blast
  ultimately show ?thesis using tab' out by (intro conjI disjI2 exI [of _ f]) simp_all
qed

lemma um_find_absent:
  assumes "tables_ok ts s" and "t \<notin># ts"
  shows "um_find t (hs_objects s) = None"
proof -
  have "mset (map fst (hs_objects s)) = ts" using assms(1) by (simp add: tables_ok_def)
  then have "t \<notin> set (map fst (hs_objects s))" using assms(2) by (metis set_mset_mset)
  then show ?thesis by (simp add: um_find_None_keys um_keys_def)
qed

section \<open>The loop of \<open>message\<close>\<close>

definition queue_live :: "nat \<Rightarrow> http_server \<Rightarrow> bool" where
  "queue_live n s \<longleftrightarrow> wq_reach n (hs_queue s) \<and> wq_phase (hs_queue s) = Live"

lemma queue_push:
  assumes "queue_live n s" and "pick_ok pick" and "hs_queue s' = pushTask t (pick (hs_queue s)) (hs_queue s)"
  shows "queue_live n s' \<and> queue_owned (hs_queue s') = add_mset t (queue_owned (hs_queue s))
    \<and> wq_pushed (hs_queue s') = wq_pushed (hs_queue s) @ [t]"
  using assms wq.push_live [of n "hs_queue s"] wq.push_owned [of n "hs_queue s"] wq.push_pushed [of n "hs_queue s"]
  by (simp add: queue_live_def pick_ok_def)

lemma analysis_ready:
  assumes "http_ok ctx" and "room_ok ctx" and "http_analysis ctx = (r, g)"
  shows "r \<noteq> None" "http_ok g" "room_ok g" "h_nowIndex g = h_nowIndex ctx"
    "r = Some True \<longleftrightarrow> h_state g = State_done \<or> h_state g = State_bad"
  using http_analysis_ok [OF assms(1)] http_analysis_room [OF assms(1)] http_analysis_now [OF assms(1)] assms(2,3)
  by (simp_all add: room_ok_def)

text \<open>One round: what happens after the analysis.\<close>

lemma message_loop_cases:
  assumes ok: "srv_ok s" "hs_fault s = None" "queue_live n s" "pick_ok pick" and ctx: "http_ok ctx" "room_ok ctx"
  obtains (wait) g where "http_analysis ctx = (Some False, g)" "http_ok g" "room_ok g" "message_loop pick node ctx s = Some (g, s)"
  | (close) g s1 where "http_analysis ctx = (Some True, g)" "http_ok g" "room_ok g"
      "message_loop pick node ctx s = Some (g, if hs_pool s then srv_call (Call_close node) s1 else s1)"
      "s1 = s \<or> s1 = srv_tick s \<and> \<not> hs_mem s (hs_tick s)" "\<not> (isGood g \<and> hs_pool s) \<or> \<not> hs_mem s (hs_tick s)"
  | (exception) g s1 where "message_loop pick node ctx s = Some (g, s1)" "http_ok g" "room_ok g" "hs_fault s1 = Some Fault_exception"
      "hs_contexts s1 = hs_contexts s" "\<not> hs_mem s (Suc (hs_tick s))"
  | (task) g g' t s1 obj where "http_analysis ctx = (Some True, g)" "isGood g" "hs_pool s"
      "message_loop pick node ctx s = message_loop pick node g' s1" "http_ok g'" "room_ok g'" "h_nowIndex g' < h_nowIndex ctx"
      "srv_ok s1" "hs_fault s1 = None" "queue_live n s1" "hs_contexts s1 = hs_contexts s" "hs_pool s1" "hs_mem s1 = hs_mem s" "hs_calls s1 = hs_calls s"
      "wq_pushed (hs_queue s1) = wq_pushed (hs_queue s) @ [t]" "um_find t (hs_objects s1) = Some obj" "um_find t (hs_objects s) = None"
      "\<And>k. k \<noteq> t \<Longrightarrow> um_find k (hs_objects s1) = um_find k (hs_objects s)"
      "ht_node obj = node" "\<not> ht_canceled obj" "getInfo (ht_context obj) = getInfo g" "getParameter (ht_context obj) = getParameter g"
      "isKeepAlive (ht_context obj) = isKeepAlive g"
      "apsnd http_view (http_analysis g') = http_analysis (http_see (drop (h_analysisIndex g) (take (h_nowIndex g) (h_data g))) http_begin)"
      "hs_queue s1 = pushTask t (pick (hs_queue s)) (hs_queue s)"
proof -
  obtain r g where a: "http_analysis ctx = (r, g)" by fastforce
  note g = analysis_ready [OF ctx a]
  note run = message_loop.simps [of pick node ctx s, unfolded a prod.case]
  consider "r = Some False" | "r = Some True" using g(1) by (cases r) auto
  then show thesis
  proof cases
    case 1
    show thesis by (rule wait [of g]) (use a g(2,3) run 1 in simp_all)
  next
    case 2
    show thesis
    proof (cases "isGood g \<and> hs_pool s")
      case False
      show thesis
        by (rule close [of g s]) (use a g(2,3) run 2 False in simp_all)
    next
      case True
      obtain tt s1 where new: "task_new node s = (tt, s1)" by fastforce
      have tab: "tables_ok (queue_owned (hs_queue s)) s" using ok(1) by (simp add: srv_ok_def)
      from tab new show thesis
      proof (cases rule: task_new_cases)
        case none
        show thesis by (rule close [of g s1]) (use a g(2,3) run 2 True new none in simp_all)
      next
        case (some t obj)
        obtain g' s2 where ho: "hand_over pick t g s1 = (g', s2)" by fastforce
        have find: "um_find t (hs_objects s1) = Some obj" using some(11) by simp
        have st: "h_state g = State_done" using True by (simp add: isGood_def)
        have fault1: "hs_fault s1 = None" using some(5) ok(2) by simp
        have run2: "message_loop pick node ctx s = (if hs_fault s2 \<noteq> None then Some (g', s2) else message_loop pick node g' s2)"
          using run 2 True new some(1) ho by simp
        note h = hand_over_ok [OF some(4) find some(12) g(2,3) st fault1 ho]
        have tick: "hs_tick s1 = Suc (hs_tick s)" using new some(3) by (auto simp: task_new_def addReferenceTask_def srv_tick_def Let_def)
        show thesis
        proof (cases "hs_fault s2 = None")
          case False
          then have "hs_fault s2 = Some Fault_exception" "g' = g" "\<not> hs_mem s1 (hs_tick s1)" using h by auto
          show thesis
            by (rule exception [of g' s2]) (use False run2 h g(2,3) some(8,10) tick \<open>hs_fault s2 = _\<close> \<open>g' = g\<close> \<open>\<not> hs_mem s1 _\<close> in simp_all)
        next
          case fine: True
          obtain f where f: "tables_ok (add_mset t (queue_owned (hs_queue s))) s2" "hs_queue s2 = pushTask t (pick (hs_queue s1)) (hs_queue s1)"
            "hs_objects s2 = AList.update t (obj\<lparr>ht_context := f\<rparr>) (hs_objects s1)" "http_ok f" "h_state f = State_done"
            "getInfo f = getInfo g" "getParameter f = getParameter g" "isKeepAlive f = isKeepAlive g"
            "http_ok g'" "room_ok g'" "h_nowIndex g' < h_nowIndex g"
            "apsnd http_view (http_analysis g') = http_analysis (http_see (drop (h_analysisIndex g) (take (h_nowIndex g) (h_data g))) http_begin)"
            using h fine by (elim conjE disjE exE) simp_all
          have ql: "queue_live n s1" using ok(3) some(6) by (simp add: queue_live_def)
          note q = queue_push [OF ql ok(4) f(2)]
          have old: "\<forall>x\<in>set (hs_objects s). task_ok (snd x)" using ok(1) by (simp add: srv_ok_def)
          have u: "um_ok (hs_objects s1)" using some(4) by (simp add: tables_ok_def)
          have "task_ok (snd x)" if "x \<in> set (hs_objects s2)" for x
          proof -
            have "x = (t, obj\<lparr>ht_context := f\<rparr>) \<or> x \<in> set (hs_objects s1) \<and> fst x \<noteq> t"
              using that unfolding f(3) set_update_iff [OF u find] .
            then show ?thesis using old f(4,5) some(11) by (elim disjE) (auto simp: task_ok_def)
          qed
          then have "srv_ok s2" using f(1) q some(6) by (simp add: srv_ok_def)
          moreover have "um_find t (hs_objects s) = None" by (rule um_find_absent [OF tab some(15)])
          ultimately show thesis
            by (intro task [of g g' s2 t "obj\<lparr>ht_context := f\<rparr>"])
               (use a 2 True run2 fine f(2,3,6-12) q some(6-14) h g(4) in simp_all)
        qed
      qed
    qed
  qed
qed

text \<open>The loop returns, whatever was received; it only stops early when memory runs out.\<close>

lemma message_loop_ok:
  assumes "srv_ok s" "hs_fault s = None" "queue_live n s" "pick_ok pick" "http_ok ctx" "room_ok ctx"
  shows "\<exists>ctx' s'. message_loop pick node ctx s = Some (ctx', s') \<and> http_ok ctx' \<and> room_ok ctx' \<and> hs_contexts s' = hs_contexts s
    \<and> (hs_fault s' = None \<and> srv_ok s' \<and> queue_live n s' \<and> hs_mem s' = hs_mem s \<or> hs_fault s' = Some Fault_exception \<and> (\<exists>i. \<not> hs_mem s i))"
  using assms
proof (induction "h_nowIndex ctx" arbitrary: ctx s rule: less_induct)
  case less
  from less.prems show ?case
  proof (cases rule: message_loop_cases [where node = node])
    case (wait g)
    then show ?thesis using less.prems(1-3) by simp
  next
    case (close g s1)
    have "srv_ok (srv_tick s) = srv_ok s" by (rule srv_ok_frame) simp_all
    then have s1: "srv_ok s1" "hs_fault s1 = None" "queue_live n s1" "hs_contexts s1 = hs_contexts s" "hs_mem s1 = hs_mem s"
      using close(5) less.prems(1-3) by (auto simp: queue_live_def)
    have "srv_ok (srv_call (Call_close node) s1) = srv_ok s1" by (rule srv_ok_frame) simp_all
    then show ?thesis using s1 close(2-4) by (simp add: queue_live_def)
  next
    case (exception g s1)
    then show ?thesis by blast
  next
    case (task g g' t s1 obj)
    show ?thesis
      using less.hyps [OF task(7-10) less.prems(4) task(5,6)] task(4,11,13) by simp
  qed
qed

text \<open>The pointer to the pool and the old tasks stay; new tasks are of the node of the message.\<close>

lemma message_loop_keeps:
  assumes "srv_ok s" "hs_fault s = None" "queue_live n s" "pick_ok pick" "http_ok ctx" "room_ok ctx"
    and "message_loop pick node ctx s = Some (ctx', s')" and "hs_fault s' = None"
  shows "hs_pool s' = hs_pool s \<and> (\<forall>k obj. um_find k (hs_objects s) = Some obj \<longrightarrow> um_find k (hs_objects s') = Some obj)
    \<and> (\<forall>k obj. um_find k (hs_objects s') = Some obj \<longrightarrow> um_find k (hs_objects s) = Some obj \<or> ht_node obj = node)"
  using assms
proof (induction "h_nowIndex ctx" arbitrary: ctx s rule: less_induct)
  case less
  from less.prems(1-6) show ?case
  proof (cases rule: message_loop_cases [where node = node])
    case (wait g)
    then show ?thesis using less.prems(7) by simp
  next
    case (close g s1)
    then have "hs_objects s' = hs_objects s" "hs_pool s' = hs_pool s" using less.prems(7) by auto
    then show ?thesis by simp
  next
    case (exception g s1)
    then show ?thesis using less.prems(7,8) by simp
  next
    case (task g g' t s1 obj1)
    have IH: "hs_pool s' = hs_pool s1 \<and> (\<forall>k obj. um_find k (hs_objects s1) = Some obj \<longrightarrow> um_find k (hs_objects s') = Some obj)
      \<and> (\<forall>k obj. um_find k (hs_objects s') = Some obj \<longrightarrow> um_find k (hs_objects s1) = Some obj \<or> ht_node obj = node)"
      by (rule less.hyps [OF task(7-10) less.prems(4) task(5,6)]) (use less.prems(7,8) task(4) in simp_all)
    have "um_find k (hs_objects s1) = Some obj \<Longrightarrow> um_find k (hs_objects s) = Some obj \<or> ht_node obj = node" for k obj
      using task(16,18,19) by (cases "k = t") auto
    moreover have "um_find k (hs_objects s) = Some obj \<Longrightarrow> um_find k (hs_objects s1) = Some obj" for k obj
      using task(17,18) by (cases "k = t") auto
    ultimately show ?thesis using IH task(3,12) by blast
  qed
qed

section \<open>The callbacks keep the invariant\<close>

lemma write_ok:
  assumes "http_ok h" and "room_ok h" and "h_nowIndex h + length bs \<le> b_length (h_buffer h)"
  shows "http_ok (http_write bs h)" "room_ok (http_write bs h)"
proof -
  have len: "b_length (h_buffer h) \<le> b_maxLength (h_buffer h)" "0 < b_maxLength (h_buffer h)" "length (h_data h) = b_maxLength (h_buffer h)"
    using http_ok_base [OF assms(1)] by (auto simp: base_ok_def buf_ok_def h_data_def split: option.splits)
  have eq: "http_write bs h = h_put [] (bs @ drop (h_nowIndex h + length bs) (h_data h)) (b_length (h_buffer h))
    (b_maxLength (h_buffer h)) (h_maxBufferSize h) h"
    by (simp add: http_write_def set_data_def h_put_def)
  show "http_ok (http_write bs h)"
    unfolding eq by (intro http_ok_put assms) (use assms(3) len in auto)
  show "room_ok (http_write bs h)" using assms(2) by (simp add: eq room_ok_def)
qed

lemma context_set_ok:
  assumes ok: "srv_ok s" and old: "um_find node (hs_contexts s) = Some old" "http_ok old" and ctx: "http_ok ctx" "room_ok ctx"
  shows "srv_ok (s\<lparr>hs_contexts := AList.update node ctx (hs_contexts s)\<rparr>)"
proof -
  have "tables_ok (queue_owned (hs_queue s)) s" using ok by (simp add: srv_ok_def)
  from context_update_ok [OF this old(1), of ctx] ctx
  have "tables_ok (queue_owned (hs_queue s)) (s\<lparr>hs_contexts := AList.update node ctx (hs_contexts s), hs_live := hs_live s\<rparr>)"
    by (simp add: http_ready_def held_ready [OF old(2)] held_ready [OF ctx(1)])
  moreover have "tables_ok ts (s\<lparr>hs_contexts := AList.update node ctx (hs_contexts s), hs_live := hs_live s\<rparr>)
      = tables_ok ts (s\<lparr>hs_contexts := AList.update node ctx (hs_contexts s)\<rparr>)" for ts by (rule tables_ok_frame) simp_all
  ultimately show ?thesis using ok by (simp add: srv_ok_def)
qed

text \<open>A read: the place is given, the bytes are written, \<open>message\<close> runs its loop.\<close>

lemma receive_start:
  assumes ok: "srv_ok s" "queue_live n s" "hs_fault s = None"
    and place: "allocateMemoryForMessage node s = (Some (pos, room), s1)" and bs: "length bs \<le> room"
  obtains ctx where "um_find node (hs_contexts s1) = Some ctx" "http_ok ctx" "room_ok ctx" "http_ok (http_feed bs ctx)" "room_ok (http_feed bs ctx)"
    "h_nowIndex ctx + length bs \<le> b_length (h_buffer ctx)"
    "server_write node bs s1 = s1\<lparr>hs_contexts := AList.update node (http_write bs ctx) (hs_contexts s1)\<rparr>"
    "srv_ok s1" "srv_ok (server_write node bs s1)" "hs_fault s1 = None" "queue_live n (server_write node bs s1)" "hs_mem s1 = hs_mem s"
    "message pick node (length bs) (server_write node bs s1) =
      (case message_loop pick node (http_feed bs ctx) (server_write node bs s1) of
         None \<Rightarrow> None | Some (g, s) \<Rightarrow> Some (s\<lparr>hs_contexts := AList.update node g (hs_contexts s)\<rparr>))"
proof -
  have tab: "tables_ok (queue_owned (hs_queue s)) s" using ok(1) by (simp add: srv_ok_def)
  note a = allocate_ok [OF tab ok(3) place]
  obtain ctx where ctx: "um_find node (hs_contexts s1) = Some ctx" "http_ok ctx" "room_ok ctx" "pos = h_nowIndex ctx" "pos + room = b_length (h_buffer ctx)"
    using a by blast
  have fit: "h_nowIndex ctx + length bs \<le> b_length (h_buffer ctx)" using ctx(4,5) bs by simp
  have room': "room_ok (http_feed bs ctx)" using ctx(3) by (simp add: room_ok_def http_feed_put [OF ctx(2) fit])
  have s1: "srv_ok s1" "hs_fault s1 = None" "queue_live n s1" "hs_mem s1 = hs_mem s"
    using a ok by (auto simp: srv_ok_def queue_live_def)
  have w: "server_write node bs s1 = s1\<lparr>hs_contexts := AList.update node (http_write bs ctx) (hs_contexts s1)\<rparr>"
    using ctx(1) by (simp add: server_write_def)
  have "srv_ok (server_write node bs s1)" unfolding w by (rule context_set_ok [OF s1(1) ctx(1,2) write_ok [OF ctx(2,3) fit]])
  moreover have "queue_live n (server_write node bs s1)" using s1(3) by (simp add: queue_live_def w)
  moreover have "message pick node (length bs) (server_write node bs s1) =
      (case message_loop pick node (http_feed bs ctx) (server_write node bs s1) of
         None \<Rightarrow> None | Some (g, s) \<Rightarrow> Some (s\<lparr>hs_contexts := AList.update node g (hs_contexts s)\<rparr>))"
    by (simp add: message_def w http_feed_def)
  ultimately show thesis using that [OF ctx(1-3) http_feed_ok [OF ctx(2) fit] room' fit w] s1 by blast
qed

lemma receive_ok:
  assumes ok: "srv_ok s" "queue_live n s" "hs_fault s = None" and pick: "pick_ok pick"
    and place: "allocateMemoryForMessage node s = (Some (pos, room), s1)" and bs: "length bs \<le> room"
  shows "\<exists>s'. message pick node (length bs) (server_write node bs s1) = Some s'
    \<and> (hs_fault s' = None \<and> srv_ok s' \<and> queue_live n s' \<and> hs_mem s' = hs_mem s \<or> hs_fault s' = Some Fault_exception \<and> (\<exists>i. \<not> hs_mem s i))"
proof -
  obtain ctx where c: "um_find node (hs_contexts s1) = Some ctx" "http_ok ctx" "room_ok ctx" "http_ok (http_feed bs ctx)" "room_ok (http_feed bs ctx)"
    "h_nowIndex ctx + length bs \<le> b_length (h_buffer ctx)"
    "server_write node bs s1 = s1\<lparr>hs_contexts := AList.update node (http_write bs ctx) (hs_contexts s1)\<rparr>"
    "srv_ok s1" "srv_ok (server_write node bs s1)" "hs_fault s1 = None" "queue_live n (server_write node bs s1)" "hs_mem s1 = hs_mem s"
    "message pick node (length bs) (server_write node bs s1) =
      (case message_loop pick node (http_feed bs ctx) (server_write node bs s1) of
         None \<Rightarrow> None | Some (g, s) \<Rightarrow> Some (s\<lparr>hs_contexts := AList.update node g (hs_contexts s)\<rparr>))"
    by (rule receive_start [OF ok place bs])
  have "hs_fault (server_write node bs s1) = None" using c(7,10) by simp
  from message_loop_ok [OF c(9) this c(11) pick c(4,5), of node]
  obtain g s2 where s2: "message_loop pick node (http_feed bs ctx) (server_write node bs s1) = Some (g, s2)" "http_ok g" "room_ok g"
    "hs_contexts s2 = AList.update node (http_write bs ctx) (hs_contexts s1)"
    "hs_fault s2 = None \<and> srv_ok s2 \<and> queue_live n s2 \<and> hs_mem s2 = hs_mem s \<or> hs_fault s2 = Some Fault_exception \<and> (\<exists>i. \<not> hs_mem s i)"
    using c(7,12) by auto
  have find: "um_find node (hs_contexts s2) = Some (http_write bs ctx)" by (simp add: s2(4))
  note final = context_set_ok [OF _ find write_ok(1) [OF c(2,3,6)] s2(2,3)]
  show ?thesis using s2(1,5) c(13) final by (auto simp: queue_live_def)
qed

lemma receive_keeps:
  assumes ok: "srv_ok s" "queue_live n s" "hs_fault s = None" and pick: "pick_ok pick"
    and place: "allocateMemoryForMessage node s = (Some (pos, room), s1)" "length bs \<le> room"
    and res: "message pick node (length bs) (server_write node bs s1) = Some s'" "hs_fault s' = None"
  shows "hs_pool s' = hs_pool s \<and> (\<forall>k obj. um_find k (hs_objects s) = Some obj \<longrightarrow> um_find k (hs_objects s') = Some obj)
    \<and> (\<forall>k obj. um_find k (hs_objects s') = Some obj \<longrightarrow> um_find k (hs_objects s) = Some obj \<or> ht_node obj = node)"
proof -
  obtain ctx where c: "http_ok (http_feed bs ctx)" "room_ok (http_feed bs ctx)"
    "server_write node bs s1 = s1\<lparr>hs_contexts := AList.update node (http_write bs ctx) (hs_contexts s1)\<rparr>"
    "srv_ok (server_write node bs s1)" "hs_fault s1 = None" "queue_live n (server_write node bs s1)"
    "message pick node (length bs) (server_write node bs s1) =
      (case message_loop pick node (http_feed bs ctx) (server_write node bs s1) of
         None \<Rightarrow> None | Some (g, s) \<Rightarrow> Some (s\<lparr>hs_contexts := AList.update node g (hs_contexts s)\<rparr>))"
    by (rule receive_start [OF ok place])
  obtain g s2 where s2: "message_loop pick node (http_feed bs ctx) (server_write node bs s1) = Some (g, s2)"
    "s' = s2\<lparr>hs_contexts := AList.update node g (hs_contexts s2)\<rparr>"
    using c(7) res(1) by (auto split: option.splits)
  have tab: "tables_ok (queue_owned (hs_queue s)) s" using ok(1) by (simp add: srv_ok_def)
  have w: "hs_objects (server_write node bs s1) = hs_objects s" "hs_pool (server_write node bs s1) = hs_pool s"
    "hs_fault (server_write node bs s1) = None"
    using allocate_ok [OF tab ok(3) place(1)] c(3,5) by simp_all
  have "hs_fault s2 = None" using res(2) s2(2) by simp
  from message_loop_keeps [OF c(4) w(3) c(6) pick c(1,2) s2(1) this] show ?thesis by (simp add: w s2(2))
qed

lemma cancel_same [simp]:
  "hs_contexts (task_cancel t s) = hs_contexts s" "hs_calls (task_cancel t s) = hs_calls s" "hs_mem (task_cancel t s) = hs_mem s"
  "hs_pool (task_cancel t s) = hs_pool s" "hs_queue (task_cancel t s) = hs_queue s" "hs_tasks (task_cancel t s) = hs_tasks s"
  by (simp_all add: task_cancel_def upd_object_def split: option.split)

lemma cancel_fold:
  assumes "tables_ok ts s" and "\<forall>x\<in>set xs. snd x \<in># ts"
  shows "tables_ok ts (fold (\<lambda>(n, t) s. if n = node then task_cancel t s else s) xs s)
    \<and> hs_fault (fold (\<lambda>(n, t) s. if n = node then task_cancel t s else s) xs s) = hs_fault s
    \<and> hs_contexts (fold (\<lambda>(n, t) s. if n = node then task_cancel t s else s) xs s) = hs_contexts s
    \<and> hs_calls (fold (\<lambda>(n, t) s. if n = node then task_cancel t s else s) xs s) = hs_calls s
    \<and> hs_mem (fold (\<lambda>(n, t) s. if n = node then task_cancel t s else s) xs s) = hs_mem s
    \<and> hs_pool (fold (\<lambda>(n, t) s. if n = node then task_cancel t s else s) xs s) = hs_pool s
    \<and> hs_queue (fold (\<lambda>(n, t) s. if n = node then task_cancel t s else s) xs s) = hs_queue s
    \<and> hs_tasks (fold (\<lambda>(n, t) s. if n = node then task_cancel t s else s) xs s) = hs_tasks s
    \<and> (\<forall>k obj. um_find k (hs_objects (fold (\<lambda>(n, t) s. if n = node then task_cancel t s else s) xs s)) = Some obj \<longrightarrow>
        (\<exists>old. um_find k (hs_objects s) = Some old \<and> obj = old\<lparr>ht_canceled := (node, k) \<in> set xs \<or> ht_canceled old\<rparr>))"
  using assms
proof (induction xs arbitrary: s)
  case (Cons x xs)
  obtain n t where x: "x = (n, t)" by fastforce
  show ?case
  proof (cases "n = node")
    case False
    then show ?thesis using Cons.IH [OF Cons.prems(1)] Cons.prems(2) by (simp add: x)
  next
    case True
    have "t \<in># ts" using Cons.prems(2) by (simp add: x)
    note c = task_cancel_ok [OF Cons.prems(1) this]
    have c1: "tables_ok ts (task_cancel t s)" using c by blast
    note IH = Cons.IH [OF c1] 
    have IH': "um_find k (hs_objects (fold (\<lambda>(n, t) s. if n = node then task_cancel t s else s) xs (task_cancel t s))) = Some obj \<Longrightarrow>
        \<exists>old. um_find k (hs_objects (task_cancel t s)) = Some old \<and> obj = old\<lparr>ht_canceled := (node, k) \<in> set xs \<or> ht_canceled old\<rparr>" for k obj
      using IH Cons.prems(2) by simp
    have "\<exists>old. um_find k (hs_objects s) = Some old \<and> obj = old\<lparr>ht_canceled := (node, k) \<in> set (x # xs) \<or> ht_canceled old\<rparr>"
      if obj: "um_find k (hs_objects (fold (\<lambda>(n, t) s. if n = node then task_cancel t s else s) xs (task_cancel t s))) = Some obj" for k obj
    proof -
      obtain mid where mid: "um_find k (hs_objects (task_cancel t s)) = Some mid" "obj = mid\<lparr>ht_canceled := (node, k) \<in> set xs \<or> ht_canceled mid\<rparr>"
        using IH' [OF obj] by blast
      obtain old where old: "um_find k (hs_objects s) = Some old" "mid = old\<lparr>ht_canceled := k = t \<or> ht_canceled old\<rparr>"
        using c mid(1) by blast
      show ?thesis using old mid(2) True x by (intro exI [of _ old]) (simp add: disj_ac)
    qed
    then show ?thesis using IH Cons.prems(2) c True x by simp
  qed
qed (simp add: http_task.splits)

lemma tasks_object:
  assumes "tables_ok ts s" and "um_find t (hs_objects s) = Some obj"
  shows "(node, t) \<in> set (hs_tasks s) \<longleftrightarrow> node = ht_node obj"
proof -
  have "set (hs_tasks s) = (\<lambda>(t, obj). (ht_node obj, t)) ` set (hs_objects s)"
    using assms(1) unfolding tables_ok_def objects_pairs_def by (metis set_map set_mset_mset)
  then have iff: "(node, t) \<in> set (hs_tasks s) \<longleftrightarrow> (\<exists>other. (t, other) \<in> set (hs_objects s) \<and> node = ht_node other)" by force
  have "um_ok (hs_objects s)" using assms(1) by (simp add: tables_ok_def)
  then have "(t, other) \<in> set (hs_objects s) \<longleftrightarrow> other = obj" for other
    using assms(2) um_in_set_find [of "hs_objects s" t other] um_find_in_set [OF assms(2)] by auto
  then show ?thesis unfolding iff by simp
qed

lemma tasks_owned: "tables_ok ts s \<Longrightarrow> x \<in> set (hs_tasks s) \<Longrightarrow> snd x \<in># ts"
proof -
  assume a: "tables_ok ts s" "x \<in> set (hs_tasks s)"
  have "set (hs_tasks s) = (\<lambda>(t, obj). (ht_node obj, t)) ` set (hs_objects s)"
    using a(1) unfolding tables_ok_def objects_pairs_def by (metis set_map set_mset_mset)
  then obtain t obj where "(t, obj) \<in> set (hs_objects s)" "x = (ht_node obj, t)" using a(2) by auto
  moreover have "set_mset ts = fst ` set (hs_objects s)" using a(1) unfolding tables_ok_def by (metis set_map set_mset_mset)
  ultimately show ?thesis by force
qed

lemma cancelTask_ok:
  assumes ok: "tables_ok ts s"
  shows "tables_ok ts (cancelTask node s)" "hs_fault (cancelTask node s) = hs_fault s" "hs_contexts (cancelTask node s) = hs_contexts s"
    "hs_calls (cancelTask node s) = hs_calls s" "hs_mem (cancelTask node s) = hs_mem s" "hs_pool (cancelTask node s) = hs_pool s"
    "hs_queue (cancelTask node s) = hs_queue s" "hs_tasks (cancelTask node s) = hs_tasks s"
    "\<And>k obj. um_find k (hs_objects (cancelTask node s)) = Some obj \<Longrightarrow>
       \<exists>old. um_find k (hs_objects s) = Some old \<and> obj = old\<lparr>ht_canceled := ht_node old = node \<or> ht_canceled old\<rparr>"
proof -
  note c = cancel_fold [OF ok, of "hs_tasks s" node, folded cancelTask_def]
  have owned: "\<forall>x\<in>set (hs_tasks s). snd x \<in># ts" using tasks_owned [OF ok] by blast
  show "tables_ok ts (cancelTask node s)" "hs_fault (cancelTask node s) = hs_fault s" "hs_contexts (cancelTask node s) = hs_contexts s"
    "hs_calls (cancelTask node s) = hs_calls s" "hs_mem (cancelTask node s) = hs_mem s" "hs_pool (cancelTask node s) = hs_pool s"
    "hs_queue (cancelTask node s) = hs_queue s" "hs_tasks (cancelTask node s) = hs_tasks s"
    using c owned by blast+
  show "\<exists>old. um_find k (hs_objects s) = Some old \<and> obj = old\<lparr>ht_canceled := ht_node old = node \<or> ht_canceled old\<rparr>"
    if obj: "um_find k (hs_objects (cancelTask node s)) = Some obj" for k obj
  proof -
    obtain old where old: "um_find k (hs_objects s) = Some old" "obj = old\<lparr>ht_canceled := (node, k) \<in> set (hs_tasks s) \<or> ht_canceled old\<rparr>"
      using c owned obj by blast
    have "(node, k) \<in> set (hs_tasks s) \<longleftrightarrow> ht_node old = node" using tasks_object [OF ok old(1), of node] by blast
    then show ?thesis using old by simp
  qed
qed

lemma contexts_erase_ok:
  fixes held :: int
  assumes ok: "tables_ok ts s" and held: "held = (case um_find node (hs_contexts s) of None \<Rightarrow> 0 | Some ctx \<Rightarrow> held_block ctx)"
  shows "tables_ok ts (s\<lparr>hs_contexts := fst (um_erase node (hs_contexts s)), hs_live := hs_live s - held\<rparr>)"
proof -
  have u: "um_ok (hs_contexts s)" using ok by (simp add: tables_ok_def)
  have "contexts_block (AList.delete node (hs_contexts s)) = contexts_block (hs_contexts s) - held"
  proof (cases "um_find node (hs_contexts s)")
    case (Some ctx)
    then show ?thesis using sum_delete [OF u Some, of "\<lambda>(_, ctx). held_block ctx"] held by (simp add: contexts_block_def)
  qed (simp add: held)
  moreover have "\<forall>x\<in>set (AList.delete node (hs_contexts s)). http_ready (snd x)"
    using ok by (auto simp: tables_ok_def AList.delete_eq)
  ultimately show ?thesis using ok u by (auto simp: tables_ok_def um_erase_def)
qed

lemma status_ok:
  assumes ok: "srv_ok s" and fault: "hs_fault s = None"
  shows "srv_ok (connectionStatus node bSuccess s)" "hs_fault (connectionStatus node bSuccess s) = None"
    "hs_queue (connectionStatus node bSuccess s) = hs_queue s" "hs_mem (connectionStatus node bSuccess s) = hs_mem s"
proof -
  have tab: "tables_ok (queue_owned (hs_queue s)) s" using ok by (simp add: srv_ok_def)
  have "srv_ok (connectionStatus node bSuccess s) \<and> hs_fault (connectionStatus node bSuccess s) = None
    \<and> hs_queue (connectionStatus node bSuccess s) = hs_queue s \<and> hs_mem (connectionStatus node bSuccess s) = hs_mem s"
  proof (cases bSuccess)
    case True
    have "http_ready (http_new maxBufferSize_default g)" "held_block (http_new maxBufferSize_default g) = 0" for g
      by (simp_all add: http_ready_def http_new_def held_block_def buf_held_def buf_empty_def)
    then show ?thesis using True ok fault
      by (cases "um_find node (hs_contexts s)") (auto simp: connectionStatus_def um_insert_def srv_ok_def tables_ok_def contexts_block_def)
  next
    case False
    define held where "held = (case um_find node (hs_contexts s) of None \<Rightarrow> 0 | Some ctx \<Rightarrow> held_block ctx)"
    let ?s = "s\<lparr>hs_contexts := fst (um_erase node (hs_contexts s)), hs_live := hs_live s - held\<rparr>"
    have eq: "connectionStatus node bSuccess s = cancelTask node ?s" by (simp add: connectionStatus_def False held_def)
    note c = cancelTask_ok [OF contexts_erase_ok [OF tab held_def]]
    have u: "um_ok (hs_objects (cancelTask node ?s))" using c(1) by (simp add: tables_ok_def)
    have "task_ok (snd x)" if x: "x \<in> set (hs_objects (cancelTask node ?s))" for x
    proof -
      obtain old where "um_find (fst x) (hs_objects s) = Some old" "ht_context (snd x) = ht_context old"
        using c(9) [OF um_in_set_find [OF u, of "fst x" "snd x"]] x by auto
      then show ?thesis using ok um_find_in_set [of "fst x" "hs_objects s" old] by (force simp: srv_ok_def task_ok_def)
    qed
    then show ?thesis using c(1,2,5,7) fault by (simp add: eq srv_ok_def)
  qed
  then show "srv_ok (connectionStatus node bSuccess s)" "hs_fault (connectionStatus node bSuccess s) = None"
    "hs_queue (connectionStatus node bSuccess s) = hs_queue s" "hs_mem (connectionStatus node bSuccess s) = hs_mem s" by simp_all
qed

section \<open>Workers and the end\<close>

lemma queue_owned_event [simp]: "queue_owned (wq_event e q) = queue_owned q"
  by (simp add: queue_owned_def held_tasks_def)

lemma with_queue_ok:
  assumes "srv_ok s" and "queue_owned q = queue_owned (hs_queue s)"
  shows "srv_ok (with_queue q s)"
  using srv_ok_frame [of "with_queue q s" s] assms by (simp add: with_queue_def)

lemma queue_owned_place:
  assumes i: "i < length (wq_threads q)" and "wq_phase q \<noteq> Gone"
  shows "queue_owned (set_place i p q) + mset (held (wq_threads q ! i)) = queue_owned q + mset (held p)"
  using set_place_held(1) [OF i, of p] assms(2) by (simp add: queue_owned_def)

lemma got_owned:
  assumes "i < length (wq_threads q)" and "held (wq_threads q ! i) = [t]" and "wq_phase q \<noteq> Gone"
  shows "t \<in># queue_owned q"
proof -
  have "mset (held (wq_threads q ! i)) \<subseteq># held_tasks q"
  proof -
    have "j < length ps \<Longrightarrow> mset (held (ps ! j)) \<subseteq># mset (concat (map held ps))" for j and ps :: "'a worker_place list"
    proof (induction ps arbitrary: j)
      case (Cons p ps)
      then show ?case by (cases j) (auto simp: subset_mset.add_increasing subset_mset.add_increasing2)
    qed simp
    then show ?thesis using assms(1) by (simp add: held_tasks_def)
  qed
  then show ?thesis using assms(2,3) by (auto simp: queue_owned_def)
qed

lemma worker_ok:
  assumes ok: "srv_ok s" "hs_fault s = None" and i: "i < length (wq_threads (hs_queue s))" "wq_threads (hs_queue s) ! i \<noteq> Finished"
    and ph: "wq_phase (hs_queue s) \<noteq> Gone"
  shows "hs_queue (server_worker i s) = worker i (hs_queue s) \<and> hs_mem (server_worker i s) = hs_mem s
    \<and> (srv_ok (server_worker i s) \<and> (hs_fault (server_worker i s) = None \<or>
        hs_fault (server_worker i s) = Some Fault_request_line \<and>
        (\<exists>t obj. wq_threads (hs_queue s) ! i = Got_task t \<and> um_find t (hs_objects s) = Some obj
          \<and> \<not> ht_canceled obj \<and> getInfo (ht_context obj) = None)))"
proof -
  let ?q = "hs_queue s"
  have tab: "tables_ok (queue_owned ?q) s" using ok(1) by (simp add: srv_ok_def)
  note p = queue_owned_place [OF i(1) ph]
  have same: "srv_ok (with_queue (worker i ?q) s)" if "queue_owned (worker i ?q) = queue_owned ?q"
    by (rule with_queue_ok [OF ok(1) that])
  have plain: ?thesis if "server_worker i s = with_queue (worker i ?q) s" "queue_owned (worker i ?q) = queue_owned ?q"
    using same [OF that(2)] ok(2) unfolding that(1) by (simp add: with_queue_def)
  from i show ?thesis
  proof (cases rule: worker_cases)
    case exit
    show ?thesis by (rule plain) (use exit p [of Finished] in \<open>simp_all add: server_worker_def with_queue_def\<close>)
  next
    case sleep
    show ?thesis by (rule plain) (use sleep p [of In_wait] in \<open>simp_all add: server_worker_def with_queue_def\<close>)
  next
    case woken
    show ?thesis by (rule plain) (use woken p [of In_getNext] in \<open>simp_all add: server_worker_def with_queue_def\<close>)
  next
    case (start t ts)
    have "held_tasks (set_place i (Got_task t) (?q\<lparr>wq_tasks := ts\<rparr>)) = add_mset t (held_tasks ?q)"
      using set_place_held(1) [of i "?q\<lparr>wq_tasks := ts\<rparr>" "Got_task t"] i(1) start(1) by simp
    then have "queue_owned (worker i ?q) = queue_owned ?q"
      using start ph by (simp add: queue_owned_def)
    then show ?thesis by (intro plain) (use start in \<open>simp_all add: server_worker_def with_queue_def\<close>)
  next
    case (run t)
    have t: "t \<in># queue_owned ?q" by (rule got_owned [OF i(1) _ ph]) (simp add: run)
    obtain obj where obj: "um_find t (hs_objects s) = Some obj" using tables_find [OF tab t] by blast
    note r = task_run_fields [OF tab t]
    have eq: "server_worker i s = with_queue (worker i ?q) (task_run t s)" using run(1) r by (simp add: server_worker_def with_queue_def)
    have "srv_ok (task_run t s)" using r ok(1) by (simp add: srv_ok_def)
    moreover have "queue_owned (worker i ?q) = queue_owned ?q" using p [of "Ran_task t"] run by simp
    ultimately have "srv_ok (server_worker i s)" unfolding eq by (intro with_queue_ok) (use r in simp_all)
    moreover have "hs_fault (task_run t s) = Some Fault_request_line \<Longrightarrow> \<not> ht_canceled obj \<and> getInfo (ht_context obj) = None"
      using obj ok(2) by (cases "getInfo (ht_context obj)") (simp_all add: task_run_def Let_def split: if_splits)
    moreover have "hs_mem (task_run t s) = hs_mem s" using obj by (simp add: task_run_def Let_def split: option.split)
    ultimately show ?thesis using r ok(2) eq obj run(1) by (auto simp: with_queue_def)
  next
    case (delete t)
    have own: "queue_owned ?q = add_mset t (queue_owned (worker i ?q))" using p [of In_getNext] delete by simp
    note d = task_delete_ok [OF tab [unfolded own]]
    have eq: "server_worker i s = with_queue (worker i ?q) (task_delete t s)" using delete(1) d by (simp add: server_worker_def with_queue_def)
    have "tables_ok (queue_owned (worker i ?q)) (server_worker i s) = tables_ok (queue_owned (worker i ?q)) (task_delete t s)"
      by (rule tables_ok_frame) (simp_all add: eq with_queue_def)
    moreover have "hs_mem (task_delete t s) = hs_mem s"
      by (simp add: task_delete_def deleteReferenceTask_def Let_def split: option.split)
    ultimately show ?thesis using d ok by (auto simp: eq with_queue_def srv_ok_def)
  qed
qed

lemma delete_all_ok:
  assumes "tables_ok (mset ts + rest) s"
  shows "tables_ok rest (fold task_delete ts s) \<and> hs_fault (fold task_delete ts s) = hs_fault s \<and> hs_queue (fold task_delete ts s) = hs_queue s
    \<and> hs_mem (fold task_delete ts s) = hs_mem s"
  using assms
proof (induction ts arbitrary: s)
  case (Cons t ts)
  note d = task_delete_ok [of t "mset ts + rest" s]
  have "hs_mem (task_delete t s) = hs_mem s"
    by (simp add: task_delete_def deleteReferenceTask_def Let_def split: option.split)
  then show ?case using Cons.IH [of "task_delete t s"] Cons.prems d by simp
qed simp

lemma joined_ok:
  assumes ok: "srv_ok s" "hs_fault s = None" and ph: "wq_phase (hs_queue s) \<noteq> Gone" "all_joined (hs_queue s)"
  shows "srv_ok (server_joined s)" "hs_fault (server_joined s) = None" "hs_queue (server_joined s) = delete_rest (hs_queue s)"
    "hs_tasks (server_joined s) = []" "hs_objects (server_joined s) = []" "hs_live (server_joined s) = 0" "hs_contexts (server_joined s) = []"
    "hs_mem (server_joined s) = hs_mem s"
proof -
  let ?q = "hs_queue s" and ?s = "fold task_delete (wq_tasks (hs_queue s)) s"
  have "tables_ok (mset (wq_tasks ?q) + {#}) s" using ok(1) ph all_joined_held [of ?q] by (simp add: srv_ok_def queue_owned_def)
  from delete_all_ok [OF this]
  have d: "tables_ok {#} ?s" "hs_fault ?s = None" "hs_queue ?s = ?q" "hs_mem ?s = hs_mem s" using ok(2) by simp_all
  then have e: "hs_objects ?s = []" "hs_tasks ?s = []" "hs_live ?s = contexts_block (hs_contexts ?s)"
    by (auto simp: tables_ok_def objects_pairs_def objects_block_def)
  show q: "hs_queue (server_joined s) = delete_rest (hs_queue s)" "hs_tasks (server_joined s) = []" "hs_objects (server_joined s) = []"
    "hs_live (server_joined s) = 0" "hs_contexts (server_joined s) = []" "hs_mem (server_joined s) = hs_mem s" "hs_fault (server_joined s) = None"
    using d e by (simp_all add: server_joined_def Let_def contexts_block_def)
  then show "srv_ok (server_joined s)"
    by (simp add: srv_ok_def tables_ok_def queue_owned_def delete_rest_def contexts_block_def objects_block_def objects_pairs_def)
qed

section \<open>Reachable servers\<close>

definition server_inv :: "nat \<Rightarrow> (nat \<Rightarrow> bool) \<Rightarrow> http_server \<Rightarrow> bool" where
  "server_inv n mem s \<longleftrightarrow>
     hs_fault s = None \<and> srv_ok s \<and> wq_reach n (hs_queue s) \<and> hs_mem s = mem
     \<or> hs_fault s = Some Fault_exception \<and> (\<exists>i. \<not> mem i)
     \<or> hs_fault s = Some Fault_request_line \<and> (\<exists>t obj. um_find t (hs_objects s) = Some obj \<and> getInfo (ht_context obj) = None)"

lemma server_inv_fine:
  "hs_fault s = None \<Longrightarrow> srv_ok s \<Longrightarrow> wq_reach n (hs_queue s) \<Longrightarrow> hs_mem s = mem \<Longrightarrow> server_inv n mem s"
  by (simp add: server_inv_def)

lemma with_queue_inv:
  assumes ok: "hs_fault s = None" "srv_ok s" "wq_reach n (hs_queue s)" "hs_mem s = mem"
    and step: "wq_step (hs_queue s) q" and own: "queue_owned q = queue_owned (hs_queue s)"
  shows "server_inv n mem (with_queue q s)"
  by (rule server_inv_fine) (use with_queue_ok [OF ok(2) own] Reach_step [OF ok(3) step] ok in \<open>simp_all add: with_queue_def\<close>)

lemma server_step_inv:
  assumes ok: "hs_fault s = None" "srv_ok s" "wq_reach n (hs_queue s)" "hs_mem s = mem" and step: "server_step s s'"
  shows "server_inv n mem s'"
  using step
proof (cases rule: server_step.cases)
  case (Srv_start m good)
  have own: "queue_owned (start_thread good (hs_queue s)) = queue_owned (hs_queue s)"
    using Srv_start(3) by (simp add: start_thread_def queue_owned_def held_tasks_def [of "hs_queue s\<lparr>wq_threads := ts\<rparr>" for ts] held_tasks_def [of "hs_queue s"])
  show ?thesis unfolding Srv_start(1) by (rule with_queue_inv [OF ok wq_step.Step_start [OF Srv_start(3,4)] own])
next
  case (Srv_constructed m)
  show ?thesis unfolding Srv_constructed(1)
    by (rule with_queue_inv [OF ok wq_step.Step_live [OF Srv_constructed(3,4)]]) (simp add: queue_owned_def Srv_constructed(3))
next
  case Srv_thrown
  show ?thesis unfolding Srv_thrown(1)
    by (rule with_queue_inv [OF ok wq_step.Step_thrown [OF Srv_thrown(3,4)]]) (simp add: queue_owned_def Srv_thrown(3))
next
  case (Srv_pool pool)
  have "srv_ok (setNetworkPool pool s) = srv_ok s" by (rule srv_ok_frame) (simp_all add: setNetworkPool_def)
  then show ?thesis using ok by (simp add: Srv_pool server_inv_def) (simp add: setNetworkPool_def)
next
  case (Srv_status node good)
  show ?thesis unfolding Srv_status(1) by (rule server_inv_fine) (use status_ok [OF ok(2,1)] ok in simp_all)
next
  case (Srv_allocate node place)
  have "tables_ok (queue_owned (hs_queue s)) s" using ok by (simp add: srv_ok_def)
  note a = allocate_ok [OF this ok(1) Srv_allocate(2)]
  show ?thesis
  proof (cases "hs_fault s' = None")
    case True
    then show ?thesis using a ok by (intro server_inv_fine) (simp_all add: srv_ok_def)
  next
    case False
    then have "hs_fault s' = Some Fault_exception" using a by (elim conjE disjE) simp_all
    moreover have "\<exists>i. \<not> mem i"
    proof (rule ccontr)
      assume "\<nexists>i. \<not> mem i"
      then have m: "hs_mem s i" for i using ok(4) by simp
      show False
      proof (cases "um_find node (hs_contexts s)")
        case None
        then show False using Srv_allocate(2) False ok(1) by (simp add: allocateMemoryForMessage_def)
      next
        case (Some ctx)
        obtain r pl g live where prep: "prepareBuffer (hs_mem s (hs_tick s)) (hs_fresh s (hs_tick s)) ctx (hs_live s) = (r, pl, g, live)"
          by (metis prod_cases4)
        have "tables_ok (queue_owned (hs_queue s)) s" using ok by (simp add: srv_ok_def)
        note p = prepareBuffer_ready [OF contexts_find [OF this Some] prep]
        have "r = Buf_ok" using p m by (cases r) blast+
        then show False using Srv_allocate(2) False ok(1) Some prep by (auto simp: allocateMemoryForMessage_def)
      qed
    qed
    ultimately show ?thesis by (simp add: server_inv_def)
  qed
next
  case (Srv_receive node pos room s1 bs pick)
  have ql: "queue_live n s" using ok Srv_receive(1) by (simp add: queue_live_def srv_live_def)
  have pk: "pick_ok pick" using Srv_receive(4) by (simp add: pick_ok_def)
  from receive_ok [OF ok(2) ql ok(1) pk Srv_receive(2,3)] Srv_receive(5)
  have "hs_fault s' = None \<and> srv_ok s' \<and> queue_live n s' \<and> hs_mem s' = hs_mem s \<or> hs_fault s' = Some Fault_exception \<and> (\<exists>i. \<not> hs_mem s i)" by simp
  then show ?thesis using ok(4) by (auto simp: server_inv_def queue_live_def)
next
  case (Srv_worker i)
  note w = worker_ok [OF ok(2,1) Srv_worker(5,6,3)]
  have reach: "wq_reach n (hs_queue s')"
    using Reach_step [OF ok(3) wq_step.Step_worker [OF Srv_worker(5,6,3,4)]] w by (simp add: Srv_worker(1))
  show ?thesis
  proof (cases "hs_fault s' = None")
    case True
    then show ?thesis using w reach ok(4) by (intro server_inv_fine) (simp_all add: Srv_worker(1))
  next
    case False
    then obtain t obj where t: "wq_threads (hs_queue s) ! i = Got_task t" "um_find t (hs_objects s) = Some obj" "getInfo (ht_context obj) = None"
      "hs_fault s' = Some Fault_request_line"
      using w by (auto simp: Srv_worker(1))
    have "hs_objects (task_run t s) = hs_objects s" using t(2,3) by (simp add: task_run_def)
    then have "hs_objects s' = hs_objects s" using t(1) by (simp add: Srv_worker(1) server_worker_def Let_def)
    then show ?thesis using t by (auto simp: server_inv_def)
  qed
next
  case Srv_destroy
  have ph: "wq_phase (hs_queue s) = Live" using Srv_destroy by (simp add: srv_live_def)
  show ?thesis unfolding Srv_destroy(1)
    by (rule with_queue_inv [OF ok wq_step.Step_destroy [OF ph]]) (simp add: queue_owned_def wq_destroy_def ph)
next
  case Srv_joined
  have ph: "wq_phase (hs_queue s) \<noteq> Gone" using Srv_joined by simp
  note j = joined_ok [OF ok(2,1) ph Srv_joined(4)]
  show ?thesis unfolding Srv_joined(1)
    by (rule server_inv_fine) (use j ok(4) Reach_step [OF ok(3) wq_step.Step_joined [OF Srv_joined(3,4)]] in simp_all)
qed

lemma server_reach_inv: "server_reach n mem fresh garbage s \<Longrightarrow> server_inv n mem s"
proof (induction rule: server_reach.induct)
  case Server_new
  show ?case
    by (rule server_inv_fine)
       (simp_all add: server_new_def srv_ok_def tables_ok_def queue_owned_def wq_begin_def held_tasks_def objects_pairs_def
         contexts_block_def objects_block_def Reach_begin [unfolded wq_begin_def])
next
  case (Server_step s s')
  have "hs_fault s = None" using Server_step(2) by (cases rule: server_step.cases) (simp_all add: srv_live_def)
  then show ?case using Server_step by (intro server_step_inv [of s]) (simp_all add: server_inv_def)
qed

end
