(* ===== verification/Stream_Decoder.thy ===== *)
theory Stream_Decoder
  imports Np_Prelude
begin

text \<open>
  The interface of a decoder that takes messages off the front of a stream: what it finds must
  not depend on how the stream was cut into pieces. \<open>None\<close> in place of the rest says that
  the stream is malformed and nothing more will be read. The locale \<open>message_format\<close> adds an
  encoder. They are interpreted on the decoders of the HTTP server and of the peer server.
\<close>

text \<open>Feeding the pieces one by one, each behind what the last ones left.\<close>

fun decode_pieces :: "('b list \<Rightarrow> 'm list \<times> 'b list option) \<Rightarrow> 'b list \<Rightarrow> 'b list list \<Rightarrow> 'm list \<times> 'b list option" where
  "decode_pieces dec p [] = ([], Some p)"
| "decode_pieces dec p (x # xs) =
     (case dec (p @ x) of
        (ms, None) \<Rightarrow> (ms, None)
      | (ms, Some r) \<Rightarrow> apfst ((@) ms) (decode_pieces dec r xs))"

locale stream_decoder =
  fixes decode :: "'b list \<Rightarrow> 'm list \<times> 'b list option"
  assumes decode_more: "decode xs = (ms, Some r) \<Longrightarrow> decode (xs @ ys) = apfst ((@) ms) (decode (r @ ys))"
    and decode_stop: "decode xs = (ms, None) \<Longrightarrow> decode (xs @ ys) = (ms, None)"
    and decode_rest: "decode xs = (ms, Some r) \<Longrightarrow> decode r = ([], Some r)"
begin

lemma pieces_whole: "decode p = ([], Some p) \<Longrightarrow> decode_pieces decode p xs = decode (p @ concat xs)"
proof (induction xs arbitrary: p)
  case (Cons x xs)
  obtain ms e where d: "decode (p @ x) = (ms, e)" by fastforce
  show ?case
  proof (cases e)
    case None
    then show ?thesis using decode_stop [of "p @ x" ms "concat xs"] d by simp
  next
    case (Some r)
    then have "decode (p @ x @ concat xs) = apfst ((@) ms) (decode (r @ concat xs))"
      using decode_more [of "p @ x" ms r "concat xs"] d by simp
    then show ?thesis using Cons.IH [OF decode_rest] d Some by simp
  qed
qed simp

lemma cut_irrelevant:
  "decode p = ([], Some p) \<Longrightarrow> concat xs = concat ys \<Longrightarrow> decode_pieces decode p xs = decode_pieces decode p ys"
  by (simp add: pieces_whole)

end

locale message_format = stream_decoder decode for decode :: "'b list \<Rightarrow> 'm list \<times> 'b list option" +
  fixes encode :: "'m \<Rightarrow> 'b list" and fits :: "'m \<Rightarrow> bool"
  assumes decode_encode: "fits m \<Longrightarrow> decode (encode m @ rest) = apfst ((#) m) (decode rest)"
begin

lemma decode_all: "\<forall>m\<in>set ms. fits m \<Longrightarrow> decode (concat (map encode ms) @ rest) = apfst ((@) ms) (decode rest)"
proof (induction ms)
  case (Cons m ms)
  then show ?case using decode_encode [of m "concat (map encode ms) @ rest"] by (cases "decode rest") simp
qed (cases "decode rest", simp)

lemma pieces_encoded:
  assumes "decode p = ([], Some p)" and "\<forall>m\<in>set ms. fits m" and "p @ concat xs = concat (map encode ms) @ rest" and "decode rest = ([], Some rest)"
  shows "decode_pieces decode p xs = (ms, Some rest)"
  using pieces_whole [OF assms(1), of xs] decode_all [OF assms(2), of rest] assms(3,4) by simp

end

end
