(* ===== verification/Http_Split.thy ===== *)
theory Http_Split
  imports Http_Properties Stream_Decoder
begin

text \<open>
  What a stream of bytes is as a sequence of HTTP messages: the specification of what the
  server does with a connection, and its interpretation as a \<open>stream_decoder\<close>.
\<close>

section \<open>Splitting a stream\<close>

text \<open>
  The contract of a connection: its bytes are a sequence of messages, each answered by a task,
  until more bytes are needed or a message is malformed. \<open>None\<close> when this does not end.
\<close>

type_synonym request = "(bytes \<times> bytes \<times> bytes) option option \<times> (bytes \<times> bytes) list option option \<times> bool"

definition request_of :: "http_ctx \<Rightarrow> request" where
  "request_of ctx = (getInfo ctx, getParameter ctx, isKeepAlive ctx)"

datatype stream_end = Needs_more bytes | Malformed

partial_function (option) split_stream :: "bytes \<Rightarrow> (request list \<times> stream_end) option" where
  "split_stream bs =
     (case http_analysis (http_see bs http_begin) of
        (None, _) \<Rightarrow> None
      | (Some done, g) \<Rightarrow>
          if \<not> done then Some ([], Needs_more bs)
          else if isGood g
          then Option.bind (split_stream (drop (h_analysisIndex g) (h_data g))) (\<lambda>(rs, e). Some (request_of g # rs, e))
          else Some ([], Malformed))"

text \<open>The bytes \<open>p\<close> of the connection that are not yet a message.\<close>

definition pending :: "bytes \<Rightarrow> http_ctx \<Rightarrow> bool" where
  "pending p ctx \<longleftrightarrow> http_analysis (http_see p http_begin) = (Some False, http_seen ctx)"

lemma request_view:
  assumes "http_ok g" and "h_state g = State_done"
  shows "request_of (http_view g) = request_of g"
proof -
  let ?k = "h_analysisIndex g"
  have lines: "lines_done (h_data g) ?k (h_lines g)" using assms by (simp add: http_ok_def closed_ok_def)
  have k: "?k \<le> h_nowIndex g" "h_nowIndex g \<le> length (h_data g)"
    using http_ok_base [OF assms(1)] base_now [OF http_ok_base [OF assms(1)]] by (simp_all add: base_ok_def)
  have v: "take ?k (h_data (http_view g)) = take ?k (h_data g)" "?k \<le> length (h_data (http_view g))"
    using k by (simp_all add: http_view_def)
  have "getInfo (http_view g) = getInfo g"
    by (rule getInfo_take [OF view_fields(1,2) lines _ v]) (use k in simp)
  moreover have "line_parameters (h_data (http_view g)) (h_lines g) = line_parameters (h_data g) (h_lines g)"
    by (rule line_parameters_take [OF lines _ v]) (use k in simp)
  ultimately show ?thesis by (simp add: request_of_def getParameter_def isKeepAlive_def view_fields)
qed

lemma pending_new: "h_buffer ctx = buf_empty \<Longrightarrow> pending [] ctx"
  by (simp add: pending_def http_seen_def) code_simp

section \<open>The analysis of a part of a stream\<close>

text \<open>A context that the invariant holds of, with the view of the bytes \<open>bs\<close> alone.\<close>

definition padded :: "bytes \<Rightarrow> http_ctx" where
  "padded bs = h_put bs [0] (length bs + 1) (length bs + 1) 0
     (http_begin\<lparr>h_buffer := \<lparr>b_data = Some [0], b_length = 1, b_maxLength = 1\<rparr>\<rparr>)"

lemma padded_ok: "http_ok (padded bs)"
proof -
  let ?h = "http_begin\<lparr>h_buffer := \<lparr>b_data = Some [0], b_length = 1, b_maxLength = 1\<rparr>\<rparr>"
  have "http_ok ?h" by (simp_all add: http_begin_def http_ok_def) (simp_all add: base_ok_def buf_ok_def)
  then show ?thesis unfolding padded_def by (rule http_ok_put) (simp_all add: http_begin_def)
qed

lemma padded_see: "http_see ys (padded bs) = http_see (bs @ ys) http_begin" "http_view (padded bs) = http_see bs http_begin"
  by (simp_all add: padded_def http_see_def http_view_def h_put_def http_begin_def h_data_def)

lemma padded_analysis:
  assumes "http_analysis (http_see bs http_begin) = (r, g)"
  obtains x where "http_ok x" "http_view x = g" "http_analysis (padded bs) = (r, x)" "r \<noteq> None"
    "h_nowIndex x = length bs" "length (h_data g) = length bs"
    "http_analysis (http_see (bs @ ys) http_begin) = http_analysis (http_see ys x)"
    "r = Some True \<Longrightarrow> http_analysis (http_see (bs @ ys) http_begin) = (Some True, http_see ys x)"
proof -
  obtain r' x where run: "http_analysis (padded bs) = (r', x)" by fastforce
  then have x: "http_ok x" "r' \<noteq> None" using http_analysis_ok [OF padded_ok [of bs]] by simp_all
  have "apsnd http_view (http_analysis (padded bs)) = (r, g)"
    using http_view_analysis [OF padded_ok, of bs] assms by (simp only: padded_see)
  then have v: "r' = r" "http_view x = g" using run by simp_all
  have now: "h_nowIndex x = length bs" using http_analysis_now [OF padded_ok [of bs]] run by (simp add: padded_def http_begin_def)
  have len: "length (h_data g) = length bs"
    using now base_now [OF http_ok_base [OF x(1)]] unfolding v(2) [symmetric] by (simp add: http_view_def)
  have more: "http_analysis (http_see (bs @ ys) http_begin) = http_analysis (http_see ys x)"
    using http_see_analysis [OF padded_ok, of ys bs] run by (simp add: padded_see)
  have "fst (http_analysis (padded bs)) = Some True \<longrightarrow> http_analysis (http_see ys (padded bs)) = apsnd (http_see ys) (http_analysis (padded bs))"
    using http_analysis_put [OF padded_ok [of bs] http_see_fun, of ys] by blast
  then have "r = Some True \<Longrightarrow> http_analysis (http_see (bs @ ys) http_begin) = (Some True, http_see ys x)"
    using run v(1) by (simp add: padded_see)
  then show thesis using that [OF x(1) v(2)] run x(2) v(1) now len more by simp
qed

text \<open>More bytes behind those that are not yet a message.\<close>

lemma pending_more:
  assumes "pending p ctx"
  shows "http_analysis (http_see (p @ bs) http_begin) = http_analysis (http_see bs (http_seen ctx))"
proof -
  obtain x where x: "http_ok x" "http_view x = http_seen ctx"
    "http_analysis (http_see (p @ bs) http_begin) = http_analysis (http_see bs x)"
    by (rule padded_analysis [where ys = bs]) (use assms in \<open>auto simp: pending_def\<close>)
  then show ?thesis using http_see_view [OF base_now [OF http_ok_base], of x bs] by simp
qed

section \<open>The splitting as a decoder\<close>

lemma request_see:
  assumes "http_ok x" and "h_state x = State_done"
  shows "request_of (http_see ys x) = request_of (http_view x)"
proof -
  let ?k = "h_analysisIndex x"
  have lines: "lines_done (h_data x) ?k (h_lines x)" using assms by (simp add: http_ok_def closed_ok_def)
  have k: "?k \<le> h_nowIndex x" "h_nowIndex x \<le> length (h_data x)"
    using http_ok_base [OF assms(1)] base_now [OF http_ok_base [OF assms(1)]] by (simp_all add: base_ok_def)
  have f: "h_state (http_see ys x) = h_state x" "h_lines (http_see ys x) = h_lines x" "isKeepAlive (http_see ys x) = isKeepAlive x"
    by (simp_all add: http_see_def isKeepAlive_def)
  have v: "take ?k (h_data (http_see ys x)) = take ?k (h_data x)" "?k \<le> length (h_data (http_see ys x))"
    using k by (simp_all add: http_see_def)
  have "getInfo (http_see ys x) = getInfo x"
    by (rule getInfo_take [OF f(1,2) lines _ v]) (use k in simp)
  moreover have "line_parameters (h_data (http_see ys x)) (h_lines x) = line_parameters (h_data x) (h_lines x)"
    by (rule line_parameters_take [OF lines _ v]) (use k in simp)
  ultimately show ?thesis using request_view [OF assms] f by (simp add: request_of_def getParameter_def)
qed

lemma split_stream_cases:
  obtains (waits) "split_stream bs = Some ([], Needs_more bs)"
  | (bad) "split_stream bs = Some ([], Malformed)" "\<And>ys. split_stream (bs @ ys) = Some ([], Malformed)"
  | (good) r rest where "length rest < length bs"
      "split_stream bs = Option.bind (split_stream rest) (\<lambda>(rs, e). Some (r # rs, e))"
      "\<And>ys. split_stream (bs @ ys) = Option.bind (split_stream (rest @ ys)) (\<lambda>(rs, e). Some (r # rs, e))"
proof -
  obtain r g where run: "http_analysis (http_see bs http_begin) = (r, g)" by fastforce
  obtain x where x: "http_ok x" "http_view x = g" "r \<noteq> None" "h_nowIndex x = length bs" "length (h_data g) = length bs"
    by (rule padded_analysis [OF run, of "[]"])
  have more: "http_analysis (http_see (bs @ ys) http_begin) = (Some True, http_see ys x)" if r: "r = Some True" for ys
  proof -
    obtain x' where x': "http_analysis (padded bs) = (r, x')" "http_ok x'" "http_view x' = g"
      "http_analysis (http_see (bs @ ys) http_begin) = (Some True, http_see ys x')"
      by (rule padded_analysis [OF run, of ys]) (use r in blast)
    have "http_see ys x' = http_see ys x"
      using http_see_view [OF base_now [OF http_ok_base [OF x'(2)]], of ys] http_see_view [OF base_now [OF http_ok_base [OF x(1)]], of ys] x'(3) x(2)
      by simp
    then show ?thesis using x'(4) by simp
  qed
  note split = split_stream.simps [of bs] split_stream.simps [of "bs @ ys" for ys]
  show thesis
  proof (cases "r = Some True")
    case False
    then have "r = Some False" using x(3) by (cases r) auto
    then show thesis using waits split(1) run by simp
  next
    case True
    have same: "isGood (http_see ys x) = isGood g" "h_analysisIndex (http_see ys x) = h_analysisIndex g" "h_data (http_see ys x) = h_data g @ ys" for ys
      by (simp_all add: isGood_def http_see_def http_view_def flip: x(2))
    show thesis
    proof (cases "isGood g")
      case False
      show thesis
      proof (rule bad)
        show "split_stream bs = Some ([], Malformed)" using split(1) run True False by simp
        show "split_stream (bs @ ys) = Some ([], Malformed)" for ys using split(2) [of ys] more [OF True, of ys] same False by simp
      qed
    next
      case good': True
      then have st: "h_state x = State_done" by (simp add: isGood_def view_fields flip: x(2))
      have idx: "0 < h_analysisIndex x" "h_analysisIndex x \<le> length bs"
        using x(1,4) st http_ok_base [OF x(1)] by (simp_all add: http_ok_def closed_ok_def base_ok_def)
      have gi: "h_analysisIndex g = h_analysisIndex x" by (simp add: view_fields flip: x(2))
      show thesis
      proof (rule good [of "drop (h_analysisIndex g) (h_data g)" "request_of g"])
        show "length (drop (h_analysisIndex g) (h_data g)) < length bs" using idx gi x(5) by simp
        show "split_stream bs = Option.bind (split_stream (drop (h_analysisIndex g) (h_data g))) (\<lambda>(rs, e). Some (request_of g # rs, e))"
          using split(1) run True good' by simp
        show "split_stream (bs @ ys) = Option.bind (split_stream (drop (h_analysisIndex g) (h_data g) @ ys)) (\<lambda>(rs, e). Some (request_of g # rs, e))" for ys
          using split(2) [of ys] more [OF True, of ys] same good' idx gi x(5) request_see [OF x(1) st, of ys] x(2) by simp
      qed
    qed
  qed
qed

text \<open>The splitting always ends, and more bytes only add to it.\<close>

lemma split_stream_more:
  "\<exists>rs e. split_stream bs = Some (rs, e) \<and>
     (case e of Malformed \<Rightarrow> \<forall>ys. split_stream (bs @ ys) = Some (rs, Malformed)
      | Needs_more q \<Rightarrow> split_stream q = Some ([], Needs_more q) \<and>
          (\<forall>ys. split_stream (bs @ ys) = Option.bind (split_stream (q @ ys)) (\<lambda>(rs', e). Some (rs @ rs', e))))"
proof (induction "length bs" arbitrary: bs rule: less_induct)
  case less
  show ?case
  proof (cases rule: split_stream_cases [of bs])
    case waits
    have "Option.bind (split_stream (bs @ ys)) (\<lambda>(rs', e). Some ([] @ rs', e)) = split_stream (bs @ ys)" for ys
      by (cases "split_stream (bs @ ys)") auto
    then show ?thesis using waits by simp
  next
    case bad
    then show ?thesis by simp
  next
    case (good r rest)
    obtain rs e where IH: "split_stream rest = Some (rs, e)"
      "case e of Malformed \<Rightarrow> \<forall>ys. split_stream (rest @ ys) = Some (rs, Malformed)
       | Needs_more q \<Rightarrow> split_stream q = Some ([], Needs_more q) \<and>
          (\<forall>ys. split_stream (rest @ ys) = Option.bind (split_stream (q @ ys)) (\<lambda>(rs', e). Some (rs @ rs', e)))"
      using less.hyps [OF good(1)] by blast
    have "split_stream bs = Some (r # rs, e)" using good(2) IH(1) by simp
    moreover have "case e of Malformed \<Rightarrow> \<forall>ys. split_stream (bs @ ys) = Some (r # rs, Malformed)
      | Needs_more q \<Rightarrow> split_stream q = Some ([], Needs_more q) \<and>
          (\<forall>ys. split_stream (bs @ ys) = Option.bind (split_stream (q @ ys)) (\<lambda>(rs', e). Some ((r # rs) @ rs', e)))"
    proof (cases e)
      case (Needs_more q)
      have "split_stream (bs @ ys) = Option.bind (split_stream (q @ ys)) (\<lambda>(rs', e). Some ((r # rs) @ rs', e))" for ys
        using IH(2) good(3) [of ys] Needs_more by (cases "split_stream (q @ ys)") auto
      then show ?thesis using IH(2) Needs_more by simp
    qed (use IH(2) good(3) in simp)
    ultimately show ?thesis by blast
  qed
qed

definition http_decode :: "bytes \<Rightarrow> request list \<times> bytes option" where
  "http_decode bs =
     (case split_stream bs of
        Some (rs, Needs_more q) \<Rightarrow> (rs, Some q)
      | Some (rs, Malformed) \<Rightarrow> (rs, None)
      | None \<Rightarrow> ([], None))"

interpretation http: stream_decoder http_decode
proof unfold_locales
  fix xs ys r :: bytes and ms
  obtain rs e where split: "split_stream xs = Some (rs, e)"
    "case e of Malformed \<Rightarrow> \<forall>ys. split_stream (xs @ ys) = Some (rs, Malformed)
     | Needs_more q \<Rightarrow> split_stream q = Some ([], Needs_more q) \<and>
        (\<forall>ys. split_stream (xs @ ys) = Option.bind (split_stream (q @ ys)) (\<lambda>(rs', e). Some (rs @ rs', e)))"
    using split_stream_more by blast
  {
    assume "http_decode xs = (ms, Some r)"
    then have e: "rs = ms" "e = Needs_more r" using split(1) by (cases e; simp add: http_decode_def)+
    then show "http_decode (xs @ ys) = apfst ((@) ms) (http_decode (r @ ys))"
      using split(2) split_stream_more [of "r @ ys"] by (auto simp: http_decode_def split: stream_end.split)
    show "http_decode r = ([], Some r)" using split(2) e by (simp add: http_decode_def)
  }
  show "http_decode xs = (ms, None) \<Longrightarrow> http_decode (xs @ ys) = (ms, None)"
    using split by (cases e) (auto simp: http_decode_def)
qed

text \<open>
  How the stream of a connection is cut into pieces makes no difference to the messages that are
  found in it, where the rest of each piece is kept in front of the next: it is as if all bytes had
  come at once. The splitting ends for every stream.
\<close>

theorem stream_pieces:
  "decode_pieces http_decode [] xs = http_decode (concat xs) \<and> split_stream (concat xs) \<noteq> None"
proof -
  have "fst (http_analysis (http_see [] http_begin)) = Some False" by code_simp
  then have "split_stream [] = Some ([], Needs_more [])"
    by (subst split_stream.simps) (cases "http_analysis (http_see [] http_begin)", simp)
  then have "http_decode [] = ([], Some [])" by (simp add: http_decode_def)
  then have "decode_pieces http_decode [] xs = http_decode (concat xs)" using http.pieces_whole [of "[]" xs] by simp
  then show ?thesis using split_stream_more [of "concat xs"] by auto
qed

end
