(* ===== verification/Server_Properties.thy ===== *)
theory Server_Properties
  imports Server_Message Http_Split
begin

text \<open>
  What \<open>ChttpServer\<close> guarantees: its tables, how a stream of bytes becomes tasks, what ends a
  connection and what ends the server, and what a hostile peer can do to it.
\<close>

section \<open>The loop of \<open>message\<close>\<close>

text \<open>The tasks that answer the requests, as they are handed to the queue.\<close>

definition answers :: "network_node \<Rightarrow> http_server \<Rightarrow> tid list \<Rightarrow> request list \<Rightarrow> bool" where
  "answers node s ts rs \<longleftrightarrow> list_all2 (\<lambda>t r. case um_find t (hs_objects s) of
     None \<Rightarrow> False | Some obj \<Rightarrow> ht_node obj = node \<and> \<not> ht_canceled obj \<and> request_of (ht_context obj) = r) ts rs"

lemma message_loop_split:
  assumes "srv_ok s" "hs_fault s = None" "queue_live n s" "pick_ok pick" "http_ok ctx" "room_ok ctx" "\<forall>i. hs_mem s i" "hs_pool s"
    and "http_analysis (http_see p http_begin) = apsnd http_view (http_analysis ctx)"
  shows "\<exists>rs e ts ctx' s'. split_stream p = Some (rs, e) \<and> message_loop pick node ctx s = Some (ctx', s')
    \<and> wq_pushed (hs_queue s') = wq_pushed (hs_queue s) @ ts \<and> answers node s' ts rs
    \<and> (\<forall>k obj. um_find k (hs_objects s) = Some obj \<longrightarrow> um_find k (hs_objects s') = Some obj)
    \<and> http_ok ctx' \<and> hs_contexts s' = hs_contexts s
    \<and> (case e of Needs_more q \<Rightarrow> hs_calls s' = hs_calls s \<and> pending q ctx'
       | Malformed \<Rightarrow> hs_calls s' = hs_calls s @ [Call_close node] \<and> \<not> isGood ctx')"
  using assms
proof (induction "h_nowIndex ctx" arbitrary: ctx s p rule: less_induct)
  case less
  note split = split_stream.simps [of p]
  from less.prems(1-6) show ?case
  proof (cases rule: message_loop_cases [where node = node])
    case (wait g)
    have see: "http_analysis (http_see p http_begin) = (Some False, http_view g)" using less.prems(9) wait(1) by simp
    have "http_seen g = http_view g" using base_not_empty [OF http_ok_base [OF wait(2)]] by (simp add: http_seen_def)
    then have "pending p g" using see by (simp add: pending_def)
    moreover have "split_stream p = Some ([], Needs_more p)" using split by (simp add: see)
    ultimately show ?thesis using wait(2,4) by (intro exI [of _ "[]"] exI [of _ "Needs_more p"] exI [of _ g] exI [of _ s]) (simp add: answers_def)
  next
    case (close g s1)
    have bad: "\<not> isGood g" "s1 = s" using close(5,6) less.prems(7,8) by auto
    have "http_analysis (http_see p http_begin) = (Some True, http_view g)" using less.prems(9) close(1) by simp
    moreover have "\<not> isGood (http_view g)" using bad(1) by (simp add: isGood_def view_fields)
    ultimately have "split_stream p = Some ([], Malformed)" using split by simp
    then show ?thesis using close(2,4) bad less.prems(8)
      by (intro exI [of _ "[]"] exI [of _ Malformed] exI [of _ g] exI [of _ "srv_call (Call_close node) s"])
         (simp add: answers_def, simp add: srv_call_def)
  next
    case (exception g s1)
    then show ?thesis using less.prems(7) by blast
  next
    case (task g g' t s1 obj)
    have gok: "http_ok g" using http_analysis_ok [OF less.prems(5)] task(1) by simp
    have st: "h_state g = State_done" using task(2) by (simp add: isGood_def)
    let ?p = "drop (h_analysisIndex g) (take (h_nowIndex g) (h_data g))"
    have rest: "http_analysis (http_see ?p http_begin) = apsnd http_view (http_analysis g')" using task(24) by simp
    have mem: "\<forall>i. hs_mem s1 i" using less.prems(7) task(13) by simp
    from less.hyps [OF task(7-10) less.prems(4) task(5,6) mem task(12) rest]
    obtain rs e ts ctx' s' where IH: "split_stream ?p = Some (rs, e)" "message_loop pick node g' s1 = Some (ctx', s')"
      "wq_pushed (hs_queue s') = wq_pushed (hs_queue s1) @ ts" "answers node s' ts rs"
      "\<forall>k obj. um_find k (hs_objects s1) = Some obj \<longrightarrow> um_find k (hs_objects s') = Some obj"
      "http_ok ctx'" "hs_contexts s' = hs_contexts s1"
      "case e of Needs_more q \<Rightarrow> hs_calls s' = hs_calls s1 \<and> pending q ctx'
       | Malformed \<Rightarrow> hs_calls s' = hs_calls s1 @ [Call_close node] \<and> \<not> isGood ctx'" by blast
    have see: "http_analysis (http_see p http_begin) = (Some True, http_view g)" using less.prems(9) task(1) by simp
    have "isGood (http_view g)" "drop (h_analysisIndex (http_view g)) (h_data (http_view g)) = ?p"
      using task(2) by (simp_all add: isGood_def http_view_def)
    then have "split_stream p = Some (request_of (http_view g) # rs, e)" using split see IH(1) by simp
    then have sp: "split_stream p = Some (request_of g # rs, e)" using request_view [OF gok st] by simp
    have "um_find t (hs_objects s') = Some obj" using IH(5) task(16) by blast
    then have ans: "answers node s' (t # ts) (request_of g # rs)"
      using IH(4) task(19-23) by (simp add: answers_def request_of_def)
    have keep: "\<forall>k obj. um_find k (hs_objects s) = Some obj \<longrightarrow> um_find k (hs_objects s') = Some obj"
    proof (intro allI impI)
      fix k o'
      assume k: "um_find k (hs_objects s) = Some o'"
      then have "k \<noteq> t" using task(17) by auto
      then have "um_find k (hs_objects s1) = Some o'" using task(18) k by simp
      then show "um_find k (hs_objects s') = Some o'" using IH(5) by blast
    qed
    have calls: "case e of Needs_more q \<Rightarrow> hs_calls s' = hs_calls s \<and> pending q ctx'
       | Malformed \<Rightarrow> hs_calls s' = hs_calls s @ [Call_close node] \<and> \<not> isGood ctx'" using IH(8) task(14) by (cases e) simp_all
    have "wq_pushed (hs_queue s') = wq_pushed (hs_queue s) @ t # ts" using IH(3) task(15) by simp
    moreover have "message_loop pick node ctx s = Some (ctx', s')" using task(4) IH(2) by simp
    moreover have "hs_contexts s' = hs_contexts s" using IH(7) task(11) by simp
    ultimately show ?thesis using sp ans keep calls IH(6) by blast
  qed
qed

lemma allocate_view:
  assumes ok: "tables_ok ts s" and ctx: "um_find node (hs_contexts s) = Some ctx"
    and res: "allocateMemoryForMessage node s = (Some (pos, room), s1)"
  shows "\<exists>g. um_find node (hs_contexts s1) = Some g \<and> http_view g = http_seen ctx \<and> hs_calls s1 = hs_calls s \<and> hs_objects s1 = hs_objects s"
proof -
  obtain r pl g live where prep: "prepareBuffer (hs_mem s (hs_tick s)) (hs_fresh s (hs_tick s)) ctx (hs_live s) = (r, pl, g, live)"
    by (metis prod_cases4)
  note p = prepareBuffer_ready [OF contexts_find [OF ok ctx] prep]
  have run: "allocateMemoryForMessage node s = (let s = srv_tick s\<lparr>hs_contexts := AList.update node g (hs_contexts s), hs_live := live\<rparr>
      in if r = Buf_undefined then (None, srv_fault Fault_parser s)
         else if r = Buf_throw then (None, srv_fault Fault_exception s) else (pl, s))"
    by (simp only: allocateMemoryForMessage_def ctx prep option.case prod.case Let_def)
  then have r: "r = Buf_ok" using res by (cases r) (simp_all add: Let_def)
  then have "s1 = srv_tick s\<lparr>hs_contexts := AList.update node g (hs_contexts s), hs_live := live\<rparr>"
    using run res by (simp add: Let_def)
  moreover have "http_view g = http_seen ctx" using p r by blast
  ultimately show ?thesis by simp
qed

section \<open>The tables\<close>

text \<open>
  C12: The table of tasks names exactly the live task objects, each under its own node, and these are
  exactly the tasks that are in the queue or with a worker; every task holds a complete message;
  the blocks held are those of the contexts and the tasks. All that can go wrong, with a peer that
  sends anything, is an exception when memory has run out and a request line that \<open>getInfo\<close>
  cannot read.
\<close>

theorem server_tables:
  assumes "server_reach n mem fresh garbage s"
  shows "(case hs_fault s of
      None \<Rightarrow> mset (hs_tasks s) = mset (map (\<lambda>(t, obj). (ht_node obj, t)) (hs_objects s)) \<and> distinct (map fst (hs_objects s))
        \<and> mset (map fst (hs_objects s)) = (if wq_phase (hs_queue s) = Gone then {#} else mset (wq_tasks (hs_queue s)) + held_tasks (hs_queue s))
        \<and> (\<forall>(t, obj)\<in>set (hs_objects s). isGood (ht_context obj))
        \<and> hs_live s = sum_list (map (\<lambda>(_, ctx). held_block ctx) (hs_contexts s)) + int (length (hs_objects s))
    | Some Fault_exception \<Rightarrow> \<exists>i. \<not> mem i
    | Some Fault_request_line \<Rightarrow> \<exists>t obj. um_find t (hs_objects s) = Some obj \<and> getInfo (ht_context obj) = None
    | Some _ \<Rightarrow> False)"
proof (cases "hs_fault s")
  case None
  then have ok: "srv_ok s" using server_reach_inv [OF assms] by (simp add: server_inv_def)
  then have t: "tables_ok (queue_owned (hs_queue s)) s" and o: "\<forall>x\<in>set (hs_objects s). task_ok (snd x)" by (simp_all add: srv_ok_def)
  have "\<forall>x\<in>set m. task_ok (snd x) \<Longrightarrow> objects_block m = int (length m)" for m
    by (induction m) (auto simp: objects_block_def task_ok_def held_ready)
  then have "objects_block (hs_objects s) = int (length (hs_objects s))" using o by blast
  then show ?thesis using t o None
    by (auto simp: tables_ok_def objects_pairs_def contexts_block_def queue_owned_def um_ok_def task_ok_def isGood_def)
next
  case (Some f)
  then show ?thesis using server_reach_inv [OF assms] by (cases f) (simp_all add: server_inv_def)
qed

text \<open>
  C34: When the destructor has joined the workers, deleting the tasks that are left in the queue and
  the contexts leaves nothing: no task in the table, no object, no block, no fault; every task ever
  pushed has been deleted exactly once.
\<close>

theorem server_end:
  assumes "server_reach n mem fresh garbage s" and "hs_fault s = None" and "wq_phase (hs_queue s) = Destroying" and "all_joined (hs_queue s)"
  shows "hs_tasks (server_joined s) = [] \<and> hs_objects (server_joined s) = [] \<and> hs_contexts (server_joined s) = [] \<and> hs_live (server_joined s) = 0
    \<and> hs_fault (server_joined s) = None \<and> mset (deletes (wq_log (hs_queue (server_joined s)))) = mset (wq_pushed (hs_queue (server_joined s)))"
proof -
  have inv: "srv_ok s" "wq_reach n (hs_queue s)" using server_reach_inv [OF assms(1)] assms(2) by (simp_all add: server_inv_def)
  have ph: "wq_phase (hs_queue s) \<noteq> Gone" using assms(3) by simp
  note j = joined_ok [OF inv(1) assms(2) ph assms(4)]
  have c: "wq_counts (hs_queue s)" using wq_reach_inv [OF inv(2)] by simp
  have "mset (deletes (wq_log (hs_queue s))) = mset (starts (wq_log (hs_queue s)))"
    using c ph all_joined_held [OF assms(4)] by (simp add: wq_counts_def)
  moreover have "wq_pushed (hs_queue s) = starts (wq_log (hs_queue s)) @ wq_tasks (hs_queue s)" using c by (simp add: wq_counts_def)
  ultimately show ?thesis using j by (simp add: delete_rest_def)
qed

section \<open>Messages\<close>

text \<open>
  C32: \<open>message\<close> always returns, whatever bytes have been written into the place that was given
  for them, how many messages they hold and whether memory runs out in between.
\<close>

theorem message_returns:
  assumes "server_reach n mem fresh garbage s" and "srv_live s" and "allocateMemoryForMessage node s = (Some (pos, room), s1)"
    and "length bs \<le> room" and "\<forall>q. may_notify (pick q) q"
  shows "\<exists>s'. message pick node (length bs) (server_write node bs s1) = Some s'
    \<and> (hs_fault s' = None \<or> hs_fault s' = Some Fault_exception \<and> (\<exists>i. \<not> mem i))"
proof -
  have fault: "hs_fault s = None" using assms(2) by (simp add: srv_live_def)
  then have inv: "srv_ok s" "wq_reach n (hs_queue s)" "hs_mem s = mem" using server_reach_inv [OF assms(1)] by (simp_all add: server_inv_def)
  have ql: "queue_live n s" using inv assms(2) by (simp add: queue_live_def srv_live_def)
  from receive_ok [OF inv(1) ql fault _ assms(3,4), of pick] assms(5) show ?thesis
    using inv(3) by (auto simp: pick_ok_def)
qed

text \<open>What a read does to a connection.\<close>

lemma receive_split:
  assumes inv: "srv_ok s" "queue_live n s" "hs_fault s = None" and mem: "\<forall>i. hs_mem s i" and pool: "hs_pool s"
    and ctx: "um_find node (hs_contexts s) = Some ctx" "pending p ctx"
    and place: "allocateMemoryForMessage node s = (Some (pos, room), s1)" "length bs \<le> room" and pick: "pick_ok pick"
  shows "\<exists>s' ctx' rs e ts. message pick node (length bs) (server_write node bs s1) = Some s'
    \<and> split_stream (p @ bs) = Some (rs, e) \<and> wq_pushed (hs_queue s') = wq_pushed (hs_queue s) @ ts \<and> answers node s' ts rs
    \<and> um_find node (hs_contexts s') = Some ctx'
    \<and> (case e of Needs_more q \<Rightarrow> hs_calls s' = hs_calls s \<and> pending q ctx'
       | Malformed \<Rightarrow> hs_calls s' = hs_calls s @ [Call_close node] \<and> \<not> isGood ctx')"
proof -
  have tab: "tables_ok (queue_owned (hs_queue s)) s" using inv(1) by (simp add: srv_ok_def)
  obtain g where c: "um_find node (hs_contexts s1) = Some g" "http_ok g" "room_ok g" "http_ok (http_feed bs g)" "room_ok (http_feed bs g)"
    "h_nowIndex g + length bs \<le> b_length (h_buffer g)"
    "server_write node bs s1 = s1\<lparr>hs_contexts := AList.update node (http_write bs g) (hs_contexts s1)\<rparr>"
    "srv_ok s1" "srv_ok (server_write node bs s1)" "hs_fault s1 = None" "queue_live n (server_write node bs s1)" "hs_mem s1 = hs_mem s"
    "message pick node (length bs) (server_write node bs s1) =
      (case message_loop pick node (http_feed bs g) (server_write node bs s1) of
         None \<Rightarrow> None | Some (g, s) \<Rightarrow> Some (s\<lparr>hs_contexts := AList.update node g (hs_contexts s)\<rparr>))"
    by (rule receive_start [OF inv place])
  have al: "http_view g = http_seen ctx" "hs_calls s1 = hs_calls s"
    using allocate_view [OF tab ctx(1) place(1)] c(1) by auto
  have s1: "hs_queue s1 = hs_queue s" "hs_pool s1 = hs_pool s" using allocate_ok [OF tab inv(3) place(1)] by simp_all
  let ?w = "server_write node bs s1"
  have w: "hs_fault ?w = None" "\<forall>i. hs_mem ?w i" "hs_pool ?w" "hs_queue ?w = hs_queue s" "hs_calls ?w = hs_calls s" "hs_objects ?w = hs_objects s1"
    using c(7,10,12) mem pool s1 al by simp_all
  have now: "h_nowIndex g \<le> length (h_data g)" by (rule base_now [OF http_ok_base [OF c(2)]])
  have "http_see bs (http_seen ctx) = http_view (http_feed bs g)"
    using http_see_view [OF now, of bs] http_view_put [OF now, of bs] http_feed_put [OF c(2,6)] al(1) by simp
  then have see: "http_analysis (http_see (p @ bs) http_begin) = apsnd http_view (http_analysis (http_feed bs g))"
    using pending_more [OF ctx(2), of bs] http_view_analysis [OF c(4)] by simp
  from message_loop_split [OF c(9) w(1) c(11) pick c(4,5) w(2,3) see, of node]
  obtain rs e ts ctx' s2 where r: "split_stream (p @ bs) = Some (rs, e)" "message_loop pick node (http_feed bs g) ?w = Some (ctx', s2)"
    "wq_pushed (hs_queue s2) = wq_pushed (hs_queue s) @ ts" "answers node s2 ts rs"
    "case e of Needs_more q \<Rightarrow> hs_calls s2 = hs_calls s \<and> pending q ctx'
     | Malformed \<Rightarrow> hs_calls s2 = hs_calls s @ [Call_close node] \<and> \<not> isGood ctx'"
    unfolding w(4,5) by blast
  let ?s' = "s2\<lparr>hs_contexts := AList.update node ctx' (hs_contexts s2)\<rparr>"
  have "message pick node (length bs) ?w = Some ?s'" using c(13) r(2) by simp
  moreover have "answers node ?s' ts rs" using r(4) by (simp add: answers_def)
  moreover have "um_find node (hs_contexts ?s') = Some ctx'" by simp
  moreover have "case e of Needs_more q \<Rightarrow> hs_calls ?s' = hs_calls s \<and> pending q ctx'
     | Malformed \<Rightarrow> hs_calls ?s' = hs_calls s @ [Call_close node] \<and> \<not> isGood ctx'" using r(5) by (cases e) simp_all
  ultimately show ?thesis using r(1,3)
    by (intro exI [of _ ?s'] exI [of _ ctx'] exI [of _ rs] exI [of _ e] exI [of _ ts]) simp
qed

text \<open>
  C3: What a read does to a connection is determined by its stream: \<open>message\<close> pushes one task for
  every complete message, in order, with the request of that message, the node of the connection
  and not canceled; the bytes behind the last one stay for the next read, so that reads compose; a
  malformed message closes the connection after the tasks before it, and is the only reason to call
  the pool.
\<close>

theorem message_splits:
  assumes "server_reach n mem fresh garbage s" and "srv_live s" and "\<forall>i. mem i" and "hs_pool s"
    and "um_find node (hs_contexts s) = Some ctx" and "pending p ctx"
    and "allocateMemoryForMessage node s = (Some (pos, room), s1)" and "length bs \<le> room" and "\<forall>q. may_notify (pick q) q"
  shows "\<exists>s' ctx' rs e ts. message pick node (length bs) (server_write node bs s1) = Some s'
    \<and> split_stream (p @ bs) = Some (rs, e) \<and> wq_pushed (hs_queue s') = wq_pushed (hs_queue s) @ ts \<and> answers node s' ts rs
    \<and> um_find node (hs_contexts s') = Some ctx'
    \<and> (case e of Needs_more q \<Rightarrow> hs_calls s' = hs_calls s \<and> pending q ctx'
       | Malformed \<Rightarrow> hs_calls s' = hs_calls s @ [Call_close node] \<and> \<not> isGood ctx')"
proof -
  have fault: "hs_fault s = None" using assms(2) by (simp add: srv_live_def)
  then have inv: "srv_ok s" "queue_live n s" "\<forall>i. hs_mem s i"
    using server_reach_inv [OF assms(1)] assms(2,3) by (simp_all add: server_inv_def queue_live_def srv_live_def)
  show ?thesis
    by (rule receive_split [OF inv(1,2) fault inv(3) assms(4-8)]) (use assms(9) in \<open>simp add: pick_ok_def\<close>)
qed

section \<open>The end of a connection\<close>

text \<open>
  C33: When a connection ends, its context goes with its block, every task of its node is canceled,
  and running such a task then does nothing; the contexts and the tasks of other nodes, the queue
  and the pool are left alone.
\<close>

theorem disconnect_cancels:
  assumes "server_reach n mem fresh garbage s" and "srv_live s"
  shows "um_find k (hs_contexts (connectionStatus node False s)) = (if k = node then None else um_find k (hs_contexts s))
    \<and> (um_find t (hs_objects s) = Some obj \<longrightarrow>
        um_find t (hs_objects (connectionStatus node False s)) = Some (obj\<lparr>ht_canceled := ht_node obj = node \<or> ht_canceled obj\<rparr>)
        \<and> (ht_node obj = node \<longrightarrow> task_run t (connectionStatus node False s) = connectionStatus node False s))
    \<and> hs_queue (connectionStatus node False s) = hs_queue s \<and> hs_calls (connectionStatus node False s) = hs_calls s
    \<and> hs_fault (connectionStatus node False s) = None"
proof -
  have fault: "hs_fault s = None" using assms(2) by (simp add: srv_live_def)
  then have ok: "srv_ok s" using server_reach_inv [OF assms(1)] by (simp add: server_inv_def)
  then have tab: "tables_ok (queue_owned (hs_queue s)) s" by (simp add: srv_ok_def)
  define held where "held = (case um_find node (hs_contexts s) of None \<Rightarrow> 0 | Some ctx \<Rightarrow> held_block ctx)"
  let ?s = "s\<lparr>hs_contexts := fst (um_erase node (hs_contexts s)), hs_live := hs_live s - held\<rparr>"
  have eq: "connectionStatus node False s = cancelTask node ?s" by (simp add: connectionStatus_def held_def)
  note c = cancelTask_ok [OF contexts_erase_ok [OF tab held_def], where node = node]
  have obj: "um_find t (hs_objects (cancelTask node ?s)) = Some (obj\<lparr>ht_canceled := ht_node obj = node \<or> ht_canceled obj\<rparr>)"
    if t: "um_find t (hs_objects s) = Some obj"
  proof -
    have "t \<in># queue_owned (hs_queue s)"
      using um_find_absent [OF tab, of t] t by auto
    then obtain obj' where "um_find t (hs_objects (cancelTask node ?s)) = Some obj'" using tables_find [OF c(1)] by blast
    with c(9) [OF this] t show ?thesis by auto
  qed
  have "task_run t (cancelTask node ?s) = cancelTask node ?s" if "um_find t (hs_objects s) = Some obj" "ht_node obj = node"
    using obj [OF that(1)] that(2) by (simp add: task_run_def)
  then show ?thesis unfolding eq using obj c(2-4,7) fault by simp
qed

section \<open>A hostile peer\<close>

text \<open>A request whose first line has only one blank.\<close>

definition attack_bytes :: bytes where
  "attack_bytes = ascii ''GET /'' @ [CR, LF, CR, LF]"

lemma attack_run:
  "(case http_analysis (http_see attack_bytes http_begin) of
      (r, x) \<Rightarrow> r = Some True \<and> isGood x \<and> fst (request_of x) = None \<and> drop (h_analysisIndex x) (h_data x) = [])"
  by code_simp

lemma attack_split: "\<exists>r. split_stream attack_bytes = Some ([r], Needs_more []) \<and> fst r = None"
proof -
  obtain v x where run: "http_analysis (http_see attack_bytes http_begin) = (v, x)" by fastforce
  then have x: "v = Some True" "isGood x" "fst (request_of x) = None" "drop (h_analysisIndex x) (h_data x) = []"
    using attack_run by simp_all
  have "fst (http_analysis (http_see [] http_begin)) = Some False" by code_simp
  then have "split_stream [] = Some ([], Needs_more [])"
    by (subst split_stream.simps) (cases "http_analysis (http_see [] http_begin)", simp)
  then show ?thesis using x run by (subst split_stream.simps) simp
qed

text \<open>
  C35: Nine bytes from any peer end the process: on a new connection they become one task, not
  malformed, and whichever worker comes to run it passes through a null pointer in \<open>getInfo\<close>,
  unless the connection has ended before.
\<close>

theorem short_request_crashes_worker:
  assumes "server_reach n mem fresh garbage s" and "srv_live s" and "\<forall>i. mem i" and "hs_pool s"
    and "um_find node (hs_contexts s) = Some ctx" and "pending [] ctx"
    and "allocateMemoryForMessage node s = (Some (pos, room), s1)" and "length attack_bytes \<le> room" and "\<forall>q. may_notify (pick q) q"
  shows "\<exists>s' t. message pick node (length attack_bytes) (server_write node attack_bytes s1) = Some s'
    \<and> wq_pushed (hs_queue s') = wq_pushed (hs_queue s) @ [t] \<and> hs_calls s' = hs_calls s
    \<and> (\<forall>r i. hs_fault r = None \<longrightarrow> um_find t (hs_objects r) = um_find t (hs_objects s') \<longrightarrow> wq_threads (hs_queue r) ! i = Got_task t \<longrightarrow>
         hs_fault (server_worker i r) = Some Fault_request_line)"
proof -
  have fault: "hs_fault s = None" using assms(2) by (simp add: srv_live_def)
  then have inv: "srv_ok s" "queue_live n s" "\<forall>i. hs_mem s i"
    using server_reach_inv [OF assms(1)] assms(2,3) by (simp_all add: server_inv_def queue_live_def srv_live_def)
  have pick: "pick_ok pick" using assms(9) by (simp add: pick_ok_def)
  obtain s' ctx' rs e ts where s': "message pick node (length attack_bytes) (server_write node attack_bytes s1) = Some s'"
    "split_stream attack_bytes = Some (rs, e)" "wq_pushed (hs_queue s') = wq_pushed (hs_queue s) @ ts" "answers node s' ts rs"
    "case e of Needs_more q \<Rightarrow> hs_calls s' = hs_calls s \<and> pending q ctx'
     | Malformed \<Rightarrow> hs_calls s' = hs_calls s @ [Call_close node] \<and> \<not> isGood ctx'"
    using receive_split [OF inv(1,2) fault inv(3) assms(4-8) pick] by auto
  obtain r where r: "rs = [r]" "e = Needs_more []" "fst r = None" using attack_split s'(2) by auto
  obtain t where t: "ts = [t]" using s'(4) r(1) by (cases ts) (auto simp: answers_def list_all2_Cons2)
  then obtain obj where obj: "um_find t (hs_objects s') = Some obj" "\<not> ht_canceled obj" "request_of (ht_context obj) = r"
    using s'(4) r(1) by (auto simp: answers_def split: option.splits)
  have "getInfo (ht_context obj) = None" using obj(3) r(3) by (auto simp: request_of_def)
  then have "hs_fault (server_worker i g) = Some Fault_request_line"
    if "hs_fault g = None" "um_find t (hs_objects g) = um_find t (hs_objects s')" "wq_threads (hs_queue g) ! i = Got_task t" for g i
    using that obj by (simp add: server_worker_def task_run_def Let_def srv_fault_fault)
  then show ?thesis using s'(1,3,5) t r(2) by auto
qed

section \<open>Running out of memory\<close>

text \<open>
  When there is memory for the task but not for the copy of its message, \<open>reinitForNext\<close> throws
  out of the callback: the task is in the table and in nobody's hands.
\<close>

theorem reinit_exception_leaks:
  assumes "srv_ok s" and "hs_fault s = None" and "http_ok ctx" and "room_ok ctx" and "http_analysis ctx = (Some True, g)" and "isGood g"
    and "hs_pool s" and "hs_mem s (hs_tick s)" and "\<not> hs_mem s (hs_tick s + 1)"
  shows "\<exists>s' t. message_loop pick node ctx s = Some (g, s') \<and> hs_fault s' = Some Fault_exception
    \<and> (node, t) \<in> set (hs_tasks s') \<and> t \<notin># queue_owned (hs_queue s')"
proof -
  have tab: "tables_ok (queue_owned (hs_queue s)) s" using assms(1) by (simp add: srv_ok_def)
  obtain r s1 where new: "task_new node s = (r, s1)" by fastforce
  from tab new show ?thesis
  proof (cases rule: task_new_cases)
    case none
    then show ?thesis using assms(8) by simp
  next
    case (some t obj)
    obtain g' s2 where ho: "hand_over pick t g s1 = (g', s2)" by fastforce
    note a = analysis_ready [OF assms(3,4,5)]
    have find: "um_find t (hs_objects s1) = Some obj" using some(11) by simp
    have st: "h_state g = State_done" using assms(6) by (simp add: isGood_def)
    have fault1: "hs_fault s1 = None" using some(5) assms(2) by simp
    have tick: "hs_tick s1 = Suc (hs_tick s)" using new some(3) by (auto simp: task_new_def addReferenceTask_def srv_tick_def Let_def)
    have no: "\<not> hs_mem s1 (hs_tick s1)" using assms(9) some(10) tick by simp
    obtain f where f: "reinitForNext False (hs_fresh s1 (hs_tick s1)) g (ht_context obj) (hs_live s1) = (False, Buf_throw, g, f, hs_live s1)"
      using reinit_throw [OF a(2) st some(12), of "hs_fresh s1 (hs_tick s1)" "hs_live s1"] by blast
    have s2: "g' = g" "hs_fault s2 = Some Fault_exception" "hs_tasks s2 = hs_tasks s1" "hs_queue s2 = hs_queue s1"
      using ho no find f fault1 by (auto simp: hand_over_def upd_object_def srv_fault_fault)
    have "(node, t) \<in> set (hs_tasks s1)" using tasks_object [OF some(4) find, of node] some(13) by simp
    moreover have "message_loop pick node ctx s = Some (g, s2)"
      using message_loop.simps [of pick node ctx s] assms(5-7) new some(1) ho s2 by simp
    ultimately show ?thesis using s2 some(6,15) by auto
  qed
qed

section \<open>Witnesses\<close>

text \<open>A server with one worker, a pool, and one new connection.\<close>

definition demo_peer :: network_node where
  "demo_peer = Network_node Protocol_tcp (Sa_in 80 1) 0"

definition demo_new :: http_server where
  "demo_new = server_new 1 False (\<lambda>_. True) (\<lambda>_ _. 0) (\<lambda>_. http_begin)"

definition demo_live_server :: http_server where
  "demo_live_server = (let s = with_queue (start_thread True (hs_queue demo_new)) demo_new in with_queue (hs_queue s\<lparr>wq_phase := Live\<rparr>) s)"

definition demo_conn :: http_server where
  "demo_conn = connectionStatus demo_peer True (setNetworkPool True demo_live_server)"

definition demo_ctx :: http_ctx where
  "demo_ctx = http_new maxBufferSize_default http_begin"

lemma demo_ctx_pending: "pending [] demo_ctx"
  by (rule pending_new) (simp add: demo_ctx_def http_new_def)

lemma demo_conn_fields:
  "hs_fault demo_conn = None" "hs_pool demo_conn" "hs_contexts demo_conn = [(demo_peer, demo_ctx)]" "hs_tasks demo_conn = []"
  "wq_phase (hs_queue demo_conn) = Live" "wq_threads (hs_queue demo_conn) = [In_getNext]" "wq_pushed (hs_queue demo_conn) = []"
  "hs_calls demo_conn = []" "hs_mem demo_conn = (\<lambda>_. True)" "hs_fresh demo_conn = (\<lambda>_ _. 0)" "srv_live demo_conn"
  by (simp_all add: demo_conn_def demo_live_server_def demo_new_def server_new_def with_queue_def start_thread_def setNetworkPool_def
      connectionStatus_def um_insert_def demo_ctx_def wq_begin_def srv_live_def srv_tick_def)

lemma demo_server_reach:
  "server_reach 1 (\<lambda>_. True) (\<lambda>_ _. 0) (\<lambda>_. http_begin) demo_live_server" "srv_live demo_live_server"
  "server_reach 1 (\<lambda>_. True) (\<lambda>_ _. 0) (\<lambda>_. http_begin) demo_conn"
proof -
  let ?reach = "server_reach 1 (\<lambda>_. True) (\<lambda>_ _. 0) (\<lambda>_. http_begin)"
  have new: "?reach demo_new" unfolding demo_new_def by (rule Server_new)
  have "?reach (with_queue (start_thread True (hs_queue demo_new)) demo_new)"
    by (rule Server_step [OF new Srv_start [where n = 1]])
       (simp_all add: demo_new_def server_new_def wq_begin_def)
  then show live: "?reach demo_live_server"
    unfolding demo_live_server_def Let_def
    by (rule Server_step [OF _ Srv_constructed [where n = 1]]) (simp_all add: demo_new_def server_new_def wq_begin_def with_queue_def start_thread_def)
  show 1: "srv_live demo_live_server"
    by (simp add: demo_live_server_def demo_new_def server_new_def with_queue_def start_thread_def wq_begin_def srv_live_def)
  have "?reach (setNetworkPool True demo_live_server)" by (rule Server_step [OF live Srv_pool [OF 1]])
  then show "?reach demo_conn"
    unfolding demo_conn_def by (rule Server_step [OF _ Srv_status]) (use 1 in \<open>simp add: srv_live_def setNetworkPool_def\<close>)
qed

definition demo_pick :: "tid work_queue \<Rightarrow> nat option" where
  "demo_pick q = (if In_wait \<in> set (wq_threads q) then Some (length (takeWhile (\<lambda>p. p \<noteq> In_wait) (wq_threads q))) else None)"

lemma demo_pick_ok: "\<forall>q. may_notify (demo_pick q) q"
proof
  fix q :: "tid work_queue"
  let ?n = "length (takeWhile (\<lambda>p. p \<noteq> In_wait) (wq_threads q))"
  have "In_wait \<in> set (wq_threads q) \<Longrightarrow> ?n < length (wq_threads q) \<and> wq_threads q ! ?n = In_wait"
    using nth_length_takeWhile [of "\<lambda>p. p \<noteq> In_wait" "wq_threads q"]
    by (metis (mono_tags, lifting) length_takeWhile_le order_le_imp_less_or_eq set_takeWhileD takeWhile_eq_take take_all_iff verit_comp_simplify1(2))
  then show "may_notify (demo_pick q) q" by (simp add: demo_pick_def may_notify_def)
qed

lemma demo_allocate: "\<exists>s1. allocateMemoryForMessage demo_peer demo_conn = (Some (0, 0x1000), s1)"
proof -
  obtain r place g live where prep: "prepareBuffer True (\<lambda>_. 0) demo_ctx (hs_live demo_conn) = (r, place, g, live)" by (metis prod_cases4)
  then have "r = Buf_ok \<and> place = Some (0, 0x1000)"
    by (auto simp: prepareBuffer_def http_init_def demo_ctx_def http_new_def http_begin_def buf_resize_def buf_empty_def maxBufferSize_default_def
        free_block_def Let_def split: if_splits)
  then show ?thesis using prep by (simp add: allocateMemoryForMessage_def demo_conn_fields)
qed

theorem server_tables_witness:
  "mset (hs_tasks demo_conn) = {#} \<and> hs_live demo_conn = 0"
  using server_tables [OF demo_server_reach(3)] by (simp add: demo_conn_fields demo_ctx_def http_new_def held_block_def)

theorem message_returns_witness:
  "\<exists>s1 s'. allocateMemoryForMessage demo_peer demo_conn = (Some (0, 0x1000), s1)
    \<and> message demo_pick demo_peer (length [1, 2, LF]) (server_write demo_peer [1, 2, LF] s1) = Some s'"
proof -
  obtain s1 where s1: "allocateMemoryForMessage demo_peer demo_conn = (Some (0, 0x1000), s1)" using demo_allocate by blast
  have len: "length [1, 2, LF] \<le> 0x1000" by simp
  from message_returns [OF demo_server_reach(3) demo_conn_fields(11) s1 len demo_pick_ok] s1 show ?thesis by blast
qed

theorem message_splits_witness:
  "\<exists>s1 s' t. allocateMemoryForMessage demo_peer demo_conn = (Some (0, 0x1000), s1)
    \<and> message demo_pick demo_peer (length attack_bytes) (server_write demo_peer attack_bytes s1) = Some s'
    \<and> wq_pushed (hs_queue s') = [t] \<and> hs_calls s' = []"
proof -
  obtain s1 where s1: "allocateMemoryForMessage demo_peer demo_conn = (Some (0, 0x1000), s1)" using demo_allocate by blast
  have find: "um_find demo_peer (hs_contexts demo_conn) = Some demo_ctx" by (simp add: demo_conn_fields)
  have len: "length attack_bytes \<le> 0x1000" by code_simp
  obtain r where r: "split_stream attack_bytes = Some ([r], Needs_more [])" using attack_split by blast
  obtain s' ctx' rs e ts where s': "message demo_pick demo_peer (length attack_bytes) (server_write demo_peer attack_bytes s1) = Some s'"
    "split_stream ([] @ attack_bytes) = Some (rs, e)" "wq_pushed (hs_queue s') = wq_pushed (hs_queue demo_conn) @ ts" "answers demo_peer s' ts rs"
    "case e of Needs_more q \<Rightarrow> hs_calls s' = hs_calls demo_conn \<and> pending q ctx'
     | Malformed \<Rightarrow> hs_calls s' = hs_calls demo_conn @ [Call_close demo_peer] \<and> \<not> isGood ctx'"
    using message_splits [OF demo_server_reach(3) demo_conn_fields(11) _ demo_conn_fields(2) find demo_ctx_pending s1 len demo_pick_ok]
    by blast
  have out: "rs = [r]" "e = Needs_more []" using s'(2) r by simp_all
  then obtain t where "ts = [t]" using s'(4) by (cases ts) (auto simp: answers_def list_all2_Cons2)
  then show ?thesis using s1 s'(1,3,5) out by (auto simp: demo_conn_fields)
qed

theorem disconnect_cancels_witness:
  "um_find demo_peer (hs_contexts demo_conn) \<noteq> None \<and> um_find demo_peer (hs_contexts (connectionStatus demo_peer False demo_conn)) = None"
  using disconnect_cancels [OF demo_server_reach(3) demo_conn_fields(11), of demo_peer demo_peer]
  by (simp add: demo_conn_fields)

theorem short_request_crashes_worker_witness:
  "\<exists>s1 s' t. allocateMemoryForMessage demo_peer demo_conn = (Some (0, 0x1000), s1)
    \<and> message demo_pick demo_peer (length attack_bytes) (server_write demo_peer attack_bytes s1) = Some s'
    \<and> wq_pushed (hs_queue s') = [t]"
proof -
  obtain s1 where s1: "allocateMemoryForMessage demo_peer demo_conn = (Some (0, 0x1000), s1)" using demo_allocate by blast
  have find: "um_find demo_peer (hs_contexts demo_conn) = Some demo_ctx" by (simp add: demo_conn_fields)
  have len: "length attack_bytes \<le> 0x1000" by code_simp
  from short_request_crashes_worker [OF demo_server_reach(3) demo_conn_fields(11) _ demo_conn_fields(2) find demo_ctx_pending s1 len demo_pick_ok]
  show ?thesis using s1 by (auto simp: demo_conn_fields)
qed

text \<open>The server is destroyed while idle.\<close>

definition demo_destroyed :: http_server where
  "demo_destroyed = (let s = with_queue (wq_destroy (hs_queue demo_conn)) demo_conn in server_worker 0 s)"

lemma demo_destroyed_ok:
  "server_reach 1 (\<lambda>_. True) (\<lambda>_ _. 0) (\<lambda>_. http_begin) demo_destroyed" "hs_fault demo_destroyed = None"
  "wq_phase (hs_queue demo_destroyed) = Destroying" "all_joined (hs_queue demo_destroyed)"
proof -
  let ?s = "with_queue (wq_destroy (hs_queue demo_conn)) demo_conn"
  have s: "server_reach 1 (\<lambda>_. True) (\<lambda>_ _. 0) (\<lambda>_. http_begin) ?s"
    by (rule Server_step [OF demo_server_reach(3) Srv_destroy [OF demo_conn_fields(11)]])
  have q: "wq_threads (hs_queue ?s) = [In_getNext]" "wq_exit (hs_queue ?s)" "wq_phase (hs_queue ?s) = Destroying" "hs_fault ?s = None"
    by (simp_all add: with_queue_def wq_destroy_def setExit_def notify_all_def demo_conn_fields)
  show "server_reach 1 (\<lambda>_. True) (\<lambda>_ _. 0) (\<lambda>_. http_begin) demo_destroyed"
    unfolding demo_destroyed_def Let_def by (rule Server_step [OF s Srv_worker]) (simp_all add: q)
  show "hs_fault demo_destroyed = None" "wq_phase (hs_queue demo_destroyed) = Destroying" "all_joined (hs_queue demo_destroyed)"
    by (simp_all add: demo_destroyed_def Let_def server_worker_def q worker_def getNext_def all_joined_def)
qed

theorem server_end_witness:
  "hs_contexts demo_destroyed \<noteq> [] \<and> hs_contexts (server_joined demo_destroyed) = [] \<and> hs_live (server_joined demo_destroyed) = 0"
proof -
  have "hs_contexts demo_destroyed = hs_contexts demo_conn"
    by (simp add: demo_destroyed_def Let_def server_worker_def with_queue_def wq_destroy_def setExit_def notify_all_def demo_conn_fields)
  then show ?thesis using server_end [OF demo_destroyed_ok] by (simp add: demo_conn_fields)
qed

end
