(* ===== verification/Server_Stream.thy ===== *)
theory Server_Stream
  imports Server_Properties
begin

text \<open>
  \<open>ChttpServer\<close> over the whole life of a connection: \<open>serve\<close> reads a stream piece by piece
  through \<open>allocateMemoryForMessage\<close> and \<open>message\<close>; what it does is what \<open>split_stream\<close> says of
  the bytes taken together.
\<close>

section \<open>Reading a whole stream\<close>

text \<open>
  What libuv and \<open>on_tcp_read\<close> do over and over for one connection: ask for a place, read what has
  come, but never more than there is room for, and give it to \<open>message\<close>. The pieces are what the network
  delivers at a time; one that does not fit is read in several goes. The result are the pieces that
  have not been read, because no place was given for them, and the server.
\<close>

function serve ::
  "(tid work_queue \<Rightarrow> nat option) \<Rightarrow> network_node \<Rightarrow> bytes list \<Rightarrow> http_server \<Rightarrow> (bytes list \<times> http_server) option"
where
  "serve pick node [] s = Some ([], s)"
| "serve pick node (d # ds) s =
     (if d = [] then serve pick node ds s
      else case allocateMemoryForMessage node s of
             (None, s1) \<Rightarrow> Some (d # ds, s1)
           | (Some (pos, room), s1) \<Rightarrow>
               if room = 0 then Some (d # ds, s1)
               else case message pick node (length (take room d)) (server_write node (take room d) s1) of
                      None \<Rightarrow> None
                    | Some s2 \<Rightarrow> serve pick node (drop room d # ds) s2)"
  by pat_completeness auto
termination by (relation "measure (\<lambda>(pick, node, ds, s). length ds + length (concat ds))") auto

declare serve.simps(2) [simp del]

lemma pending_seen: "http_ok g \<Longrightarrow> http_view g = http_seen ctx \<Longrightarrow> pending p ctx \<Longrightarrow> pending p g"
  using base_not_empty [OF http_ok_base, of g] by (simp add: pending_def http_seen_def)

lemma pending_now:
  assumes "http_ok g" and "pending p g"
  shows "h_nowIndex g = length p"
proof -
  have run: "http_analysis (http_see p http_begin) = (Some False, http_view g)"
    using assms base_not_empty [OF http_ok_base, of g] by (simp add: pending_def http_seen_def)
  obtain x where "http_view x = http_view g" "h_nowIndex x = length p" by (rule padded_analysis [OF run])
  then show ?thesis by (metis add_0_right h_put_fields(2) http_view_def list.size(3))
qed

text \<open>No place is given only when the buffer has been filled to its limit.\<close>

lemma allocate_full:
  assumes ok: "srv_ok s" "hs_fault s = None" "\<forall>i. hs_mem s i" and ctx: "um_find node (hs_contexts s) = Some ctx" "pending p ctx"
    and res: "allocateMemoryForMessage node s = (None, s1)"
  shows "\<exists>g. um_find node (hs_contexts s1) = Some g \<and> pending p g \<and> length p = h_maxBufferSize g \<and> 0x1000 \<le> h_maxBufferSize g
    \<and> hs_calls s1 = hs_calls s \<and> hs_objects s1 = hs_objects s \<and> hs_queue s1 = hs_queue s"
proof -
  have tab: "tables_ok (queue_owned (hs_queue s)) s" using ok(1) by (simp add: srv_ok_def)
  obtain r pl g live where prep: "prepareBuffer (hs_mem s (hs_tick s)) (hs_fresh s (hs_tick s)) ctx (hs_live s) = (r, pl, g, live)"
    by (metis prod_cases4)
  note p = prepareBuffer_ready [OF contexts_find [OF tab ctx(1)] prep]
  have "r = Buf_ok" using p ok(3) by (cases r) blast+
  then have g: "pl = None" "s1 = srv_tick s\<lparr>hs_contexts := AList.update node g (hs_contexts s), hs_live := live\<rparr>"
    using res by (simp_all add: allocateMemoryForMessage_def ctx(1) prep Let_def)
  have h: "http_ok g" "room_ok g" "http_view g = http_seen ctx" "h_nowIndex g = h_maxBufferSize g" using p \<open>r = Buf_ok\<close> g(1) by blast+
  have "0x1000 \<le> h_maxBufferSize g" using h(2) http_ok_base [OF h(1)] by (auto simp: room_ok_def base_ok_def buf_ok_def split: option.splits)
  then show ?thesis using g(2) h pending_seen [OF h(1,3) ctx(2)] pending_now [OF h(1)] by simp
qed

lemma answers_keep:
  "answers node s ts rs \<Longrightarrow> \<forall>k obj. um_find k (hs_objects s) = Some obj \<longrightarrow> um_find k (hs_objects s') = Some obj \<Longrightarrow> answers node s' ts rs"
  unfolding answers_def by (erule list_all2_mono) (auto split: option.splits)

lemma decode_split: "http_decode bs = (rs, Some q) \<longleftrightarrow> split_stream bs = Some (rs, Needs_more q)"
  using split_stream_more [of bs] by (auto simp: http_decode_def split: stream_end.splits option.splits)

lemma pending_decode: "pending p ctx \<Longrightarrow> http_decode p = ([], Some p)"
proof -
  assume "pending p ctx"
  then have "http_analysis (http_see p http_begin) = (Some False, http_seen ctx)" by (simp add: pending_def)
  then have "split_stream p = Some ([], Needs_more p)" by (subst split_stream.simps) simp
  then show ?thesis by (simp add: decode_split)
qed

lemma allocate_room:
  assumes "tables_ok ts s" and "allocateMemoryForMessage node s = (Some (pos, room), s1)"
  shows "0 < room"
proof (cases "um_find node (hs_contexts s)")
  case None
  then show ?thesis using assms(2) by (simp add: allocateMemoryForMessage_def)
next
  case (Some ctx)
  obtain r pl g live where prep: "prepareBuffer (hs_mem s (hs_tick s)) (hs_fresh s (hs_tick s)) ctx (hs_live s) = (r, pl, g, live)"
    by (metis prod_cases4)
  note p = prepareBuffer_ready [OF contexts_find [OF assms(1) Some] prep]
  have "r = Buf_ok" "pl = Some (pos, room)"
    using assms(2) Some prep by (auto simp: allocateMemoryForMessage_def Let_def split: if_splits intro: buf_end.exhaust [of r])
  then have "Some (pos, room) = (if h_nowIndex g < b_length (h_buffer g) then Some (h_nowIndex g, b_length (h_buffer g) - h_nowIndex g) else None)"
    using p by metis
  then show ?thesis by (simp split: if_splits)
qed

text \<open>One read, when the stream goes on without an error: the tasks, and what is left for the next.\<close>

lemma receive_decodes:
  assumes inv: "srv_ok s" "queue_live n s" "hs_fault s = None" "\<forall>i. hs_mem s i" "hs_pool s" and pick: "pick_ok pick"
    and ctx: "um_find node (hs_contexts s) = Some ctx" "pending p ctx" and more: "http_decode ((p @ d) @ ys) = (rs, Some q)"
    and place: "allocateMemoryForMessage node s = (Some (pos, room), s1)" "length d \<le> room"
  shows "\<exists>s' ctx' rs1 q1 rs2 ts. message pick node (length d) (server_write node d s1) = Some s'
    \<and> http_decode (p @ d) = (rs1, Some q1) \<and> http_decode (q1 @ ys) = (rs2, Some q)
    \<and> wq_pushed (hs_queue s') = wq_pushed (hs_queue s) @ ts \<and> answers node s' ts rs1 \<and> hs_calls s' = hs_calls s
    \<and> um_find node (hs_contexts s') = Some ctx' \<and> pending q1 ctx'
    \<and> srv_ok s' \<and> queue_live n s' \<and> hs_fault s' = None \<and> (\<forall>i. hs_mem s' i) \<and> hs_pool s'
    \<and> (\<forall>k obj. um_find k (hs_objects s) = Some obj \<longrightarrow> um_find k (hs_objects s') = Some obj)"
proof -
  obtain s' ctx' rs1 e ts where r: "message pick node (length d) (server_write node d s1) = Some s'"
    "split_stream (p @ d) = Some (rs1, e)" "wq_pushed (hs_queue s') = wq_pushed (hs_queue s) @ ts" "answers node s' ts rs1"
    "um_find node (hs_contexts s') = Some ctx'"
    "case e of Needs_more q \<Rightarrow> hs_calls s' = hs_calls s \<and> pending q ctx'
     | Malformed \<Rightarrow> hs_calls s' = hs_calls s @ [Call_close node] \<and> \<not> isGood ctx'"
    using receive_split [OF inv(1-5) ctx place pick] by blast
  have "e \<noteq> Malformed"
  proof
    assume "e = Malformed"
    then have "http_decode (p @ d) = (rs1, None)" using r(2) by (simp add: http_decode_def)
    then show False using http.decode_stop [of "p @ d" rs1 ys] more by simp
  qed
  then obtain q1 where e: "e = Needs_more q1" by (cases e) auto
  then have one: "http_decode (p @ d) = (rs1, Some q1)" using r(2) by (simp add: decode_split)
  obtain rs2 where two: "http_decode (q1 @ ys) = (rs2, Some q)"
    using http.decode_more [OF one, of ys] more by (cases "http_decode (q1 @ ys)") auto
  have k: "hs_fault s' = None" "srv_ok s'" "queue_live n s'" "\<forall>i. hs_mem s' i"
    using receive_ok [OF inv(1-3) pick place] r(1) inv(4) by auto
  note keep = receive_keeps [OF inv(1-3) pick place r(1) k(1)]
  show ?thesis
    using r e one two k keep inv(5)
    by (intro exI [of _ s'] exI [of _ ctx'] exI [of _ rs1] exI [of _ q1] exI [of _ rs2] exI [of _ ts]) simp
qed

lemma split_stream_rest: "split_stream bs = Some (rs, Needs_more q) \<Longrightarrow> length q \<le> length bs"
proof (induction "length bs" arbitrary: bs rs rule: less_induct)
  case less
  show ?case
  proof (cases rule: split_stream_cases [of bs])
    case (good r rest)
    obtain rs' e where "split_stream rest = Some (rs', e)" using split_stream_more [of rest] by blast
    then have "length q \<le> length rest" using less.hyps [OF good(1)] less.prems good(2) by auto
    then show ?thesis using good(1) by simp
  qed (use less.prems in simp_all)
qed

lemma serve_decodes:
  assumes "srv_ok s" "queue_live n s" "hs_fault s = None" "\<forall>i. hs_mem s i" "hs_pool s" "pick_ok pick"
    and "um_find node (hs_contexts s) = Some ctx" "pending p ctx" "http_decode (p @ concat ds) = (rs, Some q)"
  shows "\<exists>rest s' seen ts rs' q' ctx'. serve pick node ds s = Some (rest, s') \<and> concat ds = seen @ concat rest
    \<and> http_decode (p @ seen) = (rs', Some q') \<and> wq_pushed (hs_queue s') = wq_pushed (hs_queue s) @ ts \<and> answers node s' ts rs'
    \<and> hs_calls s' = hs_calls s \<and> (\<forall>k obj. um_find k (hs_objects s) = Some obj \<longrightarrow> um_find k (hs_objects s') = Some obj)
    \<and> um_find node (hs_contexts s') = Some ctx' \<and> pending q' ctx' \<and> (rest \<noteq> [] \<longrightarrow> length q' = h_maxBufferSize ctx' \<and> 0x1000 \<le> h_maxBufferSize ctx')"
  using assms
proof (induction pick node ds s arbitrary: p ctx rs rule: serve.induct)
  case (1 pick node s)
  have "http_decode p = ([], Some p)" using 1(8) by (rule pending_decode)
  then show ?case using 1
    by (intro exI [of _ "[]"] exI [of _ s] exI [of _ p] exI [of _ ctx]) (simp add: answers_def)
next
  case (2 pick node d ds s)
  note prem = "2.prems"
  show ?case
  proof (cases "d = []")
    case True
    from "2.IH"(1) [OF True prem(1-8)] prem(9) True show ?thesis by (simp add: serve.simps(2))
  next
    case False
    obtain place s1 where al: "allocateMemoryForMessage node s = (place, s1)" by fastforce
    have start: "http_decode p = ([], Some p)" using prem(8) by (rule pending_decode)
    show ?thesis
    proof (cases place)
      case None
      then have run: "serve pick node (d # ds) s = Some (d # ds, s1)" using False al by (simp add: serve.simps(2))
      obtain g where "um_find node (hs_contexts s1) = Some g" "pending p g" "length p = h_maxBufferSize g" "0x1000 \<le> h_maxBufferSize g"
        "hs_calls s1 = hs_calls s" "hs_objects s1 = hs_objects s" "hs_queue s1 = hs_queue s"
        using allocate_full [OF prem(1,3,4,7,8) al [unfolded None]] by blast
      then show ?thesis using run start
        by (intro exI [of _ "d # ds"] exI [of _ s1] exI [of _ "[]"] exI [of _ p] exI [of _ g]) (simp add: answers_def)
    next
      case (Some pr)
      obtain pos room where pr: "pr = (pos, room)" by fastforce
      have tab: "tables_ok (queue_owned (hs_queue s)) s" using prem(1) by (simp add: srv_ok_def)
      have room: "room \<noteq> 0" using allocate_room [OF tab al [unfolded Some pr]] by simp
      let ?d = "take room d"
      have len: "length ?d \<le> room" by simp
      have more: "http_decode ((p @ ?d) @ concat (drop room d # ds)) = (rs, Some q)"
      proof -
        have "(p @ ?d) @ concat (drop room d # ds) = p @ concat (d # ds)" by (simp flip: append_assoc) (simp only: append_assoc append_take_drop_id)
        then show ?thesis using prem(9) by (simp only:)
      qed
      obtain s2 ctx2 rs1 q1 rs2 ts where r: "message pick node (length ?d) (server_write node ?d s1) = Some s2"
        "http_decode (p @ ?d) = (rs1, Some q1)" "http_decode (q1 @ concat (drop room d # ds)) = (rs2, Some q)"
        "wq_pushed (hs_queue s2) = wq_pushed (hs_queue s) @ ts" "answers node s2 ts rs1" "hs_calls s2 = hs_calls s"
        "um_find node (hs_contexts s2) = Some ctx2" "pending q1 ctx2"
        "srv_ok s2" "queue_live n s2" "hs_fault s2 = None" "\<forall>i. hs_mem s2 i" "hs_pool s2"
        "\<forall>k obj. um_find k (hs_objects s) = Some obj \<longrightarrow> um_find k (hs_objects s2) = Some obj"
        using receive_decodes [OF prem(1-8) more al [unfolded Some pr] len] by blast
      have run: "serve pick node (d # ds) s = serve pick node (drop room d # ds) s2"
        using False al Some pr room r(1) by (simp add: serve.simps(2))
      have al': "(Some (pos, room), s1) = allocateMemoryForMessage node s" using al Some pr by simp
      obtain rest s' seen ts' rs' q' ctx' where IH: "serve pick node (drop room d # ds) s2 = Some (rest, s')"
        "concat (drop room d # ds) = seen @ concat rest" "http_decode (q1 @ seen) = (rs', Some q')"
        "wq_pushed (hs_queue s') = wq_pushed (hs_queue s2) @ ts'" "answers node s' ts' rs'" "hs_calls s' = hs_calls s2"
        "\<forall>k obj. um_find k (hs_objects s2) = Some obj \<longrightarrow> um_find k (hs_objects s') = Some obj"
        "um_find node (hs_contexts s') = Some ctx'" "pending q' ctx'" "rest \<noteq> [] \<longrightarrow> length q' = h_maxBufferSize ctx' \<and> 0x1000 \<le> h_maxBufferSize ctx'"
        using "2.IH"(2) [OF False al' refl refl room r(1,9-13) prem(6) r(7,8,3)] by blast
      have "http_decode (p @ ?d @ seen) = (rs1 @ rs', Some q')" using http.decode_more [OF r(2), of seen] IH(3) by simp
      moreover have "concat (d # ds) = (?d @ seen) @ concat rest" using IH(2) by (simp flip: append_assoc) (metis append_assoc append_take_drop_id)
      moreover have "answers node s' (ts @ ts') (rs1 @ rs')"
        using answers_keep [OF r(5) IH(7)] IH(5) unfolding answers_def by (rule list_all2_appendI)
      moreover have "\<forall>k obj. um_find k (hs_objects s) = Some obj \<longrightarrow> um_find k (hs_objects s') = Some obj" using r(14) IH(7) by blast
      ultimately show ?thesis using run IH r(4,6)
        by (intro exI [of _ rest] exI [of _ s'] exI [of _ "?d @ seen"] exI [of _ "ts @ ts'"] exI [of _ "rs1 @ rs'"] exI [of _ q'] exI [of _ ctx']) simp
    qed
  qed
qed

text \<open>
  C4: The server serves the stream of a connection, however the network and the size of the buffer cut
  it. Reading it always ends. As long as what has come holds no malformed message, each complete
  message of the stream becomes exactly one task, in order and with the request of that message,
  across all reads; the server does not touch the connection; and the bytes behind the last message
  are kept. Bytes are left unread only when one unfinished message fills the buffer to its limit.
\<close>

theorem connection_served:
  assumes "server_reach n mem fresh garbage s" and "srv_live s" and "\<forall>i. mem i" and "hs_pool s"
    and "um_find node (hs_contexts s) = Some ctx" and "pending p ctx" and "split_stream (p @ concat ds) = Some (rs, Needs_more q)"
    and "\<forall>q. may_notify (pick q) q"
  shows "\<exists>rest s' seen ts rs' q' ctx'. serve pick node ds s = Some (rest, s') \<and> concat ds = seen @ concat rest
    \<and> split_stream (p @ seen) = Some (rs', Needs_more q') \<and> wq_pushed (hs_queue s') = wq_pushed (hs_queue s) @ ts \<and> answers node s' ts rs'
    \<and> hs_calls s' = hs_calls s \<and> um_find node (hs_contexts s') = Some ctx' \<and> pending q' ctx'
    \<and> (rest \<noteq> [] \<longrightarrow> length q' = h_maxBufferSize ctx' \<and> 0x1000 \<le> h_maxBufferSize ctx')"
proof -
  have fault: "hs_fault s = None" using assms(2) by (simp add: srv_live_def)
  then have inv: "srv_ok s" "queue_live n s" "\<forall>i. hs_mem s i"
    using server_reach_inv [OF assms(1)] assms(2,3) by (simp_all add: server_inv_def queue_live_def srv_live_def)
  have pick: "pick_ok pick" using assms(8) by (simp add: pick_ok_def)
  from serve_decodes [OF inv(1,2) fault inv(3) assms(4) pick assms(5,6), of ds rs q] assms(7) show ?thesis
    unfolding decode_split by blast
qed

section \<open>A request in two pieces\<close>

definition demo_request :: bytes where
  "demo_request = ascii ''GET / HTTP/1.1'' @ [CR, LF, CR, LF]"

lemma demo_request_split: "\<exists>r. split_stream demo_request = Some ([r], Needs_more []) \<and> fst r \<noteq> None"
proof -
  have run: "(case http_analysis (http_see demo_request http_begin) of
      (r, x) \<Rightarrow> r = Some True \<and> isGood x \<and> fst (request_of x) \<noteq> None \<and> drop (h_analysisIndex x) (h_data x) = [])"
    by code_simp
  obtain v x where eq: "http_analysis (http_see demo_request http_begin) = (v, x)" by fastforce
  then have x: "v = Some True" "isGood x" "fst (request_of x) \<noteq> None" "drop (h_analysisIndex x) (h_data x) = []"
    using run by simp_all
  have "fst (http_analysis (http_see [] http_begin)) = Some False" by code_simp
  then have "split_stream [] = Some ([], Needs_more [])"
    by (subst split_stream.simps) (cases "http_analysis (http_see [] http_begin)", simp)
  then show ?thesis using x eq by (subst split_stream.simps) simp
qed

theorem connection_served_witness:
  "\<exists>s' t. serve demo_pick demo_peer [take 7 demo_request, drop 7 demo_request] demo_conn = Some ([], s')
    \<and> wq_pushed (hs_queue s') = [t] \<and> hs_calls s' = []"
proof -
  let ?ds = "[take 7 demo_request, drop 7 demo_request]"
  have find: "um_find demo_peer (hs_contexts demo_conn) = Some demo_ctx" by (simp add: demo_conn_fields)
  have ds: "concat ?ds = demo_request" by simp
  obtain r where r: "split_stream demo_request = Some ([r], Needs_more [])" using demo_request_split by blast
  then have r': "split_stream ([] @ concat ?ds) = Some ([r], Needs_more [])" by (simp only: ds append_Nil)
  obtain rest s' seen ts rs' q' ctx' where s: "serve demo_pick demo_peer ?ds demo_conn = Some (rest, s')"
    "concat ?ds = seen @ concat rest" "split_stream ([] @ seen) = Some (rs', Needs_more q')"
    "wq_pushed (hs_queue s') = wq_pushed (hs_queue demo_conn) @ ts" "answers demo_peer s' ts rs'" "hs_calls s' = hs_calls demo_conn"
    "um_find demo_peer (hs_contexts s') = Some ctx'" "rest \<noteq> [] \<longrightarrow> length q' = h_maxBufferSize ctx' \<and> 0x1000 \<le> h_maxBufferSize ctx'"
    using connection_served [OF demo_server_reach(3) demo_conn_fields(11) allI [OF TrueI] demo_conn_fields(2) find demo_ctx_pending r' demo_pick_ok] by blast
  have "length seen \<le> length (concat ?ds)" unfolding s(2) by simp
  moreover have "length (concat ?ds) < 0x1000" unfolding ds by code_simp
  moreover have "length q' \<le> length seen" using split_stream_rest [OF s(3)] by simp
  ultimately have rest: "rest = []" using s(8) by (cases "rest = []") simp_all
  then have "seen = demo_request" using s(2) ds by simp
  then have "rs' = [r]" using s(3) r by simp
  then obtain t where "ts = [t]" using s(5) by (cases ts) (auto simp: answers_def list_all2_Cons2)
  then show ?thesis using s(1,4,6) rest by (simp add: demo_conn_fields)
qed

end
