(* ===== verification/Peer_Context.thy ===== *)
theory Peer_Context
  imports Np_Buffer Stream_Decoder
begin

text \<open>
  \<open>peer_server.h\<close>: \<open>CpeerContext\<close>, which takes packets off a stream, each behind its length
  as a \<open>uint32_t\<close>. The header is not part of the program: nothing includes it, and it does
  not compile, since \<open>prepareBuffer\<close> assigns \<open>length\<close> where its parameter is
  \<open>lenght\<close>, and both \<open>getContent\<close> call a constructor of \<open>Cbuffer\<close> without the memory
  trace. The model is of what remains clear: receiving and the two decoders, with packets as lists
  of bytes. The integer is read in the byte order of the machine, here little endian. Positions are
  natural numbers: they stay below the length of a block plus \<open>2 ^ 33\<close>.
\<close>

section \<open>The context\<close>

record peer_ctx =
  p_maxBufferSize :: nat
  p_buffer :: cbuffer
  p_nowIndex :: nat

definition p_data :: "peer_ctx \<Rightarrow> bytes" where
  "p_data c = (case b_data (p_buffer c) of None \<Rightarrow> [] | Some d \<Rightarrow> d)"

definition peer_new :: "nat \<Rightarrow> peer_ctx" where
  "peer_new maxBufferSize = \<lparr>p_maxBufferSize = maxBufferSize, p_buffer = buf_empty, p_nowIndex = 0\<rparr>"

definition pushBuffer :: "nat \<Rightarrow> peer_ctx \<Rightarrow> peer_ctx" where
  "pushBuffer len c =
     (if p_nowIndex c + len \<le> b_length (p_buffer c) then c\<lparr>p_nowIndex := p_nowIndex c + len\<rparr> else c)"

section \<open>The decoders\<close>

definition load32 :: "bytes \<Rightarrow> nat" where
  "load32 bs = unat (bs ! 0) + 256 * (unat (bs ! 1) + 256 * (unat (bs ! 2) + 256 * unat (bs ! 3)))"

text \<open>
  The loop: the packets from position \<open>nowCheck\<close> on, as far as they are complete within the
  first \<open>len\<close> bytes, and the position where it stops.
\<close>

function split_packets :: "bytes \<Rightarrow> nat \<Rightarrow> nat \<Rightarrow> bytes list \<times> nat" where
  "split_packets d len nowCheck =
     (if len < nowCheck + 4 then ([], nowCheck)
      else let packLength = load32 (take 4 (drop nowCheck d))
           in if len < nowCheck + 4 + packLength then ([], nowCheck)
              else apfst ((#) (take packLength (drop (nowCheck + 4) d))) (split_packets d len (nowCheck + 4 + packLength)))"
  by pat_completeness auto
termination by (relation "measure (\<lambda>(d, len, n). len - n)") auto

declare split_packets.simps [simp del]

text \<open>The static \<open>getContent\<close> for datagrams: what is behind the last packet is ignored.\<close>

definition peer_datagram :: "bytes \<Rightarrow> bytes list" where
  "peer_datagram d = fst (split_packets d (length d) 0)"

text \<open>\<open>getContent\<close> of a context: the bytes behind the last packet move to the front.\<close>

definition peer_getContent :: "peer_ctx \<Rightarrow> bytes list \<times> peer_ctx" where
  "peer_getContent c =
     (let (buffers, nowCheck) = split_packets (p_data c) (p_nowIndex c) 0
      in if nowCheck > 0
         then let extra = p_nowIndex c - nowCheck;
                  d = take extra (drop nowCheck (p_data c)) @ drop extra (p_data c)
              in (buffers, c\<lparr>p_buffer := (p_buffer c)\<lparr>b_data := Some d\<rparr>, p_nowIndex := extra\<rparr>)
         else (buffers, c))"

section \<open>Packets\<close>

definition store32 :: "nat \<Rightarrow> bytes" where
  "store32 n = [of_nat n, of_nat (n div 256), of_nat (n div 256 div 256), of_nat (n div 256 div 256 div 256)]"

definition packet :: "bytes \<Rightarrow> bytes" where
  "packet m = store32 (length m) @ m"

definition peer_decode :: "bytes \<Rightarrow> bytes list \<times> bytes option" where
  "peer_decode d = (case split_packets d (length d) 0 of (ps, n) \<Rightarrow> (ps, Some (drop n d)))"

lemma length_store32 [simp]: "length (store32 n) = 4"
  by (simp add: store32_def)

lemma load_store32:
  assumes "n < 2 ^ 32"
  shows "load32 (store32 n @ rest) = n"
proof -
  have u: "unat (of_nat k :: u8) = k mod 256" for k by (simp add: unat_of_nat take_bit_eq_mod)
  define q1 q2 q3 where q: "q1 = n div 256" "q2 = q1 div 256" "q3 = q2 div 256"
  have "load32 (store32 n @ rest) = n mod 256 + 256 * (q1 mod 256 + 256 * (q2 mod 256 + 256 * (q3 mod 256)))"
    by (simp add: load32_def store32_def u q)
  moreover have "q3 mod 256 = q3" using assms by (simp add: q div_mult2_eq [symmetric] less_mult_imp_div_less)
  moreover have "q2 mod 256 + 256 * q3 = q2" "q1 mod 256 + 256 * q2 = q1" "n mod 256 + 256 * q1 = n" by (simp_all add: q)
  ultimately show ?thesis by (simp only:)
qed

text \<open>The loop from a later position is the loop on the rest of the bytes.\<close>

lemma split_packets_drop:
  "k \<le> n \<Longrightarrow> n \<le> length d \<Longrightarrow> split_packets d n k = apsnd ((+) k) (split_packets (drop k d) (n - k) 0)"
proof (induction "n - k" arbitrary: d n k rule: less_induct)
  case less
  define L where "L = load32 (take 4 (drop k d))"
  have one: "split_packets d n k = (if n < k + 4 then ([], k) else if n < k + 4 + L then ([], k)
      else apfst ((#) (take L (drop (k + 4) d))) (split_packets d n (k + 4 + L)))"
    by (subst split_packets.simps) (simp add: L_def Let_def)
  have two: "split_packets (drop k d) (n - k) 0 = (if n < k + 4 then ([], 0) else if n < k + 4 + L then ([], 0)
      else apfst ((#) (take L (drop (k + 4) d))) (split_packets (drop k d) (n - k) (4 + L)))"
    using less.prems by (subst split_packets.simps) (auto simp: L_def Let_def add.commute)
  show ?case
  proof (cases "n < k + 4 + L")
    case True
    then show ?thesis by (simp add: one two)
  next
    case False
    have a: "split_packets d n (k + 4 + L) = apsnd ((+) (k + 4 + L)) (split_packets (drop (k + 4 + L) d) (n - (k + 4 + L)) 0)"
      by (rule less.hyps) (use False less.prems in simp_all)
    have b: "split_packets (drop k d) (n - k) (4 + L)
        = apsnd ((+) (4 + L)) (split_packets (drop (4 + L) (drop k d)) (n - k - (4 + L)) 0)"
      by (rule less.hyps) (use False less.prems in simp_all)
    have "drop (4 + L) (drop k d) = drop (k + 4 + L) d" "n - k - (4 + L) = n - (k + 4 + L)" by (simp_all add: add.commute add.left_commute)
    then show ?thesis using False a b
      by (cases "split_packets (drop (k + 4 + L) d) (n - (k + 4 + L)) 0") (simp add: one two)
  qed
qed

lemma peer_decode_rec:
  "peer_decode d =
     (if length d < 4 + load32 (take 4 d) then ([], Some d)
      else apfst ((#) (take (load32 (take 4 d)) (drop 4 d))) (peer_decode (drop (4 + load32 (take 4 d)) d)))"
proof (cases "length d < 4 + load32 (take 4 d)")
  case True
  then show ?thesis by (simp add: peer_decode_def split_packets.simps [of d "length d" 0] Let_def)
next
  case False
  let ?k = "4 + load32 (take 4 d)"
  have "split_packets d (length d) ?k = apsnd ((+) ?k) (split_packets (drop ?k d) (length d - ?k) 0)"
    by (rule split_packets_drop) (use False in simp_all)
  then show ?thesis using False
    by (cases "split_packets (drop ?k d) (length d - ?k) 0")
       (simp add: peer_decode_def split_packets.simps [of d "length d" 0] Let_def add.commute)
qed

lemma peer_decode_packet:
  "length h = 4 \<Longrightarrow> length m = load32 h \<Longrightarrow> peer_decode (h @ m @ rest) = apfst ((#) m) (peer_decode rest)"
  by (subst peer_decode_rec) simp

text \<open>The decoder is one in the sense of \<open>stream_decoder\<close>, and \<open>packet\<close> is its encoder.\<close>

lemma peer_decode_cases:
  obtains (short) "peer_decode d = ([], Some d)" "length d < 4 + load32 (take 4 d)"
  | (packet) m rest where "d = take 4 d @ m @ rest" "4 \<le> length d" "length m = load32 (take 4 d)" "peer_decode d = apfst ((#) m) (peer_decode rest)"
proof (cases "length d < 4 + load32 (take 4 d)")
  case True
  then show thesis using short by (simp add: peer_decode_rec [of d])
next
  case False
  let ?n = "load32 (take 4 d)"
  show thesis
  proof (rule packet [of "take ?n (drop 4 d)" "drop (4 + ?n) d"])
    show "d = take 4 d @ take ?n (drop 4 d) @ drop (4 + ?n) d" by (metis append_take_drop_id drop_drop add.commute)
    show "peer_decode d = apfst ((#) (take ?n (drop 4 d))) (peer_decode (drop (4 + ?n) d))" using False peer_decode_rec [of d] by simp
  qed (use False in simp_all)
qed

lemma peer_decode_more: "peer_decode xs = (ms, e) \<Longrightarrow> \<exists>r. e = Some r \<and> peer_decode (xs @ ys) = apfst ((@) ms) (peer_decode (r @ ys)) \<and> peer_decode r = ([], Some r)"
proof (induction "length xs" arbitrary: xs ms e rule: less_induct)
  case less
  show ?case
  proof (cases rule: peer_decode_cases [of xs])
    case short
    then show ?thesis using less.prems by (cases "peer_decode (xs @ ys)") simp
  next
    case (packet m rest)
    have xs: "xs = take 4 xs @ m @ rest" by (rule packet(1))
    obtain ms' e' where r: "peer_decode rest = (ms', e')" by fastforce
    have "length rest < length xs" using arg_cong [OF xs, of length] packet(2) by simp
    from less.hyps [OF this r] obtain s where s: "e' = Some s" "peer_decode (rest @ ys) = apfst ((@) ms') (peer_decode (s @ ys))" "peer_decode s = ([], Some s)" by blast
    have ms: "ms = m # ms'" "e = Some s" using less.prems packet(4) r s(1) by simp_all
    have whole: "xs @ ys = take 4 xs @ m @ rest @ ys" using xs by (metis append.assoc)
    have "peer_decode (xs @ ys) = apfst ((#) m) (peer_decode (rest @ ys))"
      unfolding whole by (rule peer_decode_packet) (use packet(2,3) in simp_all)
    then show ?thesis using s ms by (cases "peer_decode (s @ ys)") simp
  qed
qed

interpretation peer: message_format peer_decode packet "\<lambda>m. length m < 2 ^ 32"
proof unfold_locales
  fix xs ys r :: bytes and ms
  show "peer_decode xs = (ms, Some r) \<Longrightarrow> peer_decode (xs @ ys) = apfst ((@) ms) (peer_decode (r @ ys))"
    and "peer_decode xs = (ms, None) \<Longrightarrow> peer_decode (xs @ ys) = (ms, None)"
    and "peer_decode xs = (ms, Some r) \<Longrightarrow> peer_decode r = ([], Some r)"
    using peer_decode_more by fastforce+
next
  fix m rest :: bytes
  assume m: "length m < 2 ^ 32"
  have "load32 (store32 (length m)) = length m" using load_store32 [OF m, of "[]"] by simp
  then show "peer_decode (packet m @ rest) = apfst ((#) m) (peer_decode rest)"
    using peer_decode_packet [of "store32 (length m)" m rest] by (simp add: packet_def)
qed

section \<open>Reading a stream\<close>

text \<open>
  One read: at most the free part of the block is written behind the bytes received, then
  \<open>pushBuffer\<close> and \<open>getContent\<close>. The block stays as it is; \<open>None\<close> when a piece does
  not fit into it.
\<close>

definition peer_write :: "bytes \<Rightarrow> peer_ctx \<Rightarrow> peer_ctx" where
  "peer_write bs c = c\<lparr>p_buffer := (p_buffer c)\<lparr>b_data :=
     Some (take (p_nowIndex c) (p_data c) @ bs @ drop (p_nowIndex c + length bs) (p_data c))\<rparr>\<rparr>"

fun peer_reads :: "bytes list \<Rightarrow> peer_ctx \<Rightarrow> (bytes list \<times> peer_ctx) option" where
  "peer_reads [] c = Some ([], c)"
| "peer_reads (bs # xs) c =
     (if p_nowIndex c + length bs \<le> b_length (p_buffer c)
      then case peer_getContent (pushBuffer (length bs) (peer_write bs c)) of
             (ps, c) \<Rightarrow> map_option (apfst ((@) ps)) (peer_reads xs c)
      else None)"

definition peer_ok :: "peer_ctx \<Rightarrow> bool" where
  "peer_ok c \<longleftrightarrow> b_data (p_buffer c) \<noteq> None \<and> p_nowIndex c \<le> b_length (p_buffer c) \<and> b_length (p_buffer c) \<le> length (p_data c)"

definition peer_seen :: "peer_ctx \<Rightarrow> bytes" where
  "peer_seen c = take (p_nowIndex c) (p_data c)"

lemma split_packets_take: "n \<le> length d \<Longrightarrow> split_packets d n k = split_packets (take n d) n k"
proof (induction d n k rule: split_packets.induct)
  case (1 d n k)
  let ?L = "load32 (take 4 (drop k d))"
  show ?case
  proof (cases "n < k + 4")
    case False
    have l: "load32 (take 4 (drop k (take n d))) = ?L" using False by (simp add: drop_take min_def)
    show ?thesis
    proof (cases "n < k + 4 + ?L")
      case True
      then show ?thesis using False l by (simp add: split_packets.simps [of _ n k] Let_def)
    next
      case more: False
      have "take ?L (drop (k + 4) (take n d)) = take ?L (drop (k + 4) d)" using more by (simp add: drop_take min_def)
      then show ?thesis using 1(1) [OF False refl more 1(2)] False more l by (simp add: split_packets.simps [of _ n k] Let_def)
    qed
  qed (simp add: split_packets.simps [of _ n k])
qed

lemma split_packets_bound: "k \<le> n \<Longrightarrow> snd (split_packets d n k) \<le> n"
proof (induction d n k rule: split_packets.induct)
  case (1 d n k)
  then show ?case by (subst split_packets.simps) (auto simp: Let_def)
qed

lemma getContent_decode:
  assumes ok: "peer_ok c" and res: "peer_getContent c = (ps, c')"
  shows "peer_decode (peer_seen c) = (ps, Some (peer_seen c')) \<and> peer_ok c'"
proof -
  obtain d where d: "b_data (p_buffer c) = Some d" "p_data c = d" using ok by (auto simp: peer_ok_def p_data_def)
  let ?now = "p_nowIndex c"
  have now: "?now \<le> length d" using ok d by (simp add: peer_ok_def)
  obtain bs n where s: "split_packets d ?now 0 = (bs, n)" by fastforce
  have n: "n \<le> ?now" using split_packets_bound [of 0 ?now d] s by simp
  have seen: "peer_decode (peer_seen c) = (bs, Some (drop n (take ?now d)))"
  proof -
    have "split_packets (take ?now d) ?now 0 = (bs, n)" using split_packets_take [OF now, of 0] s by metis
    moreover have "length (take ?now d) = ?now" using now by simp
    ultimately show ?thesis by (simp only: peer_decode_def peer_seen_def d(2) prod.case)
  qed
  show ?thesis
  proof (cases "n > 0")
    case True
    let ?e = "?now - n"
    have c': "ps = bs" "c' = c\<lparr>p_buffer := (p_buffer c)\<lparr>b_data := Some (take ?e (drop n d) @ drop ?e d)\<rparr>, p_nowIndex := ?e\<rparr>"
      using res s True by (simp_all add: peer_getContent_def d Let_def)
    have "peer_seen c' = drop n (take ?now d)" using now n by (simp add: c'(2) peer_seen_def p_data_def drop_take)
    moreover have "peer_ok c'" using ok now n by (auto simp: c'(2) peer_ok_def p_data_def d(1) min_def)
    ultimately show ?thesis using seen c'(1) by simp
  next
    case False
    then have "ps = bs" "c' = c" "n = 0" using res s by (simp_all add: peer_getContent_def d)
    then show ?thesis using seen ok by (simp add: peer_seen_def d(2))
  qed
qed

lemma read_step:
  assumes ok: "peer_ok c" and fit: "p_nowIndex c + length bs \<le> b_length (p_buffer c)"
  shows "peer_ok (pushBuffer (length bs) (peer_write bs c)) \<and> peer_seen (pushBuffer (length bs) (peer_write bs c)) = peer_seen c @ bs"
  using assms by (auto simp: peer_ok_def pushBuffer_def peer_write_def peer_seen_def p_data_def)

lemma reads_pieces:
  "peer_ok c \<Longrightarrow> peer_reads xs c = Some (ps, c') \<Longrightarrow> decode_pieces peer_decode (peer_seen c) xs = (ps, Some (peer_seen c'))"
proof (induction xs arbitrary: c ps)
  case (Cons bs xs)
  have fit: "p_nowIndex c + length bs \<le> b_length (p_buffer c)" using Cons.prems(2) by (simp split: if_splits)
  obtain qs c1 where g: "peer_getContent (pushBuffer (length bs) (peer_write bs c)) = (qs, c1)" by fastforce
  obtain rs where rest: "peer_reads xs c1 = Some (rs, c')" "ps = qs @ rs" using Cons.prems(2) fit g by auto
  note step = read_step [OF Cons.prems(1) fit]
  have d: "peer_decode (peer_seen c @ bs) = (qs, Some (peer_seen c1))" "peer_ok c1" using getContent_decode [OF _ g] step by simp_all
  show ?case using Cons.IH [OF d(2) rest(1)] d(1) rest(2) by simp
qed simp

section \<open>Properties\<close>

text \<open>
  C38: Packets written to a stream come out of it: however the bytes are cut into pieces that fit
  into the block, a context that starts empty yields exactly the packets, in order, and keeps the
  bytes behind the last one; the decoder for datagrams finds the same packets.
\<close>

theorem peer_packets:
  assumes "peer_ok c" and "p_nowIndex c = 0" and "peer_reads xs c = Some (ps, c')"
    and "concat xs = concat (map packet ms) @ rest" and "\<forall>m\<in>set ms. length m < 2 ^ 32" and "length rest < 4 + load32 (take 4 rest)"
  shows "ps = ms \<and> peer_seen c' = rest \<and> peer_datagram (concat xs) = ms"
proof -
  have seen: "peer_seen c = []" using assms(2) by (simp add: peer_seen_def)
  have rest: "peer_decode rest = ([], Some rest)" using assms(6) by (simp add: peer_decode_rec [of rest])
  have empty: "peer_decode [] = ([], Some [])" by (subst peer_decode_rec) simp
  have "decode_pieces peer_decode [] xs = (ms, Some rest)"
    by (rule peer.pieces_encoded [OF empty assms(5) _ rest]) (simp add: assms(4))
  moreover have "peer_decode (concat xs) = (ms, Some rest)"
    using peer.decode_all [OF assms(5), of rest] rest assms(4) by simp
  ultimately show ?thesis using reads_pieces [OF assms(1,3)] seen
    by (auto simp: peer_decode_def peer_datagram_def split: prod.splits)
qed

definition demo_peer_ctx :: peer_ctx where
  "demo_peer_ctx = (peer_new 64)\<lparr>p_buffer := \<lparr>b_data = Some (replicate 16 0), b_length = 16, b_maxLength = 16\<rparr>\<rparr>"

theorem peer_packets_witness:
  "\<exists>c'. peer_reads [[1, 0], [0, 0, 7, 2, 0], [0, 0]] demo_peer_ctx = Some ([[7]], c') \<and> peer_seen c' = [2, 0, 0, 0]"
proof -
  have "case peer_reads [[1, 0], [0, 0, 7, 2, 0], [0, 0]] demo_peer_ctx of None \<Rightarrow> False | Some _ \<Rightarrow> True" by code_simp
  then obtain ps c' where r: "peer_reads [[1, 0], [0, 0, 7, 2, 0], [0, 0]] demo_peer_ctx = Some (ps, c')"
    by (cases "peer_reads [[1, 0], [0, 0, 7, 2, 0], [0, 0]] demo_peer_ctx") auto
  have ok: "peer_ok demo_peer_ctx" "p_nowIndex demo_peer_ctx = 0" by (simp_all add: demo_peer_ctx_def peer_new_def peer_ok_def p_data_def)
  have "concat [[1, 0], [0, 0, 7, 2, 0], [0, 0]] = concat (map packet [[7]]) @ [2, 0, 0, 0]"
    "length [2, 0, 0, 0 :: u8] < 4 + load32 (take 4 [2, 0, 0, 0])" by (simp_all add: packet_def store32_def load32_def)
  from peer_packets [OF ok r this(1) _ this(2)] r show ?thesis by simp
qed

end
