(* ===== verification/Served_Pool.thy ===== *)
theory Served_Pool
  imports Pool_Gone Pool_Status Pool_Callbacks Server_Stream
begin

text \<open>
  \<open>ChttpServer\<close> as the callback of a \<open>CnetworkPool\<close>: the two models run together. A step of the
  pool logs its callbacks; the server hears them in order (\<open>hears\<close>), and the \<open>send\<close>s and
  \<open>close\<close>s that the server and its tasks call go back into the pool (\<open>call_pool\<close>). \<open>linked\<close>
  relates the tables of the server to what it has been told; with the truth of the reports
  (\<open>Pool_Status\<close>) it relates them to the tables of the pool, and with \<open>Pool_Gone\<close> it shows that
  nobody calls a pool that has left. Two things are taken as one step that are not one in the program: a
  step of the pool with the callbacks in it, which run in the pool's thread with no lock held, and a
  task's \<open>run\<close>, which reads \<open>m_canceled\<close> once, before it calls the pool; \<open>Interleaved_Pool\<close> takes
  both apart.
\<close>

section \<open>The queue during \<open>message\<close>\<close>

text \<open>With nobody asleep, \<open>message\<close> adds its tasks to the queue and does nothing else to it.\<close>

lemma message_loop_queue:
  assumes "srv_ok s" "hs_fault s = None" "queue_live n s" "pick_ok pick" "http_ok ctx" "room_ok ctx"
    and "message_loop pick node ctx s = Some (ctx', s')" and "hs_fault s' = None" and "In_wait \<notin> set (wq_threads (hs_queue s))"
  shows "\<exists>ts. hs_queue s' = (hs_queue s)\<lparr>wq_tasks := wq_tasks (hs_queue s) @ ts, wq_pushed := wq_pushed (hs_queue s) @ ts\<rparr>"
  using assms
proof (induction "h_nowIndex ctx" arbitrary: ctx s rule: less_induct)
  case less
  from less.prems(1-6) show ?case
  proof (cases rule: message_loop_cases [where node = node])
    case (wait g)
    then show ?thesis using less.prems(7) by (auto intro: exI [of _ "[]"])
  next
    case (close g s1)
    then have "hs_queue s' = hs_queue s" using less.prems(7) by auto
    then show ?thesis by (auto intro: exI [of _ "[]"])
  next
    case (exception g s1)
    then show ?thesis using less.prems(7,8) by simp
  next
    case (task g g' t s1 obj1)
    let ?q = "hs_queue s"
    have "may_notify (pick ?q) ?q" using less.prems(4) by (simp add: pick_ok_def)
    then have "pick ?q = None" using less.prems(9) by (cases "pick ?q") (auto simp: may_notify_def dest: nth_mem)
    then have q: "hs_queue s1 = ?q\<lparr>wq_tasks := wq_tasks ?q @ [t], wq_pushed := wq_pushed ?q @ [t]\<rparr>"
      using task(25) by (simp add: pushTask_def notify_one_def)
    have "\<exists>ts. hs_queue s' = (hs_queue s1)\<lparr>wq_tasks := wq_tasks (hs_queue s1) @ ts, wq_pushed := wq_pushed (hs_queue s1) @ ts\<rparr>"
      by (rule less.hyps [OF task(7-10) less.prems(4) task(5,6)]) (use less.prems(7-9) task(4) q in simp_all)
    then obtain ts where "hs_queue s' = ?q\<lparr>wq_tasks := wq_tasks ?q @ t # ts, wq_pushed := wq_pushed ?q @ t # ts\<rparr>"
      by (auto simp: q)
    then show ?thesis by blast
  qed
qed

lemma receive_queue:
  assumes ok: "srv_ok s" "queue_live n s" "hs_fault s = None" and pick: "pick_ok pick"
    and place: "allocateMemoryForMessage node s = (Some (pos, room), s1)" "length bs \<le> room"
    and res: "message pick node (length bs) (server_write node bs s1) = Some s'" "hs_fault s' = None"
    and awake: "In_wait \<notin> set (wq_threads (hs_queue s))"
  shows "\<exists>ts. hs_queue s' = (hs_queue s)\<lparr>wq_tasks := wq_tasks (hs_queue s) @ ts, wq_pushed := wq_pushed (hs_queue s) @ ts\<rparr>"
proof -
  obtain ctx where c: "http_ok (http_feed bs ctx)" "room_ok (http_feed bs ctx)"
    "server_write node bs s1 = s1\<lparr>hs_contexts := AList.update node (http_write bs ctx) (hs_contexts s1)\<rparr>"
    "srv_ok (server_write node bs s1)" "hs_fault s1 = None" "queue_live n (server_write node bs s1)"
    "message pick node (length bs) (server_write node bs s1) =
      (case message_loop pick node (http_feed bs ctx) (server_write node bs s1) of
         None \<Rightarrow> None | Some (g, s) \<Rightarrow> Some (s\<lparr>hs_contexts := AList.update node g (hs_contexts s)\<rparr>))"
    by (rule receive_start [OF ok place])
  obtain g s2 where s2: "message_loop pick node (http_feed bs ctx) (server_write node bs s1) = Some (g, s2)"
    "s' = s2\<lparr>hs_contexts := AList.update node g (hs_contexts s2)\<rparr>"
    using c(7) res(1) by (auto split: option.splits)
  have tab: "tables_ok (queue_owned (hs_queue s)) s" using ok(1) by (simp add: srv_ok_def)
  have w: "hs_queue (server_write node bs s1) = hs_queue s"
    "hs_fault (server_write node bs s1) = None"
    using allocate_ok [OF tab ok(3) place(1)] c(3,5) by simp_all
  have "hs_fault s2 = None" using res(2) s2(2) by simp
  from message_loop_queue [OF c(4) w(2) c(6) pick c(1,2) s2(1) this] awake show ?thesis by (simp add: w s2(2))
qed

section \<open>What the server makes of the callbacks\<close>

text \<open>
  The callbacks of one step of the pool, in order. A place is asked for before each read; without
  one libuv reports \<open>UV_ENOBUFS\<close> and reads nothing, and it never reads more than there is room for.
  \<open>deallocateMemoryForMessage\<close>, \<open>drop\<close> and \<open>bindStatus\<close> do nothing. A fault ends the process.
\<close>

inductive hears :: "event list \<Rightarrow> http_server \<Rightarrow> http_server \<Rightarrow> bool" where
  Hears_end: "hears [] v v"
| Hears_fault: "hs_fault v \<noteq> None \<Longrightarrow> hears es v v"
| Hears_status: "srv_live v \<Longrightarrow> hears es (connectionStatus n b v) v' \<Longrightarrow> hears (Cb_connectionStatus n b # es) v v'"
| Hears_data: "srv_live v \<Longrightarrow> allocateMemoryForMessage n v = (Some (pos, room), v1) \<Longrightarrow> length d \<le> room \<Longrightarrow>
    \<forall>q. may_notify (pick q) q \<Longrightarrow> message pick n (length d) (server_write n d v1) = Some v2 \<Longrightarrow> hears es v2 v' \<Longrightarrow>
    hears (Cb_allocate n # Cb_message n d # Cb_deallocate n # es) v v'"
| Hears_nothing: "srv_live v \<Longrightarrow> allocateMemoryForMessage n v = (place, v1) \<Longrightarrow> hears es v1 v' \<Longrightarrow>
    hears (Cb_allocate n # Cb_deallocate n # es) v v'"
| Hears_other: "\<not> reading e \<Longrightarrow> \<not> status_event e \<Longrightarrow> hears es v v' \<Longrightarrow> hears (e # es) v v'"

lemma hears_reach: "hears es v v' \<Longrightarrow> server_reach n mem fresh garbage v \<Longrightarrow> server_reach n mem fresh garbage v'"
proof (induction rule: hears.induct)
  case (Hears_status v es n b v')
  then show ?case using Server_step [OF _ Srv_status] by blast
next
  case (Hears_data v n pos room v1 d pick v2 es v')
  from Server_step [OF Hears_data.prems Srv_receive [OF Hears_data(1-5)]] show ?case by (rule Hears_data.IH)
next
  case (Hears_nothing v n place v1 es v')
  from Server_step [OF Hears_nothing.prems Srv_allocate [OF Hears_nothing(1,2)]] show ?case by (rule Hears_nothing.IH)
qed

section \<open>The link\<close>

text \<open>
  The server has a context for exactly the nodes it was last told are connected, and every task
  that is not canceled is of such a node.
\<close>

definition linked :: "http_server \<Rightarrow> event list \<Rightarrow> bool" where
  "linked v log \<longleftrightarrow> (\<forall>n. um_find n (hs_contexts v) \<noteq> None \<longleftrightarrow> last_status n log = Some True)
     \<and> (\<forall>t obj. um_find t (hs_objects v) = Some obj \<longrightarrow> \<not> ht_canceled obj \<longrightarrow> last_status (ht_node obj) log = Some True)"

lemma linked_more:
  "\<forall>e\<in>set es. \<not> status_event e \<Longrightarrow> linked v (log @ es) = linked v log"
  by (simp add: linked_def last_status_append last_status_none)

lemma allocate_objects: "hs_objects (snd (allocateMemoryForMessage n v)) = hs_objects v"
  "um_find k (hs_contexts (snd (allocateMemoryForMessage n v))) = None \<longleftrightarrow> um_find k (hs_contexts v) = None"
  "hs_calls (snd (allocateMemoryForMessage n v)) = hs_calls v"
  by (auto simp: allocateMemoryForMessage_def Let_def split: option.split prod.split)

lemma linked_receive:
  assumes ok: "srv_ok s" "queue_live n s" "hs_fault s = None" and pick: "pick_ok pick"
    and place: "allocateMemoryForMessage node s = (Some (pos, room), s1)" "length bs \<le> room"
    and res: "message pick node (length bs) (server_write node bs s1) = Some s'" "hs_fault s' = None" and link: "linked s log"
  shows "linked s' log"
proof -
  obtain ctx where c: "um_find node (hs_contexts s1) = Some ctx" "http_ok (http_feed bs ctx)" "room_ok (http_feed bs ctx)"
    "server_write node bs s1 = s1\<lparr>hs_contexts := AList.update node (http_write bs ctx) (hs_contexts s1)\<rparr>"
    "srv_ok (server_write node bs s1)" "hs_fault s1 = None" "queue_live n (server_write node bs s1)"
    "message pick node (length bs) (server_write node bs s1) =
      (case message_loop pick node (http_feed bs ctx) (server_write node bs s1) of
         None \<Rightarrow> None | Some (g, s) \<Rightarrow> Some (s\<lparr>hs_contexts := AList.update node g (hs_contexts s)\<rparr>))"
    by (rule receive_start [OF ok place])
  have w: "hs_fault (server_write node bs s1) = None" using c(4,6) by simp
  from message_loop_ok [OF c(5) w c(7) pick c(2,3), of node] obtain g s2 where
    s2: "message_loop pick node (http_feed bs ctx) (server_write node bs s1) = Some (g, s2)"
      "hs_contexts s2 = hs_contexts (server_write node bs s1)" by blast
  then have s': "s' = s2\<lparr>hs_contexts := AList.update node g (hs_contexts s2)\<rparr>" using c(8) res(1) by simp
  have keys: "um_find k (hs_contexts s') = None \<longleftrightarrow> um_find k (hs_contexts s1) = None" for k
    using c(1) by (simp add: s' s2(2) c(4))
  have objs: "um_find k (hs_objects s) = Some obj \<or> ht_node obj = node" if "um_find k (hs_objects s') = Some obj" for k obj
    using receive_keeps [OF ok pick place res] that by blast
  have old: "um_find k (hs_contexts s1) = None \<longleftrightarrow> um_find k (hs_contexts s) = None" for k
    using allocate_objects(2) [of k node s] place(1) by simp
  then have "last_status node log = Some True" using link c(1) unfolding linked_def by (metis option.distinct(1))
  then show ?thesis using link keys old objs unfolding linked_def by metis
qed

lemma linked_allocate:
  assumes "linked v log" and "allocateMemoryForMessage n v = (place, v1)"
  shows "linked v1 log"
  using assms allocate_objects(1,3) [of n v] allocate_objects(2) [of _ n v] by (simp add: linked_def)

lemma linked_status:
  assumes ok: "srv_ok v" and link: "linked v log"
  shows "linked (connectionStatus n b v) (log @ [Cb_connectionStatus n b])"
proof (cases b)
  case True
  then show ?thesis using link
    by (auto simp: linked_def connectionStatus_def um_insert_def last_status_append split: option.split)
next
  case False
  have tab: "tables_ok (queue_owned (hs_queue v)) v" using ok by (simp add: srv_ok_def)
  define held where "held = (case um_find n (hs_contexts v) of None \<Rightarrow> 0 | Some ctx \<Rightarrow> held_block ctx)"
  let ?v = "v\<lparr>hs_contexts := fst (um_erase n (hs_contexts v)), hs_live := hs_live v - held\<rparr>"
  have eq: "connectionStatus n b v = cancelTask n ?v" by (simp add: connectionStatus_def False held_def)
  note c = cancelTask_ok [OF contexts_erase_ok [OF tab held_def], where node = n]
  have "last_status (ht_node obj) (log @ [Cb_connectionStatus n b]) = Some True"
    if here: "um_find t (hs_objects (cancelTask n ?v)) = Some obj" "\<not> ht_canceled obj" for t obj
  proof -
    obtain old where "um_find t (hs_objects v) = Some old" "obj = old\<lparr>ht_canceled := ht_node old = n \<or> ht_canceled old\<rparr>"
      using c(9) [OF here(1)] by auto
    then show ?thesis using here(2) link by (auto simp: linked_def last_status_append)
  qed
  moreover have "um_find k (hs_contexts (cancelTask n ?v)) \<noteq> None \<longleftrightarrow> last_status k (log @ [Cb_connectionStatus n b]) = Some True" for k
    unfolding c(3) using link False by (simp add: um_erase_def linked_def last_status_append)
  ultimately show ?thesis unfolding linked_def eq by blast
qed

lemma hears_linked:
  assumes "hears es v v'" and "server_reach m mem fresh garbage v" and "hs_fault v = None \<longrightarrow> linked v log" and "hs_fault v' = None"
  shows "linked v' (log @ es)"
  using assms
proof (induction arbitrary: log rule: hears.induct)
  case (Hears_status v es n b v')
  have fault: "hs_fault v = None" using Hears_status(1) by (simp add: srv_live_def)
  have ok: "srv_ok v" using server_reach_inv [OF Hears_status.prems(1)] fault by (simp add: server_inv_def)
  from Hears_status.IH [OF Server_step [OF Hears_status.prems(1) Srv_status [OF Hears_status(1)]], of "log @ [Cb_connectionStatus n b]"]
  show ?case using linked_status [OF ok] Hears_status.prems(2,3) fault by simp
next
  case (Hears_data v n pos room v1 d pick v2 es v')
  have fault: "hs_fault v = None" using Hears_data(1) by (simp add: srv_live_def)
  have ok: "srv_ok v" "queue_live m v" using server_reach_inv [OF Hears_data.prems(1)] fault Hears_data(1)
    by (simp_all add: server_inv_def queue_live_def srv_live_def)
  have pick: "pick_ok pick" using Hears_data(4) by (simp add: pick_ok_def)
  let ?log = "log @ [Cb_allocate n, Cb_message n d, Cb_deallocate n]"
  have "linked v2 ?log" if "hs_fault v2 = None"
    using linked_receive [OF ok fault pick Hears_data(2,3,5) that] Hears_data.prems(2) fault by (subst linked_more) simp_all
  then show ?case
    using Hears_data.IH [OF Server_step [OF Hears_data.prems(1) Srv_receive [OF Hears_data(1-5)]], of ?log] Hears_data.prems(3) by simp
next
  case (Hears_nothing v n place v1 es v')
  have fault: "hs_fault v = None" using Hears_nothing(1) by (simp add: srv_live_def)
  let ?log = "log @ [Cb_allocate n, Cb_deallocate n]"
  have "linked v1 ?log"
    using linked_allocate [OF _ Hears_nothing(2)] Hears_nothing.prems(2) fault by (subst linked_more) simp_all
  then show ?case
    using Hears_nothing.IH [OF Server_step [OF Hears_nothing.prems(1) Srv_allocate [OF Hears_nothing(1,2)]], of ?log] Hears_nothing.prems(3) by simp
next
  case (Hears_other e es v v')
  have "hs_fault v = None \<longrightarrow> linked v (log @ [e])" using Hears_other.prems(2) linked_more [of "[e]" v log] Hears_other(2) by simp
  from Hears_other.IH [OF Hears_other.prems(1) this Hears_other.prems(3)] show ?case by simp
qed simp_all

section \<open>The server's calls\<close>

lemma hears_silent:
  assumes "hears es v v'" and "\<forall>e\<in>set es. \<not> reading e" and "server_reach m mem fresh garbage v"
  shows "hs_calls v' = hs_calls v"
  using assms
proof (induction rule: hears.induct)
  case (Hears_status v es n b v')
  have ok: "srv_ok v" using server_reach_inv [OF Hears_status.prems(2)] Hears_status(1) by (simp add: server_inv_def srv_live_def)
  have "hs_calls (connectionStatus n b v) = hs_calls v"
  proof (cases b)
    case False
    have tab: "tables_ok (queue_owned (hs_queue v)) v" using ok by (simp add: srv_ok_def)
    show ?thesis using cancelTask_ok(4) [OF contexts_erase_ok [OF tab refl], of n n] by (simp add: connectionStatus_def False)
  qed (simp add: connectionStatus_def)
  moreover have "server_reach m mem fresh garbage (connectionStatus n b v)" by (rule Server_step [OF Hears_status.prems(2) Srv_status [OF Hears_status(1)]])
  ultimately show ?case using Hears_status.IH Hears_status.prems(1) by simp
qed simp_all

lemma hears_alone:
  assumes hears: "hears (Cb_allocate n # Cb_message m d # Cb_deallocate n # es) v v' \<or> hears (Cb_allocate n # Cb_deallocate n # es) v v'"
    and es: "\<forall>e\<in>set es. \<not> reading e" and v: "server_reach k mem fresh garbage v" and none: "um_find n (hs_contexts v) = None"
  shows "hs_calls v' = hs_calls v"
proof -
  have same: "allocateMemoryForMessage n v = (None, v)" using none by (simp add: allocateMemoryForMessage_def)
  from hears show ?thesis
  proof
    assume "hears (Cb_allocate n # Cb_message m d # Cb_deallocate n # es) v v'"
    then show ?thesis by cases (simp_all add: same)
  next
    assume "hears (Cb_allocate n # Cb_deallocate n # es) v v'"
    then show ?thesis by cases (use same hears_silent [OF _ es v] in simp_all)
  qed
qed

text \<open>What the pool does with a call; \<open>None\<close> when \<open>send\<close> throws, which ends the process.\<close>

definition call_pool :: "pool_call \<Rightarrow> np_pool \<Rightarrow> np_pool option" where
  "call_pool c p =
     (case c of
        Call_send n d \<Rightarrow> (case pool_send n (Some d) False p of (True, p) \<Rightarrow> Some p | (False, p) \<Rightarrow> None)
      | Call_close n \<Rightarrow> Some (pool_close n False p))"

fun call_pools :: "pool_call list \<Rightarrow> np_pool \<Rightarrow> np_pool option" where
  "call_pools [] p = Some p"
| "call_pools (c # cs) p = (case call_pool c p of None \<Rightarrow> None | Some p \<Rightarrow> call_pools cs p)"

lemma call_pool_step:
  assumes alive: "pool_alive p" and res: "call_pool c p = Some p'"
  shows "np_step p p'" "pool_alive p'" "np_log p' = np_log p"
proof -
  have "np_step p p' \<and> pool_alive p' \<and> np_log p' = np_log p"
  proof (cases c)
    case (Call_send n d)
    then have p': "p' = snd (pool_send n (Some d) False p)" using res by (auto simp: call_pool_def split: prod.splits bool.splits)
    have "np_async p' = np_async p \<and> np_log p' = np_log p"
      by (simp add: p' pool_send_def env_ret_def async_send_def undefined_behaviour_def Let_def split: option.split)
    moreover have "np_step p p'" unfolding p' by (rule np_step.send [OF alive])
    ultimately show ?thesis using alive by (simp add: pool_alive_def)
  next
    case (Call_close n)
    then have p': "p' = pool_close n False p" using res by (simp add: call_pool_def)
    have "np_async p' = np_async p \<and> np_log p' = np_log p"
      by (simp add: p' pool_close_def async_send_def undefined_behaviour_def split: option.split)
    moreover have "np_step p p'" unfolding p' by (rule np_step.close [OF alive])
    ultimately show ?thesis using alive by (simp add: pool_alive_def)
  qed
  then show "np_step p p'" "pool_alive p'" "np_log p' = np_log p" by simp_all
qed

lemma call_pools_reach:
  assumes "call_pools cs p = Some p'" and "np_reach settings env p" and "cs \<noteq> [] \<longrightarrow> pool_alive p"
  shows "np_reach settings env p' \<and> np_log p' = np_log p"
  using assms
proof (induction cs arbitrary: p)
  case (Cons c cs)
  obtain q where q: "call_pool c p = Some q" "call_pools cs q = Some p'" using Cons.prems(1) by (auto split: option.splits)
  have alive: "pool_alive p" using Cons.prems(3) by simp
  note s = call_pool_step [OF alive q(1)]
  show ?case using Cons.IH [OF q(2) np_reach.step [OF Cons.prems(2) s(1)]] s by simp
qed simp

section \<open>The server on the pool\<close>

text \<open>
  One step of the two: of the pool, whose callbacks the server hears at once; of a worker; or of the
  user, who sets or clears the server's pointer. The calls to the pool that the server makes on the
  way (those behind the ones it had made before) only queue requests: they are taken up after the step.
\<close>

definition new_calls :: "http_server \<Rightarrow> http_server \<Rightarrow> pool_call list" where
  "new_calls v v' = drop (length (hs_calls v)) (hs_calls v')"

inductive joint_step :: "np_pool \<times> http_server \<Rightarrow> np_pool \<times> http_server \<Rightarrow> bool" where
  Joint_pool: "np_step p p1 \<Longrightarrow> np_log p1 = np_log p @ es \<Longrightarrow> srv_live v \<Longrightarrow> hears es v v' \<Longrightarrow>
    call_pools (new_calls v v') p1 = Some p' \<Longrightarrow> joint_step (p, v) (p', v')"
| Joint_worker: "srv_live v \<Longrightarrow> i < length (wq_threads (hs_queue v)) \<Longrightarrow> wq_threads (hs_queue v) ! i \<noteq> Finished \<Longrightarrow>
    v' = server_worker i v \<Longrightarrow> call_pools (new_calls v v') p = Some p' \<Longrightarrow> joint_step (p, v) (p', v')"
| Joint_pointer: "srv_live v \<Longrightarrow> joint_step (p, v) (p, setNetworkPool b v)"

text \<open>The server is there before the pool, which gets it as its callback.\<close>

inductive joint_reach ::
  "network_settings \<Rightarrow> (nat \<Rightarrow> env_call \<Rightarrow> int) \<Rightarrow> nat \<Rightarrow> (nat \<Rightarrow> bool) \<Rightarrow> (nat \<Rightarrow> nat \<Rightarrow> u8) \<Rightarrow> (nat \<Rightarrow> http_ctx) \<Rightarrow>
    np_pool \<times> http_server \<Rightarrow> bool" for settings env nThread mem fresh garbage
where
  Joint_start: "pool_construct settings env = (True, p) \<Longrightarrow> server_reach nThread mem fresh garbage v \<Longrightarrow> srv_live v \<Longrightarrow>
    hs_contexts v = [] \<Longrightarrow> hs_objects v = [] \<Longrightarrow> joint_reach settings env nThread mem fresh garbage (p, v)"
| Joint_step: "joint_reach settings env nThread mem fresh garbage x \<Longrightarrow> joint_step x y \<Longrightarrow>
    joint_reach settings env nThread mem fresh garbage y"

definition joint_ok :: "network_settings \<Rightarrow> (nat \<Rightarrow> env_call \<Rightarrow> int) \<Rightarrow> nat \<Rightarrow> (nat \<Rightarrow> bool) \<Rightarrow> (nat \<Rightarrow> nat \<Rightarrow> u8) \<Rightarrow> (nat \<Rightarrow> http_ctx) \<Rightarrow>
    np_pool \<times> http_server \<Rightarrow> bool"
where
  "joint_ok settings env nThread mem fresh garbage x \<longleftrightarrow>
     np_reach settings env (fst x) \<and> server_reach nThread mem fresh garbage (snd x)
     \<and> (hs_fault (snd x) = None \<longrightarrow> linked (snd x) (np_log (fst x)))"

section \<open>What the server relies on\<close>

text \<open>
  The contract of a source of callbacks: what it last reported of a node is whether the node is
  registered, and a source that is not alive has nothing registered.
\<close>

locale callback_source =
  fixes good :: "'p \<Rightarrow> bool"
    and log :: "'p \<Rightarrow> event list"
    and registered :: "'p \<Rightarrow> network_node \<Rightarrow> bool"
    and alive :: "'p \<Rightarrow> bool"
  assumes truth: "good p \<Longrightarrow> last_status n (log p) = Some True \<longleftrightarrow> registered p n"
    and gone: "good p \<Longrightarrow> \<not> alive p \<Longrightarrow> \<not> registered p n"
begin

lemma linked_context: "good p \<Longrightarrow> linked v (log p) \<Longrightarrow> um_find n (hs_contexts v) \<noteq> None \<longleftrightarrow> registered p n"
  using truth unfolding linked_def by blast

lemma linked_task:
  "good p \<Longrightarrow> linked v (log p) \<Longrightarrow> um_find t (hs_objects v) = Some obj \<Longrightarrow> \<not> ht_canceled obj \<Longrightarrow> registered p (ht_node obj)"
  using truth unfolding linked_def by blast

text \<open>After the end of its source the server knows no node and has no task that could run.\<close>

lemma left_alone:
  assumes "good p" and "\<not> alive p" and "linked v (log p)"
  shows "um_find n (hs_contexts v) = None" and "um_find t (hs_objects v) = Some obj \<Longrightarrow> ht_canceled obj"
  using linked_context [OF assms(1,3)] linked_task [OF assms(1,3)] gone [OF assms(1,2)] by blast+

end

definition pool_good :: "np_pool \<Rightarrow> bool" where
  "pool_good p \<longleftrightarrow> (\<exists>settings env. np_reach settings env p \<and> connect_law env)"

interpretation reports: callback_source pool_good np_log "\<lambda>p n. getStreamByNode n p \<noteq> None" pool_alive
proof
  show "last_status n (np_log p) = Some True \<longleftrightarrow> getStreamByNode n p \<noteq> None" if "pool_good p" for p n
    using that np_reach_status by (auto simp: pool_good_def status_ok_def getStreamByNode_def)
  show "\<not> getStreamByNode n p \<noteq> None" if good: "pool_good p" and left: "\<not> pool_alive p" for p n
  proof -
    obtain settings env where "np_reach settings env p" "connect_law env" using good by (auto simp: pool_good_def)
    then show ?thesis using np_reach_gone [of settings env p] left by (simp add: gone_ok_def getStreamByNode_def)
  qed
qed

lemma pool_goodI: "np_reach settings env p \<Longrightarrow> connect_law env \<Longrightarrow> pool_good p"
  by (auto simp: pool_good_def)

text \<open>The server calls the pool only while it is there.\<close>

lemma pool_step_calls:
  assumes p: "np_reach settings env p" "connect_law env" and v: "server_reach n mem fresh garbage v" "srv_live v"
    and link: "linked v (np_log p)" and step: "np_step p p1" "np_log p1 = np_log p @ es" "hears es v v'" and calls: "new_calls v v' \<noteq> []"
  shows "pool_alive p1"
proof -
  have differ: "hs_calls v' \<noteq> hs_calls v" using calls by (auto simp: new_calls_def)
  have ok: "np_ok p" "typed p" "listeners_ok p"
    using np_reach_ok [OF p] np_reach_typed [OF p(1)] np_reach_left [OF p] by simp_all
  have keep: "pool_alive p1" if "np_async p1 = np_async p" "um_find m (hs_contexts v) \<noteq> None" for m
    using reports.left_alone(1) [OF pool_goodI [OF p] _ link, of m] that by (auto simp: pool_alive_def)
  from step(1) ok show ?thesis
  proof (cases rule: step_log)
    case other
    then have "\<forall>e\<in>set es. \<not> reading e" using step(2) by (auto simp: adds_def)
    then show ?thesis using hears_silent [OF step(3) _ v(1)] differ by simp
  next
    case (data m m' d es')
    then have es: "es = Cb_allocate m # Cb_message m' d # Cb_deallocate m # es'" using step(2) by simp
    have "um_find m (hs_contexts v) \<noteq> None"
      using hears_alone [OF disjI1 [OF step(3) [unfolded es]] data(2) v(1)] differ by blast
    then show ?thesis using keep data(5) by blast
  next
    case (empty m es')
    then have es: "es = Cb_allocate m # Cb_deallocate m # es'" using step(2) by simp
    have "hears es v v' \<Longrightarrow> hs_calls v' = hs_calls v"
    proof -
      assume "hears es v v'"
      then show ?thesis unfolding es
      proof cases
        case (Hears_nothing place v1)
        have v1: "hs_calls v1 = hs_calls v" using allocate_objects(3) [of m v] Hears_nothing(2) by simp
        show ?thesis
          using hears_silent [OF Hears_nothing(3) empty(2) Server_step [OF v(1) Srv_allocate [OF Hears_nothing(1,2)]]] v1 by simp
      qed simp_all
    qed
    then show ?thesis using differ step(3) by blast
  qed
qed


lemma worker_linked:
  assumes v: "server_reach n mem fresh garbage v" "srv_live v" and i: "i < length (wq_threads (hs_queue v))" "wq_threads (hs_queue v) ! i \<noteq> Finished"
    and link: "linked v log"
  shows "server_reach n mem fresh garbage (server_worker i v) \<and> linked (server_worker i v) log
    \<and> (new_calls v (server_worker i v) \<noteq> [] \<longrightarrow> (\<exists>t obj. um_find t (hs_objects v) = Some obj \<and> \<not> ht_canceled obj))"
proof -
  let ?w = "server_worker i v"
  have live: "hs_fault v = None" "wq_phase (hs_queue v) = Live" using v(2) by (simp_all add: srv_live_def)
  have reach: "server_reach n mem fresh garbage ?w"
    by (rule Server_step [OF v(1) Srv_worker]) (use live i in simp_all)
  have "srv_ok v" using server_reach_inv [OF v(1)] live by (simp add: server_inv_def)
  then have tab: "tables_ok (queue_owned (hs_queue v)) v" by (simp add: srv_ok_def)
  have ph: "wq_phase (hs_queue v) \<noteq> Gone" using live by simp
  have same: ?thesis if "hs_objects ?w = hs_objects v" "hs_contexts ?w = hs_contexts v"
    "new_calls v ?w \<noteq> [] \<longrightarrow> (\<exists>t obj. um_find t (hs_objects v) = Some obj \<and> \<not> ht_canceled obj)"
    using that reach link by (simp add: linked_def)
  show ?thesis
  proof (cases "wq_threads (hs_queue v) ! i")
    case (Got_task t)
    have "t \<in># queue_owned (hs_queue v)" by (rule got_owned [OF i(1) _ ph]) (simp add: Got_task)
    then obtain obj where obj: "um_find t (hs_objects v) = Some obj" using tables_find [OF tab] by blast
    show ?thesis
      by (rule same) (use obj Got_task in \<open>auto simp: server_worker_def task_run_def new_calls_def Let_def split: option.split\<close>)
  next
    case (Ran_task t)
    have "t \<in># queue_owned (hs_queue v)" by (rule got_owned [OF i(1) _ ph]) (simp add: Ran_task)
    then obtain ts where own: "queue_owned (hs_queue v) = add_mset t ts" by (metis multi_member_split)
    have d: "set (hs_objects (task_delete t v)) \<subseteq> set (hs_objects v)" using task_delete_ok [OF tab [unfolded own]] by blast
    have u: "um_ok (hs_objects v)" using tab by (simp add: tables_ok_def)
    have w: "hs_objects ?w = hs_objects (task_delete t v)" by (simp add: server_worker_def Ran_task Let_def)
    have other: "hs_contexts ?w = hs_contexts v" "hs_calls ?w = hs_calls v"
      by (simp_all add: server_worker_def Ran_task task_delete_def deleteReferenceTask_def Let_def split: option.split)
    have "um_find k (hs_objects v) = Some obj" if "um_find k (hs_objects ?w) = Some obj" for k obj
      using um_find_in_set [OF that] d um_in_set_find [OF u, of k obj] unfolding w by blast
    then have "linked ?w log" using link unfolding linked_def other by blast
    then show ?thesis using reach other by (simp add: new_calls_def)
  qed (rule same; simp add: server_worker_def new_calls_def)+
qed

lemma joint_ok_step:
  assumes ok: "joint_ok settings env n mem fresh garbage x" and law: "connect_law env" and step: "joint_step x y"
  shows "joint_ok settings env n mem fresh garbage y"
  using step
proof cases
  case (Joint_pool p p1 es v v' p')
  have p: "np_reach settings env p" "server_reach n mem fresh garbage v" "linked v (np_log p)"
    using ok Joint_pool by (simp_all add: joint_ok_def srv_live_def)
  have "new_calls v v' \<noteq> [] \<longrightarrow> pool_alive p1"
    using pool_step_calls [OF p(1) law p(2) Joint_pool(5) p(3) Joint_pool(3,4,6)] by blast
  from call_pools_reach [OF Joint_pool(7) np_reach.step [OF p(1) Joint_pool(3)] this]
  have p': "np_reach settings env p'" "np_log p' = np_log p @ es" using Joint_pool(4) by simp_all
  have "linked v' (np_log p @ es)" if "hs_fault v' = None"
    using hears_linked [OF Joint_pool(6) p(2) _ that] p(3) by blast
  then show ?thesis using p' hears_reach [OF Joint_pool(6) p(2)] Joint_pool(2) by (simp add: joint_ok_def)
next
  case (Joint_worker v i v' p p')
  have p: "np_reach settings env p" "server_reach n mem fresh garbage v" "linked v (np_log p)"
    using ok Joint_worker by (simp_all add: joint_ok_def srv_live_def)
  have w: "server_reach n mem fresh garbage v'" "linked v' (np_log p)"
    "new_calls v v' \<noteq> [] \<longrightarrow> (\<exists>t obj. um_find t (hs_objects v) = Some obj \<and> \<not> ht_canceled obj)"
    using worker_linked [OF p(2) Joint_worker(3-5) p(3)] Joint_worker(6) by simp_all
  have "new_calls v v' \<noteq> [] \<longrightarrow> pool_alive p" using w(3) reports.left_alone(2) [OF pool_goodI [OF p(1) law] _ p(3)] by blast
  from call_pools_reach [OF Joint_worker(7) p(1) this] show ?thesis using w Joint_worker(2) by (simp add: joint_ok_def)
next
  case (Joint_pointer v p b)
  have "server_reach n mem fresh garbage (setNetworkPool b v)"
    using ok Joint_pointer by (intro Server_step [OF _ Srv_pool]) (simp_all add: joint_ok_def)
  then show ?thesis using ok Joint_pointer by (simp add: joint_ok_def linked_def setNetworkPool_def)
qed

lemma joint_reach_ok:
  assumes "joint_reach settings env n mem fresh garbage x" and "connect_law env"
  shows "joint_ok settings env n mem fresh garbage x"
  using assms(1)
proof (induction rule: joint_reach.induct)
  case (Joint_start p v)
  then have "np_log p = []"
    by (auto simp: pool_construct_def internal_thread_start_def casync_alloc_def env_ret_def pool_fresh_def mem_add_def
        Let_def split: if_splits)
  then show ?case using Joint_start np_reach.start by (simp add: joint_ok_def linked_def)
next
  case (Joint_step x y)
  then show ?case using joint_ok_step [OF _ assms(2)] by blast
qed

text \<open>
  The HTTP server on the pool. Whatever the users, libuv and the workers do and in whatever order,
  the pool and the server stay in the states that their own theorems are about, and neither does
  harm to the other: the pool touches nothing freed, and in particular is not called any more when its
  wakeup handle is gone. As long as nothing has gone wrong in the server, it keeps a context for
  exactly the nodes in \<open>m_node2stream\<close>, and every task that has not been canceled answers one of
  them. (A task runs in one step here; \<open>Interleaved_Pool\<close> has the general case.)
\<close>

theorem served_pool_linked:
  assumes "joint_reach settings env n mem fresh garbage (p, v)" and "connect_law env"
  shows "np_reach settings env p \<and> \<not> np_ub p \<and> server_reach n mem fresh garbage v
    \<and> (hs_fault v = None \<longrightarrow>
        (\<forall>node. um_find node (hs_contexts v) \<noteq> None \<longleftrightarrow> getStreamByNode node p \<noteq> None)
        \<and> (\<forall>t obj. um_find t (hs_objects v) = Some obj \<longrightarrow> \<not> ht_canceled obj \<longrightarrow> getStreamByNode (ht_node obj) p \<noteq> None))"
proof -
  have ok: "np_reach settings env p" "server_reach n mem fresh garbage v" "hs_fault v = None \<longrightarrow> linked v (np_log p)"
    using joint_reach_ok [OF assms] by (simp_all add: joint_ok_def)
  have "\<not> np_ub p" using np_ok_core [OF np_reach_ok [OF ok(1) assms(2)]] by (rule core_no_ub)
  then show ?thesis
    using ok reports.linked_context [OF pool_goodI [OF ok(1) assms(2)]] reports.linked_task [OF pool_goodI [OF ok(1) assms(2)]] by blast
qed

text \<open>A connection is made and the server hears of it.\<close>

lemma demo_joint:
  "joint_reach preferred_network_settings demo_env 1 (\<lambda>_. True) (\<lambda>_ _. 0) (\<lambda>_. http_begin) (demo_connected, demo_conn)"
proof -
  let ?reach = "joint_reach preferred_network_settings demo_env 1 (\<lambda>_. True) (\<lambda>_ _. 0) (\<lambda>_. http_begin)"
  let ?v = "setNetworkPool True demo_live_server"
  have v: "srv_live ?v" using demo_server_reach(2) by (simp add: srv_live_def setNetworkPool_def)
  have [simp]: "new_calls u u = []" for u by (simp add: new_calls_def)
  have "fst (pool_construct preferred_network_settings demo_env)" by code_simp
  then have start: "pool_construct preferred_network_settings demo_env = (True, demo_start)" by (simp add: demo_start_def prod_eq_iff)
  have empty: "hs_contexts demo_live_server = []" "hs_objects demo_live_server = []"
    by (simp_all add: demo_live_server_def demo_new_def server_new_def with_queue_def start_thread_def)
  have 1: "?reach (demo_start, ?v)"
    by (rule Joint_step [OF Joint_start [OF start demo_server_reach(1,2) empty] Joint_pointer [OF demo_server_reach(2)]])
  have alive: "pool_alive demo_start" "pool_alive demo_sent" "0 \<in> set (np_connects demo_connecting)" by code_simp+
  have logs: "np_log demo_sent = np_log demo_start @ []" "np_log demo_connecting = np_log demo_sent @ []"
    "np_log demo_connected = np_log demo_connecting @ [Cb_connectionStatus demo_node True]" by code_simp+
  have 2: "?reach (demo_sent, ?v)"
    by (rule Joint_step [OF 1 Joint_pool [OF np_step.send [OF alive(1), of demo_node "Some [1]" True, folded demo_sent_def] logs(1) v Hears_end]]) simp
  have 3: "?reach (demo_connecting, ?v)"
    by (rule Joint_step [OF 2 Joint_pool [OF np_step.wakeup [OF alive(2), folded demo_connecting_def] logs(2) v Hears_end]]) simp
  have same: "demo_conn = connectionStatus demo_node True ?v" by (simp add: demo_conn_def demo_peer_def demo_node_def)
  have calls: "new_calls ?v demo_conn = []" by (simp add: new_calls_def demo_conn_fields)
  show ?thesis
    by (rule Joint_step [OF 3 Joint_pool [OF np_step.connect_done [OF alive(3), of 0, folded demo_connected_def] logs(3) v
      Hears_status [OF v Hears_end, of demo_node True, folded same]]]) (simp add: calls)
qed

theorem served_pool_linked_witness:
  "um_find demo_peer (hs_contexts demo_conn) \<noteq> None \<and> getStreamByNode demo_peer demo_connected \<noteq> None"
proof -
  have "um_find demo_peer (hs_contexts demo_conn) \<noteq> None" "hs_fault demo_conn = None" by (simp_all add: demo_conn_fields)
  then show ?thesis using served_pool_linked [OF demo_joint connect_law_demo] by blast
qed

text \<open>
  C11: A request is answered to the connection it came from. When a worker runs a task that has not been
  canceled, whose request line can be read, and there is memory for the message, the response is
  queued in the pool as a message to the task's node, behind what was queued before; unless the
  request asked to keep the connection, a close of the same node is queued too, and the pool takes up
  sends before closes. The node has a registered connection at that moment, so the response is not
  sent to a stranger and opens no new connection.
\<close>

theorem request_answered:
  assumes "joint_reach settings env n mem fresh garbage (p, v)" and "connect_law env" and "srv_live v" and "hs_pool v"
    and i: "i < length (wq_threads (hs_queue v))" "wq_threads (hs_queue v) ! i = Got_task t"
    and obj: "um_find t (hs_objects v) = Some obj" "\<not> ht_canceled obj" "getInfo (ht_context obj) \<noteq> None"
    and memory: "np_env p (np_tick p) Call_malloc = 0"
  shows "\<exists>p'. joint_step (p, v) (p', server_worker i v)
    \<and> m_pendingSend p' = m_pendingSend p @ [\<lparr>ps_node = ht_node obj, ps_data = task_response, ps_bAutoConnect = False\<rparr>]
    \<and> m_pendingClose p' = m_pendingClose p @ (if isKeepAlive (ht_context obj) then [] else [(ht_node obj, False)])
    \<and> getStreamByNode (ht_node obj) p' \<noteq> None \<and> getStreamByNode (ht_node obj) p' = getStreamByNode (ht_node obj) p"
proof -
  have ok: "np_reach settings env p" "hs_fault v = None" "linked v (np_log p)"
    using joint_reach_ok [OF assms(1,2)] assms(3) by (simp_all add: joint_ok_def srv_live_def)
  let ?n = "ht_node obj"
  note good = pool_goodI [OF ok(1) assms(2)]
  have alive: "pool_alive p" using reports.left_alone(2) [OF good _ ok(3) obj(1)] obj(2) by blast
  obtain u where u: "um_find ?n (m_node2stream p) = Some u"
    using reports.linked_task [OF good ok(3) obj(1,2)] by (auto simp: getStreamByNode_def)
  have core: "core {} {} p" using np_ok_core [OF np_reach_ok [OF ok(1) assms(2)]] .
  obtain c where c: "np_tcps p u = Some c" "t_node c = ?n" "tcp_open c"
    using core_stream [OF core u] by blast
  then have tcp: "m_protocol ?n = Protocol_tcp"
    using np_reach_typed [OF ok(1)] by (metis typed_def tcp_open_def)
  obtain a where a: "np_async p = Some a" "\<not> a_closing a" using alive by (auto simp: pool_alive_def split: option.splits)
  have len: "length task_response \<noteq> 0" by (simp add: task_response_def)
  let ?close = "if isKeepAlive (ht_context obj) then [] else [Call_close ?n]"
  have calls: "new_calls v (server_worker i v) = Call_send ?n task_response # ?close"
    using assms(4) obj i(2) by (auto simp: new_calls_def server_worker_def task_run_def srv_call_def Let_def)
  define p1 where "p1 = (mem_add 1 (p\<lparr>np_tick := Suc (np_tick p)\<rparr>))
    \<lparr>m_pendingSend := m_pendingSend p @ [\<lparr>ps_node = ?n, ps_data = task_response, ps_bAutoConnect = False\<rparr>]\<rparr>"
  have send: "pool_send ?n (Some task_response) False p = (True, p1)"
    using tcp len a memory by (simp add: pool_send_def env_ret_def async_send_def p1_def Let_def)
  have close: "pool_close ?n False p1 = p1\<lparr>m_pendingClose := m_pendingClose p @ [(?n, False)]\<rparr>"
    using tcp a by (simp add: pool_close_def async_send_def p1_def)
  let ?p' = "if isKeepAlive (ht_context obj) then p1 else p1\<lparr>m_pendingClose := m_pendingClose p @ [(?n, False)]\<rparr>"
  have "call_pools (new_calls v (server_worker i v)) p = Some ?p'"
    unfolding calls by (simp add: call_pool_def send close)
  then have "joint_step (p, v) (?p', server_worker i v)" using Joint_worker [OF assms(3) i(1)] i(2) by auto
  moreover have "m_pendingSend ?p' = m_pendingSend p @ [\<lparr>ps_node = ?n, ps_data = task_response, ps_bAutoConnect = False\<rparr>]"
    "m_pendingClose ?p' = m_pendingClose p @ (if isKeepAlive (ht_context obj) then [] else [(?n, False)])"
    "getStreamByNode ?n ?p' = getStreamByNode ?n p" by (simp_all add: p1_def getStreamByNode_def)
  ultimately show ?thesis using u by (intro exI [of _ ?p']) (simp add: getStreamByNode_def)
qed

section \<open>A request and its answer\<close>

definition demo_received :: np_pool where
  "demo_received = on_tcp_read 0 18 demo_request (tcp_alloc_buffer 0 demo_connected)"

lemma demo_received_log:
  "np_log demo_received = np_log demo_connected
    @ [Cb_allocate demo_peer, Cb_message demo_peer demo_request, Cb_deallocate demo_peer]"
  by code_simp

lemma demo_joint_task:
  "\<exists>v t obj. joint_reach preferred_network_settings demo_env 1 (\<lambda>_. True) (\<lambda>_ _. 0) (\<lambda>_. http_begin) (demo_received, v)
    \<and> srv_live v \<and> hs_pool v \<and> wq_threads (hs_queue v) = [Got_task t] \<and> um_find t (hs_objects v) = Some obj
    \<and> \<not> ht_canceled obj \<and> getInfo (ht_context obj) \<noteq> None \<and> ht_node obj = demo_peer"
proof -
  let ?reach = "joint_reach preferred_network_settings demo_env 1 (\<lambda>_. True) (\<lambda>_ _. 0) (\<lambda>_. http_begin)"
  let ?v = demo_conn
  have inv: "srv_ok ?v" "queue_live 1 ?v"
    using server_reach_inv [OF demo_server_reach(3)] by (simp_all add: server_inv_def queue_live_def demo_conn_fields)
  have pick: "pick_ok demo_pick" using demo_pick_ok by (simp add: pick_ok_def)
  obtain s1 where s1: "allocateMemoryForMessage demo_peer ?v = (Some (0, 0x1000), s1)" using demo_allocate by blast
  have find: "um_find demo_peer (hs_contexts ?v) = Some demo_ctx" by (simp add: demo_conn_fields)
  have len: "length demo_request \<le> 0x1000" by code_simp
  obtain r where r: "split_stream demo_request = Some ([r], Needs_more [])" "fst r \<noteq> None" using demo_request_split by blast
  obtain s' ctx' rs e ts where s': "message demo_pick demo_peer (length demo_request) (server_write demo_peer demo_request s1) = Some s'"
    "split_stream ([] @ demo_request) = Some (rs, e)" "wq_pushed (hs_queue s') = wq_pushed (hs_queue ?v) @ ts" "answers demo_peer s' ts rs"
    "case e of Needs_more q \<Rightarrow> hs_calls s' = hs_calls ?v \<and> pending q ctx'
     | Malformed \<Rightarrow> hs_calls s' = hs_calls ?v @ [Call_close demo_peer] \<and> \<not> isGood ctx'"
    using receive_split [OF inv demo_conn_fields(1) _ demo_conn_fields(2) find demo_ctx_pending s1 len pick]
    by (auto simp: demo_conn_fields)
  have out: "rs = [r]" "e = Needs_more []" using s'(2) r(1) by simp_all
  obtain t obj where t: "ts = [t]" "um_find t (hs_objects s') = Some obj" "ht_node obj = demo_peer" "\<not> ht_canceled obj"
    "request_of (ht_context obj) = r"
    using s'(4) out(1) by (cases ts) (auto simp: answers_def list_all2_Cons2 split: option.splits)
  have fault: "hs_fault s' = None" "queue_live 1 s'"
    using receive_ok [OF inv demo_conn_fields(1) pick s1 len] s'(1) by (auto simp: demo_conn_fields)
  have "In_wait \<notin> set (wq_threads (hs_queue ?v))" by (simp add: demo_conn_fields)
  from receive_queue [OF inv demo_conn_fields(1) pick s1 len s'(1) fault(1) this] obtain ts' where
    q: "hs_queue s' = (hs_queue ?v)\<lparr>wq_tasks := wq_tasks (hs_queue ?v) @ ts', wq_pushed := wq_pushed (hs_queue ?v) @ ts'\<rparr>"
    by (auto simp: demo_conn_fields)
  have "wq_tasks (hs_queue ?v) = []" "\<not> wq_exit (hs_queue ?v)"
    by (simp_all add: demo_conn_def demo_live_server_def demo_new_def server_new_def with_queue_def start_thread_def setNetworkPool_def
        connectionStatus_def wq_begin_def srv_tick_def)
  then have tasks: "wq_tasks (hs_queue s') = [t]" "\<not> wq_exit (hs_queue s')" "wq_threads (hs_queue s') = [In_getNext]"
    using q s'(3) t(1) by (simp_all add: demo_conn_fields)
  have live: "srv_live s'" "srv_live ?v" using fault by (simp_all add: srv_live_def queue_live_def demo_conn_fields)
  have "map_option t_reading (np_tcps demo_connected 0) = Some True" by code_simp
  then obtain c where c: "np_tcps demo_connected 0 = Some c" "t_reading c" by auto
  have calls: "new_calls ?v s' = []" using s'(5) out(2) by (simp add: new_calls_def)
  have 1: "?reach (demo_received, s')"
    by (rule Joint_step [OF demo_joint Joint_pool [OF np_step.read [OF c, of 18 demo_request, folded demo_received_def]
      demo_received_log live(2) Hears_data [OF live(2) s1 len demo_pick_ok s'(1) Hears_end]]]) (simp add: calls)
  let ?w = "server_worker 0 s'"
  have w: "?w = s'\<lparr>hs_queue := worker 0 (hs_queue s')\<rparr>" by (simp add: server_worker_def tasks)
  have threads: "wq_threads (hs_queue ?w) = [Got_task t]" "wq_phase (hs_queue ?w) = wq_phase (hs_queue s')"
    by (simp_all add: w worker_def getNext_def tasks set_place_def wq_event_def)
  have "new_calls s' ?w = []" by (simp add: new_calls_def w)
  then have "?reach (demo_received, ?w)"
    using Joint_step [OF 1 Joint_worker [OF live(1), of 0 ?w]] tasks(3) by simp
  moreover have "srv_live ?w" using live(1) threads(2) by (simp add: srv_live_def w)
  moreover have "getInfo (ht_context obj) \<noteq> None" using t(5) r(2) by (auto simp: request_of_def)
  moreover have "hs_pool s'" using receive_keeps [OF inv demo_conn_fields(1) pick s1 len s'(1) fault(1)] by (simp add: demo_conn_fields)
  ultimately show ?thesis using t threads(1) by (intro exI [of _ ?w] exI [of _ t] exI [of _ obj]) (simp add: w)
qed

theorem request_answered_witness:
  "\<exists>v p' v'. joint_step (demo_received, v) (p', v')
    \<and> map ps_node (m_pendingSend p') = [demo_peer] \<and> map ps_data (m_pendingSend p') = [task_response]
    \<and> getStreamByNode demo_peer p' \<noteq> None"
proof -
  obtain v t obj where v: "joint_reach preferred_network_settings demo_env 1 (\<lambda>_. True) (\<lambda>_ _. 0) (\<lambda>_. http_begin) (demo_received, v)"
    "srv_live v" "hs_pool v" "wq_threads (hs_queue v) = [Got_task t]" "um_find t (hs_objects v) = Some obj"
    "\<not> ht_canceled obj" "getInfo (ht_context obj) \<noteq> None" "ht_node obj = demo_peer"
    using demo_joint_task by blast
  have i: "0 < length (wq_threads (hs_queue v))" "wq_threads (hs_queue v) ! 0 = Got_task t" by (simp_all add: v(4))
  have memory: "np_env demo_received (np_tick demo_received) Call_malloc = 0" by code_simp
  have none: "m_pendingSend demo_received = []" by code_simp
  obtain p' where p': "joint_step (demo_received, v) (p', server_worker 0 v)"
    "m_pendingSend p' = m_pendingSend demo_received @ [\<lparr>ps_node = ht_node obj, ps_data = task_response, ps_bAutoConnect = False\<rparr>]"
    "getStreamByNode (ht_node obj) p' \<noteq> None"
    using request_answered [OF v(1) connect_law_demo v(2,3) i v(5-7) memory] by blast
  have "map ps_node (m_pendingSend p') = [demo_peer]" "map ps_data (m_pendingSend p') = [task_response]"
    by (simp_all add: p'(2) none v(8))
  with p'(1,3) v(8) show ?thesis by (intro exI [of _ v] exI [of _ p'] exI [of _ "server_worker 0 v"]) simp
qed

section \<open>A task that is overtaken\<close>

lemma call_pool_dead:
  assumes "np_async p = Some a" and "a_closing a" and "np_ub p"
  shows "\<exists>p'. call_pool (Call_close n) p = Some p' \<and> np_ub p'"
  using assms by (simp add: call_pool_def pool_close_def async_send_def undefined_behaviour_def)

text \<open>
  \<open>ChttpTask::run\<close> looks at \<open>m_canceled\<close> once, before it does its work. There is a run in which a
  worker has taken a task that is not canceled, then the pool's destructor makes the internal thread
  report the connection and leave, which cancels the task, and the calls that the task makes
  when it goes on (those it makes if it has passed its test before) reach a pool whose wakeup handle is
  being closed: undefined behaviour.
\<close>

theorem overtaken_task_calls_dead_pool:
  "\<exists>p v p' v' t obj. joint_reach preferred_network_settings demo_env 1 (\<lambda>_. True) (\<lambda>_ _. 0) (\<lambda>_. http_begin) (p, v)
    \<and> wq_threads (hs_queue v) = [Got_task t] \<and> um_find t (hs_objects v) = Some obj \<and> \<not> ht_canceled obj
    \<and> joint_step\<^sup>*\<^sup>* (p, v) (p', v') \<and> wq_threads (hs_queue v') = [Got_task t]
    \<and> (\<exists>p''. call_pools (new_calls v (task_run t v)) p' = Some p'' \<and> np_ub p'')"
proof -
  obtain v t obj where v: "joint_reach preferred_network_settings demo_env 1 (\<lambda>_. True) (\<lambda>_ _. 0) (\<lambda>_. http_begin) (demo_received, v)"
    "srv_live v" "hs_pool v" "wq_threads (hs_queue v) = [Got_task t]" "um_find t (hs_objects v) = Some obj"
    "\<not> ht_canceled obj" "getInfo (ht_context obj) \<noteq> None" "ht_node obj = demo_peer"
    using demo_joint_task by blast
  have reach: "server_reach 1 (\<lambda>_. True) (\<lambda>_ _. 0) (\<lambda>_. http_begin) v"
    using joint_reach_ok [OF v(1) connect_law_demo] by (simp add: joint_ok_def)
  have ok: "srv_ok v" "hs_fault v = None" using server_reach_inv [OF reach] v(2) by (simp_all add: server_inv_def srv_live_def)
  let ?q = "pool_destroy demo_received" and ?v' = "connectionStatus demo_peer False v"
  let ?p' = "on_wakeup ?q"
  have alive: "pool_alive demo_received" "pool_alive ?q" by code_simp+
  have logs: "np_log ?q = np_log demo_received @ []" "np_log ?p' = np_log ?q @ [Cb_connectionStatus demo_peer False]" by code_simp+
  have [simp]: "new_calls u u = []" for u by (simp add: new_calls_def)
  have 1: "joint_step (demo_received, v) (?q, v)"
    by (rule Joint_pool [OF np_step.destroy [OF alive(1)] logs(1) v(2) Hears_end]) simp
  have tell: "hears [Cb_connectionStatus demo_peer False] v ?v'" by (rule Hears_status [OF v(2) Hears_end])
  have "new_calls v ?v' = []"
    using hears_silent [OF tell _ reach] by (simp add: new_calls_def)
  then have 2: "joint_step (?q, v) (?p', ?v')"
    using Joint_pool [OF np_step.wakeup [OF alive(2)] logs(2) v(2) tell] by simp
  from 1 2 have steps: "joint_step\<^sup>*\<^sup>* (demo_received, v) (?p', ?v')" by (meson converse_rtranclp_into_rtranclp r_into_rtranclp)
  have threads: "wq_threads (hs_queue ?v') = [Got_task t]" using status_ok(3) [OF ok] v(4) by simp
  let ?close = "if isKeepAlive (ht_context obj) then [] else [Call_close demo_peer]"
  have calls: "new_calls v (task_run t v) = Call_send demo_peer task_response # ?close"
    using v(3,5-8) by (auto simp: new_calls_def task_run_def srv_call_def Let_def)
  have dead: "map_option a_closing (np_async ?p') = Some True" "np_env ?p' (np_tick ?p') Call_malloc = 0" by code_simp+
  then obtain a where a: "np_async ?p' = Some a" "a_closing a" by auto
  have len: "length task_response \<noteq> 0" by (simp add: task_response_def)
  have tcp: "m_protocol demo_peer = Protocol_tcp" by (simp add: demo_peer_def)
  obtain p1 where p1: "call_pool (Call_send demo_peer task_response) ?p' = Some p1" "np_ub p1" "np_async p1 = Some a"
    using a len tcp dead(2) by (simp add: call_pool_def pool_send_def env_ret_def async_send_def undefined_behaviour_def Let_def)
  obtain p2 where p2: "call_pool (Call_close demo_peer) p1 = Some p2" "np_ub p2" using call_pool_dead [OF p1(3) a(2) p1(2)] by blast
  have "\<exists>p''. call_pools (new_calls v (task_run t v)) ?p' = Some p'' \<and> np_ub p''"
    unfolding calls using p1 p2 by simp
  then show ?thesis using v(1,4-6) steps threads by blast
qed

end
