(* ===== verification/Interleaved_Pool.thy ===== *)
theory Interleaved_Pool
  imports Served_Pool
begin

text \<open>
  Server and pool with everything interleaved. \<open>joint_step\<close> takes a step of the pool and all its callbacks
  as one, and the whole of \<open>ChttpTask::run\<close>; here the pool's thread makes its callbacks one after
  the other (\<open>sr_todo\<close> is what it has still to make), a worker makes its calls one after the other
  once its task has passed the test of \<open>m_canceled\<close> (\<open>sr_calls\<close>), and the threads of the user call at any time.

  \<^item> A step of the pool is taken to its end first and its callbacks are made then: between them it
    does not read what \<open>bind\<close>, \<open>send\<close> and \<open>close\<close> write, so these may come before or after the rest
    of the step; one that comes after \<open>on_wakeup\<close> has begun to leave finds the wakeup handle closing.
    Emptying the queues and closing the handle are one step of the exit, although the lock is given
    back in between.
  \<^item> The test of \<open>m_canceled\<close> and the reading of \<open>m_pool\<close> and of the task's own message are one step of the worker.
    \<open>Ran_task\<close> with calls left in \<open>sr_calls\<close> is a worker in the middle of \<open>run\<close>.
  \<^item> Nothing happens after a call that is undefined, or after a fault of the server.

  \<open>run_ok\<close> is the invariant, with the link of \<open>Served_Pool\<close> to what the server has \<open>heard\<close> so far. The
  theorems: joint runs are interleaved runs; what holds between server and pool at every moment; the
  only way to do harm is a task that is overtaken by the end of the pool; and how the user avoids it.
\<close>

section \<open>States and steps\<close>

record served_run =
  sr_pool :: np_pool
  sr_todo :: "event list"
  sr_server :: http_server
  sr_calls :: "nat \<Rightarrow> pool_call list"

fun call_node :: "pool_call \<Rightarrow> network_node" where
  "call_node (Call_send n d) = n"
| "call_node (Call_close n) = n"

text \<open>A call of the user's own threads, at any time before the end of the pool's life.\<close>

inductive user_call :: "np_pool \<Rightarrow> np_pool \<Rightarrow> bool" where
  User_bind: "pool_alive p \<Longrightarrow> user_call p (pool_bind node bBind p)"
| User_send: "pool_alive p \<Longrightarrow> user_call p (snd (pool_send node data bAutoConnect p))"
| User_close: "pool_alive p \<Longrightarrow> user_call p (pool_close node bForceClose p)"
| User_destroy: "pool_alive p \<Longrightarrow> user_call p (pool_destroy p)"

inductive run_step :: "served_run \<Rightarrow> served_run \<Rightarrow> bool" where
  Run_pool: "\<not> np_ub (sr_pool x) \<Longrightarrow> srv_live (sr_server x) \<Longrightarrow> sr_todo x = [] \<Longrightarrow>
    np_step (sr_pool x) p \<Longrightarrow> np_log p = np_log (sr_pool x) @ es \<Longrightarrow> run_step x (x\<lparr>sr_pool := p, sr_todo := es\<rparr>)"
| Run_user: "\<not> np_ub (sr_pool x) \<Longrightarrow> srv_live (sr_server x) \<Longrightarrow> user_call (sr_pool x) p \<Longrightarrow> run_step x (x\<lparr>sr_pool := p\<rparr>)"
| Run_hear: "\<not> np_ub (sr_pool x) \<Longrightarrow> srv_live (sr_server x) \<Longrightarrow> sr_todo x = es @ rest \<Longrightarrow> hears es (sr_server x) v \<Longrightarrow>
    call_pools (new_calls (sr_server x) v) (sr_pool x) = Some p \<Longrightarrow>
    run_step x (x\<lparr>sr_pool := p, sr_todo := rest, sr_server := v\<rparr>)"
| Run_worker: "\<not> np_ub (sr_pool x) \<Longrightarrow> srv_live (sr_server x) \<Longrightarrow> i < length (wq_threads (hs_queue (sr_server x))) \<Longrightarrow>
    wq_threads (hs_queue (sr_server x)) ! i \<noteq> Finished \<Longrightarrow> sr_calls x i = [] \<Longrightarrow> v = server_worker i (sr_server x) \<Longrightarrow>
    run_step x (x\<lparr>sr_server := v, sr_calls := (sr_calls x)(i := new_calls (sr_server x) v)\<rparr>)"
| Run_call: "\<not> np_ub (sr_pool x) \<Longrightarrow> srv_live (sr_server x) \<Longrightarrow> sr_calls x i = c # cs \<Longrightarrow> call_pool c (sr_pool x) = Some p \<Longrightarrow>
    run_step x (x\<lparr>sr_pool := p, sr_calls := (sr_calls x)(i := cs)\<rparr>)"
| Run_pointer: "\<not> np_ub (sr_pool x) \<Longrightarrow> srv_live (sr_server x) \<Longrightarrow> run_step x (x\<lparr>sr_server := setNetworkPool b (sr_server x)\<rparr>)"

inductive run_reach ::
  "network_settings \<Rightarrow> (nat \<Rightarrow> env_call \<Rightarrow> int) \<Rightarrow> nat \<Rightarrow> (nat \<Rightarrow> bool) \<Rightarrow> (nat \<Rightarrow> nat \<Rightarrow> u8) \<Rightarrow> (nat \<Rightarrow> http_ctx) \<Rightarrow>
    served_run \<Rightarrow> bool" for settings env nThread mem fresh garbage
where
  Run_start: "pool_construct settings env = (True, p) \<Longrightarrow> server_reach nThread mem fresh garbage v \<Longrightarrow> srv_live v \<Longrightarrow>
    hs_contexts v = [] \<Longrightarrow> hs_objects v = [] \<Longrightarrow>
    run_reach settings env nThread mem fresh garbage \<lparr>sr_pool = p, sr_todo = [], sr_server = v, sr_calls = (\<lambda>_. [])\<rparr>"
| Run_step: "run_reach settings env nThread mem fresh garbage x \<Longrightarrow> run_step x y \<Longrightarrow> run_reach settings env nThread mem fresh garbage y"

inductive_simps hears_nothing: "hears [] v v'"

lemma user_call_step:
  assumes "user_call p p'"
  shows "np_step p p'" "np_log p' = np_log p" "np_async p' = np_async p"
proof -
  show "np_step p p'" using assms by cases (simp_all add: np_step.bind np_step.send np_step.close np_step.destroy)
  show "np_log p' = np_log p" "np_async p' = np_async p"
    using assms by (cases, simp_all add: pool_bind_def pool_send_def pool_close_def pool_destroy_def env_ret_def Let_def split: option.split)+
qed

text \<open>A call reaches a living pool as a step of it; on a dead one it is undefined or does nothing.\<close>

lemma call_pool_on_dead:
  assumes "\<not> pool_alive p" and "\<forall>a. np_async p = Some a \<longrightarrow> a_closing a" and "call_pool c p = Some p'"
  shows "np_ub p' \<or> p' = p"
  using assms
  by (auto simp: call_pool_def pool_send_def pool_close_def async_send_def undefined_behaviour_def pool_alive_def env_ret_def
      mem_add_def Let_def split: pool_call.splits option.splits if_splits prod.splits bool.splits)

section \<open>What workers keep hold of\<close>

text \<open>The tasks that workers have run, and the nodes of all tasks, stay as they are.\<close>

definition keeps :: "http_server \<Rightarrow> http_server \<Rightarrow> bool" where
  "keeps v v' \<longleftrightarrow> length (wq_threads (hs_queue v')) = length (wq_threads (hs_queue v))
     \<and> (\<forall>i t. i < length (wq_threads (hs_queue v)) \<longrightarrow> wq_threads (hs_queue v) ! i = Ran_task t \<longrightarrow> wq_threads (hs_queue v') ! i = Ran_task t)
     \<and> (\<forall>t obj. um_find t (hs_objects v) = Some obj \<longrightarrow> (\<exists>obj'. um_find t (hs_objects v') = Some obj' \<and> ht_node obj' = ht_node obj))"

lemma keeps_refl [simp]: "keeps v v"
  by (simp add: keeps_def)

lemma keeps_trans: "keeps u v \<Longrightarrow> keeps v w \<Longrightarrow> keeps u w"
  unfolding keeps_def by metis

lemma keeps_same: "hs_queue v' = hs_queue v \<Longrightarrow> hs_objects v' = hs_objects v \<Longrightarrow> keeps v v'"
  by (simp add: keeps_def)

lemma message_loop_threads:
  assumes "srv_ok s" "hs_fault s = None" "queue_live n s" "pick_ok pick" "http_ok ctx" "room_ok ctx"
    and "message_loop pick node ctx s = Some (ctx', s')" and "hs_fault s' = None"
  shows "length (wq_threads (hs_queue s')) = length (wq_threads (hs_queue s))
    \<and> (\<forall>i t. i < length (wq_threads (hs_queue s)) \<longrightarrow> wq_threads (hs_queue s) ! i = Ran_task t \<longrightarrow> wq_threads (hs_queue s') ! i = Ran_task t)"
  using assms
proof (induction "h_nowIndex ctx" arbitrary: ctx s rule: less_induct)
  case less
  from less.prems(1-6) show ?case
  proof (cases rule: message_loop_cases [where node = node])
    case (wait g)
    then show ?thesis using less.prems(7) by simp
  next
    case (close g s1)
    then have "hs_queue s' = hs_queue s" using less.prems(7) by auto
    then show ?thesis by simp
  next
    case (exception g s1)
    then show ?thesis using less.prems(7,8) by simp
  next
    case (task g g' t s1 obj1)
    let ?q = "hs_queue s"
    have "may_notify (pick ?q) ?q" using less.prems(4) by (simp add: pick_ok_def)
    then have "length (wq_threads (hs_queue s1)) = length (wq_threads ?q)
      \<and> (\<forall>i t. i < length (wq_threads ?q) \<longrightarrow> wq_threads ?q ! i = Ran_task t \<longrightarrow> wq_threads (hs_queue s1) ! i = Ran_task t)"
      by (auto simp: task(25) pushTask_def notify_one_def may_notify_def nth_list_update split: option.splits)
    moreover have "length (wq_threads (hs_queue s')) = length (wq_threads (hs_queue s1))
      \<and> (\<forall>i t. i < length (wq_threads (hs_queue s1)) \<longrightarrow> wq_threads (hs_queue s1) ! i = Ran_task t \<longrightarrow> wq_threads (hs_queue s') ! i = Ran_task t)"
      by (rule less.hyps [OF task(7-10) less.prems(4) task(5,6)]) (use less.prems(7,8) task(4) in simp_all)
    ultimately show ?thesis by simp
  qed
qed

lemma keeps_receive:
  assumes ok: "srv_ok s" "queue_live n s" "hs_fault s = None" and pick: "pick_ok pick"
    and place: "allocateMemoryForMessage node s = (Some (pos, room), s1)" "length bs \<le> room"
    and res: "message pick node (length bs) (server_write node bs s1) = Some s'" "hs_fault s' = None"
  shows "keeps s s'"
proof -
  obtain ctx where c: "http_ok (http_feed bs ctx)" "room_ok (http_feed bs ctx)"
    "server_write node bs s1 = s1\<lparr>hs_contexts := AList.update node (http_write bs ctx) (hs_contexts s1)\<rparr>"
    "srv_ok (server_write node bs s1)" "hs_fault s1 = None" "queue_live n (server_write node bs s1)"
    "message pick node (length bs) (server_write node bs s1) =
      (case message_loop pick node (http_feed bs ctx) (server_write node bs s1) of
         None \<Rightarrow> None | Some (g, s) \<Rightarrow> Some (s\<lparr>hs_contexts := AList.update node g (hs_contexts s)\<rparr>))"
    by (rule receive_start [OF ok place])
  obtain g s2 where s2: "message_loop pick node (http_feed bs ctx) (server_write node bs s1) = Some (g, s2)"
    "s' = s2\<lparr>hs_contexts := AList.update node g (hs_contexts s2)\<rparr>"
    using c(7) res(1) by (auto split: option.splits)
  have tab: "tables_ok (queue_owned (hs_queue s)) s" using ok(1) by (simp add: srv_ok_def)
  have w: "hs_queue (server_write node bs s1) = hs_queue s" "hs_fault (server_write node bs s1) = None"
    using allocate_ok [OF tab ok(3) place(1)] c(3,5) by simp_all
  have "hs_fault s2 = None" using res(2) s2(2) by simp
  from message_loop_threads [OF c(4) w(2) c(6) pick c(1,2) s2(1) this]
  show ?thesis using receive_keeps [OF ok pick place res] unfolding keeps_def by (simp add: w s2(2))
qed

lemma keeps_status:
  assumes ok: "srv_ok v" and fault: "hs_fault v = None"
  shows "keeps v (connectionStatus n b v)"
proof (cases b)
  case True
  then show ?thesis by (intro keeps_same) (simp_all add: connectionStatus_def)
next
  case False
  have tab: "tables_ok (queue_owned (hs_queue v)) v" using ok by (simp add: srv_ok_def)
  define held where "held = (case um_find n (hs_contexts v) of None \<Rightarrow> 0 | Some ctx \<Rightarrow> held_block ctx)"
  let ?v = "v\<lparr>hs_contexts := fst (um_erase n (hs_contexts v)), hs_live := hs_live v - held\<rparr>"
  have eq: "connectionStatus n b v = cancelTask n ?v" by (simp add: connectionStatus_def False held_def)
  note c = cancelTask_ok [OF contexts_erase_ok [OF tab held_def], where node = n]
  have "\<exists>obj'. um_find t (hs_objects (cancelTask n ?v)) = Some obj' \<and> ht_node obj' = ht_node obj"
    if "um_find t (hs_objects v) = Some obj" for t obj
  proof -
    have "t \<in># queue_owned (hs_queue v)"
      using tab um_find_in_set [OF that] unfolding tables_ok_def by (metis fst_conv image_eqI set_map set_mset_mset)
    then obtain obj' where "um_find t (hs_objects (cancelTask n ?v)) = Some obj'" using tables_find [OF c(1)] by blast
    then show ?thesis using c(9) [of t obj'] that by auto
  qed
  then show ?thesis unfolding keeps_def eq c(7) by simp
qed

lemma hears_no_fault: "hears es v v' \<Longrightarrow> hs_fault v' = None \<Longrightarrow> hs_fault v = None"
  by (induction rule: hears.induct) (simp_all add: srv_live_def)

lemma keeps_hears:
  assumes "hears es v v'" and "server_reach m mem fresh garbage v" and "hs_fault v' = None"
  shows "keeps v v'"
  using assms
proof (induction rule: hears.induct)
  case (Hears_status v es n b v')
  have ok: "srv_ok v" "hs_fault v = None" using server_reach_inv [OF Hears_status.prems(1)] Hears_status(1)
    by (simp_all add: server_inv_def srv_live_def)
  from Hears_status.IH [OF Server_step [OF Hears_status.prems(1) Srv_status [OF Hears_status(1)]] Hears_status.prems(2)]
  show ?case using keeps_trans [OF keeps_status [OF ok]] by blast
next
  case (Hears_data v n pos room v1 d pick v2 es v')
  have fault: "hs_fault v = None" using Hears_data(1) by (simp add: srv_live_def)
  have ok: "srv_ok v" "queue_live m v" using server_reach_inv [OF Hears_data.prems(1)] fault Hears_data(1)
    by (simp_all add: server_inv_def queue_live_def srv_live_def)
  have pick: "pick_ok pick" using Hears_data(4) by (simp add: pick_ok_def)
  have more: "server_reach m mem fresh garbage v2" by (rule Server_step [OF Hears_data.prems(1) Srv_receive [OF Hears_data(1-5)]])
  have "hs_fault v2 = None" by (rule hears_no_fault [OF Hears_data(6) Hears_data.prems(2)])
  then show ?case using keeps_trans [OF keeps_receive [OF ok fault pick Hears_data(2,3,5)] Hears_data.IH [OF more Hears_data.prems(2)]] by blast
next
  case (Hears_nothing v n place v1 es v')
  have ok: "srv_ok v" "hs_fault v = None" using server_reach_inv [OF Hears_nothing.prems(1)] Hears_nothing(1)
    by (simp_all add: server_inv_def srv_live_def)
  have tab: "tables_ok (queue_owned (hs_queue v)) v" using ok(1) by (simp add: srv_ok_def)
  have "keeps v v1" using allocate_ok [OF tab ok(2) Hears_nothing(2)] by (intro keeps_same) simp_all
  then show ?case
    using keeps_trans Hears_nothing.IH [OF Server_step [OF Hears_nothing.prems(1) Srv_allocate [OF Hears_nothing(1,2)]] Hears_nothing.prems(2)] by blast
qed simp_all

lemma worker_objects:
  assumes v: "server_reach n mem fresh garbage v" "srv_live v" and i: "i < length (wq_threads (hs_queue v))" "wq_threads (hs_queue v) ! i \<noteq> Finished"
    and find: "um_find k (hs_objects (server_worker i v)) = Some obj"
  shows "um_find k (hs_objects v) = Some obj"
proof (cases "\<exists>t. wq_threads (hs_queue v) ! i = Ran_task t")
  case True
  then obtain t where t: "wq_threads (hs_queue v) ! i = Ran_task t" by blast
  have live: "hs_fault v = None" "wq_phase (hs_queue v) \<noteq> Gone" using v(2) by (simp_all add: srv_live_def)
  have tab: "tables_ok (queue_owned (hs_queue v)) v" using server_reach_inv [OF v(1)] live by (simp add: server_inv_def srv_ok_def)
  have "t \<in># queue_owned (hs_queue v)" by (rule got_owned [OF i(1) _ live(2)]) (simp add: t)
  then obtain ts where own: "queue_owned (hs_queue v) = add_mset t ts" by (metis multi_member_split)
  have "set (hs_objects (task_delete t v)) \<subseteq> set (hs_objects v)" using task_delete_ok [OF tab [unfolded own]] by blast
  moreover have "(k, obj) \<in> set (hs_objects (task_delete t v))" using um_find_in_set [OF find] by (simp add: server_worker_def t Let_def)
  moreover have "um_ok (hs_objects v)" using tab by (simp add: tables_ok_def)
  ultimately show ?thesis using um_in_set_find [of "hs_objects v" k obj] by blast
next
  case False
  then have "hs_objects (server_worker i v) = hs_objects v"
    by (cases "wq_threads (hs_queue v) ! i") (simp_all add: server_worker_def task_run_def Let_def split: option.split)
  then show ?thesis using find by simp
qed

lemma keeps_worker:
  assumes v: "server_reach n mem fresh garbage v" "srv_live v" and i: "i < length (wq_threads (hs_queue v))" "wq_threads (hs_queue v) ! i \<noteq> Finished"
    and fault: "hs_fault (server_worker i v) = None"
    and j: "j < length (wq_threads (hs_queue v))" "j \<noteq> i" "wq_threads (hs_queue v) ! j = Ran_task t" "um_find t (hs_objects v) = Some obj"
  shows "j < length (wq_threads (hs_queue (server_worker i v))) \<and> wq_threads (hs_queue (server_worker i v)) ! j = Ran_task t
    \<and> um_find t (hs_objects (server_worker i v)) = Some obj"
proof -
  let ?w = "server_worker i v"
  have queue: "hs_queue ?w = worker i (hs_queue v)"
    by (cases "wq_threads (hs_queue v) ! i")
      (simp_all add: server_worker_def Let_def task_run_def task_delete_def deleteReferenceTask_def split: option.split)
  have same: "length (wq_threads (worker i q)) = length (wq_threads q)" "j \<noteq> i \<Longrightarrow> wq_threads (worker i q) ! j = wq_threads q ! j" for q :: "tid work_queue"
    by (simp_all add: worker_def getNext_def split: worker_place.split list.split)
  have ph: "wq_phase (hs_queue v) \<noteq> Gone" "wq_phase (hs_queue v) \<noteq> Thrown" "hs_fault v = None" using v(2) by (simp_all add: srv_live_def)
  have w: "server_reach n mem fresh garbage ?w" by (rule Server_step [OF v(1) Srv_worker]) (use ph i in simp_all)
  have tab: "tables_ok (queue_owned (hs_queue ?w)) ?w" using server_reach_inv [OF w] fault by (simp add: server_inv_def srv_ok_def)
  have at: "j < length (wq_threads (hs_queue ?w))" "wq_threads (hs_queue ?w) ! j = Ran_task t" using j by (simp_all add: queue same)
  have "wq_phase (hs_queue ?w) = wq_phase (hs_queue v)"
    by (simp add: queue worker_def getNext_def split: worker_place.split list.split)
  then have "t \<in># queue_owned (hs_queue ?w)" by (intro got_owned [OF at(1)]) (simp_all add: at(2) ph)
  then obtain obj' where "um_find t (hs_objects ?w) = Some obj'" using tables_find [OF tab] by blast
  then show ?thesis using worker_objects [OF v i] at j(4) by fastforce
qed

text \<open>What a worker calls, it calls for the task that it has just run.\<close>

lemma worker_calls:
  assumes v: "server_reach n mem fresh garbage v" "srv_live v" and i: "i < length (wq_threads (hs_queue v))"
    and calls: "new_calls v (server_worker i v) \<noteq> []"
  shows "\<exists>t obj. i < length (wq_threads (hs_queue (server_worker i v))) \<and> wq_threads (hs_queue (server_worker i v)) ! i = Ran_task t
    \<and> um_find t (hs_objects (server_worker i v)) = Some obj \<and> (\<forall>c\<in>set (new_calls v (server_worker i v)). call_node c = ht_node obj)"
proof -
  have "\<exists>t. wq_threads (hs_queue v) ! i = Got_task t"
    using calls by (cases "wq_threads (hs_queue v) ! i")
      (simp_all add: new_calls_def server_worker_def task_delete_def deleteReferenceTask_def Let_def split: option.splits)
  then obtain t where t: "wq_threads (hs_queue v) ! i = Got_task t" by blast
  obtain obj where obj: "um_find t (hs_objects v) = Some obj"
    using calls by (auto simp: new_calls_def server_worker_def t task_run_def Let_def srv_fault_def split: option.splits)
  have "hs_objects (server_worker i v) = hs_objects v"
    by (auto simp: server_worker_def t task_run_def Let_def split: option.split)
  moreover have "\<forall>c\<in>set (new_calls v (server_worker i v)). call_node c = ht_node obj"
    by (auto simp: new_calls_def server_worker_def t task_run_def obj srv_call_def srv_fault_def Let_def split: option.splits if_splits)
  moreover have "hs_queue (server_worker i v) = worker i (hs_queue v)"
    by (simp add: server_worker_def t task_run_def Let_def split: option.split)
  moreover have "i < length (wq_threads (worker i (hs_queue v)))" "wq_threads (worker i (hs_queue v)) ! i = Ran_task t"
    using i t by (simp_all add: worker_def)
  ultimately show ?thesis using obj by auto
qed

section \<open>The invariant\<close>

lemma last_status_in: "last_status n es = Some b \<Longrightarrow> Cb_connectionStatus n b \<in> set es"
  by (induction es) (auto split: option.splits event.splits if_splits)

fun message_event :: "event \<Rightarrow> bool" where
  "message_event (Cb_message n d) = True"
| "message_event _ = False"

text \<open>Data comes first among the callbacks of a step, and the pool is alive then if the server knows any node.\<close>

definition message_first :: "event list \<Rightarrow> event list \<Rightarrow> bool \<Rightarrow> bool" where
  "message_first heard todo alive \<longleftrightarrow> (\<forall>e\<in>set todo. \<not> message_event e)
     \<or> (\<exists>n m d es. todo = Cb_allocate n # Cb_message m d # Cb_deallocate n # es \<and> (\<forall>e\<in>set es. \<not> reading e)
          \<and> ((\<exists>k. last_status k heard = Some True) \<longrightarrow> alive))"

definition making :: "http_server \<Rightarrow> (nat \<Rightarrow> pool_call list) \<Rightarrow> bool" where
  "making v calls \<longleftrightarrow> (\<forall>i. calls i \<noteq> [] \<longrightarrow> (\<exists>t obj. i < length (wq_threads (hs_queue v)) \<and> wq_threads (hs_queue v) ! i = Ran_task t
     \<and> um_find t (hs_objects v) = Some obj \<and> (\<forall>c\<in>set (calls i). call_node c = ht_node obj)))"

definition run_ok :: "network_settings \<Rightarrow> (nat \<Rightarrow> env_call \<Rightarrow> int) \<Rightarrow> nat \<Rightarrow> (nat \<Rightarrow> bool) \<Rightarrow> (nat \<Rightarrow> nat \<Rightarrow> u8) \<Rightarrow> (nat \<Rightarrow> http_ctx) \<Rightarrow>
    served_run \<Rightarrow> bool"
where
  "run_ok settings env n mem fresh garbage x \<longleftrightarrow> np_reach settings env (sr_pool x) \<and> server_reach n mem fresh garbage (sr_server x)
     \<and> (hs_fault (sr_server x) = None \<longrightarrow> making (sr_server x) (sr_calls x)
          \<and> (\<exists>heard. np_log (sr_pool x) = heard @ sr_todo x \<and> linked (sr_server x) heard
               \<and> message_first heard (sr_todo x) (pool_alive (sr_pool x))))"

lemma making_keeps: "making v calls \<Longrightarrow> keeps v v' \<Longrightarrow> making v' calls"
  unfolding making_def keeps_def by metis

lemma making_call:
  assumes "making v calls" and "calls i = c # cs"
  shows "making v (calls(i := cs))"
proof (unfold making_def, intro allI impI)
  fix j
  assume "(calls(i := cs)) j \<noteq> []"
  then have "calls j \<noteq> []" "set ((calls(i := cs)) j) \<subseteq> set (calls j)" using assms(2) by (auto split: if_splits)
  then show "\<exists>t obj. j < length (wq_threads (hs_queue v)) \<and> wq_threads (hs_queue v) ! j = Ran_task t
      \<and> um_find t (hs_objects v) = Some obj \<and> (\<forall>c\<in>set ((calls(i := cs)) j). call_node c = ht_node obj)"
    using assms(1) [unfolded making_def, rule_format, of j] by blast
qed

lemma message_first_rest:
  "message_first heard (es @ rest) alive \<Longrightarrow> linked v heard \<Longrightarrow> hears es v v' \<Longrightarrow> es \<noteq> [] \<Longrightarrow> srv_live v \<Longrightarrow> \<forall>e\<in>set rest. \<not> message_event e"
proof -
  assume a: "message_first heard (es @ rest) alive" "hears es v v'" "es \<noteq> []" "srv_live v"
  have "hs_fault v = None" using a(4) by (simp add: srv_live_def)
  then have short: "es \<noteq> [Cb_allocate n]" "es \<noteq> [Cb_allocate n, Cb_message m d]" for n m d
    using a(2) by (auto elim: hears.cases)
  have quiet: "\<not> reading e \<Longrightarrow> \<not> message_event e" for e by (cases e) simp_all
  show ?thesis
  proof (cases "\<forall>e\<in>set (es @ rest). \<not> message_event e")
    case False
    then obtain n m d fs where fs: "es @ rest = Cb_allocate n # Cb_message m d # Cb_deallocate n # fs" "\<forall>e\<in>set fs. \<not> reading e"
      using a(1) by (auto simp: message_first_def)
    have "set rest \<subseteq> set (Cb_deallocate n # fs)"
      using fs(1) short(1) [of n] short(2) [of n m d] a(3)
      by (auto simp: Cons_eq_append_conv append_eq_Cons_conv)
    then show ?thesis using fs(2) quiet by fastforce
  qed simp
qed

lemma hears_no_message:
  assumes "hears es v v'" and "\<forall>e\<in>set es. \<not> message_event e" and "server_reach m mem fresh garbage v"
  shows "hs_calls v' = hs_calls v"
  using assms
proof (induction rule: hears.induct)
  case (Hears_status v es n b v')
  have "hs_calls (connectionStatus n b v) = hs_calls v"
    by (rule hears_silent [OF hears.Hears_status [OF Hears_status(1) hears.Hears_end] _ Hears_status.prems(2)]) simp
  then show ?case using Hears_status.IH Server_step [OF Hears_status.prems(2) Srv_status [OF Hears_status(1)]] Hears_status.prems(1) by simp
next
  case (Hears_nothing v n place v1 es v')
  have "hs_calls v1 = hs_calls v" using allocate_objects(3) [of n v] Hears_nothing(2) by simp
  then show ?case
    using Hears_nothing.IH Server_step [OF Hears_nothing.prems(2) Srv_allocate [OF Hears_nothing(1,2)]] Hears_nothing.prems(1) by simp
qed simp_all

text \<open>A callback calls the pool only while it is there.\<close>

lemma hear_calls:
  assumes first: "message_first heard (es @ rest) alive" and hears: "hears es v v'" and v: "server_reach m mem fresh garbage v" "srv_live v"
    and link: "linked v heard" and calls: "new_calls v v' \<noteq> []"
  shows "alive"
proof -
  have fault: "hs_fault v = None" using v(2) by (simp add: srv_live_def)
  have differ: "hs_calls v' \<noteq> hs_calls v" using calls by (auto simp: new_calls_def)
  then obtain e where e: "e \<in> set es" "message_event e" using hears_no_message [OF hears _ v(1)] by blast
  then obtain n k d fs where fs: "es @ rest = Cb_allocate n # Cb_message k d # Cb_deallocate n # fs" "\<forall>e\<in>set fs. \<not> reading e"
    "(\<exists>k. last_status k heard = Some True) \<longrightarrow> alive"
    using first by (auto simp: message_first_def)
  have short: "es \<noteq> [Cb_allocate n, Cb_message k d]" using hears fault by (auto elim: hears.cases)
  have "es \<noteq> [Cb_allocate n]" using e by auto
  then obtain es' where es': "es = Cb_allocate n # Cb_message k d # Cb_deallocate n # es'" "set es' \<subseteq> set fs"
    using fs(1) short e(1) by (auto simp: append_eq_Cons_conv)
  then have "um_find n (hs_contexts v) \<noteq> None"
    using hears_alone [OF disjI1 [OF hears [unfolded es'(1)]] _ v(1)] differ fs(2) by blast
  then show ?thesis using link fs(3) unfolding linked_def by blast
qed

lemma pool_step_first:
  assumes p: "np_reach settings env p" "connect_law env" and step: "np_step p p1" "np_log p1 = np_log p @ es"
  shows "message_first (np_log p) es (pool_alive p1)"
proof -
  have ok: "np_ok p" "typed p" "listeners_ok p"
    using np_reach_ok [OF p] np_reach_typed [OF p(1)] np_reach_left [OF p] by simp_all
  have quiet: "\<not> reading e \<Longrightarrow> \<not> message_event e" for e by (cases e) simp_all
  from step(1) ok show ?thesis
  proof (cases rule: step_log)
    case other
    then show ?thesis using step(2) quiet by (auto simp: adds_def message_first_def)
  next
    case (data n m d es')
    have "pool_alive p1" if "last_status k (np_log p) = Some True" for k
    proof -
      have "pool_alive p" using reports.truth [OF pool_goodI [OF p], of k] reports.gone [OF pool_goodI [OF p], of k] that by blast
      then show ?thesis by (simp add: pool_alive_def data(5))
    qed
    then show ?thesis using data(1,2) step(2) by (auto simp: message_first_def)
  next
    case (empty n es')
    then show ?thesis using step(2) quiet by (auto simp: message_first_def)
  qed
qed

lemma np_reach_closing: "np_reach settings env p \<Longrightarrow> connect_law env \<Longrightarrow> \<not> pool_alive p \<Longrightarrow> np_async p = Some a \<Longrightarrow> a_closing a"
  using np_reach_left [of settings env p] by (simp add: exit_ok_def)

lemma linked_pointer [simp]: "linked (setNetworkPool b v) log = linked v log"
  by (simp add: linked_def setNetworkPool_def)

text \<open>The invariant holds until a call reaches a dead pool.\<close>

lemma run_ok_step:
  assumes ok: "run_ok settings env n mem fresh garbage x" and law: "connect_law env" and step: "run_step x y"
  shows "run_ok settings env n mem fresh garbage y
    \<or> np_ub (sr_pool y) \<and> \<not> pool_alive (sr_pool x) \<and> (\<exists>i c cs. sr_calls x i = c # cs \<and> call_pool c (sr_pool x) = Some (sr_pool y))"
proof -
  let ?p = "sr_pool x" and ?v = "sr_server x"
  have p: "np_reach settings env ?p" and v: "server_reach n mem fresh garbage ?v" using ok by (simp_all add: run_ok_def)
  have here: "\<exists>heard. making ?v (sr_calls x) \<and> np_log ?p = heard @ sr_todo x \<and> linked ?v heard
      \<and> message_first heard (sr_todo x) (pool_alive ?p)" if "srv_live ?v"
    using ok that by (auto simp: run_ok_def srv_live_def)
  from step show ?thesis
  proof cases
    case (Run_pool p1 es)
    have "np_reach settings env p1" by (rule np_reach.step [OF p Run_pool(5)])
    moreover have "message_first (np_log ?p) es (pool_alive p1)" by (rule pool_step_first [OF p law Run_pool(5,6)])
    ultimately show ?thesis using here [OF Run_pool(3)] v Run_pool(1,4,6) by (auto simp: run_ok_def)
  next
    case (Run_user p1)
    note u = user_call_step [OF Run_user(4)]
    have "pool_alive p1 = pool_alive ?p" using u(3) by (simp add: pool_alive_def)
    then show ?thesis using here [OF Run_user(3)] np_reach.step [OF p u(1)] v Run_user(1) u(2) by (auto simp: run_ok_def)
  next
    case (Run_hear es rest v' p1)
    obtain heard where h: "making ?v (sr_calls x)" "np_log ?p = heard @ es @ rest" "linked ?v heard"
      "message_first heard (es @ rest) (pool_alive ?p)"
      using here [OF Run_hear(3)] Run_hear(4) by auto
    have "new_calls ?v v' \<noteq> [] \<longrightarrow> pool_alive ?p" using hear_calls [OF h(4) Run_hear(5) v Run_hear(3) h(3)] by blast
    from call_pools_reach [OF Run_hear(6) p this] have p1: "np_reach settings env p1" "np_log p1 = (heard @ es) @ rest"
      using h(2) by simp_all
    have v': "server_reach n mem fresh garbage v'" by (rule hears_reach [OF Run_hear(5) v])
    have "making v' (sr_calls x) \<and> linked v' (heard @ es) \<and> message_first (heard @ es) rest (pool_alive p1)" if "hs_fault v' = None"
    proof (cases "es = []")
      case True
      then have "v' = ?v" using Run_hear(5) by (auto simp: hears_nothing)
      moreover have "p1 = ?p" using Run_hear(6) \<open>v' = ?v\<close> by (simp add: new_calls_def)
      ultimately show ?thesis using h True by simp
    next
      case False
      then have "message_first (heard @ es) rest a" for a
        using message_first_rest [OF h(4,3) Run_hear(5) _ Run_hear(3)] by (simp add: message_first_def)
      then show ?thesis
        using that making_keeps [OF h(1) keeps_hears [OF Run_hear(5) v that]] hears_linked [OF Run_hear(5) v _ that] h(3) by blast
    qed
    then show ?thesis using p1 v' Run_hear(1) by (auto simp: run_ok_def)
  next
    case (Run_worker i v')
    note w = Run_worker(4,5)
    obtain heard where h: "making ?v (sr_calls x)" "np_log ?p = heard @ sr_todo x" "linked ?v heard"
      "message_first heard (sr_todo x) (pool_alive ?p)"
      using here [OF Run_worker(3)] by auto
    note l = worker_linked [OF v Run_worker(3) w h(3), folded Run_worker(7)]
    have "making v' ((sr_calls x)(i := new_calls ?v v'))" if fault: "hs_fault v' = None"
    proof -
      have "\<exists>t obj. j < length (wq_threads (hs_queue v')) \<and> wq_threads (hs_queue v') ! j = Ran_task t \<and> um_find t (hs_objects v') = Some obj
          \<and> (\<forall>c\<in>set (((sr_calls x)(i := new_calls ?v v')) j). call_node c = ht_node obj)"
        if some: "((sr_calls x)(i := new_calls ?v v')) j \<noteq> []" for j
      proof (cases "j = i")
        case True
        then show ?thesis using worker_calls [OF v Run_worker(3) w(1)] some Run_worker(7) by simp
      next
        case False
        then obtain t obj where t: "j < length (wq_threads (hs_queue ?v))" "wq_threads (hs_queue ?v) ! j = Ran_task t"
          "um_find t (hs_objects ?v) = Some obj" "\<forall>c\<in>set (sr_calls x j). call_node c = ht_node obj"
          using h(1) some unfolding making_def by fastforce
        show ?thesis
          using keeps_worker [OF v Run_worker(3) w fault [unfolded Run_worker(7)] t(1) False t(2,3)] t(4) False Run_worker(7) by auto
      qed
      then show ?thesis by (simp add: making_def)
    qed
    then show ?thesis using h l p Run_worker(1) by (auto simp: run_ok_def)
  next
    case (Run_call i c cs p1)
    obtain heard where h: "making ?v (sr_calls x)" "np_log ?p = heard @ sr_todo x" "linked ?v heard"
      "message_first heard (sr_todo x) (pool_alive ?p)"
      using here [OF Run_call(3)] by auto
    have m: "making ?v ((sr_calls x)(i := cs))" using making_call [OF h(1) Run_call(4)] .
    show ?thesis
    proof (cases "pool_alive ?p")
      case True
      note s = call_pool_step [OF True Run_call(5)]
      then show ?thesis using h m v np_reach.step [OF p s(1)] True Run_call(1) by (auto simp: run_ok_def)
    next
      case False
      from call_pool_on_dead [OF False _ Run_call(5)] np_reach_closing [OF p law False]
      have "np_ub p1 \<or> p1 = ?p" by blast
      then show ?thesis
      proof
        assume "np_ub p1"
        then show ?thesis using False Run_call(1,4,5) by auto
      next
        assume "p1 = ?p"
        then show ?thesis using h m v p Run_call(1) by (auto simp: run_ok_def)
      qed
    qed
  next
    case (Run_pointer b)
    have "server_reach n mem fresh garbage (setNetworkPool b ?v)" by (rule Server_step [OF v Srv_pool [OF Run_pointer(3)]])
    moreover have "keeps ?v (setNetworkPool b ?v)" by (intro keeps_same) (simp_all add: setNetworkPool_def)
    ultimately show ?thesis using here [OF Run_pointer(3)] p Run_pointer(1) making_keeps by (auto simp: run_ok_def)
  qed
qed

lemma run_reach_ok:
  assumes "run_reach settings env n mem fresh garbage x" and "connect_law env"
  shows "run_ok settings env n mem fresh garbage x \<or> np_ub (sr_pool x)"
  using assms(1)
proof (induction rule: run_reach.induct)
  case (Run_start p v)
  then have "np_log p = []"
    by (auto simp: pool_construct_def internal_thread_start_def casync_alloc_def env_ret_def pool_fresh_def mem_add_def
        Let_def split: if_splits)
  then show ?case using Run_start np_reach.start by (simp add: run_ok_def linked_def making_def message_first_def)
next
  case (Run_step x y)
  have "\<not> np_ub (sr_pool x)" using Run_step(2) by cases simp_all
  then show ?case using Run_step(3) run_ok_step [OF _ assms(2) Run_step(2)] by blast
qed

text \<open>A task that is not canceled has a registered node, or one whose end is still to be reported.\<close>

lemma run_ok_task:
  assumes ok: "run_ok settings env n mem fresh garbage x" and law: "connect_law env" and live: "hs_fault (sr_server x) = None"
    and obj: "um_find t (hs_objects (sr_server x)) = Some obj" "\<not> ht_canceled obj"
  shows "getStreamByNode (ht_node obj) (sr_pool x) \<noteq> None \<or> Cb_connectionStatus (ht_node obj) False \<in> set (sr_todo x)"
proof (cases "getStreamByNode (ht_node obj) (sr_pool x)")
  case None
  obtain heard where h: "np_log (sr_pool x) = heard @ sr_todo x" "linked (sr_server x) heard" "np_reach settings env (sr_pool x)"
    using ok live by (auto simp: run_ok_def)
  have up: "last_status (ht_node obj) heard = Some True" using h(2) obj by (simp add: linked_def)
  have "last_status (ht_node obj) (heard @ sr_todo x) \<noteq> Some True"
    using reports.truth [OF pool_goodI [OF h(3) law], of "ht_node obj"] None h(1) by simp
  then have "last_status (ht_node obj) (sr_todo x) = Some False"
    using up by (auto simp: last_status_append split: option.splits)
  then show ?thesis using last_status_in by blast
qed simp

text \<open>What is known of a call that a worker has still to make.\<close>

lemma run_ok_calls:
  assumes ok: "run_ok settings env n mem fresh garbage x" and law: "connect_law env" and live: "hs_fault (sr_server x) = None"
    and calls: "sr_calls x i = c # cs" and dead: "\<not> pool_alive (sr_pool x)"
  shows "\<exists>t obj. i < length (wq_threads (hs_queue (sr_server x))) \<and> wq_threads (hs_queue (sr_server x)) ! i = Ran_task t
    \<and> um_find t (hs_objects (sr_server x)) = Some obj \<and> ht_node obj = call_node c
    \<and> (ht_canceled obj \<or> Cb_connectionStatus (ht_node obj) False \<in> set (sr_todo x))"
proof -
  have h: "making (sr_server x) (sr_calls x)" "np_reach settings env (sr_pool x)" using ok live by (auto simp: run_ok_def)
  obtain t obj where t: "i < length (wq_threads (hs_queue (sr_server x)))" "wq_threads (hs_queue (sr_server x)) ! i = Ran_task t"
    "um_find t (hs_objects (sr_server x)) = Some obj" "ht_node obj = call_node c"
    using h(1) [unfolded making_def, rule_format, of i] calls by auto
  have "getStreamByNode (ht_node obj) (sr_pool x) = None" using reports.gone [OF pool_goodI [OF h(2) law] dead] by blast
  then show ?thesis using run_ok_task [OF ok law live t(3)] t by blast
qed

section \<open>Joint runs are runs\<close>

text \<open>Hearing all callbacks at once, and making all calls at once, is one way to interleave.\<close>

lemma run_calls:
  assumes "call_pools cs p = Some p'" and "run_reach settings env n mem fresh garbage x" and "connect_law env"
    and "sr_pool x = p" and "sr_calls x i = cs" and "srv_live (sr_server x)" and "cs \<noteq> [] \<longrightarrow> pool_alive p" and "np_reach settings env p"
  shows "run_reach settings env n mem fresh garbage (x\<lparr>sr_pool := p', sr_calls := (sr_calls x)(i := [])\<rparr>)"
  using assms
proof (induction cs arbitrary: p x)
  case Nil
  then have "x\<lparr>sr_pool := p', sr_calls := (sr_calls x)(i := [])\<rparr> = x" by (simp add: fun_upd_idem)
  then show ?case using Nil.prems(2) by (simp only:)
next
  case (Cons c cs)
  obtain q where q: "call_pool c p = Some q" "call_pools cs q = Some p'" using Cons.prems(1) by (auto split: option.splits)
  have alive: "pool_alive p" using Cons.prems(7) by simp
  note s = call_pool_step [OF alive q(1)]
  have [simp]: "(\<lambda>a. if a = i then [] else if a = i then cs else f a) = (\<lambda>a. if a = i then [] else f a)" for f :: "nat \<Rightarrow> pool_call list"
    by auto
  have "\<not> np_ub p" using np_ok_core [OF np_reach_ok [OF Cons.prems(8,3)]] by (rule core_no_ub)
  then have "run_step x (x\<lparr>sr_pool := q, sr_calls := (sr_calls x)(i := cs)\<rparr>)"
    using Cons.prems(4-6) q(1) by (intro Run_call) simp_all
  from Run_step [OF Cons.prems(2) this] Cons.IH [OF q(2), of "x\<lparr>sr_pool := q, sr_calls := (sr_calls x)(i := cs)\<rparr>"]
  show ?case using Cons.prems(3,6) s(2) np_reach.step [OF Cons.prems(8) s(1)] by simp
qed

lemma joint_run:
  assumes "joint_reach settings env n mem fresh garbage (p, v)" and "connect_law env"
  shows "run_reach settings env n mem fresh garbage \<lparr>sr_pool = p, sr_todo = [], sr_server = v, sr_calls = (\<lambda>_. [])\<rparr>"
  using assms(1)
proof (induction "(p, v)" arbitrary: p v rule: joint_reach.induct)
  case (Joint_start p v)
  then show ?case by (rule Run_start)
next
  case (Joint_step x p' v')
  obtain p v where x: "x = (p, v)" by fastforce
  let ?state = "\<lambda>p todo v calls. \<lparr>sr_pool = p, sr_todo = todo, sr_server = v, sr_calls = calls\<rparr>"
  have ok: "joint_ok settings env n mem fresh garbage (p, v)" using joint_reach_ok [OF Joint_step(1) assms(2)] x by simp
  have here: "run_reach settings env n mem fresh garbage (?state p [] v (\<lambda>_. []))" using Joint_step(2) x by blast
  have p: "np_reach settings env p" "server_reach n mem fresh garbage v" "hs_fault v = None \<longrightarrow> linked v (np_log p)"
    using ok by (simp_all add: joint_ok_def)
  have ub: "\<not> np_ub q" if "np_reach settings env q" for q
    using np_ok_core [OF np_reach_ok [OF that assms(2)]] by (rule core_no_ub)
  show ?case using Joint_step(3) unfolding x
  proof cases
    case (Joint_pool p1 es)
    have p1: "np_reach settings env p1" by (rule np_reach.step [OF p(1) Joint_pool(1)])
    have "run_step (?state p [] v (\<lambda>_. [])) (?state p1 es v (\<lambda>_. []))"
      using Run_pool [of "?state p [] v (\<lambda>_. [])" p1 es] ub [OF p(1)] Joint_pool by simp
    note mid = Run_step [OF here this]
    have "run_step (?state p1 es v (\<lambda>_. [])) (?state p' [] v' (\<lambda>_. []))"
      using Run_hear [of "?state p1 es v (\<lambda>_. [])" es "[]" v' p'] ub [OF p1] Joint_pool by simp
    from Run_step [OF mid this] show ?thesis .
  next
    case (Joint_worker i)
    let ?calls = "(\<lambda>_. [])(i := new_calls v v')"
    have "run_step (?state p [] v (\<lambda>_. [])) (?state p [] v' ?calls)"
      using Run_worker [of "?state p [] v (\<lambda>_. [])" i v'] ub [OF p(1)] Joint_worker by simp
    note mid = Run_step [OF here this]
    show ?thesis
    proof (cases "new_calls v v' = []")
      case True
      then show ?thesis using mid Joint_worker(5) by (simp add: fun_upd_idem)
    next
      case False
      have "linked v (np_log p)" using p(3) Joint_worker(1) by (simp add: srv_live_def)
      then have "pool_alive p"
        using worker_linked [OF p(2) Joint_worker(1-3), of "np_log p"] False reports.left_alone(2) [OF pool_goodI [OF p(1) assms(2)]]
          Joint_worker(4) by blast
      moreover obtain t where "wq_threads (hs_queue v) ! i = Got_task t" "hs_fault v' = None"
        using False Joint_worker(1,4) by (cases "wq_threads (hs_queue v) ! i")
          (auto simp: new_calls_def server_worker_def task_run_def task_delete_def deleteReferenceTask_def srv_fault_def srv_live_def
            srv_call_def Let_def split: option.splits if_splits)
      moreover have "wq_phase (hs_queue v') = wq_phase (hs_queue v)"
        using calculation(2) by (simp add: Joint_worker(4) server_worker_def task_run_def worker_def Let_def split: option.split)
      ultimately have "srv_live v'" using Joint_worker(1) by (simp add: srv_live_def)
      from run_calls [OF Joint_worker(5) mid assms(2), of i] this \<open>pool_alive p\<close> p(1) show ?thesis by (simp add: fun_upd_idem)
    qed
  next
    case (Joint_pointer b)
    then show ?thesis
      using Run_step [OF here Run_pointer [of "?state p [] v (\<lambda>_. [])" b]] ub [OF p(1)] by simp
  qed
qed

section \<open>The theorems\<close>


text \<open>
  C2: With everything interleaved. In every state that a run can reach without a call to a dead
  pool, pool and server are in states that their own theorems are about. While nothing has
  gone wrong in the server, a node has a context exactly if it is registered, unless a report
  about it is still to be made; and a worker that is in the middle of its calls finds the pool there,
  unless its task has been canceled meanwhile or the report that will cancel it is still to be made.
\<close>

theorem interleaved_linked:
  assumes "run_reach settings env n mem fresh garbage x" and "connect_law env" and "\<not> np_ub (sr_pool x)"
  shows "np_reach settings env (sr_pool x) \<and> server_reach n mem fresh garbage (sr_server x)
    \<and> (hs_fault (sr_server x) = None \<longrightarrow>
        (\<forall>node. (\<forall>b. Cb_connectionStatus node b \<notin> set (sr_todo x)) \<longrightarrow>
           (um_find node (hs_contexts (sr_server x)) \<noteq> None \<longleftrightarrow> getStreamByNode node (sr_pool x) \<noteq> None))
        \<and> (\<forall>i c cs. sr_calls x i = c # cs \<longrightarrow> pool_alive (sr_pool x)
             \<or> (\<exists>t obj. wq_threads (hs_queue (sr_server x)) ! i = Ran_task t \<and> um_find t (hs_objects (sr_server x)) = Some obj
                  \<and> ht_node obj = call_node c \<and> (ht_canceled obj \<or> Cb_connectionStatus (ht_node obj) False \<in> set (sr_todo x))))
        \<and> (\<forall>t obj. um_find t (hs_objects (sr_server x)) = Some obj \<longrightarrow> \<not> ht_canceled obj \<longrightarrow>
             getStreamByNode (ht_node obj) (sr_pool x) \<noteq> None \<or> Cb_connectionStatus (ht_node obj) False \<in> set (sr_todo x)))"
proof (intro conjI impI allI)
  have ok: "run_ok settings env n mem fresh garbage x" using run_reach_ok [OF assms(1,2)] assms(3) by blast
  show p: "np_reach settings env (sr_pool x)" and "server_reach n mem fresh garbage (sr_server x)" using ok by (simp_all add: run_ok_def)
  assume fault: "hs_fault (sr_server x) = None"
  obtain heard where h: "np_log (sr_pool x) = heard @ sr_todo x" "linked (sr_server x) heard" using ok fault by (auto simp: run_ok_def)
  show "um_find node (hs_contexts (sr_server x)) \<noteq> None \<longleftrightarrow> getStreamByNode node (sr_pool x) \<noteq> None"
    if none: "\<forall>b. Cb_connectionStatus node b \<notin> set (sr_todo x)" for node
  proof -
    have "last_status node (sr_todo x) = None" using none last_status_in [of node "sr_todo x"] by (metis option.exhaust)
    then have "last_status node (np_log (sr_pool x)) = last_status node heard" by (simp add: h(1) last_status_append)
    then show ?thesis using h(2) reports.truth [OF pool_goodI [OF p assms(2)], of node] by (simp add: linked_def)
  qed
  show "pool_alive (sr_pool x) \<or> (\<exists>t obj. wq_threads (hs_queue (sr_server x)) ! i = Ran_task t \<and> um_find t (hs_objects (sr_server x)) = Some obj
      \<and> ht_node obj = call_node c \<and> (ht_canceled obj \<or> Cb_connectionStatus (ht_node obj) False \<in> set (sr_todo x)))"
    if "sr_calls x i = c # cs" for i c cs
    using run_ok_calls [OF ok assms(2) fault that] by blast
  show "getStreamByNode (ht_node obj) (sr_pool x) \<noteq> None \<or> Cb_connectionStatus (ht_node obj) False \<in> set (sr_todo x)"
    if "um_find t (hs_objects (sr_server x)) = Some obj" "\<not> ht_canceled obj" for t obj
    using run_ok_task [OF ok assms(2) fault that] .
qed


text \<open>The pointer to the pool decides whether a task calls at all.\<close>

lemma detached_step:
  assumes ok: "run_ok settings env n mem fresh garbage x" and law: "connect_law env" and step: "run_step x y"
    and idle: "\<forall>i. sr_calls x i = []" and off: "\<not> hs_pool (sr_server x)"
  shows "run_ok settings env n mem fresh garbage y \<and> (\<forall>i. sr_calls y i = [])"
proof
  show "run_ok settings env n mem fresh garbage y" using run_ok_step [OF ok law step] idle by auto
  show "\<forall>i. sr_calls y i = []"
    using step
  proof cases
    case (Run_worker i v)
    have "hs_calls v = hs_calls (sr_server x)"
      using off unfolding Run_worker(7) by (cases "wq_threads (hs_queue (sr_server x)) ! i")
        (simp_all add: server_worker_def task_run_def task_delete_def deleteReferenceTask_def Let_def split: option.split)
    then show ?thesis using idle Run_worker(1) by (simp add: new_calls_def)
  next
    case (Run_call i c cs p)
    then show ?thesis using idle by simp
  qed (use idle in simp_all)
qed


section \<open>Examples\<close>

lemma demo_run_connected:
  "run_reach preferred_network_settings demo_env 1 (\<lambda>_. True) (\<lambda>_ _. 0) (\<lambda>_. http_begin)
     \<lparr>sr_pool = demo_connected, sr_todo = [], sr_server = demo_conn, sr_calls = (\<lambda>_. [])\<rparr>"
  by (rule joint_run [OF demo_joint connect_law_demo])


definition demo_raced :: np_pool where
  "demo_raced = on_wakeup (pool_destroy demo_received)"

text \<open>A worker passes its test; then the pool leaves, and its report is not yet made when the worker goes on.\<close>

lemma demo_race:
  "\<exists>x y. run_reach preferred_network_settings demo_env 1 (\<lambda>_. True) (\<lambda>_ _. 0) (\<lambda>_. http_begin) x \<and> sr_calls x 0 \<noteq> []
    \<and> \<not> pool_alive (sr_pool x) \<and> \<not> np_ub (sr_pool x) \<and> hs_fault (sr_server x) = None
    \<and> sr_todo x = [Cb_connectionStatus demo_peer False] \<and> run_step x y \<and> np_ub (sr_pool y)"
proof -
  obtain v t obj where v: "joint_reach preferred_network_settings demo_env 1 (\<lambda>_. True) (\<lambda>_ _. 0) (\<lambda>_. http_begin) (demo_received, v)"
    "srv_live v" "hs_pool v" "wq_threads (hs_queue v) = [Got_task t]" "um_find t (hs_objects v) = Some obj"
    "\<not> ht_canceled obj" "getInfo (ht_context obj) \<noteq> None" "ht_node obj = demo_peer"
    using demo_joint_task by blast
  let ?reach = "run_reach preferred_network_settings demo_env 1 (\<lambda>_. True) (\<lambda>_ _. 0) (\<lambda>_. http_begin)"
  let ?w = "server_worker 0 v" and ?q = "pool_destroy demo_received"
  let ?close = "if isKeepAlive (ht_context obj) then [] else [Call_close demo_peer]"
  let ?calls = "(\<lambda>_. [])(0 := Call_send demo_peer task_response # ?close)"
  let ?state = "\<lambda>p todo v calls. \<lparr>sr_pool = p, sr_todo = todo, sr_server = v, sr_calls = calls\<rparr>"
  have calls: "new_calls v ?w = Call_send demo_peer task_response # ?close"
    using v(3-8) by (auto simp: new_calls_def server_worker_def task_run_def srv_call_def Let_def)
  have w: "srv_live ?w"
    using v(2-8) by (auto simp: srv_live_def server_worker_def task_run_def srv_call_def worker_def Let_def)
  have fine: "\<not> np_ub demo_received" "\<not> np_ub ?q" "\<not> np_ub demo_raced" by code_simp+
  have alive: "pool_alive demo_received" "pool_alive ?q" "\<not> pool_alive demo_raced" by code_simp+
  have log: "np_log demo_raced = np_log ?q @ [Cb_connectionStatus demo_peer False]" by code_simp
  have 1: "?reach (?state demo_received [] ?w ?calls)"
    using Run_step [OF joint_run [OF v(1) connect_law_demo]
        Run_worker [of "?state demo_received [] v (\<lambda>_. [])" 0 ?w]] fine v(2,4) calls by simp
  have 2: "?reach (?state ?q [] ?w ?calls)"
    using Run_step [OF 1 Run_user [of "?state demo_received [] ?w ?calls" ?q]] fine w User_destroy [OF alive(1)] by simp
  let ?x = "?state demo_raced [Cb_connectionStatus demo_peer False] ?w ?calls"
  have 3: "?reach ?x"
    using Run_step [OF 2 Run_pool [of "?state ?q [] ?w ?calls" demo_raced]] fine w log
      np_step.wakeup [OF alive(2), folded demo_raced_def] by simp
  have dead: "map_option a_closing (np_async demo_raced) = Some True" "np_env demo_raced (np_tick demo_raced) Call_malloc = 0" by code_simp+
  then obtain a where a: "np_async demo_raced = Some a" "a_closing a" by auto
  have "length task_response \<noteq> 0" "m_protocol demo_peer = Protocol_tcp" by (simp_all add: task_response_def demo_peer_def)
  then obtain p1 where p1: "call_pool (Call_send demo_peer task_response) demo_raced = Some p1" "np_ub p1"
    using a dead(2) by (simp add: call_pool_def pool_send_def env_ret_def async_send_def undefined_behaviour_def Let_def)
  have "run_step ?x (?x\<lparr>sr_pool := p1, sr_calls := ?calls(0 := ?close)\<rparr>)"
    using Run_call [of ?x 0 "Call_send demo_peer task_response" ?close p1] fine w p1(1) by simp
  then show ?thesis
    using 3 p1(2) alive(3) fine(3) w by (intro exI [of _ ?x] exI [of _ "?x\<lparr>sr_pool := p1, sr_calls := ?calls(0 := ?close)\<rparr>"]) (simp add: srv_live_def)
qed

theorem interleaved_linked_witness:
  "\<exists>(x :: served_run) t obj. \<not> pool_alive (sr_pool x) \<and> sr_calls x 0 \<noteq> [] \<and> um_find t (hs_objects (sr_server x)) = Some obj
    \<and> (ht_canceled obj \<or> Cb_connectionStatus (ht_node obj) False \<in> set (sr_todo x))"
proof -
  obtain x where x: "run_reach preferred_network_settings demo_env 1 (\<lambda>_. True) (\<lambda>_ _. 0) (\<lambda>_. http_begin) x" "sr_calls x 0 \<noteq> []"
    "\<not> pool_alive (sr_pool x)" "\<not> np_ub (sr_pool x)" "hs_fault (sr_server x) = None"
    using demo_race by blast
  then obtain c cs where "sr_calls x 0 = c # cs" by (auto simp: neq_Nil_conv)
  then have "\<exists>t obj. um_find t (hs_objects (sr_server x)) = Some obj \<and> (ht_canceled obj \<or> Cb_connectionStatus (ht_node obj) False \<in> set (sr_todo x))"
    using interleaved_linked [OF x(1) connect_law_demo x(4)] x(3,5) by metis
  then show ?thesis using x(2,3) by (intro exI [of _ x]) blast
qed



end
