(* ===== verification/Spec2Isabelle.thy ===== *)
theory Spec2Isabelle
  imports Np_Prelude Np_Buffer Http_Context Http_Invariant Http_Stream Http_Message Http_Properties Network_Node Fast_Allocator Memory_Trace Uv_Wrapper Network_Pool
    Pool_Invariant Pool_Operations Pool_Steps Pool_Properties Pool_Memory Pool_Exit Pool_Status Pool_Messages Pool_Types
    Pool_Callbacks Pool_Gone Work_Queue Http_Server Server_Invariant Server_Message Server_Properties Server_Stream
    Stream_Decoder Http_Split Peer_Context Served_Pool Interleaved_Pool
begin

text \<open>
  A model of the C++ library \<open>network_pool\<close> and its proofs. The library runs TCP and UDP
  traffic in one internal libuv thread (\<open>CnetworkPool\<close>); its user gives it requests from any
  thread and gets callbacks (\<open>CnetworkPoolCallback\<close>). An HTTP server on top of it
  (\<open>ChttpServer\<close>) parses the bytes of each connection and answers messages in the worker
  threads of a queue (\<open>CworkQueue\<close>). Memory comes from a counting front end
  (\<open>CmemoryTrace\<close>) of free lists per size (\<open>CfastAllocator\<close>).
\<close>

section \<open>The parts of the program and their theories\<close>

text \<open>
  From the bottom up; each theory opens with what its definitions stand for.

  \<^item> \<open>Np_Prelude\<close>: the machine integers, \<open>std::unordered_map\<close> as an association list
    (\<open>um_find\<close>, \<open>um_insert\<close>, \<open>um_erase\<close>), and the locale \<open>hashed_key\<close>.
  \<^item> \<open>Network_Node\<close> (\<open>network_node.h\<close>): \<open>Csockaddr\<close>, \<open>CnetworkNode\<close>,
    \<open>CnetworkPair\<close>, their orders, equalities and hashes. \<open>node_eq_by_value\<close> and
    \<open>node_less_strict_total\<close> make them keys; \<open>hashed_key\<close> is interpreted on both.
  \<^item> \<open>Fast_Allocator\<close> (\<open>fast_allocator.h/.cpp\<close>): the free lists in memory. The locale
    \<open>block_provider\<close> is what its client relies on; \<open>fa_heap_partition\<close> is its invariant.
  \<^item> \<open>Memory_Trace\<close> (\<open>memory_trace.h\<close>): the two atomic counters at their width and the six
    allocating and freeing functions, on the allocator through \<open>block_provider\<close>.
  \<^item> \<open>Uv_Wrapper\<close> (\<open>uv_wrapper.h/.cpp\<close>): \<open>Casync\<close>, \<open>Ctcp\<close>, \<open>Cudp\<close> as
    objects in maps from identifiers, with closing and close callbacks. libuv's return values
    come from an oracle \<open>np_env\<close>.
  \<^item> \<open>Network_Pool\<close> (\<open>network_pool.h/.cpp\<close>): the state \<open>np_pool\<close>, the user's requests
    (\<open>pool_bind\<close>, \<open>pool_send\<close>, \<open>pool_close\<close>), \<open>on_wakeup\<close> and every libuv callback.
    \<open>Pool_Invariant\<close> states the invariant, \<open>Pool_Operations\<close> proves it of the functions,
    \<open>Pool_Steps\<close> of the callbacks and of the transition system \<open>np_step\<close>/\<open>np_reach\<close>, and
    \<open>Pool_Properties\<close> holds what a user can rely on. Each of the theories after it adds an
    invariant of all reachable states and its theorem: \<open>Pool_Memory\<close> (who owns each block),
    \<open>Pool_Exit\<close> (the way of the loop to its end), \<open>Pool_Status\<close> (what the user has been told),
    \<open>Pool_Messages\<close> (where each message is), \<open>Pool_Types\<close> (what the tables refer to),
    \<open>Pool_Callbacks\<close> (the contract of \<open>network_callback.h\<close>) and \<open>Pool_Gone\<close> (after the exit).
  \<^item> \<open>Np_Buffer\<close> (\<open>buffer.h\<close>): \<open>Cbuffer\<close>; an operation ends normally, by an exception
    or in undefined behaviour (\<open>buf_end\<close>).
  \<^item> \<open>Http_Context\<close> (\<open>http_context.h\<close>): \<open>ChttpContext\<close>, the incremental parser. The
    \<open>switch\<close> of \<open>analysis\<close> is \<open>analysis_pass\<close>, its \<open>goto _again\<close> is \<open>http_analysis\<close>.
    \<open>Http_Invariant\<close>: the indices stay in the block and every line is terminated;
    \<open>Http_Stream\<close>: how the bytes are cut into pieces makes no difference;
    \<open>Http_Message\<close>: what well-formed messages parse to; \<open>Http_Properties\<close>: the theorems.
  \<^item> \<open>Stream_Decoder\<close>: the interface of a decoder of messages from a stream (locales
    \<open>stream_decoder\<close> and \<open>message_format\<close>). \<open>Http_Split\<close> interprets it on the splitting
    of a stream into HTTP messages, \<open>Peer_Context\<close> on the packets of \<open>peer_server.h\<close>.
  \<^item> \<open>Work_Queue\<close> (\<open>work_queue.h\<close>): the queue and its workers as interleaved steps
    (\<open>wq_step\<close>/\<open>wq_reach\<close>), with its contract \<open>todo_step\<close> and the interface
    \<open>task_queue\<close> that the server relies on.
  \<^item> \<open>Http_Server\<close> (\<open>http_server.h/.cpp\<close>): \<open>ChttpServer\<close> and \<open>ChttpTask\<close> with the
    transition system \<open>server_step\<close>/\<open>server_reach\<close>. \<open>Server_Invariant\<close> and
    \<open>Server_Message\<close> prove the invariant, \<open>Server_Properties\<close> the theorems;
    \<open>Server_Stream\<close> follows a connection over all its reads.
  \<^item> \<open>Served_Pool\<close>: the server as the callback of the pool, both models run together
    (\<open>joint_step\<close>/\<open>joint_reach\<close>), with the locale \<open>callback_source\<close> for what the server relies
    on, interpreted on the pool. \<open>Interleaved_Pool\<close> takes the steps apart: the callbacks of a step
    of the pool, the calls of a task and those of the user's threads come one by one, in any order
    (\<open>run_step\<close>/\<open>run_reach\<close>).
\<close>

section \<open>How the parts interact\<close>

text \<open>
  \<^item> User to pool: the three requests append to queues under a lock and wake the internal thread;
    \<open>on_wakeup\<close> empties them. A request is one step, so is a libuv callback.
  \<^item> Pool to user: each callback of the pool is an event of the log \<open>np_log\<close>. The HTTP server
    is one such user; its model takes the callbacks as steps of its own, which can come in any
    order, so that its theorems do not depend on the pool. Its calls back to the pool are kept in
    \<open>hs_calls\<close>. In \<open>Served_Pool\<close> the two are put together: \<open>hears\<close> takes the new events of the
    log to the server, \<open>call_pools\<close> takes the new calls back to the pool.
  \<^item> Server to queue: \<open>message\<close> pushes tasks with \<open>pushTask\<close>; a worker's call of \<open>run\<close> and
    of the deleter are \<open>task_run\<close> and \<open>task_delete\<close>. A whole callback is one step beside the
    workers: until it is pushed, a new task is known to the callback alone, and afterwards the
    callback does not touch it again, so that the workers' steps in between commute with it.
  \<^item> Parser to buffer: the contexts grow their block with \<open>buf_resize\<close>; libuv writes into the
    place that \<open>prepareBuffer\<close> gave (\<open>http_write\<close>).
\<close>

section \<open>What the theorems show\<close>

text \<open>
  \<^item> The pool: no reachable state has used a freed object, a null pointer or a missing server;
    waiting messages always have a live connection attempt; registered connections are open and
    time out; the exit closes and reports everything once, and the loop then comes to its end with
    all memory given back. Every block has an owner; every message to a TCP node is somewhere,
    once, and in the end written or reported as dropped; the reports about connections are true;
    messages are bracketed by their allocate and deallocate; the tables are well-typed. Some
    theorems show behaviour nobody can want: a stale connection unregisters a newer one, whose peer
    can then hold up the destructor for ever, and re-entry from a callback during the exit is
    undefined.
  \<^item> The parser: receiving never leaves the block, whatever comes; results do not depend on the
    cut of the stream; plain and chunked messages are read back from their encoding. Other
    theorems give messages of a peer with undefined or endless outcome. Packets of
    \<open>CpeerContext\<close> come out of a stream as they went in.
  \<^item> The queue: every task pushed is started in order, run at most once and deleted exactly once;
    no wake-up is lost; the destructor returns; the queue refines a list of things to do.
  \<^item> The server: \<open>message\<close> returns and turns the stream of a connection into one task per message
    (\<open>split_stream\<close> is the specification), also over all reads together; the table of tasks, the objects, the queue and the
    blocks always agree; a connection that ends cancels its tasks; the destructor leaves nothing.
    One theorem shows that nine bytes from any peer end the process.
  \<^item> Both together: the server has a context for exactly the nodes that the pool has registered,
    the pool is not called any more once it has left, and the answer to a request goes to the
    registered connection that it came from. With everything interleaved the link holds up to the
    reports that are still to be made, and the only undefined step there can be is a call to a pool that
    has left by a task that passed its test of \<open>m_canceled\<close> before the server heard of it; this can
    happen, and a user who clears the server's pointer first and waits for the workers avoids it.
\<close>

section \<open>Bounds, fuel and assumptions\<close>

text \<open>
  \<^item> There is no fuel. Loops are structural, have a measure (\<open>http_analysis\<close>,
    \<open>chunk_loop\<close>, \<open>line_loop\<close>, \<open>split_packets\<close>), or are \<open>partial_function (option)\<close>
    (\<open>message_loop\<close>, \<open>split_stream\<close>) with a theorem that they return.
  \<^item> \<open>size_t\<close> that counts bytes of a block is a natural number; sizes that come from a peer
    (\<open>m_contentLength\<close>, \<open>m_nowChunkSize\<close>), hashes and counters are words that wrap.
  \<^item> Whether an allocation succeeds, what fresh memory holds, which sleeper \<open>notify_one\<close>
    wakes and what libuv answers are arguments; the theorems hold for all of them. Laws of libuv
    that are relied on are named: \<open>connect_law\<close> (a connection to an address of no family is
    refused) and \<open>heap_offers\<close> (\<open>malloc\<close> gives a block that is not in use).
\<close>

section \<open>Not modelled\<close>

text \<open>
  \<^item> \<open>peer_server.h\<close>, apart from the decoders of \<open>CpeerContext\<close>: the header does not
    compile and nothing includes it, so \<open>CpeerServer\<close> and \<open>prepareBuffer\<close> have no meaning
    to model.
  \<^item> \<open>np_dbg.h\<close>, the printing in debug builds: output only.
  \<^item> Allocations inside the containers of the standard library: they are taken to succeed; those
    of the program's own memory functions may fail.
  \<^item> libuv, the standard library and the C library, beyond what the code uses of them.
  \<^item> Data races: shared fields are read and written under their locks in the model as in the
    code; the flag \<open>m_canceled\<close> and the pointer \<open>m_pool\<close>, which the code reads without one, are read
    atomically here, and a task reads them together.
\<close>

end
